(* ===== verification/Go_Prelude.thy ===== *)
theory Go_Prelude
  imports
    Main
    "HOL-Library.Word"
    "HOL-Library.Sublist"
    "HOL-Library.Multiset"
    "HOL-Library.AList"
    "HOL-Library.Char_ord"
    "HOL-Library.List_Lexorder"
begin

text \<open>
  Shared vocabulary of the development: the Go types of the model, the functions of the packages
  \<open>strings\<close> and \<open>slices\<close> that several components call, the collections of rewrite rules the component
  proofs use, and the generic lemmas about lists that belong to no component.

  A Go \<open>string\<close> or \<open>[]byte\<close> is a list of bytes, which is what Isabelle's \<open>string\<close> is: a value of
  type \<open>char\<close> is one of 256 bytes. A Go \<open>int\<close> that can be negative is an \<open>int\<close>; an index that the code
  only ever computes from lengths and search results is a \<open>nat\<close>.
\<close>

unbundle bit_operations_syntax

named_theorems go_defs \<open>definitions that a component unfolds as a whole\<close>
named_theorems go_bounds \<open>bounds on the results of searches and selections\<close>

type_synonym go_string = string

abbreviation LF :: char where "LF \<equiv> CHR 0x0A"
abbreviation CR :: char where "CR \<equiv> CHR 0x0D"
abbreviation TAB :: char where "TAB \<equiv> CHR 0x09"

text \<open>\<open>len(s)\<close>, \<open>s[:n]\<close> and \<open>s[n:]\<close> at type \<open>int\<close>. The code slices within bounds, where these agree
  with Go; each use site proves or checks its bounds.\<close>

definition slen :: "'a list \<Rightarrow> int" where
  "slen s = int (length s)"

definition upto_int :: "int \<Rightarrow> 'a list \<Rightarrow> 'a list" where
  "upto_int n s = take (nat n) s"

definition from_int :: "int \<Rightarrow> 'a list \<Rightarrow> 'a list" where
  "from_int n s = drop (nat n) s"

lemma slen_simps [simp]:
  "slen [] = 0" "slen (x # xs) = 1 + slen xs" "slen (xs @ ys) = slen xs + slen ys"
  by (simp_all add: slen_def)

lemma slen_nonneg [simp, go_bounds]: "0 \<le> slen s"
  by (simp add: slen_def)

lemma slen_eq_0 [simp]: "slen s = 0 \<longleftrightarrow> s = []"
  by (simp add: slen_def)

lemma slen_le_0 [simp]: "slen s \<le> 0 \<longleftrightarrow> s = []"
  by (simp add: slen_def)

lemma slen_upto: "0 \<le> n \<Longrightarrow> n \<le> slen s \<Longrightarrow> slen (upto_int n s) = n"
  by (simp add: slen_def upto_int_def)

lemma slen_from: "0 \<le> n \<Longrightarrow> n \<le> slen s \<Longrightarrow> slen (from_int n s) = slen s - n"
  by (simp add: slen_def from_int_def)

lemma upto_from_id [simp]: "upto_int n s @ from_int n s = s"
  by (simp add: upto_int_def from_int_def)

lemma upto_0 [simp]: "upto_int 0 s = []" and from_0 [simp]: "from_int 0 s = s"
  by (simp_all add: upto_int_def from_int_def)

lemma upto_slen [simp]: "upto_int (slen s) s = s" and from_slen [simp]: "from_int (slen s) s = []"
  by (simp_all add: upto_int_def from_int_def slen_def)

lemma upto_int_prefix: "prefix (upto_int n s) s"
  by (simp add: upto_int_def take_is_prefix)

lemma from_int_suffix: "suffix (from_int n s) s"
  by (simp add: from_int_def suffix_drop)

section \<open>Package strings\<close>

text \<open>\<open>strings.Index\<close>: the position of the first occurrence, \<open>None\<close> for Go's -1.\<close>

fun str_index :: "go_string \<Rightarrow> go_string \<Rightarrow> nat option" where
  "str_index [] sub = (if sub = [] then Some 0 else None)"
| "str_index (c # s) sub =
     (if prefix sub (c # s) then Some 0 else map_option Suc (str_index s sub))"

text \<open>\<open>strings.IndexByte\<close>.\<close>

fun index_byte :: "go_string \<Rightarrow> char \<Rightarrow> nat option" where
  "index_byte [] b = None"
| "index_byte (c # s) b = (if c = b then Some 0 else map_option Suc (index_byte s b))"

text \<open>\<open>strings.Count\<close> of a single byte, and \<open>strings.TrimRight\<close> and \<open>strings.TrimLeft\<close> with a cut set of
  single-byte characters.\<close>

definition count_byte :: "go_string \<Rightarrow> char \<Rightarrow> nat" where
  "count_byte s b = length (filter (\<lambda>c. c = b) s)"

definition trim_right :: "go_string \<Rightarrow> go_string \<Rightarrow> go_string" where
  "trim_right s cs = rev (dropWhile (\<lambda>c. c \<in> set cs) (rev s))"

definition trim_left :: "go_string \<Rightarrow> go_string \<Rightarrow> go_string" where
  "trim_left s cs = dropWhile (\<lambda>c. c \<in> set cs) s"

text \<open>\<open>strings.TrimPrefix\<close> and \<open>strings.TrimSuffix\<close>.\<close>

definition trim_prefix :: "go_string \<Rightarrow> go_string \<Rightarrow> go_string" where
  "trim_prefix s p = (if prefix p s then drop (length p) s else s)"

definition trim_suffix :: "go_string \<Rightarrow> go_string \<Rightarrow> go_string" where
  "trim_suffix s p = (if suffix p s then take (length s - length p) s else s)"

lemma str_index_Some:
  "str_index s sub = Some n \<Longrightarrow> n + length sub \<le> length s \<and> take (length sub) (drop n s) = sub"
proof (induction s sub arbitrary: n rule: str_index.induct)
  case (2 c s sub)
  show ?case
  proof (cases "prefix sub (c # s)")
    case True
    with "2.prems" prefix_length_le [OF True] show ?thesis by (auto simp: prefix_def)
  next
    case False
    with "2.prems" obtain m where "n = Suc m" "str_index s sub = Some m" by auto
    with "2.IH" [OF False] show ?thesis by simp
  qed
qed (simp split: if_splits)

lemma str_index_None: "str_index s sub = None \<longleftrightarrow> \<not> sublist sub s"
  by (induction s sub rule: str_index.induct) (auto simp: sublist_Cons_right)

lemma str_index_first:
  "str_index s sub = Some n \<Longrightarrow> m < n \<Longrightarrow> take (length sub) (drop m s) \<noteq> sub"
proof (induction s sub arbitrary: n m rule: str_index.induct)
  case (2 c s sub)
  from "2.prems" have np: "\<not> prefix sub (c # s)" by (auto split: if_splits)
  with "2.prems" obtain k where k: "n = Suc k" "str_index s sub = Some k" by auto
  show ?case
  proof (cases m)
    case 0
    with np show ?thesis by (metis drop0 take_is_prefix)
  next
    case (Suc m')
    with k "2.prems" "2.IH" [OF np k(2)] show ?thesis by simp
  qed
qed (simp split: if_splits)

lemma index_byte_None: "index_byte s b = None \<longleftrightarrow> b \<notin> set s"
  by (induction s) auto

lemma index_byte_Some:
  "index_byte s b = Some n \<Longrightarrow> n < length s \<and> s ! n = b \<and> b \<notin> set (take n s)"
  by (induction s arbitrary: n) (auto split: if_splits)

lemma count_byte_simps [simp]:
  "count_byte [] b = 0"
  "count_byte (c # s) b = (if c = b then Suc (count_byte s b) else count_byte s b)"
  "count_byte (s @ t) b = count_byte s b + count_byte t b"
  by (simp_all add: count_byte_def)

section \<open>Numbers and bytes\<close>

text \<open>\<open>strconv.Itoa\<close>, and the decimal digits it writes.\<close>

fun decimal :: "int \<Rightarrow> go_string" where
  "decimal n = (if n < 10 then [''0123456789'' ! nat n]
                else decimal (n div 10) @ [''0123456789'' ! nat (n mod 10)])"

declare decimal.simps [simp del]

definition itoa :: "int \<Rightarrow> go_string" where
  "itoa n = (if n < 0 then CHR ''-'' # decimal (- n) else decimal n)"

text \<open>A UTF-8 continuation byte: \<open>b & 0xc0 == 0x80\<close>.\<close>

definition is_cont :: "char \<Rightarrow> bool" where
  "is_cont c \<longleftrightarrow> (of_char c :: 8 word) AND 0xC0 = 0x80"

lemma is_cont_ascii [simp]: "\<not> is_cont LF" "\<not> is_cont CR"
  by (simp_all add: is_cont_def)

section \<open>Maps\<close>

text \<open>
  A Go map is an association list with distinct keys: \<open>m[k]\<close> with the presence flag is \<open>map_of m k\<close>,
  \<open>m[k]\<close> of an integer map reads 0 for a missing key, \<open>m[k] = v\<close> is \<open>AList.update\<close>, \<open>delete\<close> is
  \<open>AList.delete\<close>. The order of the list stands for Go's unspecified iteration order; no result below
  depends on it unless the code sorts first.
\<close>

type_synonym ('k, 'v) gomap = "('k \<times> 'v) list"

definition zget :: "('k, 'v::zero) gomap \<Rightarrow> 'k \<Rightarrow> 'v" where
  "zget m k = (case map_of m k of None \<Rightarrow> 0 | Some v \<Rightarrow> v)"

definition msum :: "('k, int) gomap \<Rightarrow> int" where
  "msum m = sum_list (map snd m)"

definition distinct_keys :: "('k, 'v) gomap \<Rightarrow> bool" where
  "distinct_keys m \<longleftrightarrow> distinct (map fst m)"

lemma zget_simps [simp]:
  "zget [] k = 0"
  "zget ((j, v) # m) k = (if j = k then v else zget m k)"
  by (simp_all add: zget_def)

lemma zget_update [simp]: "zget (AList.update j v m) k = (if j = k then v else zget m k)"
  by (simp add: zget_def update_conv)

lemma zget_delete [simp]: "zget (AList.delete j m) k = (if j = k then 0 else zget m k)"
  by (simp add: zget_def delete_conv)

lemma map_of_AList_update [simp]: "map_of (AList.update j v m) k = (if j = k then Some v else map_of m k)"
  by (simp add: update_conv)

lemma map_of_AList_delete [simp]: "map_of (AList.delete j m) k = (if j = k then None else map_of m k)"
  by (simp add: delete_conv)

lemma distinct_keys_simps [simp]:
  "distinct_keys []"
  "distinct_keys (p # m) \<longleftrightarrow> fst p \<notin> fst ` set m \<and> distinct_keys m"
  by (auto simp: distinct_keys_def)

lemma distinct_keys_update [simp, intro]: "distinct_keys m \<Longrightarrow> distinct_keys (AList.update k v m)"
  by (simp add: distinct_keys_def distinct_update)

lemma distinct_keys_delete [simp, intro]: "distinct_keys m \<Longrightarrow> distinct_keys (AList.delete k m)"
  by (simp add: distinct_keys_def distinct_delete)

lemma msum_simps [simp]: "msum [] = 0" "msum (p # m) = snd p + msum m"
  by (simp_all add: msum_def)

lemma AList_update_fresh: "map_of m k = None \<Longrightarrow> AList.update k v m = m @ [(k, v)]"
  by (induction m) (auto split: if_splits)

lemma msum_append [simp]: "msum (m @ n) = msum m + msum n"
  by (simp add: msum_def)

lemma msum_update_fresh: "map_of m k = None \<Longrightarrow> msum (AList.update k v m) = msum m + v"
  by (induction m) (auto split: if_splits)

lemma map_of_None_delete: "map_of m k = None \<Longrightarrow> AList.delete k m = m"
  by (induction m) (auto simp: AList.delete_eq split: if_splits)

lemma msum_delete: "distinct_keys m \<Longrightarrow> msum (AList.delete k m) = msum m - zget m k"
proof (induction m)
  case (Cons p m)
  show ?case
  proof (cases "fst p = k")
    case True
    with Cons.prems have "map_of m k = None" by (auto simp: map_of_eq_None_iff)
    with True Cons show ?thesis
      by (cases p) (auto simp: zget_def AList.delete_eq map_of_None_delete [unfolded AList.delete_eq])
  next
    case False
    with Cons show ?thesis by (cases p) (auto simp: AList.delete_eq)
  qed
qed simp

lemma msum_nonneg: "(\<And>k v. (k, v) \<in> set m \<Longrightarrow> 0 \<le> v) \<Longrightarrow> 0 \<le> msum m"
  by (induction m) force+

section \<open>Lists\<close>

text \<open>A prefix and a suffix that together are no longer than the list leave a middle.\<close>

lemma prefix_suffix_middle:
  assumes "prefix a xs" "suffix b xs" "length a + length b \<le> length xs"
  shows "\<exists>m. xs = a @ m @ b"
proof -
  obtain r where r: "xs = a @ r" using assms(1) by (auto simp: prefix_def)
  obtain q where q: "xs = q @ b" using assms(2) by (auto simp: suffix_def)
  have "length a \<le> length q" using q assms(3) by simp
  then have "q = a @ drop (length a) q"
    using r q by (metis append_eq_conv_conj append_take_drop_id take_append diff_is_0_eq take0 append_Nil2 take_all_iff)
  with q show ?thesis by (metis append.assoc)
qed

lemma sum_list_map_take_le: "sum_list (map f (take n xs)) \<le> sum_list (map (f :: 'a \<Rightarrow> nat) xs)"
  by (metis append_take_drop_id le_add1 map_append sum_list_append)

end
