(* ===== verification/Budget.thy ===== *)
theory Budget
  imports Go_Prelude
begin

text \<open>
  The per-session output budget of \<open>outputlimit/budget.go\<close>: its state as a record, the operations
  \<open>NewBudget\<close>, \<open>Reserve\<close>, \<open>Consume\<close>, \<open>Reset\<close> and \<open>Report\<close>, and runs of them in any order. Every
  method holds the mutex for its whole body, so an execution with several goroutines is a sequence of
  whole operations.

  The integers of the state stay between 0 and \<open>perSession\<close> (\<open>budget_ok\<close>), and \<open>emitted\<close> is clamped
  before it is added, so no addition leaves the range of Go's 64-bit \<open>int\<close>; they are modelled as \<open>int\<close>.
  The identifier counter is a \<open>uint64\<close> that wraps, so it is a 64-bit word.
\<close>

definition MinimumBudgetGrant :: int where "MinimumBudgetGrant = 2000"
definition DefaultPerSession :: int where "DefaultPerSession = 400000"

record budget =
  perSession :: int
  used :: "(go_string, int) gomap"
  reserved :: "(go_string, int) gomap"
  pending :: "(go_string, (64 word, int) gomap) gomap"
  nextID :: "64 word"

record reservation =
  ID :: "64 word"
  Grant :: int

definition no_reservation :: reservation where
  "no_reservation = \<lparr>ID = 0, Grant = 0\<rparr>"

definition NewBudget :: "int \<Rightarrow> budget" where
  "NewBudget n =
     \<lparr>perSession = (if n \<le> 0 then DefaultPerSession else n),
      used = [], reserved = [], pending = [], nextID = 0\<rparr>"

definition pending_of :: "budget \<Rightarrow> go_string \<Rightarrow> (64 word, int) gomap" where
  "pending_of b sid = (case map_of (pending b) sid of None \<Rightarrow> [] | Some m \<Rightarrow> m)"

definition remaining :: "budget \<Rightarrow> go_string \<Rightarrow> int" where
  "remaining b sid = perSession b - zget (used b) sid - zget (reserved b) sid"

definition allowed_grant :: "int \<Rightarrow> int \<Rightarrow> int" where
  "allowed_grant rem want =
     (let allowed = rem div 2;
          allowed = (if allowed < MinimumBudgetGrant then MinimumBudgetGrant else allowed);
          allowed = (if allowed > rem then rem else allowed)
      in if allowed > want then want else allowed)"

definition next_id :: "64 word \<Rightarrow> 64 word" where
  "next_id n = (let n = n + 1 in if n = 0 then n + 1 else n)"

definition Reserve :: "go_string \<Rightarrow> int \<Rightarrow> budget \<Rightarrow> budget \<times> reservation" where
  "Reserve sid want b =
     (if want \<le> 0 then (b, no_reservation)
      else let rem = remaining b sid in
        if rem \<le> 0 then (b, no_reservation)
        else let allowed = allowed_grant rem want;
                 i = next_id (nextID b)
          in (b\<lparr>nextID := i,
                reserved := AList.update sid (zget (reserved b) sid + allowed) (reserved b),
                pending := AList.update sid (AList.update i allowed (pending_of b sid)) (pending b)\<rparr>,
              \<lparr>ID = i, Grant = allowed\<rparr>))"

text \<open>The first half of \<open>Consume\<close>: the reservation is taken out of \<open>pending\<close> and its grant released.\<close>

definition settle :: "go_string \<Rightarrow> 64 word \<Rightarrow> budget \<Rightarrow> budget \<times> int" where
  "settle sid rid b =
     (case map_of (pending b) sid of
        None \<Rightarrow> (b, 0)
      | Some reservations \<Rightarrow>
          let grant = zget reservations rid;
              rest = (if grant > 0 then AList.delete rid reservations else reservations);
              p = (if rest = [] then AList.delete sid (pending b)
                   else AList.update sid rest (pending b))
          in (b\<lparr>pending := p,
                reserved := AList.update sid (zget (reserved b) sid - grant) (reserved b)\<rparr>, grant))"

definition Consume :: "go_string \<Rightarrow> 64 word \<Rightarrow> int \<Rightarrow> budget \<Rightarrow> budget" where
  "Consume sid rid emitted b =
     (let (b', grant) = settle sid rid b;
          e = (if emitted < 0 then 0 else emitted);
          e = (if grant > 0 \<and> e > grant then grant else e);
          rem = remaining b' sid;
          e = (if e > rem then rem else e)
      in if e > 0 then b'\<lparr>used := AList.update sid (zget (used b') sid + e) (used b')\<rparr> else b')"

definition Reset :: "go_string \<Rightarrow> budget \<Rightarrow> budget" where
  "Reset sid b = b\<lparr>used := AList.delete sid (used b),
                   reserved := AList.delete sid (reserved b),
                   pending := AList.delete sid (pending b)\<rparr>"

definition Report :: "go_string \<Rightarrow> budget \<Rightarrow> int \<times> int" where
  "Report sid b = (zget (used b) sid, perSession b)"

datatype budget_op = OpReserve go_string int | OpConsume go_string "64 word" int | OpReset go_string

fun budget_step :: "budget \<Rightarrow> budget_op \<Rightarrow> budget" where
  "budget_step b (OpReserve sid want) = fst (Reserve sid want b)"
| "budget_step b (OpConsume sid rid n) = Consume sid rid n b"
| "budget_step b (OpReset sid) = Reset sid b"

definition budget_run :: "budget \<Rightarrow> budget_op list \<Rightarrow> budget" where
  "budget_run = foldl budget_step"

section \<open>The invariant\<close>

text \<open>
  Per session: the used and the reserved bytes are non-negative and together within the limit, the
  reserved bytes are the sum of the outstanding grants, and every grant is positive. \<open>ids_below b n\<close>
  bounds the identifiers handed out, so that a fresh one does not collide.
\<close>

definition session_ok :: "budget \<Rightarrow> go_string \<Rightarrow> bool" where
  "session_ok b sid \<longleftrightarrow>
     0 \<le> zget (used b) sid \<and> 0 \<le> remaining b sid \<and>
     zget (reserved b) sid = msum (pending_of b sid) \<and>
     distinct_keys (pending_of b sid) \<and> (\<forall>(i, g) \<in> set (pending_of b sid). 0 < g)"

definition budget_ok :: "budget \<Rightarrow> bool" where
  "budget_ok b \<longleftrightarrow> 0 < perSession b \<and> (\<forall>sid. session_ok b sid)"

definition ids_below :: "budget \<Rightarrow> nat \<Rightarrow> bool" where
  "ids_below b n \<longleftrightarrow> unat (nextID b) \<le> n \<and>
     (\<forall>sid. \<forall>(i, g) \<in> set (pending_of b sid). unat i \<le> unat (nextID b))"

lemma session_okD [dest?]:
  assumes "session_ok b sid"
  shows "0 \<le> zget (used b) sid" "0 \<le> remaining b sid"
    "zget (reserved b) sid = msum (pending_of b sid)" "distinct_keys (pending_of b sid)"
    "(i, g) \<in> set (pending_of b sid) \<Longrightarrow> 0 < g"
  using assms by (auto simp: session_ok_def)

lemma pending_nonneg: "session_ok b sid \<Longrightarrow> 0 \<le> msum (pending_of b sid)"
  by (rule msum_nonneg) (auto dest!: session_okD(5) intro: less_imp_le)

lemma NewBudget_ok: "budget_ok (NewBudget n)" and NewBudget_ids: "ids_below (NewBudget n) 0"
  by (auto simp: budget_ok_def session_ok_def NewBudget_def DefaultPerSession_def remaining_def
      pending_of_def ids_below_def)

lemma allowed_grant_bounds:
  assumes "0 < rem" "0 < want"
  shows "0 < allowed_grant rem want" "allowed_grant rem want \<le> rem" "allowed_grant rem want \<le> want"
  using assms by (auto simp: allowed_grant_def MinimumBudgetGrant_def Let_def)

lemma next_id_nonzero: "next_id n \<noteq> 0"
  by (simp add: next_id_def Let_def)

lemma unat_next_id: "Suc (unat n) < 2 ^ 64 \<Longrightarrow> unat (next_id n) = Suc (unat n)"
proof -
  assume n: "Suc (unat n) < 2 ^ 64"
  then have "unat (n + 1) = Suc (unat n)" by (simp add: unat_word_ariths)
  moreover from this have "n + 1 \<noteq> 0" by (metis nat.simps(3) unat_0)
  ultimately show ?thesis by (simp add: next_id_def)
qed

lemma pending_of_update:
  "pending_of (b\<lparr>nextID := n, reserved := r, pending := AList.update s m (pending b)\<rparr>) sid =
     (if s = sid then m else pending_of b sid)"
  by (simp add: pending_of_def)

text \<open>What \<open>Reserve\<close> does when it grants: one new outstanding reservation, under a fresh identifier.\<close>

lemma Reserve_ok:
  assumes ok: "budget_ok b" and ids: "ids_below b n" and n: "Suc n < 2 ^ 64"
  shows "budget_ok (fst (Reserve sid want b)) \<and> ids_below (fst (Reserve sid want b)) (Suc n)"
proof (cases "want \<le> 0 \<or> remaining b sid \<le> 0")
  case True
  with ok ids show ?thesis by (auto simp: Reserve_def Let_def ids_below_def)
next
  case False
  define g where "g = allowed_grant (remaining b sid) want"
  define i where "i = next_id (nextID b)"
  let ?b = "fst (Reserve sid want b)"
  have b: "?b = b\<lparr>nextID := i, reserved := AList.update sid (zget (reserved b) sid + g) (reserved b),
      pending := AList.update sid (AList.update i g (pending_of b sid)) (pending b)\<rparr>"
    using False by (simp add: Reserve_def Let_def g_def i_def)
  have g: "0 < g" "g \<le> remaining b sid"
    using False allowed_grant_bounds [of "remaining b sid" want] by (auto simp: g_def)
  have i: "unat i = Suc (unat (nextID b))"
    using ids n unfolding i_def by (intro unat_next_id) (simp add: ids_below_def)
  have fresh: "map_of (pending_of b s) i = None" for s
    using ids i by (fastforce simp: ids_below_def map_of_eq_None_iff)
  have p: "pending_of ?b s = (if s = sid then AList.update i g (pending_of b sid) else pending_of b s)" for s
    by (simp add: b pending_of_def)
  have new: "AList.update i g (pending_of b sid) = pending_of b sid @ [(i, g)]"
    using fresh by (rule AList_update_fresh)
  have dist: "distinct_keys (AList.update i g (pending_of b sid))"
    using ok by (auto simp: budget_ok_def session_ok_def)
  have frame: "used ?b = used b" "perSession ?b = perSession b" "nextID ?b = i"
    "zget (reserved ?b) s = (if s = sid then zget (reserved b) sid + g else zget (reserved b) s)" for s
    by (simp_all add: b)
  have "session_ok ?b s" for s
  proof -
    have "session_ok b s" using ok by (simp add: budget_ok_def)
    then show ?thesis
      using g dist by (cases "s = sid") (auto simp: session_ok_def remaining_def frame p new)
  qed
  moreover have "ids_below ?b (Suc n)"
    using ids i by (fastforce simp: ids_below_def p new frame)
  ultimately show ?thesis using ok by (simp add: budget_ok_def frame)
qed

text \<open>What \<open>settle\<close> does: the reservation, if it is outstanding, leaves the session.\<close>

lemma settle_view:
  assumes ok: "budget_ok b" and st: "settle sid rid b = (b', g)"
  shows "g = zget (pending_of b sid) rid" "0 \<le> g"
    "perSession b' = perSession b" "used b' = used b" "nextID b' = nextID b"
    "pending_of b' s = (if s = sid then AList.delete rid (pending_of b sid) else pending_of b s)"
    "zget (reserved b') s = zget (reserved b) s - (if s = sid then g else 0)"
proof -
  have sok: "session_ok b sid" using ok by (simp add: budget_ok_def)
  show g: "g = zget (pending_of b sid) rid"
    using st by (auto simp: settle_def pending_of_def Let_def split: option.splits)
  then show g0: "0 \<le> g"
    using session_okD(5) [OF sok, of rid]
    by (auto simp: zget_def split: option.splits dest: map_of_SomeD intro: less_imp_le)
  have del: "AList.delete rid (pending_of b sid) = pending_of b sid" if "\<not> 0 < g"
  proof (rule map_of_None_delete, rule ccontr)
    assume "map_of (pending_of b sid) rid \<noteq> None"
    then obtain v where v: "map_of (pending_of b sid) rid = Some v" by auto
    then have "0 < v" by (auto dest!: map_of_SomeD session_okD(5) [OF sok])
    with v that g show False by (simp add: zget_def)
  qed
  show "perSession b' = perSession b" "used b' = used b" "nextID b' = nextID b"
    "zget (reserved b') s = zget (reserved b) s - (if s = sid then g else 0)"
    using st by (auto simp: settle_def Let_def split: option.splits)
  show "pending_of b' s = (if s = sid then AList.delete rid (pending_of b sid) else pending_of b s)"
    using st g del
    by (auto simp: settle_def Let_def pending_of_def split: option.splits if_splits)
qed

text \<open>The bytes a settlement charges to the session.\<close>

definition charge :: "budget \<Rightarrow> go_string \<Rightarrow> 64 word \<Rightarrow> int \<Rightarrow> int" where
  "charge b sid rid emitted =
     (let g = zget (pending_of b sid) rid in
      if 0 < g then min (max 0 emitted) g else max 0 (min emitted (remaining b sid)))"

lemma Consume_view:
  fixes emitted :: int and sid :: go_string and rid :: "64 word"
  assumes ok: "budget_ok b"
  defines "c \<equiv> Consume sid rid emitted b"
  shows "perSession c = perSession b" "nextID c = nextID b"
    "zget (used c) s = zget (used b) s + (if s = sid then charge b sid rid emitted else 0)"
    "zget (reserved c) s =
       zget (reserved b) s - (if s = sid then zget (pending_of b sid) rid else 0)"
    "pending_of c s = (if s = sid then AList.delete rid (pending_of b sid) else pending_of b s)"
proof -
  obtain b' g where st: "settle sid rid b = (b', g)" by fastforce
  note v = settle_view [OF ok st]
  have "0 \<le> remaining b sid" using ok by (simp add: budget_ok_def session_ok_def)
  then have rem: "remaining b' sid = remaining b sid + g" "0 \<le> remaining b' sid"
    using v by (simp_all add: remaining_def)
  have c: "c = (if 0 < charge b sid rid emitted
      then b'\<lparr>used := AList.update sid (zget (used b') sid + charge b sid rid emitted) (used b')\<rparr> else b')"
    using v(1,2) rem st \<open>0 \<le> remaining b sid\<close>
    by (auto simp: c_def Consume_def charge_def Let_def min_def max_def)
  have "0 \<le> charge b sid rid emitted" by (simp add: charge_def Let_def)
  then show "zget (used c) s = zget (used b) s + (if s = sid then charge b sid rid emitted else 0)"
    using v by (auto simp: c)
  show "perSession c = perSession b" "nextID c = nextID b"
    "zget (reserved c) s =
       zget (reserved b) s - (if s = sid then zget (pending_of b sid) rid else 0)"
    "pending_of c s = (if s = sid then AList.delete rid (pending_of b sid) else pending_of b s)"
    using v by (auto simp: c pending_of_def)
qed

lemma charge_bounds:
  assumes "budget_ok b"
  shows "0 \<le> charge b sid rid n" "charge b sid rid n \<le> remaining b sid + zget (pending_of b sid) rid"
    "0 \<le> zget (pending_of b sid) rid" "0 \<le> n \<Longrightarrow> charge b sid rid n \<le> n"
proof -
  have "session_ok b sid" using assms by (simp add: budget_ok_def)
  moreover from this show "0 \<le> zget (pending_of b sid) rid"
    by (fastforce simp: zget_def session_ok_def split: option.splits dest: map_of_SomeD)
  ultimately show "charge b sid rid n \<le> remaining b sid + zget (pending_of b sid) rid"
    by (auto simp: charge_def Let_def session_ok_def)
  show "0 \<le> charge b sid rid n" "0 \<le> n \<Longrightarrow> charge b sid rid n \<le> n"
    by (auto simp: charge_def Let_def)
qed

lemma set_AList_delete: "set (AList.delete k m) = {p \<in> set m. fst p \<noteq> k}"
  by (auto simp: AList.delete_eq)

lemma Consume_ok: "budget_ok b \<Longrightarrow> budget_ok (Consume sid rid n b)"
proof -
  assume ok: "budget_ok b"
  note v = Consume_view [OF ok, where sid = sid and rid = rid and emitted = n]
  have "session_ok (Consume sid rid n b) s" for s
  proof -
    have "session_ok b s" using ok by (simp add: budget_ok_def)
    then show ?thesis
      using charge_bounds(1,2) [OF ok, of sid rid n] charge_bounds(3) [OF ok, of sid rid]
      by (cases "s = sid") (auto simp: session_ok_def remaining_def v msum_delete set_AList_delete)
  qed
  then show ?thesis using ok by (simp add: budget_ok_def v)
qed

lemma Consume_ids: "budget_ok b \<Longrightarrow> ids_below b n \<Longrightarrow> ids_below (Consume sid rid e b) n"
  by (fastforce simp: ids_below_def Consume_view set_AList_delete)

lemma Reset_view:
  "perSession (Reset sid b) = perSession b" "nextID (Reset sid b) = nextID b"
  "zget (used (Reset sid b)) s = (if s = sid then 0 else zget (used b) s)"
  "zget (reserved (Reset sid b)) s = (if s = sid then 0 else zget (reserved b) s)"
  "pending_of (Reset sid b) s = (if s = sid then [] else pending_of b s)"
  by (auto simp: Reset_def pending_of_def)

lemma Reset_ok: "budget_ok b \<Longrightarrow> budget_ok (Reset sid b)"
proof -
  assume ok: "budget_ok b"
  have "remaining (Reset sid b) s = (if s = sid then perSession b else remaining b s)" for s
    by (simp add: remaining_def Reset_view)
  then show ?thesis using ok by (auto simp: budget_ok_def session_ok_def Reset_view)
qed

lemma Reset_ids: "ids_below b n \<Longrightarrow> ids_below (Reset sid b) n"
  by (auto simp: ids_below_def Reset_view split: if_splits)

lemma budget_step_ok:
  assumes "budget_ok b" "ids_below b n" "Suc n < 2 ^ 64"
  shows "budget_ok (budget_step b op) \<and> ids_below (budget_step b op) (Suc n)"
proof (cases op)
  case (OpReserve sid want)
  then show ?thesis using Reserve_ok [OF assms] by simp
next
  case (OpConsume sid rid e)
  have "ids_below b (Suc n)" using assms by (auto simp: ids_below_def)
  then show ?thesis using OpConsume assms by (simp add: Consume_ok Consume_ids)
next
  case (OpReset sid)
  have "ids_below b (Suc n)" using assms by (auto simp: ids_below_def)
  then show ?thesis using OpReset assms by (simp add: Reset_ok Reset_ids)
qed

lemma budget_run_ok:
  "budget_ok b \<Longrightarrow> ids_below b n \<Longrightarrow> n + length ops < 2 ^ 64 \<Longrightarrow>
   budget_ok (budget_run b ops) \<and> ids_below (budget_run b ops) (n + length ops)"
proof (induction ops arbitrary: b n)
  case (Cons op ops)
  then have "Suc n < 2 ^ 64" by simp
  with Cons.prems budget_step_ok [of b n op]
  have "budget_ok (budget_step b op)" "ids_below (budget_step b op) (Suc n)" by auto
  with Cons.prems Cons.IH [of "budget_step b op" "Suc n"] show ?case
    by (simp add: budget_run_def)
qed (simp add: budget_run_def)

section \<open>The interface the tool handlers use\<close>

text \<open>
  Every tool handler of \<open>codingtools\<close> brackets its work the same way: it reserves, works within the
  grant, and settles on return with the bytes it emitted (\<open>defer ... Consume(sessionID, reservation.ID,
  emitted)\<close>). \<open>metered_call\<close> is that bracket over any pair of operations; \<open>body\<close> is the handler, from its
  grant to its result and the bytes emitted.
\<close>

definition metered_call ::
  "(go_string \<Rightarrow> int \<Rightarrow> 'b \<Rightarrow> 'b \<times> reservation) \<Rightarrow> (go_string \<Rightarrow> 64 word \<Rightarrow> int \<Rightarrow> 'b \<Rightarrow> 'b) \<Rightarrow>
   go_string \<Rightarrow> int \<Rightarrow> (int \<Rightarrow> 'o \<times> int) \<Rightarrow> 'b \<Rightarrow> 'b \<times> 'o" where
  "metered_call res con sid want body b =
     (let (b1, r) = res sid want b;
          (out, emitted) = body (Grant r)
      in (con sid (ID r) emitted b1, out))"

fun metered_calls ::
  "(go_string \<Rightarrow> int \<Rightarrow> 'b \<Rightarrow> 'b \<times> reservation) \<Rightarrow> (go_string \<Rightarrow> 64 word \<Rightarrow> int \<Rightarrow> 'b \<Rightarrow> 'b) \<Rightarrow>
   (go_string \<times> int \<times> (int \<Rightarrow> 'o \<times> int)) list \<Rightarrow> 'b \<Rightarrow> 'b \<times> 'o list" where
  "metered_calls res con [] b = (b, [])"
| "metered_calls res con ((sid, want, body) # cs) b =
     (let (b1, out) = metered_call res con sid want body b;
          (b2, outs) = metered_calls res con cs b1
      in (b2, out # outs))"

definition within_grant :: "(int \<Rightarrow> 'o \<times> int) \<Rightarrow> bool" where
  "within_grant body \<longleftrightarrow> (\<forall>g. 0 \<le> g \<longrightarrow> 0 \<le> snd (body g) \<and> snd (body g) \<le> g)"

locale session_budget =
  fixes ok :: "nat \<Rightarrow> 'b \<Rightarrow> bool"
    and res :: "go_string \<Rightarrow> int \<Rightarrow> 'b \<Rightarrow> 'b \<times> reservation"
    and con :: "go_string \<Rightarrow> 64 word \<Rightarrow> int \<Rightarrow> 'b \<Rightarrow> 'b"
    and spent :: "'b \<Rightarrow> go_string \<Rightarrow> int"
    and limit :: "'b \<Rightarrow> int"
  assumes spent_bound: "ok n b \<Longrightarrow> 0 \<le> spent b s \<and> spent b s \<le> limit b"
    and grant_nonneg: "ok n b \<Longrightarrow> 0 \<le> Grant (snd (res sid w b))"
    and bracket_ok: "ok n b \<Longrightarrow> Suc n < 2 ^ 64 \<Longrightarrow> ok (Suc n) (con sid i e (fst (res sid w b)))"
    and bracket_limit: "ok n b \<Longrightarrow> limit (con sid i e (fst (res sid w b))) = limit b"
    and bracket_spent: "ok n b \<Longrightarrow> Suc n < 2 ^ 64 \<Longrightarrow> res sid w b = (b1, r) \<Longrightarrow>
      0 \<le> e \<Longrightarrow> e \<le> Grant r \<Longrightarrow>
      spent (con sid (ID r) e b1) s = spent b s + (if s = sid then e else 0)"
begin

lemma call_ok: "ok n b \<Longrightarrow> Suc n < 2 ^ 64 \<Longrightarrow> ok (Suc n) (fst (metered_call res con sid w body b))"
  using bracket_ok [of n b sid _ _ w] by (auto simp: metered_call_def split: prod.split)

lemma call_limit: "ok n b \<Longrightarrow> limit (fst (metered_call res con sid w body b)) = limit b"
  using bracket_limit [of n b sid _ _ w] by (auto simp: metered_call_def split: prod.split)

lemma call_spent:
  assumes "ok n b" "Suc n < 2 ^ 64" "within_grant body"
  shows "spent (fst (metered_call res con sid w body b)) s =
    spent b s + (if s = sid then snd (body (Grant (snd (res sid w b)))) else 0)"
proof -
  obtain b1 r where r: "res sid w b = (b1, r)" by fastforce
  with assms grant_nonneg [of n b sid w]
  have e: "0 \<le> snd (body (Grant r))" "snd (body (Grant r)) \<le> Grant r"
    by (auto simp: within_grant_def)
  show ?thesis
    using bracket_spent [OF assms(1,2) r e] r
    by (simp add: metered_call_def case_prod_unfold Let_def)
qed

lemma calls_bounded:
  "ok n b \<Longrightarrow> n + length cs < 2 ^ 64 \<Longrightarrow> \<forall>(sid, w, body) \<in> set cs. within_grant body \<Longrightarrow>
   let b' = fst (metered_calls res con cs b) in
     limit b' = limit b \<and> spent b s \<le> spent b' s \<and> spent b' s \<le> limit b"
proof (induction cs arbitrary: n b)
  case Nil
  then show ?case using spent_bound by simp
next
  case (Cons c cs)
  obtain sid w body where c: "c = (sid, w, body)" by (cases c)
  let ?b1 = "fst (metered_call res con sid w body b)"
  have n: "Suc n < 2 ^ 64" using Cons.prems(2) by simp
  have wg: "within_grant body" using Cons.prems(3) c by auto
  have b1: "ok (Suc n) ?b1" using Cons.prems(1) n by (rule call_ok)
  have "spent b s \<le> spent ?b1 s"
    using call_spent [OF Cons.prems(1) n wg, of sid w s] wg grant_nonneg [OF Cons.prems(1), of sid w]
    by (auto simp: within_grant_def)
  moreover have "limit ?b1 = limit b" using Cons.prems(1) by (rule call_limit)
  moreover have "Suc n + length cs < 2 ^ 64" using Cons.prems(2) by simp
  ultimately show ?case
    using Cons.IH [OF b1] Cons.prems(3) by (simp add: c Let_def split: prod.split) (force split: prod.splits)
qed

end

definition spent_bytes :: "budget \<Rightarrow> go_string \<Rightarrow> int" where
  "spent_bytes b sid = fst (Report sid b)"

definition usable :: "nat \<Rightarrow> budget \<Rightarrow> bool" where
  "usable n b \<longleftrightarrow> budget_ok b \<and> ids_below b n \<and> (\<forall>sid. zget (pending_of b sid) 0 = 0)"

lemma Reserve_grants:
  assumes "Reserve sid w b = (b1, r)"
  obtains (none) "b1 = b" "r = no_reservation"
  | (some) "0 < w" "0 < remaining b sid" "Grant r = allowed_grant (remaining b sid) w"
      "ID r = next_id (nextID b)" "used b1 = used b" "perSession b1 = perSession b"
      "\<And>s. pending_of b1 s =
         (if s = sid then AList.update (ID r) (Grant r) (pending_of b sid) else pending_of b s)"
  using assms
  by (auto simp: Reserve_def Let_def pending_of_def split: if_splits)

lemma usable_step: "usable n b \<Longrightarrow> Suc n < 2 ^ 64 \<Longrightarrow> usable (Suc n) (Consume sid i e (fst (Reserve sid w b)))"
proof -
  assume u: "usable n b" and n: "Suc n < 2 ^ 64"
  obtain b1 r where br: "Reserve sid w b = (b1, r)" by fastforce
  from u n Reserve_ok [of b n sid w] br have b1: "budget_ok b1" "ids_below b1 (Suc n)"
    by (auto simp: usable_def)
  have "zget (pending_of b1 s) 0 = 0" for s
    using br by (rule Reserve_grants) (use u next_id_nonzero in \<open>auto simp: usable_def\<close>)
  then show ?thesis
    using b1 Consume_ok Consume_ids by (auto simp: usable_def br Consume_view)
qed

lemma usable_spent:
  assumes u: "usable n b" and n: "Suc n < 2 ^ 64" and br: "Reserve sid w b = (b1, r)"
    and e: "0 \<le> e" "e \<le> Grant r"
  shows "spent_bytes (Consume sid (ID r) e b1) s = spent_bytes b s + (if s = sid then e else 0)"
proof -
  from u n Reserve_ok [of b n sid w] br have b1: "budget_ok b1" by (auto simp: usable_def)
  from br show ?thesis
  proof (cases rule: Reserve_grants)
    case none
    then show ?thesis using e u b1
      by (auto simp: spent_bytes_def Report_def Consume_view no_reservation_def charge_def usable_def
          budget_ok_def session_ok_def Let_def)
  next
    case some
    moreover from this have "0 < Grant r" by (simp add: allowed_grant_bounds)
    ultimately show ?thesis using e b1
      by (auto simp: spent_bytes_def Report_def Consume_view charge_def Let_def)
  qed
qed

interpretation sb: session_budget usable Reserve Consume spent_bytes perSession
proof unfold_locales
  fix n b s sid w i e
  assume u: "usable n b"
  then have sok: "session_ok b s" for s by (simp add: usable_def budget_ok_def)
  show "0 \<le> spent_bytes b s \<and> spent_bytes b s \<le> perSession b"
    using sok [of s] pending_nonneg [OF sok [of s]]
    by (auto simp: spent_bytes_def Report_def session_ok_def remaining_def)
  show "0 \<le> Grant (snd (Reserve sid w b))"
    by (cases "Reserve sid w b") (auto elim!: Reserve_grants simp: no_reservation_def
        intro: less_imp_le [OF allowed_grant_bounds(1)])
  show "perSession (Consume sid i e (fst (Reserve sid w b))) = perSession b"
    by (auto simp: Consume_def settle_def Reserve_def Let_def split: option.split prod.split)
qed (blast intro: usable_step usable_spent)+

section \<open>Properties\<close>

text \<open>C1: From a new budget, after any sequence of fewer than \<open>2^64\<close> operations \<open>Reserve\<close>, \<open>Consume\<close>
  (with any identifier and any byte count, stale or repeated settlements included) and \<open>Reset\<close>, no
  session has used and promised more than the limit, and the promised bytes are exactly the sum of the
  outstanding grants.\<close>

theorem budget_never_overspent:
  fixes n :: int
  assumes "length ops < 2 ^ 64"
  defines "b \<equiv> budget_run (NewBudget n) ops"
  shows "0 \<le> zget (used b) sid \<and> 0 \<le> zget (reserved b) sid \<and>
    zget (used b) sid + zget (reserved b) sid \<le> perSession b \<and>
    zget (reserved b) sid = msum (pending_of b sid)"
proof -
  have "budget_ok b"
    using budget_run_ok [OF NewBudget_ok NewBudget_ids, of ops n] assms by simp
  then have "session_ok b sid" by (simp add: budget_ok_def)
  then show ?thesis
    using pending_nonneg [of b sid] by (simp add: session_ok_def remaining_def)
qed

theorem budget_never_overspent_witness:
  "let b = budget_run (NewBudget 5000)
        [OpReserve ''s'' 3000, OpReserve ''s'' 3000, OpConsume ''s'' 1 99999, OpConsume ''s'' 1 70]
   in zget (used b) ''s'' + zget (reserved b) ''s'' \<le> perSession b"
  using budget_never_overspent [of "[OpReserve ''s'' 3000, OpReserve ''s'' 3000,
      OpConsume ''s'' 1 99999, OpConsume ''s'' 1 70]" 5000 "''s''"]
  by (simp add: Let_def)

text \<open>Concurrent calls can settle in completion order: two outstanding reservations of a session may
  be settled in either order, with the same bytes used, reserved and outstanding afterwards, and each is
  charged exactly the bytes it emitted, cut to its own grant.\<close>

theorem settlements_commute:
  fixes n m :: int and sid :: go_string
  assumes ok: "budget_ok b" and ij: "i \<noteq> j"
    and i: "0 < zget (pending_of b sid) i" and j: "0 < zget (pending_of b sid) j"
  defines "c \<equiv> Consume sid j m (Consume sid i n b)" and "d \<equiv> Consume sid i n (Consume sid j m b)"
  shows "zget (used c) s = zget (used d) s \<and> zget (reserved c) s = zget (reserved d) s \<and>
    map_of (pending_of c s) = map_of (pending_of d s) \<and>
    zget (used c) sid = zget (used b) sid + min (max 0 n) (zget (pending_of b sid) i)
      + min (max 0 m) (zget (pending_of b sid) j)"
proof -
  have oks: "budget_ok (Consume sid i n b)" "budget_ok (Consume sid j m b)"
    using ok by (simp_all add: Consume_ok)
  show ?thesis
    using ij i j by (auto simp: c_def d_def Consume_view [OF ok] Consume_view [OF oks(1)]
        Consume_view [OF oks(2)] charge_def fun_eq_iff)
qed

definition two_pending :: budget where
  "two_pending = budget_run (NewBudget 9000) [OpReserve ''s'' 3000, OpReserve ''s'' 3000]"

lemma two_pending_ok: "budget_ok two_pending"
  using budget_run_ok [OF NewBudget_ok NewBudget_ids] by (simp add: two_pending_def)

theorem settlements_commute_witness:
  "zget (used (Consume ''s'' 2 100 (Consume ''s'' 1 7000 two_pending))) ''s'' =
   zget (used (Consume ''s'' 1 7000 (Consume ''s'' 2 100 two_pending))) ''s'' \<and>
   zget (used (Consume ''s'' 2 100 (Consume ''s'' 1 7000 two_pending))) ''s'' = 3100"
proof -
  have "zget (pending_of two_pending ''s'') 1 = 3000" "zget (pending_of two_pending ''s'') 2 = 3000"
    "zget (used two_pending) ''s'' = 0"
    by (simp_all add: two_pending_def budget_run_def NewBudget_def Reserve_def Let_def remaining_def
        allowed_grant_def MinimumBudgetGrant_def next_id_def pending_of_def)
  then show ?thesis
    using settlements_commute [OF two_pending_ok, of 1 2 "''s''" 100 7000 "''s''"] by simp
qed

text \<open>A session's handlers, run one after the other through the reserve-work-settle bracket, never
  charge it more than its limit, as long as each emits no more than it was granted, and charge it
  exactly what they emit.\<close>

theorem metered_calls_bounded:
  assumes "usable n b" "n + length cs < 2 ^ 64" "\<forall>(sid, w, body) \<in> set cs. within_grant body"
  shows "spent_bytes b s \<le> spent_bytes (fst (metered_calls Reserve Consume cs b)) s \<and>
    spent_bytes (fst (metered_calls Reserve Consume cs b)) s \<le> perSession b"
  using sb.calls_bounded [OF assms, of s] by (simp add: Let_def)

theorem metered_calls_bounded_witness:
  "spent_bytes (fst (metered_calls Reserve Consume [(''s'', 30000, \<lambda>g. ((), g))] (NewBudget 5000))) ''s''
     \<le> 5000"
proof -
  have "usable 0 (NewBudget 5000)"
    using NewBudget_ok NewBudget_ids by (auto simp: usable_def) (simp add: NewBudget_def pending_of_def)
  moreover have "perSession (NewBudget 5000) = 5000" by (simp add: NewBudget_def)
  ultimately show ?thesis
    using metered_calls_bounded [of 0 "NewBudget 5000" "[(''s'', 30000, \<lambda>g. ((), g))]" "''s''"]
    by (simp add: within_grant_def)
qed

end
