(* ===== verification/Go_Float.thy ===== *)
theory Go_Float
  imports Go_Prelude
begin

text \<open>
  Go's \<open>float64\<close>, as far as the code uses it: IEEE 754 double precision with rounding to nearest, ties to
  even. A finite value is a pair \<open>Fin m e\<close> that stands for \<open>m * 2^e\<close>; the sign of zero is not
  distinguished (the code only compares and multiplies). All operations compute.
\<close>

datatype float64 = FNaN | FPosInf | FNegInf | Fin int int

fun bit_length :: "int \<Rightarrow> nat" where
  "bit_length n = (if n \<le> 0 then 0 else Suc (bit_length (n div 2)))"

declare bit_length.simps [simp del]

text \<open>Drop \<open>k\<close> low bits of \<open>n\<close>, rounding to nearest, ties to even.\<close>

definition round_even :: "int \<Rightarrow> nat \<Rightarrow> int" where
  "round_even n k =
     (if k = 0 then n
      else let q = n div 2 ^ k; r = n mod 2 ^ k; h = 2 ^ (k - 1)
           in if h < r \<or> (r = h \<and> odd q) then q + 1 else q)"

text \<open>The double nearest to \<open>m * 2^e\<close>: 53 significant bits, least exponent -1074, overflow to infinity.\<close>

definition round64 :: "int \<Rightarrow> int \<Rightarrow> float64" where
  "round64 m e =
     (let k = nat (max (int (bit_length \<bar>m\<bar>) - 53) (- 1074 - e));
          r = round_even \<bar>m\<bar> k
      in if 1024 < int (bit_length r) + (e + int k)
         then (if m < 0 then FNegInf else FPosInf)
         else Fin (sgn m * r) (e + int k))"

definition float_of_int :: "int \<Rightarrow> float64" where
  "float_of_int n = round64 n 0"

fun fneg :: "float64 \<Rightarrow> float64" where
  "fneg (Fin m e) = Fin (- m) e"
| "fneg FPosInf = FNegInf"
| "fneg FNegInf = FPosInf"
| "fneg FNaN = FNaN"

fun fsign :: "float64 \<Rightarrow> int" where
  "fsign (Fin m e) = sgn m"
| "fsign FPosInf = 1"
| "fsign FNegInf = -1"
| "fsign FNaN = 0"

fun fmul :: "float64 \<Rightarrow> float64 \<Rightarrow> float64" where
  "fmul (Fin m1 e1) (Fin m2 e2) = round64 (m1 * m2) (e1 + e2)"
| "fmul FNaN y = FNaN"
| "fmul x FNaN = FNaN"
| "fmul x y = (let s = fsign x * fsign y in
     if s = 0 then FNaN else if s < 0 then FNegInf else FPosInf)"

text \<open>\<open>x <= y\<close> and \<open>x < y\<close>; every comparison with a NaN is false.\<close>

fun fle :: "float64 \<Rightarrow> float64 \<Rightarrow> bool" where
  "fle FNaN y = False"
| "fle x FNaN = False"
| "fle FNegInf y = True"
| "fle x FPosInf = True"
| "fle FPosInf y = False"
| "fle x FNegInf = False"
| "fle (Fin m1 e1) (Fin m2 e2) =
     (m1 * 2 ^ nat (e1 - min e1 e2) \<le> m2 * 2 ^ nat (e2 - min e1 e2))"

definition flt :: "float64 \<Rightarrow> float64 \<Rightarrow> bool" where
  "flt x y \<longleftrightarrow> x \<noteq> FNaN \<and> y \<noteq> FNaN \<and> \<not> fle y x"

text \<open>\<open>int(math.Floor(x))\<close> and \<open>int(math.Ceil(x))\<close> for a finite \<open>x\<close>; Go leaves the conversion of the
  other values to the platform, so the result is an option.\<close>

fun floor_int :: "float64 \<Rightarrow> int option" where
  "floor_int (Fin m e) = Some (if 0 \<le> e then m * 2 ^ nat e else m div 2 ^ nat (- e))"
| "floor_int _ = None"

definition ceil_int :: "float64 \<Rightarrow> int option" where
  "ceil_int x = map_option uminus (floor_int (fneg x))"

definition f_zero :: float64 where "f_zero = Fin 0 0"
definition f_one :: float64 where "f_one = Fin 1 0"
definition f_half :: float64 where "f_half = Fin 1 (- 1)"

text \<open>\<open>0.6\<close> as the compiler rounds it.\<close>

definition f_0_6 :: float64 where "f_0_6 = Fin 5404319552844595 (- 53)"

lemma fle_zero: "fle (Fin m e) f_zero \<longleftrightarrow> m \<le> 0"
  by (auto simp: f_zero_def mult_le_0_iff)

lemma bit_length_0 [simp]: "n \<le> 0 \<Longrightarrow> bit_length n = 0"
  by (simp add: bit_length.simps)

lemma bit_length_bound: "n < 2 ^ bit_length n"
proof (induction n rule: bit_length.induct)
  case (1 n)
  show ?case
  proof (cases "n \<le> 0")
    case False
    with 1 have "n div 2 < 2 ^ bit_length (n div 2)" by simp
    with False show ?thesis by (subst bit_length.simps) simp
  qed simp
qed

lemma bit_length_less: "n < 2 ^ k \<Longrightarrow> bit_length n \<le> k"
proof (induction n arbitrary: k rule: bit_length.induct)
  case (1 n)
  show ?case
  proof (cases "n \<le> 0")
    case False
    with "1.prems" obtain j where "k = Suc j" by (cases k) auto
    with "1.prems" "1.IH" [OF False, of j] False show ?thesis
      by (subst bit_length.simps) simp
  qed simp
qed

text \<open>Integers of at most 53 bits convert exactly.\<close>

lemma float_of_int_exact: "\<bar>n\<bar> < 2 ^ 53 \<Longrightarrow> float_of_int n = Fin n 0"
proof -
  assume "\<bar>n\<bar> < 2 ^ 53"
  then have "bit_length \<bar>n\<bar> \<le> 53" by (rule bit_length_less)
  then show ?thesis
    by (simp add: float_of_int_def round64_def round_even_def Let_def mult_sgn_abs)
qed

end
