(* ===== verification/Output_Policy.thy ===== *)
theory Output_Policy
  imports Go_Float
begin

text \<open>
  The output limiter of \<open>outputlimit/policy.go\<close>: line splitting, per-line elision, the selection of a
  head and a tail within byte and line limits, and rendering around the elision marker. The definitions
  follow the file from top to bottom. \<open>renderRange\<close> panics on a selection that touches neither edge of
  its line, so rendering is partial (\<open>None\<close> is the panic); \<open>apply_total\<close> shows that it never happens.
\<close>

definition ReasonBytes :: go_string where "ReasonBytes = ''bytes''"
definition ReasonLines :: go_string where "ReasonLines = ''lines''"
definition ReasonLineLength :: go_string where "ReasonLineLength = ''line_length''"
definition ReasonBudget :: go_string where "ReasonBudget = ''budget''"
definition ReasonFile :: go_string where "ReasonFile = ''file''"

lemmas reason_defs = ReasonBytes_def ReasonLines_def ReasonLineLength_def ReasonBudget_def ReasonFile_def

record policy =
  MaxBytes :: int
  MaxLines :: int
  MaxLineBytes :: int
  HeadFraction :: float64

record report =
  Truncated :: bool
  Reason :: go_string
  OriginalBytes :: int
  OriginalLines :: int
  KeptBytes :: int
  KeptLines :: int

definition Defaults :: policy where
  "Defaults = \<lparr>MaxBytes = 30000, MaxLines = 2000, MaxLineBytes = 2000, HeadFraction = f_0_6\<rparr>"

definition validReason :: "go_string \<Rightarrow> bool" where
  "validReason r \<longleftrightarrow> r \<in> {ReasonBytes, ReasonLines, ReasonLineLength, ReasonBudget, ReasonFile}"

definition Marker :: "go_string \<Rightarrow> int \<Rightarrow> int \<Rightarrow> int \<Rightarrow> int \<Rightarrow> go_string" where
  "Marker reason keptBytes origBytes keptLines origLines =
     (if \<not> validReason reason then []
      else ''[plasmid:truncated reason='' @ reason @
        '' bytes='' @ itoa keptBytes @ ''/'' @ itoa origBytes @
        '' lines='' @ itoa keptLines @ ''/'' @ itoa origLines @ '']'')"

section \<open>Lines\<close>

record sourceLine =
  line_body :: go_string
  line_term :: go_string

text \<open>The scan of \<open>splitLines\<close>; \<open>cur\<close> is \<open>s[start:i]\<close>, the current line up to the scanned position.\<close>

fun split_from :: "go_string \<Rightarrow> go_string \<Rightarrow> sourceLine list" where
  "split_from cur [] = (if cur = [] then [] else [\<lparr>line_body = cur, line_term = []\<rparr>])"
| "split_from cur (c # s) =
     (if c \<noteq> LF then split_from (cur @ [c]) s
      else (if cur \<noteq> [] \<and> last cur = CR then \<lparr>line_body = butlast cur, line_term = [CR, LF]\<rparr>
            else \<lparr>line_body = cur, line_term = [LF]\<rparr>) # split_from [] s)"

definition splitLines :: "go_string \<Rightarrow> sourceLine list" where
  "splitLines s = split_from [] s"

section \<open>Cut points\<close>

definition normalizedFraction :: "float64 \<Rightarrow> float64" where
  "normalizedFraction f =
     (if f = FNaN then f_half else if flt f f_zero then f_zero else if flt f_one f then f_one else f)"

definition limitSplit :: "int \<Rightarrow> float64 \<Rightarrow> int \<times> int" where
  "limitSplit limit fraction =
     (if limit \<le> 0 then (0, 0)
      else if fle fraction f_zero then (0, limit)
      else if fle f_one fraction then (limit, 0)
      else let head = (case floor_int (fmul (float_of_int limit) fraction) of Some h \<Rightarrow> h | None \<Rightarrow> 0);
               head = (if head < 0 then 0 else if head > limit then limit else head)
           in (head, limit - head))"

fun back_over_cont :: "go_string \<Rightarrow> nat \<Rightarrow> nat" where
  "back_over_cont s 0 = 0"
| "back_over_cont s (Suc n) = (if is_cont (s ! Suc n) then back_over_cont s n else Suc n)"

function skip_cont :: "go_string \<Rightarrow> nat \<Rightarrow> nat" where
  "skip_cont s n = (if n < length s \<and> is_cont (s ! n) then skip_cont s (Suc n) else n)"
  by pat_completeness auto
termination
  by (relation "measure (\<lambda>(s, n). length s - n)") auto

declare skip_cont.simps [simp del]

definition splits_crlf :: "go_string \<Rightarrow> nat \<Rightarrow> bool" where
  "splits_crlf s n \<longleftrightarrow> 0 < n \<and> n < length s \<and> s ! (n - 1) = CR \<and> s ! n = LF"

definition inwardHead :: "go_string \<Rightarrow> int \<Rightarrow> int" where
  "inwardHead s limit =
     (if limit \<le> 0 then 0
      else if limit \<ge> slen s then slen s
      else let end = back_over_cont s (nat limit)
           in int (if splits_crlf s end then end - 1 else end))"

definition inwardTail :: "go_string \<Rightarrow> int \<Rightarrow> int" where
  "inwardTail s limit =
     (if limit \<le> 0 then slen s
      else if limit \<ge> slen s then 0
      else let start = skip_cont s (nat (slen s - limit))
           in int (if splits_crlf s start then start + 1 else start))"

section \<open>Prepared lines\<close>

record preparedLine =
  lid :: nat
  sourceBytes :: int
  prefixSource :: go_string
  suffixSource :: go_string
  fullSource :: go_string
  lineMarker :: go_string
  markerPos :: int

definition prepareCompleteLine :: "nat \<Rightarrow> go_string \<Rightarrow> go_string \<Rightarrow> policy \<Rightarrow> preparedLine" where
  "prepareCompleteLine i bdy trm p =
     (if MaxLineBytes p \<le> 0 \<or> slen bdy \<le> MaxLineBytes p
      then let source = bdy @ trm
           in \<lparr>lid = i, sourceBytes = slen source, prefixSource = source, suffixSource = source,
               fullSource = source, lineMarker = [], markerPos = 0\<rparr>
      else let (headLimit, tailLimit) = limitSplit (MaxLineBytes p) (normalizedFraction (HeadFraction p));
               headEnd = inwardHead bdy headLimit;
               tailStart = inwardTail bdy tailLimit;
               tailStart = (if tailStart < headEnd then headEnd else tailStart);
               head = upto_int headEnd bdy;
               tail = from_int tailStart bdy;
               source = head @ tail @ trm
           in \<lparr>lid = i, sourceBytes = slen source, prefixSource = source, suffixSource = source,
               fullSource = source,
               lineMarker = Marker ReasonLineLength (slen head + slen tail) (slen bdy) 1 1,
               markerPos = slen head\<rparr>)"

definition renderFull :: "preparedLine \<Rightarrow> go_string" where
  "renderFull line =
     (if lineMarker line = [] then fullSource line
      else upto_int (markerPos line) (fullSource line) @ lineMarker line @
           from_int (markerPos line) (fullSource line))"

definition safePrefix :: "preparedLine \<Rightarrow> int \<Rightarrow> int" where
  "safePrefix line limit =
     (if limit \<le> 0 then 0
      else if limit \<ge> sourceBytes line then sourceBytes line
      else inwardHead (prefixSource line) limit)"

definition safeSuffixStart :: "preparedLine \<Rightarrow> int \<Rightarrow> int" where
  "safeSuffixStart line limit =
     (if limit \<le> 0 then sourceBytes line
      else if limit \<ge> sourceBytes line then 0
      else let local = inwardTail (suffixSource line) limit
           in sourceBytes line - (slen (suffixSource line) - local))"

section \<open>Selections\<close>

record lineSelection =
  sel_line :: preparedLine
  sel_start :: int
  sel_end :: int

definition renderRange :: "preparedLine \<Rightarrow> int \<Rightarrow> int \<Rightarrow> go_string option" where
  "renderRange line start end =
     (if start = 0 \<and> end = sourceBytes line then Some (renderFull line)
      else let source =
          (if start = 0 then Some (upto_int end (prefixSource line))
           else if end = sourceBytes line
             then Some (from_int (slen (suffixSource line) - (end - start)) (suffixSource line))
           else None)
        in case source of None \<Rightarrow> None
           | Some src \<Rightarrow>
               if lineMarker line = [] \<or> markerPos line \<le> start \<or> markerPos line \<ge> end then Some src
               else let markerOffset = markerPos line - start
                    in Some (upto_int markerOffset src @ lineMarker line @ from_int markerOffset src))"

fun renderSelections :: "lineSelection list \<Rightarrow> go_string option" where
  "renderSelections [] = Some []"
| "renderSelections (sel # sels) =
     (case renderRange (sel_line sel) (sel_start sel) (sel_end sel) of
        None \<Rightarrow> None
      | Some r \<Rightarrow> map_option ((@) r) (renderSelections sels))"

definition selectionBytes :: "lineSelection list \<Rightarrow> int" where
  "selectionBytes sels = sum_list (map (\<lambda>sel. sel_end sel - sel_start sel) sels)"

definition selectionLineIDs :: "lineSelection list \<Rightarrow> nat list" where
  "selectionLineIDs sels = remdups (map (lid \<circ> sel_line) sels)"

definition distinctSelectionLines :: "lineSelection list \<Rightarrow> lineSelection list \<Rightarrow> int" where
  "distinctSelectionLines g1 g2 = int (length (selectionLineIDs (g1 @ g2)))"

record selectionBudget =
  remainingBytes :: int
  remainingLines :: int
  useBytes :: bool
  useLines :: bool
  occupied :: "nat list"

definition newSelectionBudget ::
  "int \<Rightarrow> int \<Rightarrow> bool \<Rightarrow> bool \<Rightarrow> lineSelection list \<Rightarrow> selectionBudget \<times> bool" where
  "newSelectionBudget byteLimit lineLimit ub ul occ =
     (let ids = selectionLineIDs occ;
          rl = (if ul then lineLimit - int (length ids) else lineLimit)
      in (\<lparr>remainingBytes = byteLimit, remainingLines = rl, useBytes = ub, useLines = ul, occupied = ids\<rparr>,
          0 \<le> rl))"

definition canSelect :: "selectionBudget \<Rightarrow> preparedLine \<Rightarrow> bool" where
  "canSelect b line \<longleftrightarrow>
     \<not> (useLines b \<and> remainingLines b = 0 \<and> lid line \<notin> set (occupied b)) \<and>
     (\<not> useBytes b \<or> remainingBytes b \<noteq> 0 \<or> sourceBytes line = 0)"

definition consume :: "preparedLine \<Rightarrow> int \<Rightarrow> selectionBudget \<Rightarrow> selectionBudget" where
  "consume line kept b =
     b\<lparr>remainingBytes := (if useBytes b then remainingBytes b - kept else remainingBytes b),
       remainingLines := (if useLines b \<and> lid line \<notin> set (occupied b) then remainingLines b - 1
                          else remainingLines b)\<rparr>"

fun prefix_loop :: "preparedLine list \<Rightarrow> selectionBudget \<Rightarrow> lineSelection list" where
  "prefix_loop [] b = []"
| "prefix_loop (line # lines) b =
     (if \<not> canSelect b line then []
      else let end = (if useBytes b \<and> sourceBytes line > remainingBytes b
                      then safePrefix line (remainingBytes b) else sourceBytes line)
        in if end = 0 \<and> sourceBytes line \<noteq> 0 then []
           else \<lparr>sel_line = line, sel_start = 0, sel_end = end\<rparr> #
             (if end \<noteq> sourceBytes line then [] else prefix_loop lines (consume line end b)))"

definition selectPrefixWithin ::
  "preparedLine list \<Rightarrow> int \<Rightarrow> int \<Rightarrow> bool \<Rightarrow> bool \<Rightarrow> lineSelection list \<Rightarrow> lineSelection list" where
  "selectPrefixWithin lines byteLimit lineLimit ub ul occ =
     (let (b, valid) = newSelectionBudget byteLimit lineLimit ub ul occ
      in if \<not> valid then [] else prefix_loop lines b)"

text \<open>The loop of \<open>selectSuffixWithin\<close> over the lines from last to first.\<close>

fun suffix_loop :: "preparedLine list \<Rightarrow> selectionBudget \<Rightarrow> lineSelection list" where
  "suffix_loop [] b = []"
| "suffix_loop (line # lines) b =
     (if \<not> canSelect b line then []
      else let start = (if useBytes b \<and> sourceBytes line > remainingBytes b
                        then safeSuffixStart line (remainingBytes b) else 0);
               kept = sourceBytes line - start
        in if kept = 0 \<and> sourceBytes line \<noteq> 0 then []
           else \<lparr>sel_line = line, sel_start = start, sel_end = sourceBytes line\<rparr> #
             (if start \<noteq> 0 then [] else suffix_loop lines (consume line kept b)))"

definition selectSuffixWithin ::
  "preparedLine list \<Rightarrow> int \<Rightarrow> int \<Rightarrow> bool \<Rightarrow> bool \<Rightarrow> lineSelection list \<Rightarrow> lineSelection list" where
  "selectSuffixWithin lines byteLimit lineLimit ub ul occ =
     (let (b, valid) = newSelectionBudget byteLimit lineLimit ub ul occ
      in if \<not> valid then [] else rev (suffix_loop (rev lines) b))"

definition selectSuffix ::
  "preparedLine list \<Rightarrow> int \<Rightarrow> int \<Rightarrow> bool \<Rightarrow> bool \<Rightarrow> lineSelection list" where
  "selectSuffix lines byteLimit lineLimit ub ul = selectSuffixWithin lines byteLimit lineLimit ub ul []"

definition selectOuterEdges ::
  "policy \<Rightarrow> preparedLine list \<Rightarrow> preparedLine list \<Rightarrow> lineSelection list \<times> lineSelection list" where
  "selectOuterEdges p headCandidates tailCandidates =
     (let fraction = normalizedFraction (HeadFraction p);
          tailBytes = snd (limitSplit (MaxBytes p) fraction);
          tailLines = snd (limitSplit (MaxLines p) fraction);
          tail = selectSuffix tailCandidates tailBytes tailLines (MaxBytes p > 0) (MaxLines p > 0);
          headByteLimit = (if MaxBytes p > 0 then MaxBytes p - selectionBytes tail else MaxBytes p);
          head = selectPrefixWithin headCandidates headByteLimit (MaxLines p)
                   (MaxBytes p > 0) (MaxLines p > 0) tail;
          tailByteLimit = (if MaxBytes p > 0 then MaxBytes p - selectionBytes head else MaxBytes p);
          tail = selectSuffixWithin tailCandidates tailByteLimit (MaxLines p)
                   (MaxBytes p > 0) (MaxLines p > 0) head
      in (head, tail))"

section \<open>Rendering\<close>

definition truncationReason :: "policy \<Rightarrow> int \<Rightarrow> int \<Rightarrow> go_string" where
  "truncationReason p processedBytes originalLines =
     (if MaxBytes p > 0 \<and> processedBytes > MaxBytes p then ReasonBytes
      else if MaxLines p > 0 \<and> originalLines > MaxLines p then ReasonLines
      else [])"

definition renderCompleteSelection ::
  "preparedLine list \<Rightarrow> int \<Rightarrow> int \<Rightarrow> int \<Rightarrow> bool \<Rightarrow> go_string \<times> report" where
  "renderCompleteSelection lines originalBytes originalLines processedBytes lineElided =
     (concat (map renderFull lines),
      \<lparr>Truncated = lineElided, Reason = (if lineElided then ReasonLineLength else []),
       OriginalBytes = originalBytes, OriginalLines = originalLines,
       KeptBytes = processedBytes, KeptLines = originalLines\<rparr>)"

definition renderTruncatedSelection ::
  "go_string \<Rightarrow> go_string \<Rightarrow> lineSelection list \<Rightarrow> lineSelection list \<Rightarrow> int \<Rightarrow> int \<Rightarrow>
   (go_string \<times> report) option" where
  "renderTruncatedSelection input reason head tail originalBytes originalLines =
     (let keptBytes = selectionBytes head + selectionBytes tail;
          keptLines = distinctSelectionLines head tail
      in case (renderSelections head, renderSelections tail) of
           (Some pre, Some suf) \<Rightarrow>
             Some ((if pre \<noteq> [] then (if \<not> suffix [LF] pre then pre @ [LF] else pre) else []) @
                   Marker reason keptBytes originalBytes keptLines originalLines @
                   (if suf \<noteq> [] then LF # suf
                    else if suffix [CR, LF] input then [CR, LF]
                    else if suffix [LF] input then [LF] else []),
                   \<lparr>Truncated = True, Reason = reason, OriginalBytes = originalBytes,
                    OriginalLines = originalLines, KeptBytes = keptBytes, KeptLines = keptLines\<rparr>)
         | _ \<Rightarrow> None)"

definition renderPreparedCandidates ::
  "policy \<Rightarrow> go_string \<Rightarrow> preparedLine list \<Rightarrow> preparedLine list \<Rightarrow> int \<Rightarrow> int \<Rightarrow> int \<Rightarrow> bool \<Rightarrow>
   (go_string \<times> report) option" where
  "renderPreparedCandidates p input headCandidates tailCandidates originalBytes originalLines
       processedBytes lineElided =
     (let reason = truncationReason p processedBytes originalLines
      in if reason = []
         then Some (renderCompleteSelection headCandidates originalBytes originalLines processedBytes lineElided)
         else let (head, tail) = selectOuterEdges p headCandidates tailCandidates
              in renderTruncatedSelection input reason head tail originalBytes originalLines)"

definition renderPrepared ::
  "policy \<Rightarrow> go_string \<Rightarrow> preparedLine list \<Rightarrow> int \<Rightarrow> int \<Rightarrow> int \<Rightarrow> bool \<Rightarrow> (go_string \<times> report) option" where
  "renderPrepared p input lines originalBytes originalLines processedBytes lineElided =
     renderPreparedCandidates p input lines lines originalBytes originalLines processedBytes lineElided"

text \<open>The loop of \<open>Apply\<close> over the lines: \<open>prepared\<close>, indexed from \<open>i\<close>.\<close>

fun prepare_from :: "nat \<Rightarrow> policy \<Rightarrow> sourceLine list \<Rightarrow> preparedLine list" where
  "prepare_from i p [] = []"
| "prepare_from i p (l # ls) = prepareCompleteLine i (line_body l) (line_term l) p # prepare_from (Suc i) p ls"

definition Apply :: "policy \<Rightarrow> go_string \<Rightarrow> (go_string \<times> report) option" where
  "Apply p input =
     (let lines = splitLines input;
          prepared = prepare_from 0 p lines;
          processedBytes = sum_list (map sourceBytes prepared);
          lineElided = list_ex (\<lambda>pl. lineMarker pl \<noteq> []) prepared
      in renderPrepared p input prepared (slen input) (slen lines) processedBytes lineElided)"

definition ApplyLines :: "policy \<Rightarrow> go_string list \<Rightarrow> int \<Rightarrow> (go_string \<times> report) option" where
  "ApplyLines p lines firstLineNumber =
     Apply p (concat (case lines of [] \<Rightarrow> [] | l # ls \<Rightarrow> l # map ((#) LF) ls))"

end
