(* ===== verification/Output_Selection.thy ===== *)
theory Output_Selection
  imports Output_Policy
begin

text \<open>
  Correctness of the output limiter: the lines partition the input, every cut point is safe for UTF-8
  and CRLF, the head and the tail are a prefix and a suffix of the processed text that do not overlap,
  they respect the byte and line limits, and rendering never panics.
\<close>

section \<open>Lines partition the input\<close>

definition line_text :: "sourceLine \<Rightarrow> go_string" where
  "line_text l = line_body l @ line_term l"

definition one_line :: "go_string \<Rightarrow> bool" where
  "one_line s \<longleftrightarrow> LF \<notin> set (butlast s)"

lemma split_from_text: "concat (map line_text (split_from cur s)) = cur @ s"
proof (induction cur s rule: split_from.induct)
  case (2 cur c s)
  show ?case
  proof (cases "c = LF \<and> cur \<noteq> [] \<and> last cur = CR")
    case True
    with 2 show ?thesis
      by (simp add: line_text_def) (metis append_butlast_last_id append.assoc append_Cons append_Nil)
  qed (use 2 in \<open>auto simp: line_text_def\<close>)
qed (simp add: line_text_def)

lemma splitLines_text: "concat (map line_text (splitLines s)) = s"
  by (simp add: splitLines_def split_from_text)

lemma split_from_line:
  "LF \<notin> set cur \<Longrightarrow> l \<in> set (split_from cur s) \<Longrightarrow>
   LF \<notin> set (line_body l) \<and> one_line (line_text l) \<and> line_term l \<in> {[], [LF], [CR, LF]}"
proof (induction cur s rule: split_from.induct)
  case (1 cur)
  then show ?case by (auto simp: line_text_def one_line_def split: if_splits dest: in_set_butlastD)
next
  case (2 cur c s)
  show ?case
  proof (cases "c = LF")
    case True
    with 2 show ?thesis
      by (auto simp: line_text_def one_line_def butlast_append split: if_splits dest: in_set_butlastD)
  qed (use 2 in auto)
qed

lemma splitLines_line:
  "l \<in> set (splitLines s) \<Longrightarrow>
   LF \<notin> set (line_body l) \<and> one_line (line_text l) \<and> line_term l \<in> {[], [LF], [CR, LF]}"
  using split_from_line [of "[]"] by (auto simp: splitLines_def)

section \<open>Cut points\<close>

definition safe_cut :: "go_string \<Rightarrow> int \<Rightarrow> bool" where
  "safe_cut s i \<longleftrightarrow> 0 \<le> i \<and> i \<le> slen s \<and>
     (i = 0 \<or> i = slen s \<or> \<not> is_cont (s ! nat i) \<and> \<not> splits_crlf s (nat i))"

lemma back_over_cont_le: "back_over_cont s n \<le> n"
  by (induction n) auto

lemma back_over_cont_stop: "0 < back_over_cont s n \<Longrightarrow> \<not> is_cont (s ! back_over_cont s n)"
  by (induction n) auto

lemma skip_cont_bounds: "n \<le> length s \<Longrightarrow> n \<le> skip_cont s n \<and> skip_cont s n \<le> length s"
proof (induction s n rule: skip_cont.induct)
  case (1 s n)
  then show ?case by (subst (1 2) skip_cont.simps) auto
qed

lemma skip_cont_stop: "skip_cont s n < length s \<Longrightarrow> \<not> is_cont (s ! skip_cont s n)"
proof (induction s n rule: skip_cont.induct)
  case (1 s n)
  then show ?case by (cases "n < length s \<and> is_cont (s ! n)") (simp_all add: skip_cont.simps [of s n])
qed

lemma limitSplit_bounds [go_bounds]:
  "0 \<le> fst (limitSplit l f)" "0 \<le> snd (limitSplit l f)"
  "0 < l \<Longrightarrow> fst (limitSplit l f) + snd (limitSplit l f) = l"
  by (auto simp: limitSplit_def Let_def split: option.splits)

lemma inwardHead_bounds [go_bounds]:
  "0 \<le> inwardHead s l" "inwardHead s l \<le> slen s" "0 \<le> l \<Longrightarrow> inwardHead s l \<le> l"
proof -
  have "back_over_cont s (nat l) \<le> nat l" by (rule back_over_cont_le)
  moreover have "splits_crlf s e \<Longrightarrow> 0 < e" for e by (simp add: splits_crlf_def)
  ultimately show "0 \<le> inwardHead s l" "inwardHead s l \<le> slen s" "0 \<le> l \<Longrightarrow> inwardHead s l \<le> l"
    by (auto simp: inwardHead_def Let_def slen_def of_nat_diff)
qed

lemma inwardHead_safe: "safe_cut s (inwardHead s l)"
proof (cases "l \<le> 0 \<or> slen s \<le> l")
  case True
  then show ?thesis by (auto simp: inwardHead_def safe_cut_def)
next
  case False
  define e where "e = back_over_cont s (nat l)"
  have le: "e \<le> nat l" "e < length s"
    using False back_over_cont_le [of s "nat l"] by (auto simp: e_def slen_def)
  have stop: "0 < e \<Longrightarrow> \<not> is_cont (s ! e)" by (simp add: e_def back_over_cont_stop)
  have r: "inwardHead s l = int (if splits_crlf s e then e - 1 else e)"
    using False by (simp add: inwardHead_def e_def Let_def)
  show ?thesis
  proof (cases "splits_crlf s e")
    case True
    then obtain k where k: "e = Suc k" "s ! k = CR" by (cases e) (auto simp: splits_crlf_def)
    then show ?thesis using True r le by (auto simp: safe_cut_def slen_def splits_crlf_def)
  next
    case False
    then show ?thesis using r le stop by (auto simp: safe_cut_def slen_def)
  qed
qed

lemma inwardTail_bounds [go_bounds]:
  "0 \<le> inwardTail s l" "inwardTail s l \<le> slen s" "0 \<le> l \<Longrightarrow> slen s - l \<le> inwardTail s l"
proof -
  have sk: "0 \<le> l \<Longrightarrow> nat (slen s - l) \<le> skip_cont s (nat (slen s - l))"
    "0 \<le> l \<Longrightarrow> skip_cont s (nat (slen s - l)) \<le> length s"
    using skip_cont_bounds [of "nat (slen s - l)" s] by (auto simp: slen_def)
  moreover have "splits_crlf s e \<Longrightarrow> e < length s" for e by (simp add: splits_crlf_def)
  ultimately show "0 \<le> inwardTail s l" "inwardTail s l \<le> slen s" "0 \<le> l \<Longrightarrow> slen s - l \<le> inwardTail s l"
    by (fastforce simp: inwardTail_def Let_def slen_def)+
qed

lemma inwardTail_safe:
  assumes "one_line s"
  shows "safe_cut s (inwardTail s l)"
proof (cases "l \<le> 0 \<or> slen s \<le> l")
  case True
  then show ?thesis by (auto simp: inwardTail_def safe_cut_def)
next
  case False
  define e where "e = skip_cont s (nat (slen s - l))"
  have le: "e \<le> length s" "0 < e"
    using False skip_cont_bounds [of "nat (slen s - l)" s] by (linarith | simp add: e_def slen_def)+
  have stop: "e < length s \<Longrightarrow> \<not> is_cont (s ! e)" by (simp add: e_def skip_cont_stop)
  have r: "inwardTail s l = int (if splits_crlf s e then e + 1 else e)"
    using False by (simp add: inwardTail_def e_def Let_def)
  show ?thesis
  proof (cases "splits_crlf s e")
    case True
    then have "s ! e = LF" "e < length s" by (auto simp: splits_crlf_def)
    then have "\<not> e < length (butlast s)"
      using assms by (metis nth_butlast nth_mem one_line_def)
    with \<open>e < length s\<close> have "1 + int e = int (length s)" by simp
    then show ?thesis using True r by (simp add: safe_cut_def slen_def)
  next
    case False
    then show ?thesis using r le stop by (auto simp: safe_cut_def slen_def)
  qed
qed

section \<open>Prepared lines\<close>

definition wf_line :: "preparedLine \<Rightarrow> bool" where
  "wf_line pl \<longleftrightarrow> prefixSource pl = fullSource pl \<and> suffixSource pl = fullSource pl \<and>
     sourceBytes pl = slen (fullSource pl) \<and> 0 \<le> markerPos pl \<and> markerPos pl \<le> sourceBytes pl \<and>
     one_line (fullSource pl)"

lemma wf_lineD [dest]:
  "wf_line pl \<Longrightarrow> sourceBytes pl = slen (fullSource pl)" "wf_line pl \<Longrightarrow> prefixSource pl = fullSource pl"
  "wf_line pl \<Longrightarrow> suffixSource pl = fullSource pl" "wf_line pl \<Longrightarrow> one_line (fullSource pl)"
  by (auto simp: wf_line_def)

lemma one_line_mono:
  "LF \<notin> set b \<Longrightarrow> t \<in> {[], [LF], [CR, LF]} \<Longrightarrow> one_line (b @ t)"
  by (auto simp: one_line_def butlast_append dest: in_set_butlastD)

lemma prepareCompleteLine_wf:
  assumes "LF \<notin> set b" "t \<in> {[], [LF], [CR, LF]}"
  shows "wf_line (prepareCompleteLine i b t p)" "lid (prepareCompleteLine i b t p) = i"
proof -
  have sub: "LF \<notin> set (upto_int m b @ from_int n b)" for m n
    using assms(1) by (auto simp: upto_int_def from_int_def dest: in_set_takeD in_set_dropD)
  show "wf_line (prepareCompleteLine i b t p)"
    using one_line_mono [OF assms] one_line_mono [OF sub assms(2)]
    by (auto simp: prepareCompleteLine_def wf_line_def Let_def split: prod.split)
  show "lid (prepareCompleteLine i b t p) = i"
    by (auto simp: prepareCompleteLine_def Let_def split: prod.split)
qed

lemma prepare_from_ids: "map lid (prepare_from i p ls) = [i..<i + length ls]"
proof (induction i p ls rule: prepare_from.induct)
  case (2 i p l ls)
  have "lid (prepareCompleteLine i (line_body l) (line_term l) p) = i"
    by (auto simp: prepareCompleteLine_def Let_def split: prod.split)
  with 2 show ?case by (simp add: upt_rec)
qed simp

lemma prepare_from_wf:
  "(\<And>l. l \<in> set ls \<Longrightarrow> LF \<notin> set (line_body l) \<and> line_term l \<in> {[], [LF], [CR, LF]}) \<Longrightarrow>
   pl \<in> set (prepare_from i p ls) \<Longrightarrow> wf_line pl"
  by (induction i p ls rule: prepare_from.induct) (auto intro: prepareCompleteLine_wf)

definition prepared_lines :: "policy \<Rightarrow> go_string \<Rightarrow> preparedLine list" where
  "prepared_lines p s = prepare_from 0 p (splitLines s)"

definition source_text :: "preparedLine list \<Rightarrow> go_string" where
  "source_text ls = concat (map fullSource ls)"

lemma length_prepare_from [simp]: "length (prepare_from i p ls) = length ls"
  by (induction i p ls rule: prepare_from.induct) auto

lemma prepared_lines_wf: "pl \<in> set (prepared_lines p s) \<Longrightarrow> wf_line pl"
  unfolding prepared_lines_def by (rule prepare_from_wf) (use splitLines_line in blast)+

lemma prepared_lines_ids: "map lid (prepared_lines p s) = [0..<length (prepared_lines p s)]"
  by (simp add: prepared_lines_def prepare_from_ids)

lemma source_bytes: "(\<And>pl. pl \<in> set ls \<Longrightarrow> wf_line pl) \<Longrightarrow> sum_list (map sourceBytes ls) = slen (source_text ls)"
  by (induction ls) (auto simp: source_text_def)

section \<open>Selections\<close>

definition sel_ok :: "lineSelection \<Rightarrow> bool" where
  "sel_ok sel \<longleftrightarrow> wf_line (sel_line sel) \<and> 0 \<le> sel_start sel \<and> sel_start sel \<le> sel_end sel \<and>
     sel_end sel \<le> sourceBytes (sel_line sel) \<and>
     (sel_start sel = 0 \<or> sel_end sel = sourceBytes (sel_line sel)) \<and>
     safe_cut (fullSource (sel_line sel)) (sel_start sel) \<and> safe_cut (fullSource (sel_line sel)) (sel_end sel)"

definition sel_text :: "lineSelection \<Rightarrow> go_string" where
  "sel_text sel = from_int (sel_start sel) (upto_int (sel_end sel) (fullSource (sel_line sel)))"

definition kept_text :: "lineSelection list \<Rightarrow> go_string" where
  "kept_text sels = concat (map sel_text sels)"

lemma selectionBytes_simps [simp]:
  "selectionBytes [] = 0" "selectionBytes (x # xs) = sel_end x - sel_start x + selectionBytes xs"
  "selectionBytes (xs @ ys) = selectionBytes xs + selectionBytes ys"
  "selectionBytes (rev xs) = selectionBytes xs"
  by (simp_all add: selectionBytes_def rev_map [symmetric])

lemma kept_text_simps [simp]:
  "kept_text [] = []" "kept_text (x # xs) = sel_text x @ kept_text xs"
  "kept_text (xs @ ys) = kept_text xs @ kept_text ys"
  by (simp_all add: kept_text_def)

lemma sel_text_length: "sel_ok sel \<Longrightarrow> slen (sel_text sel) = sel_end sel - sel_start sel"
  by (auto simp: sel_ok_def sel_text_def slen_from slen_upto)

lemma kept_text_length: "(\<And>sel. sel \<in> set sels \<Longrightarrow> sel_ok sel) \<Longrightarrow> slen (kept_text sels) = selectionBytes sels"
  by (induction sels) (auto simp: sel_text_length)

text \<open>The cut the prefix loop and the suffix loop make in the line that does not fit.\<close>

lemma safePrefix_ok:
  assumes "wf_line line" "0 \<le> r"
  shows "0 \<le> safePrefix line r" "safePrefix line r \<le> sourceBytes line" "safePrefix line r \<le> r"
    "safe_cut (fullSource line) (safePrefix line r)"
  using assms wf_lineD(1,2) [OF assms(1)] inwardHead_safe [of "fullSource line" r]
    inwardHead_bounds [where s = "fullSource line" and l = r]
  by (auto simp: safePrefix_def) (auto simp: safe_cut_def)

lemma safeSuffixStart_ok:
  assumes "wf_line line" "0 \<le> r"
  shows "0 \<le> safeSuffixStart line r" "safeSuffixStart line r \<le> sourceBytes line"
    "sourceBytes line - safeSuffixStart line r \<le> r"
    "safe_cut (fullSource line) (safeSuffixStart line r)"
  using assms wf_lineD(1,3) [OF assms(1)] inwardTail_safe [OF wf_lineD(4) [OF assms(1)], of r]
    inwardTail_bounds [where s = "fullSource line" and l = r]
  by (auto simp: safeSuffixStart_def Let_def) (auto simp: safe_cut_def)

definition budget_wf :: "selectionBudget \<Rightarrow> bool" where
  "budget_wf b \<longleftrightarrow> (useBytes b \<longrightarrow> 0 \<le> remainingBytes b) \<and> (useLines b \<longrightarrow> 0 \<le> remainingLines b)"

lemma consume_simps [simp]:
  "useBytes (consume l k b) = useBytes b" "useLines (consume l k b) = useLines b"
  "occupied (consume l k b) = occupied b"
  "remainingBytes (consume l k b) = (if useBytes b then remainingBytes b - k else remainingBytes b)"
  by (simp_all add: consume_def)

lemma consume_wf:
  "budget_wf b \<Longrightarrow> canSelect b l \<Longrightarrow> (useBytes b \<Longrightarrow> k \<le> remainingBytes b) \<Longrightarrow> budget_wf (consume l k b)"
  by (auto simp: budget_wf_def consume_def canSelect_def)

definition prefix_cut :: "selectionBudget \<Rightarrow> preparedLine \<Rightarrow> int" where
  "prefix_cut b line = (if useBytes b \<and> sourceBytes line > remainingBytes b
     then safePrefix line (remainingBytes b) else sourceBytes line)"

definition suffix_cut :: "selectionBudget \<Rightarrow> preparedLine \<Rightarrow> int" where
  "suffix_cut b line = (if useBytes b \<and> sourceBytes line > remainingBytes b
     then safeSuffixStart line (remainingBytes b) else 0)"

lemma cut_bounds:
  assumes "wf_line line" "budget_wf b"
  shows "0 \<le> prefix_cut b line" "prefix_cut b line \<le> sourceBytes line"
    "useBytes b \<Longrightarrow> prefix_cut b line \<le> remainingBytes b"
    "safe_cut (fullSource line) (prefix_cut b line)"
    "0 \<le> suffix_cut b line" "suffix_cut b line \<le> sourceBytes line"
    "useBytes b \<Longrightarrow> sourceBytes line - suffix_cut b line \<le> remainingBytes b"
    "safe_cut (fullSource line) (suffix_cut b line)"
proof -
  have "0 \<le> sourceBytes line" and full: "safe_cut (fullSource line) 0" "safe_cut (fullSource line) (sourceBytes line)"
    using assms(1) by (auto simp: wf_line_def safe_cut_def)
  moreover have "useBytes b \<Longrightarrow> 0 \<le> remainingBytes b" using assms(2) by (simp add: budget_wf_def)
  ultimately show "0 \<le> prefix_cut b line" "prefix_cut b line \<le> sourceBytes line"
    "useBytes b \<Longrightarrow> prefix_cut b line \<le> remainingBytes b"
    "safe_cut (fullSource line) (prefix_cut b line)"
    "0 \<le> suffix_cut b line" "suffix_cut b line \<le> sourceBytes line"
    "useBytes b \<Longrightarrow> sourceBytes line - suffix_cut b line \<le> remainingBytes b"
    "safe_cut (fullSource line) (suffix_cut b line)"
    using safePrefix_ok [OF assms(1), of "remainingBytes b"] safeSuffixStart_ok [OF assms(1), of "remainingBytes b"]
    by (auto simp: prefix_cut_def suffix_cut_def)
qed

lemma prefix_loop_Cons:
  "prefix_loop (line # lines) b =
     (if \<not> canSelect b line \<or> prefix_cut b line = 0 \<and> sourceBytes line \<noteq> 0 then []
      else \<lparr>sel_line = line, sel_start = 0, sel_end = prefix_cut b line\<rparr> #
        (if prefix_cut b line \<noteq> sourceBytes line then []
         else prefix_loop lines (consume line (prefix_cut b line) b)))"
  by (simp add: prefix_cut_def Let_def)

lemma suffix_loop_Cons:
  "suffix_loop (line # lines) b =
     (if \<not> canSelect b line \<or> sourceBytes line - suffix_cut b line = 0 \<and> sourceBytes line \<noteq> 0 then []
      else \<lparr>sel_line = line, sel_start = suffix_cut b line, sel_end = sourceBytes line\<rparr> #
        (if suffix_cut b line \<noteq> 0 then []
         else suffix_loop lines (consume line (sourceBytes line - suffix_cut b line) b)))"
  by (simp add: suffix_cut_def Let_def)

declare prefix_loop.simps(2) [simp del] suffix_loop.simps(2) [simp del]

text \<open>What both loops keep: every selection is a whole line or touches an edge at a safe cut, and the
  selected bytes fit the byte limit.\<close>

lemma prefix_loop_ok:
  "budget_wf b \<Longrightarrow> (\<And>pl. pl \<in> set lines \<Longrightarrow> wf_line pl) \<Longrightarrow>
   (\<forall>sel \<in> set (prefix_loop lines b). sel_ok sel) \<and>
   (useBytes b \<longrightarrow> selectionBytes (prefix_loop lines b) \<le> remainingBytes b)"
proof (induction lines arbitrary: b)
  case (Cons line lines)
  then have wl: "wf_line line" by simp
  note cb = cut_bounds [OF wl Cons.prems(1)]
  have ok: "sel_ok \<lparr>sel_line = line, sel_start = 0, sel_end = prefix_cut b line\<rparr>"
    using wl cb(1,2,4) by (auto simp: sel_ok_def safe_cut_def)
  have "canSelect b line \<Longrightarrow> budget_wf (consume line (prefix_cut b line) b)"
    by (intro consume_wf Cons.prems(1) cb(3))
  from Cons.IH [OF this] Cons.prems(2) ok cb show ?case
    by (auto simp: prefix_loop_Cons)
qed (simp add: budget_wf_def)

lemma suffix_loop_ok:
  "budget_wf b \<Longrightarrow> (\<And>pl. pl \<in> set lines \<Longrightarrow> wf_line pl) \<Longrightarrow>
   (\<forall>sel \<in> set (suffix_loop lines b). sel_ok sel) \<and>
   (useBytes b \<longrightarrow> selectionBytes (suffix_loop lines b) \<le> remainingBytes b)"
proof (induction lines arbitrary: b)
  case (Cons line lines)
  then have wl: "wf_line line" by simp
  note cb = cut_bounds [OF wl Cons.prems(1)]
  have ok: "sel_ok \<lparr>sel_line = line, sel_start = suffix_cut b line, sel_end = sourceBytes line\<rparr>"
    using wl cb(5,6,8) by (auto simp: sel_ok_def safe_cut_def)
  have "canSelect b line \<Longrightarrow> budget_wf (consume line (sourceBytes line - suffix_cut b line) b)"
    by (intro consume_wf Cons.prems(1) cb(7))
  from Cons.IH [OF this] Cons.prems(2) ok cb show ?case
    by (auto simp: suffix_loop_Cons)
qed (simp add: budget_wf_def)

text \<open>The selected text is a prefix (a suffix) of the source text.\<close>

lemma prefix_loop_text:
  "(\<And>pl. pl \<in> set lines \<Longrightarrow> wf_line pl) \<Longrightarrow> prefix (kept_text (prefix_loop lines b)) (source_text lines)"
proof (induction lines arbitrary: b)
  case (Cons line lines)
  then have "wf_line line" by simp
  then have "prefix (sel_text \<lparr>sel_line = line, sel_start = 0, sel_end = prefix_cut b line\<rparr>) (fullSource line)"
    "prefix_cut b line = sourceBytes line \<Longrightarrow>
       sel_text \<lparr>sel_line = line, sel_start = 0, sel_end = prefix_cut b line\<rparr> = fullSource line"
    by (auto simp: sel_text_def upto_int_prefix)
  with Cons show ?case
    by (auto simp: prefix_loop_Cons source_text_def intro: prefix_prefix)
qed (simp add: source_text_def)

lemma suffix_loop_text:
  "(\<And>pl. pl \<in> set lines \<Longrightarrow> wf_line pl) \<Longrightarrow>
   suffix (kept_text (rev (suffix_loop lines b))) (source_text (rev lines))"
proof (induction lines arbitrary: b)
  case (Cons line lines)
  then have "wf_line line" by simp
  then have "suffix (sel_text \<lparr>sel_line = line, sel_start = suffix_cut b line, sel_end = sourceBytes line\<rparr>) (fullSource line)"
    "suffix_cut b line = 0 \<Longrightarrow>
       sel_text \<lparr>sel_line = line, sel_start = suffix_cut b line, sel_end = sourceBytes line\<rparr> = fullSource line"
    by (auto simp: sel_text_def from_int_suffix)
  with Cons show ?case
    by (auto simp: suffix_loop_Cons source_text_def intro: suffix_appendI)
qed (simp add: source_text_def)

text \<open>The selected lines are the first (the last) lines, and at most \<open>remainingLines\<close> of them are new.\<close>

lemma prefix_loop_lines: "prefix (map sel_line (prefix_loop lines b)) lines"
  by (induction lines arbitrary: b) (auto simp: prefix_loop_Cons)

lemma suffix_loop_lines: "prefix (map sel_line (suffix_loop lines b)) lines"
  by (induction lines arbitrary: b) (auto simp: suffix_loop_Cons)

definition new_lines :: "selectionBudget \<Rightarrow> lineSelection list \<Rightarrow> int" where
  "new_lines b sels = int (length (filter (\<lambda>sel. lid (sel_line sel) \<notin> set (occupied b)) sels))"

lemma new_lines_simps [simp]:
  "new_lines b [] = 0"
  "new_lines b (x # xs) = (if lid (sel_line x) \<in> set (occupied b) then 0 else 1) + new_lines b xs"
  "new_lines (consume l k b) xs = new_lines b xs"
  by (simp_all add: new_lines_def)

lemma consume_lines:
  "useLines b \<Longrightarrow> 0 \<le> remainingLines b \<Longrightarrow> canSelect b l \<Longrightarrow>
   0 \<le> remainingLines (consume l k b) \<and>
   remainingLines b = (if lid l \<in> set (occupied b) then 0 else 1) + remainingLines (consume l k b)"
  by (auto simp: consume_def canSelect_def)

lemma prefix_loop_new:
  "useLines b \<Longrightarrow> 0 \<le> remainingLines b \<Longrightarrow> new_lines b (prefix_loop lines b) \<le> remainingLines b"
proof (induction lines arbitrary: b)
  case (Cons line lines)
  note step = consume_lines [OF Cons.prems, of line "prefix_cut b line"]
  show ?case
  proof (cases "canSelect b line")
    case True
    have "useLines (consume line (prefix_cut b line) b)" using Cons.prems by simp
    then show ?thesis using Cons.IH [of "consume line (prefix_cut b line) b"] step [OF True] Cons.prems
      by (auto simp: prefix_loop_Cons)
  qed (use Cons.prems in \<open>simp add: prefix_loop_Cons\<close>)
qed simp

lemma suffix_loop_new:
  "useLines b \<Longrightarrow> 0 \<le> remainingLines b \<Longrightarrow> new_lines b (suffix_loop lines b) \<le> remainingLines b"
proof (induction lines arbitrary: b)
  case (Cons line lines)
  let ?k = "sourceBytes line - suffix_cut b line"
  note step = consume_lines [OF Cons.prems, of line ?k]
  show ?case
  proof (cases "canSelect b line")
    case True
    have "useLines (consume line ?k b)" using Cons.prems by simp
    then show ?thesis using Cons.IH [of "consume line ?k b"] step [OF True] Cons.prems
      by (auto simp: suffix_loop_Cons)
  qed (use Cons.prems in \<open>simp add: suffix_loop_Cons\<close>)
qed simp

definition id_count :: "lineSelection list \<Rightarrow> int" where
  "id_count sels = int (length (selectionLineIDs sels))"

lemma length_remdups_append_le:
  "length (remdups (xs @ ys)) \<le> length (remdups xs) + length (filter (\<lambda>y. y \<notin> set xs) ys)"
proof -
  have "card (set xs \<union> set ys) \<le> card (set xs) + card (set (filter (\<lambda>y. y \<notin> set xs) ys))"
    by (rule order_trans [OF card_mono card_Un_le]) auto
  also have "\<dots> \<le> card (set xs) + length (filter (\<lambda>y. y \<notin> set xs) ys)"
    using card_length by (rule add_left_mono)
  finally show ?thesis by (simp add: length_remdups_card_conv)
qed

lemma id_count_append:
  "occupied b = selectionLineIDs occ \<Longrightarrow> id_count (occ @ sels) \<le> id_count occ + new_lines b sels"
  using length_remdups_append_le [of "map (lid \<circ> sel_line) occ" "map (lid \<circ> sel_line) sels"]
  by (simp add: id_count_def selectionLineIDs_def new_lines_def filter_map comp_def)

lemma id_count_mono: "set (map (lid \<circ> sel_line) xs) \<subseteq> set (map (lid \<circ> sel_line) ys) \<Longrightarrow> id_count xs \<le> id_count ys"
  by (auto simp: id_count_def selectionLineIDs_def length_remdups_card_conv intro!: card_mono)

section \<open>The two selection functions\<close>

lemma newSelectionBudget_facts:
  assumes "newSelectionBudget bl ll ub ul occ = (b, valid)"
  shows "useBytes b = ub" "useLines b = ul" "occupied b = selectionLineIDs occ" "remainingBytes b = bl"
    "ul \<Longrightarrow> remainingLines b = ll - id_count occ" "valid \<longleftrightarrow> 0 \<le> remainingLines b"
  using assms by (auto simp: newSelectionBudget_def Let_def id_count_def)

lemma selectPrefixWithin_facts:
  fixes ll :: int and ul :: bool and occ :: "lineSelection list"
  assumes wf: "\<And>pl. pl \<in> set lines \<Longrightarrow> wf_line pl" and bl: "ub \<longrightarrow> 0 \<le> bl"
  defines "sels \<equiv> selectPrefixWithin lines bl ll ub ul occ"
  shows "\<forall>sel \<in> set sels. sel_ok sel" "ub \<Longrightarrow> selectionBytes sels \<le> bl"
    "prefix (kept_text sels) (source_text lines)" "prefix (map sel_line sels) lines"
    "ul \<Longrightarrow> id_count occ \<le> ll \<Longrightarrow> id_count (occ @ sels) \<le> ll"
proof -
  obtain b valid where nb: "newSelectionBudget bl ll ub ul occ = (b, valid)" by fastforce
  note f = newSelectionBudget_facts [OF nb]
  have sels: "sels = (if valid then prefix_loop lines b else [])"
    by (simp add: sels_def selectPrefixWithin_def nb)
  have "valid \<Longrightarrow> budget_wf b" using f(1,2,4,6) bl by (auto simp: budget_wf_def)
  with prefix_loop_ok [of b lines] wf
  show "\<forall>sel \<in> set sels. sel_ok sel" "ub \<Longrightarrow> selectionBytes sels \<le> bl"
    using f bl by (auto simp: sels)
  show "prefix (kept_text sels) (source_text lines)" "prefix (map sel_line sels) lines"
    using wf by (simp_all add: sels prefix_loop_text prefix_loop_lines)
  show "id_count (occ @ sels) \<le> ll" if "ul" "id_count occ \<le> ll"
    using that f id_count_append [OF f(3), of sels] prefix_loop_new [of b lines]
    by (auto simp: sels)
qed

lemma selectSuffixWithin_facts:
  fixes ll :: int and ul :: bool and occ :: "lineSelection list"
  assumes wf: "\<And>pl. pl \<in> set lines \<Longrightarrow> wf_line pl" and bl: "ub \<longrightarrow> 0 \<le> bl"
  defines "sels \<equiv> selectSuffixWithin lines bl ll ub ul occ"
  shows "\<forall>sel \<in> set sels. sel_ok sel" "ub \<Longrightarrow> selectionBytes sels \<le> bl"
    "suffix (kept_text sels) (source_text lines)" "suffix (map sel_line sels) lines"
    "ul \<Longrightarrow> id_count occ \<le> ll \<Longrightarrow> id_count (occ @ sels) \<le> ll"
proof -
  obtain b valid where nb: "newSelectionBudget bl ll ub ul occ = (b, valid)" by fastforce
  note f = newSelectionBudget_facts [OF nb]
  have sels: "sels = (if valid then rev (suffix_loop (rev lines) b) else [])"
    by (simp add: sels_def selectSuffixWithin_def nb)
  have "valid \<Longrightarrow> budget_wf b" using f(1,2,4,6) bl by (auto simp: budget_wf_def)
  with suffix_loop_ok [of b "rev lines"] wf
  show "\<forall>sel \<in> set sels. sel_ok sel" "ub \<Longrightarrow> selectionBytes sels \<le> bl"
    using f bl by (auto simp: sels)
  show "suffix (kept_text sels) (source_text lines)"
    using wf suffix_loop_text [of "rev lines" b] by (simp add: sels)
  show "suffix (map sel_line sels) lines"
    using suffix_loop_lines [of "rev lines" b] by (simp add: sels suffix_to_prefix rev_map)
  have "new_lines b (rev xs) = new_lines b xs" for xs
    by (simp add: new_lines_def rev_filter [symmetric])
  then show "id_count (occ @ sels) \<le> ll" if "ul" "id_count occ \<le> ll"
    using that f id_count_append [OF f(3), of sels] suffix_loop_new [of b "rev lines"]
    by (auto simp: sels)
qed

lemma selectOuterEdges_facts:
  assumes wf: "\<And>pl. pl \<in> set lines \<Longrightarrow> wf_line pl"
    and e: "selectOuterEdges p lines lines = (head, tail)"
  shows "\<forall>sel \<in> set (head @ tail). sel_ok sel"
    "0 < MaxBytes p \<Longrightarrow> selectionBytes head + selectionBytes tail \<le> MaxBytes p"
    "0 < MaxLines p \<Longrightarrow> id_count (head @ tail) \<le> MaxLines p"
    "prefix (kept_text head) (source_text lines)" "suffix (kept_text tail) (source_text lines)"
    "prefix (map sel_line head) lines" "suffix (map sel_line tail) lines"
proof -
  let ?ub = "MaxBytes p > 0" and ?ul = "MaxLines p > 0"
  define f where "f = normalizedFraction (HeadFraction p)"
  define tb where "tb = snd (limitSplit (MaxBytes p) f)"
  define tl1 where "tl1 = snd (limitSplit (MaxLines p) f)"
  define t1 where "t1 = selectSuffixWithin lines tb tl1 ?ub ?ul []"
  define hb where "hb = (if ?ub then MaxBytes p - selectionBytes t1 else MaxBytes p)"
  define tb2 where "tb2 = (if ?ub then MaxBytes p - selectionBytes head else MaxBytes p)"
  have head: "head = selectPrefixWithin lines hb (MaxLines p) ?ub ?ul t1"
    and tail: "tail = selectSuffixWithin lines tb2 (MaxLines p) ?ub ?ul head"
    using e by (auto simp: selectOuterEdges_def Let_def t1_def hb_def tb2_def tb_def tl1_def f_def selectSuffix_def)
  have split: "0 \<le> tb" "0 \<le> tl1" "?ub \<Longrightarrow> tb \<le> MaxBytes p" "?ul \<Longrightarrow> tl1 \<le> MaxLines p"
    using limitSplit_bounds [of "MaxBytes p" f] limitSplit_bounds [of "MaxLines p" f]
    by (auto simp: tb_def tl1_def)
  note T1 = selectSuffixWithin_facts [OF wf, where bl = tb and ll = tl1 and ub = ?ub and ul = ?ul and occ = "[]" and lines = lines, folded t1_def]
  have hb: "?ub \<longrightarrow> 0 \<le> hb" using T1(2) split by (auto simp: hb_def)
  note H = selectPrefixWithin_facts [OF wf hb, where ll = "MaxLines p" and ul = ?ul and occ = t1 and lines = lines, folded head]
  have t1b: "0 \<le> selectionBytes t1"
    using T1(1) split kept_text_length [of t1] by (metis slen_nonneg)
  have tb2: "?ub \<longrightarrow> 0 \<le> tb2" using H(2) t1b by (auto simp: tb2_def hb_def)
  note T = selectSuffixWithin_facts [OF wf tb2, where ll = "MaxLines p" and ul = ?ul and occ = head and lines = lines, folded tail]
  show "\<forall>sel \<in> set (head @ tail). sel_ok sel" using H(1) T(1) by auto
  show "0 < MaxBytes p \<Longrightarrow> selectionBytes head + selectionBytes tail \<le> MaxBytes p"
    using T(2) by (auto simp: tb2_def)
  show "prefix (kept_text head) (source_text lines)" "suffix (kept_text tail) (source_text lines)"
    "prefix (map sel_line head) lines" "suffix (map sel_line tail) lines"
    using H(3,4) T(3,4) by auto
  assume ul: "0 < MaxLines p"
  have "id_count t1 \<le> MaxLines p" using T1(5) ul split by (auto simp: id_count_def selectionLineIDs_def)
  then have "id_count (t1 @ head) \<le> MaxLines p" using H(5) ul by auto
  moreover have "id_count head \<le> id_count (t1 @ head)" by (rule id_count_mono) auto
  ultimately show "id_count (head @ tail) \<le> MaxLines p" using T(5) ul by auto
qed

text \<open>A head and a tail that share a line, or between them touch all of them, count every line.\<close>

lemma source_text_append [simp]: "source_text (xs @ ys) = source_text xs @ source_text ys"
  by (simp add: source_text_def)

lemma selectionBytes_le_lines:
  "(\<And>sel. sel \<in> set sels \<Longrightarrow> sel_ok sel) \<Longrightarrow> selectionBytes sels \<le> slen (source_text (map sel_line sels))"
proof (induction sels)
  case (Cons x xs)
  then have "sel_ok x" and "selectionBytes xs \<le> slen (source_text (map sel_line xs))" by auto
  then show ?case by (auto simp: sel_ok_def source_text_def dest!: wf_lineD(1))
qed (simp add: source_text_def)

lemma id_count_covers:
  assumes "map lid lines = [0..<length lines]" "prefix (map sel_line head) lines"
    "suffix (map sel_line tail) lines" "length lines \<le> length head + length tail"
  shows "id_count (head @ tail) = int (length lines)"
proof -
  obtain r where r: "lines = map sel_line head @ r" using assms(2) by (auto simp: prefix_def)
  obtain q where q: "lines = q @ map sel_line tail" using assms(3) by (auto simp: suffix_def)
  have "set lines = set (map sel_line head) \<union> set (map sel_line tail)"
  proof
    have "length q \<le> length (map sel_line head)" using q assms(4) by (metis add_le_cancel_right length_append length_map)
    then have "prefix q (map sel_line head)" using q r by (metis prefix_def prefix_length_prefix)
    then have "set q \<subseteq> set (map sel_line head)" by (rule set_mono_prefix)
    then show "set lines \<subseteq> set (map sel_line head) \<union> set (map sel_line tail)" using q by auto
    have "set (map sel_line head) \<subseteq> set lines" by (subst r) simp
    moreover have "set (map sel_line tail) \<subseteq> set lines" by (subst q) simp
    ultimately show "set (map sel_line head) \<union> set (map sel_line tail) \<subseteq> set lines" by simp
  qed
  then have "set (map (lid \<circ> sel_line) (head @ tail)) = set (map lid lines)" by auto
  then show ?thesis
    using assms(1) by (simp add: id_count_def selectionLineIDs_def length_remdups_card_conv)
qed

lemma edges_disjoint:
  assumes wf: "\<And>pl. pl \<in> set lines \<Longrightarrow> wf_line pl" and ids: "map lid lines = [0..<length lines]"
    and e: "selectOuterEdges p lines lines = (head, tail)"
    and cut: "0 < MaxBytes p \<and> MaxBytes p < slen (source_text lines) \<or> 0 < MaxLines p \<and> MaxLines p < slen lines"
  shows "\<exists>mid. source_text lines = kept_text head @ mid @ kept_text tail \<and>
    (0 < MaxBytes p \<and> MaxBytes p < slen (source_text lines) \<longrightarrow> mid \<noteq> [])"
proof -
  note F = selectOuterEdges_facts [OF wf e]
  have len: "slen (kept_text head) = selectionBytes head" "slen (kept_text tail) = selectionBytes tail"
    using F(1) by (auto intro: kept_text_length)
  have fits: "selectionBytes head + selectionBytes tail \<le> slen (source_text lines)"
  proof (cases "0 < MaxBytes p \<and> MaxBytes p < slen (source_text lines)")
    case True
    then show ?thesis using F(2) by linarith
  next
    case False
    with cut have "0 < MaxLines p" "MaxLines p < int (length lines)" by (auto simp: slen_def)
    with F(3) id_count_covers [OF ids F(6,7)] have "\<not> length lines \<le> length head + length tail" by auto
    then have "length (map sel_line head) + length (map sel_line tail) \<le> length lines" by simp
    from prefix_suffix_middle [OF F(6,7) this]
    obtain m where "lines = map sel_line head @ m @ map sel_line tail" by blast
    then have "slen (source_text (map sel_line head)) + slen (source_text (map sel_line tail))
        \<le> slen (source_text lines)" by simp
    then show ?thesis
      using selectionBytes_le_lines [of head] selectionBytes_le_lines [of tail] F(1) by fastforce
  qed
  then have "length (kept_text head) + length (kept_text tail) \<le> length (source_text lines)"
    using len by (simp add: slen_def)
  from prefix_suffix_middle [OF F(4,5) this]
  obtain mid where mid: "source_text lines = kept_text head @ mid @ kept_text tail" by blast
  moreover have "mid \<noteq> []" if "0 < MaxBytes p \<and> MaxBytes p < slen (source_text lines)"
    using that F(2) mid len by auto
  ultimately show ?thesis by auto
qed

section \<open>Rendering\<close>

lemma renderRange_total: "sel_ok sel \<Longrightarrow> \<exists>r. renderRange (sel_line sel) (sel_start sel) (sel_end sel) = Some r"
  by (auto simp: sel_ok_def renderRange_def Let_def)

lemma renderSelections_total: "\<forall>sel \<in> set sels. sel_ok sel \<Longrightarrow> \<exists>r. renderSelections sels = Some r"
proof (induction sels)
  case (Cons sel sels)
  then show ?case using renderRange_total [of sel] by fastforce
qed simp

text \<open>The head and the tail \<open>Apply\<close> selects, and the two ways it ends.\<close>

definition edges :: "policy \<Rightarrow> go_string \<Rightarrow> lineSelection list \<times> lineSelection list" where
  "edges p s = selectOuterEdges p (prepared_lines p s) (prepared_lines p s)"

definition processed_text :: "policy \<Rightarrow> go_string \<Rightarrow> go_string" where
  "processed_text p s = source_text (prepared_lines p s)"

definition over_bytes :: "policy \<Rightarrow> go_string \<Rightarrow> bool" where
  "over_bytes p s \<longleftrightarrow> 0 < MaxBytes p \<and> MaxBytes p < slen (processed_text p s)"

definition over_lines :: "policy \<Rightarrow> go_string \<Rightarrow> bool" where
  "over_lines p s \<longleftrightarrow> 0 < MaxLines p \<and> MaxLines p < slen (splitLines s)"

definition elided :: "policy \<Rightarrow> go_string \<Rightarrow> bool" where
  "elided p s \<longleftrightarrow> (\<exists>pl \<in> set (prepared_lines p s). lineMarker pl \<noteq> [])"

lemma prepared_lines_length: "slen (prepared_lines p s) = slen (splitLines s)"
  by (simp add: prepared_lines_def slen_def)

lemma Apply_unfold:
  "Apply p s = renderPrepared p s (prepared_lines p s) (slen s) (slen (splitLines s))
     (slen (processed_text p s)) (elided p s)"
  using source_bytes [of "prepared_lines p s"] prepared_lines_wf
  by (simp add: Apply_def Let_def prepared_lines_def processed_text_def elided_def list_ex_iff)

lemma Apply_complete:
  assumes "\<not> over_bytes p s" "\<not> over_lines p s"
  shows "Apply p s = Some (concat (map renderFull (prepared_lines p s)),
    \<lparr>Truncated = elided p s, Reason = (if elided p s then ReasonLineLength else []),
     OriginalBytes = slen s, OriginalLines = slen (splitLines s),
     KeptBytes = slen (processed_text p s), KeptLines = slen (splitLines s)\<rparr>)"
  using assms
  by (auto simp: Apply_unfold renderPrepared_def renderPreparedCandidates_def truncationReason_def
      over_bytes_def over_lines_def renderCompleteSelection_def Let_def)

lemma Apply_truncated:
  assumes "over_bytes p s \<or> over_lines p s" "edges p s = (head, tail)"
  shows "Apply p s = renderTruncatedSelection s (if over_bytes p s then ReasonBytes else ReasonLines)
    head tail (slen s) (slen (splitLines s))"
  using assms
  by (auto simp: Apply_unfold renderPrepared_def renderPreparedCandidates_def truncationReason_def
      over_bytes_def over_lines_def reason_defs edges_def Let_def)

lemma Apply_truncated_report:
  assumes "over_bytes p s \<or> over_lines p s" "edges p s = (head, tail)" "Apply p s = Some (out, r)"
  shows "KeptBytes r = selectionBytes head + selectionBytes tail" "KeptLines r = id_count (head @ tail)"
    "Truncated r" "OriginalBytes r = slen s" "OriginalLines r = slen (splitLines s)"
    "Reason r = (if over_bytes p s then ReasonBytes else ReasonLines)"
  using assms(3) Apply_truncated [OF assms(1,2)]
  by (auto simp: renderTruncatedSelection_def Let_def distinctSelectionLines_def id_count_def split: option.splits)

lemma edges_facts:
  assumes "edges p s = (head, tail)"
  shows "\<forall>sel \<in> set (head @ tail). sel_ok sel"
    "0 < MaxBytes p \<Longrightarrow> selectionBytes head + selectionBytes tail \<le> MaxBytes p"
    "0 < MaxLines p \<Longrightarrow> id_count (head @ tail) \<le> MaxLines p"
  using selectOuterEdges_facts(1-3) [where lines = "prepared_lines p s" and p = p, OF prepared_lines_wf
      assms [unfolded edges_def]] by simp_all

lemma Apply_defined: "\<exists>out r. Apply p s = Some (out, r)"
proof (cases "over_bytes p s \<or> over_lines p s")
  case True
  obtain head tail where e: "edges p s = (head, tail)" by fastforce
  have "\<forall>sel \<in> set head. sel_ok sel" "\<forall>sel \<in> set tail. sel_ok sel" using edges_facts(1) [OF e] by auto
  then show ?thesis
    using Apply_truncated [OF True e] renderSelections_total [of head] renderSelections_total [of tail]
    by (auto simp: renderTruncatedSelection_def Let_def)
next
  case False
  then show ?thesis using Apply_complete [of p s] by auto
qed

lemma Apply_limits:
  assumes "Apply p s = Some (out, r)"
  shows "(0 < MaxBytes p \<longrightarrow> KeptBytes r \<le> MaxBytes p) \<and> (0 < MaxLines p \<longrightarrow> KeptLines r \<le> MaxLines p)"
proof (cases "over_bytes p s \<or> over_lines p s")
  case True
  obtain head tail where e: "edges p s = (head, tail)" by fastforce
  show ?thesis
    using Apply_truncated_report(1,2) [OF True e assms] edges_facts(2,3) [OF e] by auto
next
  case False
  then show ?thesis using Apply_complete [of p s] assms by (auto simp: over_bytes_def over_lines_def)
qed

section \<open>Properties\<close>

text \<open>\<open>Apply\<close> never panics: for every policy (zero and negative limits included) and every input it
  renders every selection it makes.\<close>

theorem apply_total: "\<exists>out r. Apply p s = Some (out, r)"
  by (rule Apply_defined)

text \<open>C2: The source content that \<open>Apply\<close> reports as kept respects the positive limits of the policy:
  at most \<open>MaxBytes\<close> bytes, and no more than \<open>MaxLines\<close> distinct lines.\<close>

theorem apply_respects_limits:
  assumes "Apply p s = Some (out, r)"
  shows "(0 < MaxBytes p \<longrightarrow> KeptBytes r \<le> MaxBytes p) \<and> (0 < MaxLines p \<longrightarrow> KeptLines r \<le> MaxLines p)"
  using assms by (rule Apply_limits)

definition ten_bytes :: policy where
  "ten_bytes = \<lparr>MaxBytes = 10, MaxLines = 2, MaxLineBytes = 0, HeadFraction = f_half\<rparr>"

theorem apply_respects_limits_witness:
  "\<exists>out r. Apply ten_bytes ''abcdefghijklmnopqrstuvwxyz'' = Some (out, r) \<and> KeptBytes r \<le> 10"
proof -
  obtain out r where a: "Apply ten_bytes ''abcdefghijklmnopqrstuvwxyz'' = Some (out, r)"
    using Apply_defined by blast
  then show ?thesis using apply_respects_limits [OF a] by (simp add: ten_bytes_def)
qed

text \<open>What a truncated output keeps is an outer edge of the text on each side: the kept head is a
  prefix and the kept tail a suffix of the processed text (the input after per-line elision), they do
  not overlap, the report counts exactly their bytes, and when the byte limit was exceeded something
  between them is really left out.\<close>

theorem apply_keeps_outer_edges:
  assumes "over_bytes p s \<or> over_lines p s" and "Apply p s = Some (out, r)" and "edges p s = (head, tail)"
  shows "\<exists>mid. processed_text p s = kept_text head @ mid @ kept_text tail \<and>
    KeptBytes r = slen (kept_text head) + slen (kept_text tail) \<and> (over_bytes p s \<longrightarrow> mid \<noteq> [])"
proof -
  have cut: "0 < MaxBytes p \<and> MaxBytes p < slen (source_text (prepared_lines p s)) \<or>
    0 < MaxLines p \<and> MaxLines p < slen (prepared_lines p s)"
    using assms(1) by (auto simp: over_bytes_def over_lines_def processed_text_def prepared_lines_length)
  have "\<And>sel. sel \<in> set (head @ tail) \<Longrightarrow> sel_ok sel" using edges_facts(1) [OF assms(3)] by auto
  then have "slen (kept_text head) = selectionBytes head" "slen (kept_text tail) = selectionBytes tail"
    by (auto intro: kept_text_length)
  with edges_disjoint [OF prepared_lines_wf prepared_lines_ids assms(3) [unfolded edges_def] cut]
    Apply_truncated_report(1) [OF assms(1,3,2)]
  show ?thesis by (auto simp: processed_text_def over_bytes_def)
qed

theorem apply_keeps_outer_edges_witness:
  "\<exists>mid head tail. edges ten_bytes ''abcdefghijklmnopqrstuvwxyz'' = (head, tail) \<and>
    processed_text ten_bytes ''abcdefghijklmnopqrstuvwxyz'' = kept_text head @ mid @ kept_text tail \<and> mid \<noteq> []"
proof -
  let ?s = "''abcdefghijklmnopqrstuvwxyz''"
  have "over_bytes ten_bytes ?s"
    by (simp add: over_bytes_def ten_bytes_def processed_text_def prepared_lines_def splitLines_def
        prepareCompleteLine_def source_text_def Let_def)
  moreover obtain out r where "Apply ten_bytes ?s = Some (out, r)" using Apply_defined by blast
  moreover obtain head tail where "edges ten_bytes ?s = (head, tail)" by fastforce
  ultimately show ?thesis using apply_keeps_outer_edges [of ten_bytes ?s out r head tail] by blast
qed

text \<open>No cut splits a UTF-8 sequence or a CRLF pair: every selection starts and ends, within the
  text of its line, at an edge or at a byte that is neither a continuation byte nor the LF of a CRLF.\<close>

theorem apply_cuts_are_safe:
  assumes "edges p s = (head, tail)" and "sel \<in> set (head @ tail)"
  shows "safe_cut (fullSource (sel_line sel)) (sel_start sel) \<and> safe_cut (fullSource (sel_line sel)) (sel_end sel)"
  using edges_facts(1) [OF assms(1)] assms(2) by (auto simp: sel_ok_def)

definition four_bytes :: policy where
  "four_bytes = \<lparr>MaxBytes = 4, MaxLines = 0, MaxLineBytes = 0, HeadFraction = f_one\<rparr>"

definition euros :: go_string where
  "euros = [CHR 0xE2, CHR 0x82, CHR 0xAC, CHR 0xE2, CHR 0x82, CHR 0xAC]"

theorem apply_cuts_are_safe_witness:
  "\<exists>sel \<in> set (fst (edges four_bytes euros)). sel_end sel = 3 \<and> safe_cut (fullSource (sel_line sel)) (sel_end sel)"
proof -
  have e: "fst (edges four_bytes euros) \<noteq> [] \<and> sel_end (hd (fst (edges four_bytes euros))) = 3"
    by code_simp
  then have "hd (fst (edges four_bytes euros)) \<in> set (fst (edges four_bytes euros))" by simp
  moreover from this have "safe_cut (fullSource (sel_line (hd (fst (edges four_bytes euros)))))
      (sel_end (hd (fst (edges four_bytes euros))))"
    using apply_cuts_are_safe [of four_bytes euros "fst (edges four_bytes euros)" "snd (edges four_bytes euros)"]
    by simp
  ultimately show ?thesis using e by blast
qed

lemma renderFull_unelided: "lineMarker pl = [] \<Longrightarrow> renderFull pl = fullSource pl"
  by (simp add: renderFull_def)

lemma prepare_short:
  "(\<And>l. l \<in> set ls \<Longrightarrow> MaxLineBytes p \<le> 0 \<or> slen (line_body l) \<le> MaxLineBytes p) \<Longrightarrow>
   map fullSource (prepare_from i p ls) = map line_text ls \<and> (\<forall>pl \<in> set (prepare_from i p ls). lineMarker pl = [])"
proof (induction i p ls rule: prepare_from.induct)
  case (2 i p l ls)
  have "MaxLineBytes p \<le> 0 \<or> slen (line_body l) \<le> MaxLineBytes p" using "2.prems" by simp
  with 2 show ?case by (simp add: prepareCompleteLine_def line_text_def Let_def)
qed simp

text \<open>A text within the limits is returned unchanged and reported as complete.\<close>

theorem apply_identity:
  assumes lines: "\<forall>l \<in> set (splitLines s). MaxLineBytes p \<le> 0 \<or> slen (line_body l) \<le> MaxLineBytes p"
    and "MaxBytes p \<le> 0 \<or> slen s \<le> MaxBytes p" and "MaxLines p \<le> 0 \<or> slen (splitLines s) \<le> MaxLines p"
  shows "Apply p s = Some (s, \<lparr>Truncated = False, Reason = [], OriginalBytes = slen s,
    OriginalLines = slen (splitLines s), KeptBytes = slen s, KeptLines = slen (splitLines s)\<rparr>)"
proof -
  have m: "map fullSource (prepared_lines p s) = map line_text (splitLines s)"
    "\<forall>pl \<in> set (prepared_lines p s). lineMarker pl = []"
    using prepare_short [of "splitLines s" p 0] lines by (auto simp: prepared_lines_def)
  have t: "processed_text p s = s"
    by (simp add: processed_text_def source_text_def m(1) splitLines_text)
  have "map renderFull (prepared_lines p s) = map fullSource (prepared_lines p s)"
    using m(2) by (simp add: renderFull_unelided)
  then have "concat (map renderFull (prepared_lines p s)) = s"
    using m(1) by (simp add: splitLines_text)
  then show ?thesis
    using Apply_complete [of p s] assms(2,3) m(2) t by (auto simp: over_bytes_def over_lines_def elided_def)
qed

theorem apply_identity_witness:
  "\<exists>r. Apply Defaults [CHR ''a'', LF, CHR ''b''] = Some ([CHR ''a'', LF, CHR ''b''], r) \<and> \<not> Truncated r"
  using apply_identity [of "[CHR ''a'', LF, CHR ''b'']" Defaults]
  by (simp add: Defaults_def splitLines_def)

text \<open>A negative \<open>MaxLines\<close> is not a disabled limit: when the byte limit is exceeded, the selection
  budget of both edges is invalid, so nothing at all is kept.\<close>

theorem negative_line_limit_drops_everything:
  assumes "over_bytes p s" and "MaxLines p < 0" and "Apply p s = Some (out, r)"
  shows "KeptBytes r = 0 \<and> KeptLines r = 0"
proof -
  obtain head tail where e: "edges p s = (head, tail)" by fastforce
  then have "head = [] \<and> tail = []"
    using assms(2) by (auto simp: edges_def selectOuterEdges_def selectPrefixWithin_def selectSuffixWithin_def
        newSelectionBudget_def Let_def)
  then show ?thesis
    using Apply_truncated_report(1,2) [OF _ e assms(3)] assms(1)
    by (auto simp: id_count_def selectionLineIDs_def)
qed

theorem negative_line_limit_drops_everything_witness:
  "\<exists>out r. Apply (ten_bytes\<lparr>MaxLines := -1\<rparr>) ''abcdefghijklmnopqrstuvwxyz'' = Some (out, r) \<and> KeptBytes r = 0"
proof -
  let ?p = "ten_bytes\<lparr>MaxLines := -1\<rparr>" and ?s = "''abcdefghijklmnopqrstuvwxyz''"
  have "over_bytes ?p ?s"
    by (simp add: over_bytes_def ten_bytes_def processed_text_def prepared_lines_def splitLines_def
        prepareCompleteLine_def source_text_def Let_def)
  moreover obtain out r where "Apply ?p ?s = Some (out, r)" using Apply_defined by blast
  ultimately show ?thesis using negative_line_limit_drops_everything [of ?p ?s out r]
    by (auto simp: ten_bytes_def)
qed

end
