(* ===== verification/Output_Writer.thy ===== *)
theory Output_Writer
  imports Output_Selection
begin

text \<open>
  The streaming writer of \<open>outputlimit/writer.go\<close>. It keeps a head buffer, a ring buffer of the last
  \<open>max\<close> bytes, a few bytes beyond the head and counters, and renders a bounded view of the stream at any
  time. The refinement: after any accepted writes its state represents the whole stream, and \<open>String\<close>
  returns the same output and report as a function of the complete stream (\<open>stream_string\<close>), however the
  stream was cut into chunks. The mutex makes each method one atomic step.
\<close>

definition maxIntValue :: int where "maxIntValue = 2 ^ 63 - 1"

record writer =
  w_policy :: policy
  w_max :: int
  unlimited :: bool
  w_head :: go_string
  w_tail :: go_string
  tailAt :: nat
  total :: int
  newlines :: int
  prevByte :: char
  lastByte :: char
  hasLast :: bool
  headBoundary :: go_string
  headBoundaryLen :: nat
  beforeTail :: char
  hasBeforeTail :: bool

datatype limit_error = ErrInvalidLimit | ErrCounterOverflow

definition zero_byte :: char where "zero_byte = CHR 0x00"

definition empty_writer :: "policy \<Rightarrow> int \<Rightarrow> bool \<Rightarrow> writer" where
  "empty_writer p m u =
     \<lparr>w_policy = p, w_max = m, unlimited = u, w_head = [], w_tail = [], tailAt = 0, total = 0, newlines = 0,
      prevByte = zero_byte, lastByte = zero_byte, hasLast = False,
      headBoundary = replicate 4 zero_byte, headBoundaryLen = 0, beforeTail = zero_byte, hasBeforeTail = False\<rparr>"

definition NewWriter :: "policy \<Rightarrow> limit_error + writer" where
  "NewWriter p =
     (if MaxBytes p < 0 then Inl ErrInvalidLimit
      else if MaxBytes p = 0 then Inr (empty_writer p 0 True)
      else Inr (empty_writer p (MaxBytes p) False))"

definition appendTail :: "char \<Rightarrow> writer \<Rightarrow> writer" where
  "appendTail v w =
     (if slen (w_tail w) < w_max w then w\<lparr>w_tail := w_tail w @ [v]\<rparr>
      else let w = w\<lparr>beforeTail := w_tail w ! tailAt w, hasBeforeTail := True,
                     w_tail := (w_tail w)[tailAt w := v], tailAt := tailAt w + 1\<rparr>
           in if tailAt w = length (w_tail w) then w\<lparr>tailAt := 0\<rparr> else w)"

text \<open>One iteration of the loop of \<open>Write\<close>.\<close>

definition write_byte :: "writer \<Rightarrow> char \<Rightarrow> writer" where
  "write_byte w v =
     (let w = (if v = LF then w\<lparr>newlines := newlines w + 1\<rparr> else w);
          w = (if hasLast w then w\<lparr>prevByte := lastByte w\<rparr> else w);
          w = w\<lparr>lastByte := v, hasLast := True\<rparr>;
          w = (if unlimited w \<or> slen (w_head w) < w_max w then w\<lparr>w_head := w_head w @ [v]\<rparr>
               else if headBoundaryLen w < length (headBoundary w)
                 then w\<lparr>headBoundary := (headBoundary w)[headBoundaryLen w := v],
                        headBoundaryLen := headBoundaryLen w + 1\<rparr>
               else w)
      in if \<not> unlimited w then appendTail v w else w)"

definition Write :: "go_string \<Rightarrow> writer \<Rightarrow> writer \<times> (limit_error + int)" where
  "Write p w =
     (if slen p > maxIntValue - total w then (w, Inl ErrCounterOverflow)
      else let w = foldl write_byte w p
           in (w\<lparr>total := total w + slen p\<rparr>, Inr (slen p)))"

definition logicalLineCount :: "int \<Rightarrow> int \<Rightarrow> char \<Rightarrow> int" where
  "logicalLineCount nl tot lastb = (if tot = 0 then 0 else if lastb = LF then nl else nl + 1)"

definition selectedLineCount :: "go_string \<Rightarrow> go_string \<Rightarrow> int \<Rightarrow> int" where
  "selectedLineCount pre suf totalNewlines =
     (let count = slen (splitLines pre) + slen (splitLines suf);
          omitted = totalNewlines - int (count_byte pre LF) - int (count_byte suf LF)
      in if pre \<noteq> [] \<and> last pre \<noteq> LF \<and> suf \<noteq> [] \<and> omitted = 0 then count - 1 else count)"

definition orderedTail :: "writer \<Rightarrow> go_string" where
  "orderedTail w =
     (if slen (w_tail w) < w_max w \<or> tailAt w = 0 then w_tail w
      else drop (tailAt w) (w_tail w) @ take (tailAt w) (w_tail w))"

definition tailWithin :: "writer \<Rightarrow> go_string \<Rightarrow> int \<Rightarrow> go_string" where
  "tailWithin w ordered limit =
     (let start = skip_cont ordered (nat (inwardTail ordered limit));
          start = (if start = 0 \<and> hasBeforeTail w \<and> beforeTail w = CR \<and> ordered \<noteq> [] \<and> ordered ! 0 = LF
                   then start + 1 else start)
      in drop start ordered)"

text \<open>The rendering at the end of \<open>String\<close>, from the pieces it has chosen.\<close>

definition render_stream ::
  "go_string \<Rightarrow> go_string \<Rightarrow> int \<Rightarrow> int \<Rightarrow> char \<Rightarrow> char \<Rightarrow> go_string \<times> report" where
  "render_stream pre suf tot nl lastb prevb =
     (let keptBytes = slen pre + slen suf;
          originalLines = logicalLineCount nl tot lastb;
          keptLines = selectedLineCount pre suf nl;
          result = (if pre \<noteq> [] \<and> last pre \<noteq> LF then pre @ [LF] else pre);
          result = result @ Marker ReasonBytes keptBytes tot keptLines originalLines;
          result = (if suf \<noteq> [] then result @ [LF] @ suf
                    else if lastb = LF then (if prevb = CR then result @ [CR, LF] else result @ [LF])
                    else result)
      in (result, \<lparr>Truncated = True, Reason = ReasonBytes, OriginalBytes = tot,
                   OriginalLines = originalLines, KeptBytes = keptBytes, KeptLines = keptLines\<rparr>))"

definition StringW :: "writer \<Rightarrow> go_string \<times> report" where
  "StringW w =
     (if unlimited w \<or> total w \<le> w_max w
      then let lines = logicalLineCount (newlines w) (total w) (lastByte w)
           in (upto_int (total w) (w_head w),
               \<lparr>Truncated = False, Reason = [], OriginalBytes = total w, OriginalLines = lines,
                KeptBytes = total w, KeptLines = lines\<rparr>)
      else let fraction = normalizedFraction (HeadFraction (w_policy w));
               tailLimit = snd (limitSplit (w_max w) fraction);
               headSample = w_head w @ take (headBoundaryLen w) (headBoundary w);
               ordered = orderedTail w;
               suf = tailWithin w ordered tailLimit;
               pre = upto_int (inwardHead headSample (w_max w - slen suf)) (w_head w);
               suf = tailWithin w ordered (w_max w - slen pre)
           in render_stream pre suf (total w) (newlines w) (lastByte w) (prevByte w))"

definition Result :: "writer \<Rightarrow> go_string \<times> report" where
  "Result w = StringW w"

definition ResetW :: "writer \<Rightarrow> writer" where
  "ResetW w = w\<lparr>w_head := [], w_tail := [], tailAt := 0, total := 0, newlines := 0, prevByte := zero_byte,
     lastByte := zero_byte, hasLast := False, headBoundary := replicate 4 zero_byte, headBoundaryLen := 0,
     beforeTail := zero_byte, hasBeforeTail := False\<rparr>"

datatype writer_op = OpWrite go_string | OpReset

fun writer_step :: "writer \<Rightarrow> writer_op \<Rightarrow> writer" where
  "writer_step w (OpWrite p) = fst (Write p w)"
| "writer_step w OpReset = ResetW w"

definition writer_run :: "writer \<Rightarrow> writer_op list \<Rightarrow> writer" where
  "writer_run w ops = foldl writer_step w ops"

section \<open>The specification: a function of the whole stream\<close>

text \<open>The stream that a sequence of operations has written: a chunk that would overflow the byte counter
  is rejected as a whole, \<open>Reset\<close> starts a new stream.\<close>

fun stream_step :: "go_string \<Rightarrow> writer_op \<Rightarrow> go_string" where
  "stream_step s (OpWrite p) = (if slen p > maxIntValue - slen s then s else s @ p)"
| "stream_step s OpReset = []"

definition stream_of :: "writer_op list \<Rightarrow> go_string" where
  "stream_of ops = foldl stream_step [] ops"

text \<open>A suffix of at most \<open>limit\<close> bytes that starts at a safe cut. Inside the window of \<open>m\<close> bytes the code
  skips continuation bytes once more after stepping over the LF of a split CRLF; at its edge it does not,
  which differs only for an LF that a stray continuation byte follows.\<close>

definition stream_suffix :: "int \<Rightarrow> go_string \<Rightarrow> int \<Rightarrow> go_string" where
  "stream_suffix m s limit =
     (let start = nat (inwardTail s limit) in drop (if limit < m then skip_cont s start else start) s)"

definition second_last :: "go_string \<Rightarrow> char" where
  "second_last s = (if 2 \<le> length s then s ! (length s - 2) else zero_byte)"

definition last_byte :: "go_string \<Rightarrow> char" where
  "last_byte s = (if s = [] then zero_byte else last s)"

definition stream_string :: "policy \<Rightarrow> go_string \<Rightarrow> go_string \<times> report" where
  "stream_string p s =
     (let nl = int (count_byte s LF);
          lines = logicalLineCount nl (slen s) (last_byte s)
      in if MaxBytes p = 0 \<or> slen s \<le> MaxBytes p
         then (s, \<lparr>Truncated = False, Reason = [], OriginalBytes = slen s, OriginalLines = lines,
                   KeptBytes = slen s, KeptLines = lines\<rparr>)
         else let tailLimit = snd (limitSplit (MaxBytes p) (normalizedFraction (HeadFraction p)));
                  suf = stream_suffix (MaxBytes p) s tailLimit;
                  pre = upto_int (inwardHead s (MaxBytes p - slen suf)) s;
                  suf = stream_suffix (MaxBytes p) s (MaxBytes p - slen pre)
              in render_stream pre suf (slen s) nl (last_byte s) (second_last s))"

section \<open>The representation invariant\<close>

definition last_n :: "nat \<Rightarrow> 'a list \<Rightarrow> 'a list" where
  "last_n n xs = drop (length xs - n) xs"

definition ring_ok :: "writer \<Rightarrow> go_string \<Rightarrow> bool" where
  "ring_ok w s \<longleftrightarrow> unlimited w \<and> w_tail w = [] \<or>
     \<not> unlimited w \<and> 0 < w_max w \<and> orderedTail w = last_n (nat (w_max w)) s \<and>
     length (w_tail w) = min (nat (w_max w)) (length s) \<and>
     (if length s < nat (w_max w) then tailAt w = 0 else tailAt w < length (w_tail w)) \<and>
     (hasBeforeTail w \<longleftrightarrow> nat (w_max w) < length s) \<and>
     (nat (w_max w) < length s \<longrightarrow> beforeTail w = s ! (length s - nat (w_max w) - 1))"

definition head_ok :: "writer \<Rightarrow> go_string \<Rightarrow> bool" where
  "head_ok w s \<longleftrightarrow> length (headBoundary w) = 4 \<and> headBoundaryLen w \<le> 4 \<and>
     (unlimited w \<and> w_head w = s \<and> headBoundaryLen w = 0 \<or>
      \<not> unlimited w \<and> w_head w = take (nat (w_max w)) s \<and>
      take (headBoundaryLen w) (headBoundary w) = take 4 (drop (nat (w_max w)) s))"

definition counters_ok :: "writer \<Rightarrow> go_string \<Rightarrow> bool" where
  "counters_ok w s \<longleftrightarrow> newlines w = int (count_byte s LF) \<and> (hasLast w \<longleftrightarrow> s \<noteq> []) \<and>
     lastByte w = last_byte s \<and> prevByte w = second_last s"

definition represents :: "writer \<Rightarrow> go_string \<Rightarrow> bool" where
  "represents w s \<longleftrightarrow> head_ok w s \<and> ring_ok w s \<and> counters_ok w s"

lemma second_last_snoc: "second_last (s @ [v]) = (if s = [] then zero_byte else last s)"
  by (cases s rule: rev_cases) (auto simp: second_last_def nth_append)

lemma last_byte_snoc [simp]: "last_byte (s @ [v]) = v"
  by (simp add: last_byte_def)

lemma last_n_snoc:
  "0 < n \<Longrightarrow> last_n n (s @ [v]) = (if length s < n then last_n n s @ [v] else tl (last_n n s) @ [v])"
proof (cases "length s < n")
  case False
  assume n: "0 < n"
  with False have "length (s @ [v]) - n = Suc (length s - n)" by auto
  moreover have "Suc (length s - n) \<le> length s" using n False by simp
  ultimately show ?thesis using False by (simp add: last_n_def drop_Suc tl_drop)
qed (simp add: last_n_def)

lemma rotate_ring:
  assumes "k < length t"
  shows "drop (Suc k) (t[k := v]) @ take (Suc k) (t[k := v]) = tl (drop k t @ take k t) @ [v]"
proof -
  have "t[k := v] = (take k t @ [v]) @ drop (Suc k) t" using assms by (simp add: upd_conv_take_nth_drop)
  moreover have "tl (drop k t @ take k t) = drop (Suc k) t @ take k t"
    using assms by (simp add: Cons_nth_drop_Suc [symmetric])
  ultimately show ?thesis using assms by simp
qed

lemma ring_ok_step:
  assumes r: "ring_ok w s" and u: "\<not> unlimited w"
  shows "ring_ok (appendTail v w) (s @ [v])"
proof -
  define n where "n = nat (w_max w)"
  have m: "0 < w_max w" "w_max w = int n" "0 < n" using r u by (auto simp: ring_ok_def n_def)
  have facts: "orderedTail w = last_n n s" "length (w_tail w) = min n (length s)"
    "if length s < n then tailAt w = 0 else tailAt w < length (w_tail w)"
    using r u by (auto simp: ring_ok_def n_def)
  show ?thesis
  proof (cases "length s < n")
    case True
    then have a: "appendTail v w = w\<lparr>w_tail := w_tail w @ [v]\<rparr>"
      using facts(2) m by (simp add: appendTail_def slen_def)
    have "tailAt w = 0" using True facts(3) by simp
    moreover from this have "orderedTail w = w_tail w" by (simp add: orderedTail_def)
    ultimately show ?thesis
      using True r u facts m by (auto simp: ring_ok_def a last_n_snoc orderedTail_def)
  next
    case False
    let ?t = "(w_tail w)[tailAt w := v]"
    have len: "length (w_tail w) = n" "tailAt w < n" using False facts(2,3) by auto
    have ord: "orderedTail w = drop (tailAt w) (w_tail w) @ take (tailAt w) (w_tail w)"
      using len m by (simp add: orderedTail_def slen_def)
    have a: "w_tail (appendTail v w) = ?t"
      "tailAt (appendTail v w) = (if Suc (tailAt w) = n then 0 else Suc (tailAt w))"
      "beforeTail (appendTail v w) = w_tail w ! tailAt w" "hasBeforeTail (appendTail v w)"
      "w_max (appendTail v w) = w_max w" "unlimited (appendTail v w) = unlimited w"
      using len m by (auto simp: appendTail_def slen_def Let_def)
    have "orderedTail (appendTail v w) = drop (Suc (tailAt w)) ?t @ take (Suc (tailAt w)) ?t"
      using len m by (auto simp: orderedTail_def a slen_def)
    then have "orderedTail (appendTail v w) = last_n n (s @ [v])"
      using rotate_ring [of "tailAt w" "w_tail w" v] len False m(3) facts(1) by (simp add: last_n_snoc flip: ord)
    moreover have "w_tail w ! tailAt w = s ! (length s - n)"
    proof -
      have "w_tail w ! tailAt w = orderedTail w ! 0" using len by (simp add: ord nth_append)
      also have "\<dots> = s ! (length s - n)" using False m(3) facts(1) by (simp add: last_n_def)
      finally show ?thesis .
    qed
    ultimately show ?thesis
      using False len m u by (auto simp: ring_ok_def a n_def [symmetric] nth_append)
  qed
qed

lemma appendTail_frame [simp]:
  "w_head (appendTail v w) = w_head w" "headBoundary (appendTail v w) = headBoundary w"
  "headBoundaryLen (appendTail v w) = headBoundaryLen w" "unlimited (appendTail v w) = unlimited w"
  "w_max (appendTail v w) = w_max w" "newlines (appendTail v w) = newlines w" "total (appendTail v w) = total w"
  "hasLast (appendTail v w) = hasLast w" "lastByte (appendTail v w) = lastByte w"
  "prevByte (appendTail v w) = prevByte w" "w_policy (appendTail v w) = w_policy w"
  by (auto simp: appendTail_def Let_def)

lemma ResetW_empty: "w = ResetW w' \<Longrightarrow> w_policy w = w_policy w' \<and> w = empty_writer (w_policy w') (w_max w') (unlimited w')"
  by (simp add: ResetW_def empty_writer_def)

lemma write_byte_frame [simp]:
  "unlimited (write_byte w v) = unlimited w" "w_max (write_byte w v) = w_max w"
  "total (write_byte w v) = total w" "w_policy (write_byte w v) = w_policy w"
  "newlines (write_byte w v) = newlines w + (if v = LF then 1 else 0)"
  "hasLast (write_byte w v)" "lastByte (write_byte w v) = v"
  "prevByte (write_byte w v) = (if hasLast w then lastByte w else prevByte w)"
  by (simp_all add: write_byte_def Let_def)

lemma write_byte_head:
  "w_head (write_byte w v) = (if unlimited w \<or> slen (w_head w) < w_max w then w_head w @ [v] else w_head w)"
  "headBoundaryLen (write_byte w v) = headBoundaryLen w +
     (if unlimited w \<or> slen (w_head w) < w_max w \<or> \<not> headBoundaryLen w < length (headBoundary w) then 0 else 1)"
  "headBoundary (write_byte w v) =
     (if unlimited w \<or> slen (w_head w) < w_max w \<or> \<not> headBoundaryLen w < length (headBoundary w)
      then headBoundary w else (headBoundary w)[headBoundaryLen w := v])"
  by (simp_all add: write_byte_def Let_def)

lemma counters_ok_step: "counters_ok w s \<Longrightarrow> counters_ok (write_byte w v) (s @ [v])"
  by (cases "s = []") (auto simp: counters_ok_def second_last_snoc last_byte_def, (simp add: second_last_def)+)

lemma take_snoc_boundary:
  assumes "length b = 4" "k \<le> 4" "take k b = take 4 d"
  shows "k < 4 \<Longrightarrow> take (Suc k) (b[k := v]) = take 4 (d @ [v])" "\<not> k < 4 \<Longrightarrow> take k b = take 4 (d @ [v])"
proof -
  have k: "k = min 4 (length d)" using arg_cong [OF assms(3), of length] assms(1,2) by simp
  show "k < 4 \<Longrightarrow> take (Suc k) (b[k := v]) = take 4 (d @ [v])"
    using k assms by (simp add: upd_conv_take_nth_drop)
  show "\<not> k < 4 \<Longrightarrow> take k b = take 4 (d @ [v])" using k assms by simp
qed

lemma head_ok_step:
  assumes h: "head_ok w s" and m: "unlimited w \<or> 0 < w_max w"
  shows "head_ok (write_byte w v) (s @ [v])"
proof (cases "unlimited w")
  case True
  with h show ?thesis by (auto simp: head_ok_def write_byte_head)
next
  case False
  define n where "n = nat (w_max w)"
  have H: "length (headBoundary w) = 4" "headBoundaryLen w \<le> 4" "w_head w = take n s"
    "take (headBoundaryLen w) (headBoundary w) = take 4 (drop n s)" "w_max w = int n"
    using h m False by (auto simp: head_ok_def n_def)
  show ?thesis
  proof (cases "length s < n")
    case True
    have "headBoundary w \<noteq> []" using H(1) by auto
    with H(4) True have "headBoundaryLen w = 0" by simp
    with True False H show ?thesis by (auto simp: head_ok_def write_byte_head slen_def)
  next
    case f: False
    then have "\<not> slen (w_head w) < w_max w" using H by (simp add: slen_def)
    then show ?thesis
      using take_snoc_boundary [OF H(1,2,4), of v] f False H
      by (auto simp: head_ok_def write_byte_head)
  qed
qed

lemma orderedTail_cong:
  "w_tail w = w_tail w' \<Longrightarrow> tailAt w = tailAt w' \<Longrightarrow> w_max w = w_max w' \<Longrightarrow> orderedTail w = orderedTail w'"
  by (simp add: orderedTail_def)

lemma ring_ok_cong:
  assumes "w_tail w = w_tail w'" "tailAt w = tailAt w'" "w_max w = w_max w'" "unlimited w = unlimited w'"
    "beforeTail w = beforeTail w'" "hasBeforeTail w = hasBeforeTail w'"
  shows "ring_ok w s \<longleftrightarrow> ring_ok w' s"
  using assms orderedTail_cong [OF assms(1-3)] by (simp add: ring_ok_def)

lemma write_byte_ring:
  assumes "ring_ok w s"
  shows "ring_ok (write_byte w v) (s @ [v])"
proof -
  let ?step = "if unlimited w then w else appendTail v w"
  have "ring_ok ?step (s @ [v])"
  proof (cases "unlimited w")
    case True
    with assms show ?thesis by (simp add: ring_ok_def)
  next
    case False
    with ring_ok_step [OF assms] show ?thesis by simp
  qed
  moreover have "w_tail (write_byte w v) = w_tail ?step" "tailAt (write_byte w v) = tailAt ?step"
    "beforeTail (write_byte w v) = beforeTail ?step" "hasBeforeTail (write_byte w v) = hasBeforeTail ?step"
    by (simp_all add: write_byte_def appendTail_def Let_def)
  ultimately show ?thesis using ring_ok_cong [of "write_byte w v" ?step] by simp
qed

lemma write_bytes_represents: "represents w s \<Longrightarrow> represents (foldl write_byte w p) (s @ p)"
proof (induction p arbitrary: w s)
  case (Cons v p)
  from Cons.prems have "unlimited w \<or> 0 < w_max w" by (auto simp: represents_def ring_ok_def)
  with Cons.prems have "represents (write_byte w v) (s @ [v])"
    by (simp add: represents_def head_ok_step counters_ok_step write_byte_ring)
  from Cons.IH [OF this] show ?case by simp
qed simp

lemma write_bytes_frame [simp]:
  "unlimited (foldl write_byte w p) = unlimited w" "w_max (foldl write_byte w p) = w_max w"
  "total (foldl write_byte w p) = total w" "w_policy (foldl write_byte w p) = w_policy w"
  by (induction p arbitrary: w) auto

section \<open>The simulation\<close>

definition simulates :: "policy \<Rightarrow> writer \<Rightarrow> go_string \<Rightarrow> bool" where
  "simulates p w s \<longleftrightarrow> represents w s \<and> total w = slen s \<and> w_policy w = p \<and> 0 \<le> MaxBytes p \<and>
     (unlimited w \<longleftrightarrow> MaxBytes p = 0) \<and> w_max w = MaxBytes p"

lemma represents_cong_total: "represents (w\<lparr>total := t\<rparr>) s \<longleftrightarrow> represents w s"
  by (simp add: represents_def head_ok_def ring_ok_def counters_ok_def orderedTail_def)

lemma empty_represents: "0 < m \<or> u \<Longrightarrow> represents (empty_writer p m u) []"
  by (auto simp: represents_def head_ok_def ring_ok_def counters_ok_def empty_writer_def orderedTail_def
      last_n_def last_byte_def second_last_def)

lemma NewWriter_simulates: "NewWriter p = Inr w \<Longrightarrow> simulates p w []"
  by (auto simp: NewWriter_def simulates_def empty_represents split: if_splits) (simp_all add: empty_writer_def)

lemma Write_simulates: "simulates p w s \<Longrightarrow> simulates p (writer_step w op) (stream_step s op)"
proof (cases op)
  case (OpWrite c)
  assume "simulates p w s"
  then show ?thesis
    using write_bytes_represents [of w s c]
    by (simp add: OpWrite simulates_def Write_def Let_def represents_cong_total)
next
  case OpReset
  assume a: "simulates p w s"
  then have "represents (ResetW w) []"
    using ResetW_empty [OF refl, of w] empty_represents [of "w_max w" "unlimited w" "w_policy w"]
    by (auto simp: simulates_def)
  with a show ?thesis by (simp add: OpReset simulates_def) (simp add: ResetW_def)
qed

lemma run_simulates: "simulates p w s \<Longrightarrow> simulates p (writer_run w ops) (foldl stream_step s ops)"
  by (induction ops arbitrary: w s) (auto simp: writer_run_def intro: Write_simulates)

section \<open>Rendering from the samples\<close>

lemma inwardHead_le: "inwardHead s l \<le> max 0 l"
  using inwardHead_bounds(3) [of l s] by (cases "l \<le> 0") (simp_all add: inwardHead_def)

lemma back_over_cont_cong: "(\<And>i. i \<le> m \<Longrightarrow> s ! i = t ! i) \<Longrightarrow> back_over_cont s m = back_over_cont t m"
  by (induction m) auto

lemma inwardHead_sample:
  assumes "limit \<le> int n" "n < length s"
  shows "inwardHead (take (n + 4) s) limit = inwardHead s limit"
proof (cases "limit \<le> 0")
  case False
  then obtain m where m: "limit = int m" "m \<le> n" "0 < m" using assms(1) by (metis nat_0_le nat_less_eq_zless of_nat_0_less_iff int_eq_iff linorder_not_le of_nat_le_iff zero_less_imp_eq_int)
  have eq: "take (n + 4) s ! i = s ! i" if "i \<le> m" for i using that m by simp
  have b: "back_over_cont (take (n + 4) s) m = back_over_cont s m" by (rule back_over_cont_cong) (rule eq)
  have "splits_crlf (take (n + 4) s) e \<longleftrightarrow> splits_crlf s e" if "e \<le> m" for e
    using that m assms(2) by (auto simp: splits_crlf_def)
  with b back_over_cont_le [of s m] m assms(2) show ?thesis
    by (simp add: inwardHead_def slen_def Let_def min_le_iff_disj)
qed (simp add: inwardHead_def)

lemma skip_cont_drop:
  "d \<le> length s \<Longrightarrow> skip_cont s (d + k) = d + skip_cont (drop d s) k"
proof (induction "drop d s" k rule: skip_cont.induct)
  case (1 k)
  show ?case
    by (subst (1 2) skip_cont.simps) (use 1 in auto)
qed

lemma skip_cont_before: "skip_cont s k = Suc j \<Longrightarrow> k \<le> j \<Longrightarrow> is_cont (s ! j)"
proof (induction s k rule: skip_cont.induct)
  case (1 s k)
  then have c: "k < length s \<and> is_cont (s ! k)" by (metis Suc_n_not_le_n skip_cont.simps)
  with "1.prems" have "skip_cont s (Suc k) = Suc j" by (simp add: skip_cont.simps [of s k])
  with c "1.IH" [OF c] "1.prems" show ?case by (cases "k = j") auto
qed

lemma splits_crlf_drop:
  "d \<le> length s \<Longrightarrow> 0 < e \<Longrightarrow> splits_crlf (drop d s) e \<longleftrightarrow> splits_crlf s (d + e)"
  by (auto simp: splits_crlf_def)

lemma stream_suffix_empty: "limit \<le> 0 \<Longrightarrow> stream_suffix m s limit = []"
  using skip_cont_bounds [of "length s" s] by (simp add: stream_suffix_def inwardTail_def slen_def Let_def)

lemma inwardTail_drop:
  assumes "0 < limit" "limit < int n" "n \<le> length s"
  shows "inwardTail s limit = int (length s - n) + inwardTail (drop (length s - n) s) limit"
    "0 < inwardTail (drop (length s - n) s) limit"
proof -
  define d k where "d = length s - n" and "k = nat (int n - limit)"
  have k: "slen (drop d s) - limit = int k" "slen s - limit = int (d + k)" "0 < k" "d \<le> length s" "k \<le> n"
    using assms by (auto simp: slen_def d_def k_def)
  have e: "0 < skip_cont (drop d s) k"
    using skip_cont_bounds [of k "drop d s"] k assms by (simp add: d_def)
  then show "0 < inwardTail (drop (length s - n) s) limit"
    using assms k by (simp add: inwardTail_def Let_def slen_def flip: d_def)
  have "\<not> limit \<ge> slen s" "\<not> limit \<ge> slen (drop d s)" using k by linarith+
  then show "inwardTail s limit = int (length s - n) + inwardTail (drop (length s - n) s) limit"
    using assms(1) e splits_crlf_drop [OF k(4) e] skip_cont_drop [OF k(4), of k]
    unfolding inwardTail_def d_def [symmetric] k(1,2) nat_int Let_def by auto
qed

lemma tailWithin_stream:
  assumes r: "ring_ok w s" and u: "\<not> unlimited w" and n: "w_max w = int n" "n < length s" "limit \<le> int n"
  shows "tailWithin w (orderedTail w) limit = stream_suffix (w_max w) s limit"
proof -
  define d where "d = length s - n"
  define t where "t = drop d s"
  have n0: "0 < n" and o: "orderedTail w = t" and bt: "hasBeforeTail w" "beforeTail w = s ! (d - 1)"
    using r u n by (auto simp: ring_ok_def last_n_def d_def t_def)
  have d: "d \<le> length s" "0 < d" "length t = n" "d + n = length s" using n by (auto simp: d_def t_def)
  consider "limit \<le> 0" | "0 < limit" "limit < int n" | "0 < limit" "limit = int n" using n(3) by linarith
  then show ?thesis
  proof cases
    case 1
    then show ?thesis
      using n0 d(3) skip_cont_bounds [of n t]
      by (simp add: stream_suffix_empty tailWithin_def o inwardTail_def slen_def Let_def)
  next
    case 2
    define e where "e = nat (inwardTail t limit)"
    have e: "inwardTail t limit = int e" "inwardTail s limit = int (d + e)" "0 < e"
      using inwardTail_drop [OF 2, of s] n(2) by (simp_all add: e_def flip: t_def d_def)
    have "0 < skip_cont t e"
      using skip_cont_bounds [of e t] e inwardTail_bounds(2) [of t limit] by (simp add: slen_def)
    then show ?thesis
      using skip_cont_drop [OF d(1), of e] e 2 n(1)
      by (simp add: tailWithin_def stream_suffix_def o Let_def t_def add.commute nat_int_add)
  next
    case 3
    have sk: "skip_cont s (nat (slen s - limit)) = d + skip_cont t 0"
      using skip_cont_drop [OF d(1), of 0] 3 n(2) by (simp add: t_def slen_def d_def nat_diff_distrib')
    have tl: "inwardTail t limit = 0" and lim: "\<not> limit \<le> 0" "\<not> limit \<ge> slen s"
      using 3 d n(2) by (simp_all add: inwardTail_def slen_def)
    have sp: "splits_crlf s (d + skip_cont t 0) \<longleftrightarrow> skip_cont t 0 = 0 \<and> s ! (d - 1) = CR \<and> t ! 0 = LF"
    proof (cases "skip_cont t 0")
      case 0
      then show ?thesis using d n0 by (auto simp: splits_crlf_def t_def)
    next
      case (Suc j)
      from skip_cont_before [OF Suc] have "is_cont (s ! (d + j))" by (simp add: t_def d(1))
      then have "s ! (d + j) \<noteq> CR" by auto
      then show ?thesis using Suc d by (simp add: splits_crlf_def)
    qed
    have "t \<noteq> []" using d n0 by auto
    with sk tl lim sp bt 3 n show ?thesis
      by (auto simp: tailWithin_def stream_suffix_def o inwardTail_def [of s] Let_def t_def add.commute)
  qed
qed

lemma StringW_stream:
  assumes sim: "simulates p w s"
  shows "StringW w = stream_string p s"
proof (cases "MaxBytes p = 0 \<or> slen s \<le> MaxBytes p")
  case True
  have "upto_int (total w) (w_head w) = s"
    using sim True by (auto simp: simulates_def represents_def head_ok_def slen_def upto_int_def)
  then show ?thesis
    using True sim
    by (auto simp: StringW_def stream_string_def simulates_def represents_def counters_ok_def Let_def)
next
  case False
  define n where "n = nat (MaxBytes p)"
  have n: "w_max w = int n" "MaxBytes p = int n" "n < length s" "\<not> unlimited w" "0 < n"
    using sim False by (auto simp: simulates_def slen_def n_def)
  have R: "ring_ok w s" "w_head w = take n s" "w_head w @ take (headBoundaryLen w) (headBoundary w) = take (n + 4) s"
    "w_policy w = p" "total w = slen s" "newlines w = int (count_byte s LF)" "lastByte w = last_byte s"
    "prevByte w = second_last s"
    using sim n by (auto simp: simulates_def represents_def head_ok_def counters_ok_def take_add)
  define tl where "tl = snd (limitSplit (int n) (normalizedFraction (HeadFraction p)))"
  define suf where "suf = stream_suffix (int n) s tl"
  define pre where "pre = upto_int (inwardHead s (int n - slen suf)) s"
  have "tl \<le> int n"
    using limitSplit_bounds(1,3) [of "int n" "normalizedFraction (HeadFraction p)"] n(5) by (simp add: tl_def)
  then have t1: "tailWithin w (orderedTail w) tl = suf"
    using tailWithin_stream [OF R(1) n(4,1,3)] n(1) by (simp add: suf_def)
  have t2: "tailWithin w (orderedTail w) (int n - slen pre) = stream_suffix (int n) s (int n - slen pre)"
    using tailWithin_stream [OF R(1) n(4,1,3)] n(1) by simp
  have ih: "inwardHead (take (n + 4) s) (int n - slen suf) = inwardHead s (int n - slen suf)"
    by (rule inwardHead_sample) (use n in auto)
  have "inwardHead s (int n - slen suf) \<le> int n"
    using inwardHead_le [of s "int n - slen suf"] slen_nonneg [of suf] by linarith
  then have pre: "upto_int (inwardHead s (int n - slen suf)) (take n s) = pre"
    by (simp add: pre_def upto_int_def min_def)
  show ?thesis
    using False n
    unfolding StringW_def stream_string_def R(2-8) n(1,2) Let_def
    by (simp add: R(3,5) R(3) [unfolded R(2)] t1 t2 ih pre flip: tl_def suf_def pre_def)
qed

lemma run_stream: "NewWriter p = Inr w \<Longrightarrow> StringW (writer_run w ops) = stream_string p (stream_of ops)"
  using run_simulates [OF NewWriter_simulates] by (simp add: stream_of_def StringW_stream)

text \<open>C3: Streaming loses nothing that rendering needs: after any sequence of writes and resets, cut into
  chunks in any way, the output and report of \<open>String\<close> are the ones \<open>stream_string\<close> computes from the
  complete stream, although the writer keeps only its first and last \<open>MaxBytes\<close> bytes.\<close>

theorem writer_refines_stream:
  assumes "NewWriter p = Inr w"
  shows "StringW (writer_run w ops) = stream_string p (stream_of ops)"
  using assms by (rule run_stream)

definition ten_policy :: policy where
  "ten_policy = \<lparr>MaxBytes = 10, MaxLines = 0, MaxLineBytes = 0, HeadFraction = f_half\<rparr>"

theorem writer_refines_stream_witness:
  "StringW (writer_run (empty_writer ten_policy 10 False)
      [OpWrite ''abcd'', OpReset, OpWrite ''abcdefgh'', OpWrite ''ijklmnopqrstuvwxyz'']) =
    stream_string ten_policy ''abcdefghijklmnopqrstuvwxyz''"
proof -
  have "NewWriter ten_policy = Inr (empty_writer ten_policy 10 False)"
    by (simp add: NewWriter_def ten_policy_def)
  from writer_refines_stream [OF this, of "[OpWrite ''abcd'', OpReset, OpWrite ''abcdefgh'', OpWrite ''ijklmnopqrstuvwxyz'']"]
  show ?thesis by (simp add: stream_of_def maxIntValue_def)
qed

text \<open>The writer's buffers stay bounded: whatever is written, a writer with a positive byte limit holds
  at most \<open>2 * MaxBytes\<close> stream bytes in its head and tail.\<close>

theorem writer_memory_bounded:
  assumes "NewWriter p = Inr w" and "0 < MaxBytes p"
  shows "slen (w_head (writer_run w ops)) + slen (w_tail (writer_run w ops)) \<le> 2 * MaxBytes p"
  using run_simulates [OF NewWriter_simulates [OF assms(1)], of ops] assms(2)
  by (auto simp: simulates_def represents_def head_ok_def ring_ok_def slen_def)

lemma ten_writer: "NewWriter ten_policy = Inr (empty_writer ten_policy 10 False)" "MaxBytes ten_policy = 10"
  by (simp_all add: NewWriter_def ten_policy_def)

theorem writer_memory_bounded_witness:
  "slen (w_head (writer_run (empty_writer ten_policy 10 False) [OpWrite ''abcdefghijklmnopqrstuvwxyz''])) \<le> 20"
  using writer_memory_bounded [OF ten_writer(1), of "[OpWrite ''abcdefghijklmnopqrstuvwxyz'']"]
    slen_nonneg [of "w_tail (writer_run (empty_writer ten_policy 10 False) [OpWrite ''abcdefghijklmnopqrstuvwxyz''])"]
  unfolding ten_writer(2) by linarith

section \<open>What the rendering keeps\<close>

lemma stream_suffix_bounds: "suffix (stream_suffix m s l) s \<and> (0 \<le> l \<longrightarrow> slen (stream_suffix m s l) \<le> l)"
proof -
  have "nat (inwardTail s l) \<le> length s" using inwardTail_bounds(2) [of s l] by (simp add: slen_def)
  then have "nat (inwardTail s l) \<le> skip_cont s (nat (inwardTail s l))" by (simp add: skip_cont_bounds)
  then show ?thesis
    using inwardTail_bounds(1) [of s l] inwardTail_bounds(3) [of l s]
    by (auto simp: stream_suffix_def Let_def suffix_drop slen_def of_nat_diff)
qed

lemma split_from_count:
  "slen (split_from cur s) = int (count_byte s LF) + (if s = [] \<and> cur = [] \<or> s \<noteq> [] \<and> last s = LF then 0 else 1)"
  by (induction cur s rule: split_from.induct) auto

lemma logicalLineCount_lines: "logicalLineCount (int (count_byte s LF)) (slen s) (last_byte s) = slen (splitLines s)"
  by (simp add: logicalLineCount_def splitLines_def split_from_count last_byte_def)

lemma render_stream_shape:
  "prefix pre (fst (render_stream pre suf t nl a b))" "suffix suf (fst (render_stream pre suf t nl a b))"
  by (auto simp: render_stream_def Let_def) (auto simp: suffix_def)

text \<open>A truncated rendering keeps a prefix and a suffix of the stream that do not overlap, leaves
  something out between them, stays within \<open>MaxBytes\<close>, shows both verbatim at the ends of the output, and
  reports the byte and line counts of the whole stream, as \<open>Apply\<close> counts them.\<close>

theorem writer_keeps_outer_edges:
  assumes "NewWriter p = Inr w" and "0 < MaxBytes p" and "MaxBytes p < slen (stream_of ops)"
    and "StringW (writer_run w ops) = (out, r)"
  shows "\<exists>pre mid suf. stream_of ops = pre @ mid @ suf \<and> mid \<noteq> [] \<and> prefix pre out \<and> suffix suf out \<and>
    KeptBytes r = slen pre + slen suf \<and> KeptBytes r \<le> MaxBytes p \<and> Truncated r \<and>
    OriginalBytes r = slen (stream_of ops) \<and> OriginalLines r = slen (splitLines (stream_of ops))"
proof -
  define s where "s = stream_of ops"
  define suf0 where "suf0 = stream_suffix (MaxBytes p) s (snd (limitSplit (MaxBytes p) (normalizedFraction (HeadFraction p))))"
  define pre where "pre = upto_int (inwardHead s (MaxBytes p - slen suf0)) s"
  define suf where "suf = stream_suffix (MaxBytes p) s (MaxBytes p - slen pre)"
  have out: "(out, r) = render_stream pre suf (slen s) (int (count_byte s LF)) (last_byte s) (second_last s)"
    using run_stream [OF assms(1), of ops] assms(2-4)
    by (simp add: stream_string_def Let_def s_def pre_def suf_def suf0_def)
  have "slen pre = inwardHead s (MaxBytes p - slen suf0)"
    using inwardHead_bounds(1,2) [of s "MaxBytes p - slen suf0"] by (simp add: pre_def slen_upto)
  then have "slen pre \<le> MaxBytes p"
    using inwardHead_le [of s "MaxBytes p - slen suf0"] slen_nonneg [of suf0] assms(2) by linarith
  then have len: "slen pre + slen suf \<le> MaxBytes p"
    using stream_suffix_bounds [of "MaxBytes p" s "MaxBytes p - slen pre"] by (simp add: suf_def)
  moreover have "length pre + length suf \<le> length s" using len assms(3) by (simp add: slen_def s_def)
  ultimately obtain mid where "s = pre @ mid @ suf"
    using prefix_suffix_middle [of pre s suf] stream_suffix_bounds [of "MaxBytes p" s "MaxBytes p - slen pre"]
      upto_int_prefix [of "inwardHead s (MaxBytes p - slen suf0)" s] by (auto simp: pre_def suf_def)
  moreover from this len assms(3) have "mid \<noteq> []" by (auto simp: s_def)
  moreover have "prefix pre out" "suffix suf out"
    using arg_cong [OF out, of fst] by (simp_all add: render_stream_shape)
  moreover have "KeptBytes r = slen pre + slen suf" "Truncated r" "OriginalBytes r = slen s" "OriginalLines r = slen (splitLines s)"
    using arg_cong [OF out, of snd] by (simp_all add: render_stream_def Let_def logicalLineCount_lines)
  ultimately show ?thesis using len by (metis s_def)
qed

theorem writer_keeps_outer_edges_witness:
  "\<exists>pre mid suf out r. StringW (writer_run (empty_writer ten_policy 10 False) [OpWrite ''abcdefghijklmnopqrstuvwxyz'']) = (out, r) \<and>
    ''abcdefghijklmnopqrstuvwxyz'' = pre @ mid @ suf \<and> mid \<noteq> [] \<and> KeptBytes r = slen pre + slen suf"
proof -
  let ?ops = "[OpWrite ''abcdefghijklmnopqrstuvwxyz'']"
  have s: "stream_of ?ops = ''abcdefghijklmnopqrstuvwxyz''" by (simp add: stream_of_def maxIntValue_def)
  obtain out r where o: "StringW (writer_run (empty_writer ten_policy 10 False) ?ops) = (out, r)" by fastforce
  show ?thesis
    using writer_keeps_outer_edges [OF ten_writer(1) _ _ o] unfolding s o ten_writer(2) by fastforce
qed

end
