(* ===== verification/Go_Utf8.thy ===== *)
theory Go_Utf8
  imports Go_Prelude
begin

text \<open>
  UTF-8 as package \<open>unicode/utf8\<close> and \<open>range\<close> over a string read it: a rune is its code point, decoding
  returns the rune and its width, an invalid or truncated sequence is the rune U+FFFD of width 1. The
  round trip of encoding and decoding is proved for every valid rune.
\<close>

definition byte :: "char \<Rightarrow> nat" where "byte c = of_char c"

definition byte_char :: "nat \<Rightarrow> char" where "byte_char n = char_of n"

definition RuneError :: nat where "RuneError = 0xFFFD"

definition cont_at :: "go_string \<Rightarrow> nat \<Rightarrow> nat \<Rightarrow> nat \<Rightarrow> bool" where
  "cont_at s i lo hi \<longleftrightarrow> i < length s \<and> lo \<le> byte (s ! i) \<and> byte (s ! i) \<le> hi"

text \<open>The range of the second byte, which excludes overlong forms, surrogates and values over U+10FFFF.\<close>

definition second_lo :: "nat \<Rightarrow> nat" where
  "second_lo b = (if b = 0xE0 then 0xA0 else if b = 0xF0 then 0x90 else 0x80)"

definition second_hi :: "nat \<Rightarrow> nat" where
  "second_hi b = (if b = 0xED then 0x9F else if b = 0xF4 then 0x8F else 0xBF)"

text \<open>\<open>utf8.DecodeRuneInString\<close>.\<close>

definition decode_rune :: "go_string \<Rightarrow> nat \<times> nat" where
  "decode_rune s =
     (if s = [] then (RuneError, 0)
      else let b = byte (s ! 0); p = (\<lambda>i. byte (s ! i) mod 64)
      in if b < 0x80 then (b, 1)
         else if b < 0xC2 \<or> 0xF4 < b \<or> \<not> cont_at s 1 (second_lo b) (second_hi b) then (RuneError, 1)
         else if b < 0xE0 then ((b mod 32) * 64 + p 1, 2)
         else if \<not> cont_at s 2 0x80 0xBF then (RuneError, 1)
         else if b < 0xF0 then ((b mod 16) * 4096 + p 1 * 64 + p 2, 3)
         else if \<not> cont_at s 3 0x80 0xBF then (RuneError, 1)
         else ((b mod 8) * 262144 + p 1 * 4096 + p 2 * 64 + p 3, 4))"

definition valid_rune :: "nat \<Rightarrow> bool" where
  "valid_rune r \<longleftrightarrow> r < 0xD800 \<or> 0xDFFF < r \<and> r \<le> 0x10FFFF"

text \<open>\<open>utf8.AppendRune\<close> and \<open>strings.Builder.WriteRune\<close>.\<close>

definition encode_rune :: "nat \<Rightarrow> go_string" where
  "encode_rune r0 =
     (let r = (if valid_rune r0 then r0 else RuneError)
      in if r < 0x80 then [byte_char r]
         else if r < 0x800 then [byte_char (0xC0 + r div 64), byte_char (0x80 + r mod 64)]
         else if r < 0x10000
           then [byte_char (0xE0 + r div 4096), byte_char (0x80 + r div 64 mod 64), byte_char (0x80 + r mod 64)]
         else [byte_char (0xF0 + r div 262144), byte_char (0x80 + r div 4096 mod 64),
               byte_char (0x80 + r div 64 mod 64), byte_char (0x80 + r mod 64)])"

text \<open>The runes of a string, as \<open>range\<close> and \<open>[]rune\<close> yield them, with their widths.\<close>

lemma decode_width: "s \<noteq> [] \<Longrightarrow> 0 < snd (decode_rune s) \<and> snd (decode_rune s) \<le> length s"
  by (auto simp: decode_rune_def Let_def cont_at_def Suc_le_eq)

lemma decode_drop: "s \<noteq> [] \<Longrightarrow> (r, w) = decode_rune s \<Longrightarrow> length s - w < length s"
  using decode_width [of s] by (metis diff_less length_greater_0_conv snd_conv)

function runes_w :: "go_string \<Rightarrow> (nat \<times> nat) list" where
  "runes_w s = (if s = [] then [] else decode_rune s # runes_w (drop (snd (decode_rune s)) s))"
  by pat_completeness auto
termination
  by (relation "measure length") (use decode_width in fastforce)+

declare runes_w.simps [simp del]

definition runes :: "go_string \<Rightarrow> nat list" where
  "runes s = map fst (runes_w s)"

text \<open>\<open>utf8.ValidString\<close>.\<close>

definition valid_utf8 :: "go_string \<Rightarrow> bool" where
  "valid_utf8 s \<longleftrightarrow> (\<forall>(r, w) \<in> set (runes_w s). r \<noteq> RuneError \<or> w \<noteq> 1)"

section \<open>Encoding and decoding are inverse\<close>

lemma byte_byte_char [simp]: "n < 256 \<Longrightarrow> byte (byte_char n) = n"
  by (simp add: byte_def byte_char_def)

lemma byte_char_byte [simp]: "byte_char (byte c) = c"
  by (simp add: byte_def byte_char_def)

lemma byte_less [simp]: "byte c < 256"
  by (simp add: byte_def)

lemma byte_inject [simp]: "byte c = byte d \<longleftrightarrow> c = d"
  by (metis byte_char_byte)

lemma decode_ascii: "byte c < 0x80 \<Longrightarrow> decode_rune (c # s) = (byte c, 1)"
  by (simp add: decode_rune_def Let_def)

lemma mod_offset: "k dvd c \<Longrightarrow> x < k \<Longrightarrow> (c + x) mod k = (x::nat)"
  by (metis add_0 dvd_imp_mod_0 mod_add_left_eq mod_less)

lemma digit64: "(128 + x mod 64) mod 64 = x mod (64::nat)" "x mod (64::nat) < 64"
  by (simp_all add: mod_offset)

lemma div64: "(r::nat) = r div 64 * 64 + r mod 64" "r div 4096 = r div 64 div 64" "r div 262144 = r div 64 div 64 div 64"
  by (simp_all add: div_mult2_eq [symmetric])

lemma decode_rune_3:
  assumes "h < 16" "p < 64" "q < 64" "h = 0 \<longrightarrow> 32 \<le> p" "h = 13 \<longrightarrow> p \<le> 31"
  shows "decode_rune (byte_char (224 + h) # byte_char (128 + p) # byte_char (128 + q) # s) = (h * 4096 + p * 64 + q, 3)"
proof -
  have b: "byte (byte_char (224 + h)) = 224 + h" "byte (byte_char (128 + p)) = 128 + p" "byte (byte_char (128 + q)) = 128 + q"
    using assms(1-3) by simp_all
  have m: "(224 + h) mod 16 = h" "(128 + p) mod 64 = p" "(128 + q) mod 64 = q"
    using assms(1-3) by (simp_all add: mod_offset)
  have "second_lo (224 + h) \<le> 128 + p" "128 + p \<le> second_hi (224 + h)"
    using assms by (auto simp: second_lo_def second_hi_def)
  with b m assms(1-3) show ?thesis by (simp add: decode_rune_def Let_def cont_at_def)
qed

lemma decode_rune_4:
  assumes "g < 5" "o' < 64" "p < 64" "q < 64" "g = 0 \<longrightarrow> 16 \<le> o'" "g = 4 \<longrightarrow> o' \<le> 15"
  shows "decode_rune (byte_char (240 + g) # byte_char (128 + o') # byte_char (128 + p) # byte_char (128 + q) # s) =
    (g * 262144 + o' * 4096 + p * 64 + q, 4)"
proof -
  have b: "byte (byte_char (240 + g)) = 240 + g" "byte (byte_char (128 + o')) = 128 + o'"
    "byte (byte_char (128 + p)) = 128 + p" "byte (byte_char (128 + q)) = 128 + q"
    using assms(1-4) by simp_all
  have m: "(240 + g) mod 8 = g" "(128 + o') mod 64 = o'" "(128 + p) mod 64 = p" "(128 + q) mod 64 = q"
    using assms(1-4) by (simp_all add: mod_offset)
  have "second_lo (240 + g) \<le> 128 + o'" "128 + o' \<le> second_hi (240 + g)"
    using assms by (auto simp: second_lo_def second_hi_def)
  with b m assms(1-4) show ?thesis by (simp add: decode_rune_def Let_def cont_at_def)
qed

lemma decode_encode2:
  assumes "0x80 \<le> r" "r < 0x800"
  shows "decode_rune (byte_char (0xC0 + r div 64) # byte_char (0x80 + r mod 64) # s) = (r, 2)"
proof -
  have q: "2 \<le> r div 64" "r div 64 < 32" using assms div_le_mono [OF assms(1), of 64] by (simp_all add: less_mult_imp_div_less)
  moreover have "(192 + r div 64) mod 32 = r div 64" using q by (simp add: mod_offset)
  ultimately show ?thesis
    using digit64 [of r] div64(1) [of r]
    by (simp add: decode_rune_def Let_def cont_at_def second_lo_def second_hi_def)
qed

lemma decode_encode3:
  assumes "0x800 \<le> r" "r < 0x10000" "valid_rune r"
  shows "decode_rune (byte_char (0xE0 + r div 4096) # byte_char (0x80 + r div 64 mod 64) #
    byte_char (0x80 + r mod 64) # s) = (r, 3)"
proof -
  define q where "q = r div 64"
  have q: "32 \<le> q" "q < 1024" using div_le_mono [OF assms(1), of 64] assms(2) by (simp_all add: q_def less_mult_imp_div_less)
  define h where "h = q div 64"
  have h: "h < 16" "(224 + h) mod 16 = h" "q = h * 64 + q mod 64"
    using q by (simp_all add: h_def less_mult_imp_div_less mod_offset)
  have lo: "h = 0 \<Longrightarrow> 32 \<le> q mod 64" using h(3) q(1) by simp
  have hi: "q mod 64 \<le> 31" if "h = 13"
  proof -
    have "832 \<le> q" "q < 896" using h(3) that digit64(2) [of q] by linarith+
    then have "53248 \<le> r" "r < 57344" using div64(1) [of r] digit64(2) [of r] by (simp_all add: q_def)
    then have "r < 0xD800" using assms(3) by (auto simp: valid_rune_def)
    then have "q < 864" by (simp add: q_def less_mult_imp_div_less)
    then show ?thesis using h(3) that by linarith
  qed
  have "h * 4096 + q mod 64 * 64 + r mod 64 = r" using div64(1) [of r] h(3) by (simp flip: q_def)
  then show ?thesis
    using decode_rune_3 [of h "q mod 64" "r mod 64" s] h(1) lo hi
    unfolding div64(2) [of r] q_def [symmetric] h_def [symmetric] by simp
qed

lemma decode_encode4:
  assumes "0x10000 \<le> r" "r \<le> 0x10FFFF"
  shows "decode_rune (byte_char (0xF0 + r div 262144) # byte_char (0x80 + r div 4096 mod 64) #
    byte_char (0x80 + r div 64 mod 64) # byte_char (0x80 + r mod 64) # s) = (r, 4)"
proof -
  define q where "q = r div 64"
  define h where "h = q div 64"
  define g where "g = h div 64"
  have q: "1024 \<le> q" "q < 17408" using div_le_mono [OF assms(1), of 64] assms(2) by (simp_all add: q_def less_mult_imp_div_less)
  have h: "16 \<le> h" "h < 272" using div_le_mono [OF q(1), of 64] q(2) by (simp_all add: h_def less_mult_imp_div_less)
  have g: "g < 5" "(240 + g) mod 8 = g" using h by (simp_all add: g_def less_mult_imp_div_less mod_offset)
  have d: "h = g * 64 + h mod 64" "q = h * 64 + q mod 64" "r = q * 64 + r mod 64"
    by (simp_all add: g_def h_def q_def)
  have lo: "g = 0 \<Longrightarrow> 16 \<le> h mod 64" and hi: "g = 4 \<Longrightarrow> h mod 64 \<le> 15" using d(1) h by linarith+
  have "g * 262144 + h mod 64 * 4096 + q mod 64 * 64 + r mod 64 = r" using d by linarith
  then show ?thesis
    using decode_rune_4 [of g "h mod 64" "q mod 64" "r mod 64" s] g(1) lo hi
    unfolding div64(2,3) [of r] q_def [symmetric] h_def [symmetric] g_def [symmetric] by simp
qed

lemma decode_encode:
  assumes "valid_rune r"
  shows "decode_rune (encode_rune r @ s) = (r, length (encode_rune r))"
proof -
  have "r \<le> 0x10FFFF" using assms by (auto simp: valid_rune_def)
  then show ?thesis
    using assms decode_ascii [of "byte_char r"] decode_encode2 [of r] decode_encode3 [of r] decode_encode4 [of r]
    by (auto simp: encode_rune_def Let_def)
qed

lemma runes_w_Nil [simp]: "runes_w [] = []"
  by (simp add: runes_w.simps)

lemma encode_rune_nonempty [simp]: "encode_rune r \<noteq> []"
  by (simp add: encode_rune_def Let_def)

lemma runes_encode: "valid_rune r \<Longrightarrow> runes (encode_rune r @ s) = r # runes s"
  by (subst runes_def, subst runes_w.simps) (simp add: decode_encode runes_def)

lemma runes_encode_all: "(\<And>r. r \<in> set rs \<Longrightarrow> valid_rune r) \<Longrightarrow> runes (concat (map encode_rune rs)) = rs"
  by (induction rs) (auto simp: runes_encode, simp add: runes_def)

lemma runes_ascii: "byte c < 0x80 \<Longrightarrow> runes (c # s) = byte c # runes s"
  by (subst runes_def, subst runes_w.simps) (simp add: decode_ascii runes_def)

section \<open>ASCII text\<close>

lemma second_byte_low:
  assumes "cont_at s 1 (second_lo b) (second_hi b)"
  shows "b = 0xE0 \<Longrightarrow> 32 \<le> byte (s ! 1) mod 64" and "b = 0xF0 \<Longrightarrow> 16 \<le> byte (s ! 1) mod 64"
proof -
  obtain k where k: "byte (s ! 1) = 128 + k" "k < 64" "b = 0xE0 \<Longrightarrow> 32 \<le> k" "b = 0xF0 \<Longrightarrow> 16 \<le> k"
  proof
    show "byte (s ! 1) = 128 + (byte (s ! 1) - 128)" "byte (s ! 1) - 128 < 64"
      "b = 0xE0 \<Longrightarrow> 32 \<le> byte (s ! 1) - 128" "b = 0xF0 \<Longrightarrow> 16 \<le> byte (s ! 1) - 128"
      using assms by (auto simp: cont_at_def second_lo_def second_hi_def split: if_splits)
  qed
  then have "byte (s ! 1) mod 64 = k" using mod_offset [of 64 128 k] by simp
  with k show "b = 0xE0 \<Longrightarrow> 32 \<le> byte (s ! 1) mod 64" "b = 0xF0 \<Longrightarrow> 16 \<le> byte (s ! 1) mod 64" by simp_all
qed

lemma lead_low:
  "0xC2 \<le> b \<Longrightarrow> b < 0xE0 \<Longrightarrow> 2 \<le> b mod (32::nat)"
  "0xE0 < b \<Longrightarrow> b < 0xF0 \<Longrightarrow> 1 \<le> b mod (16::nat)"
  "0xF0 < b \<Longrightarrow> b \<le> 0xF4 \<Longrightarrow> 1 \<le> b mod (8::nat)"
proof -
  show "2 \<le> b mod 32" if "0xC2 \<le> b" "b < 0xE0" using that mod_offset [of 32 192 "b - 192"] by simp
  show "1 \<le> b mod 16" if "0xE0 < b" "b < 0xF0" using that mod_offset [of 16 224 "b - 224"] by simp
  show "1 \<le> b mod 8" if "0xF0 < b" "b \<le> 0xF4" using that mod_offset [of 8 240 "b - 240"] by simp
qed

lemma decode_small:
  assumes "s \<noteq> []" "fst (decode_rune s) < 0x80"
  shows "decode_rune s = (byte (hd s), 1)"
proof -
  define b where "b = byte (hd s)"
  have b0: "byte (s ! 0) = b" using assms(1) by (simp add: b_def hd_conv_nth)
  show ?thesis
  proof (cases "b < 0x80")
    case True then show ?thesis using assms(1) b0 by (simp add: decode_rune_def b_def)
  next
    case False
    show ?thesis
      using assms False second_byte_low [of s b] lead_low [of b]
      unfolding decode_rune_def Let_def b0
      by (cases "b = 0xE0"; cases "b = 0xF0") (auto simp: RuneError_def split: if_splits)
  qed
qed

lemma ascii_runes:
  "list_all P (runes s) \<Longrightarrow> (\<And>r. P r \<Longrightarrow> r < 0x80) \<Longrightarrow> runes s = map byte s"
proof (induction s rule: runes_w.induct)
  case (1 s)
  show ?case
  proof (cases "s = []")
    case True then show ?thesis by (simp add: runes_def)
  next
    case False
    have r: "runes s = fst (decode_rune s) # runes (drop (snd (decode_rune s)) s)"
      using False by (simp add: runes_def) (subst runes_w.simps, simp)
    then have "fst (decode_rune s) < 0x80" using "1.prems" by simp
    from decode_small [OF False this] have d: "decode_rune s = (byte (hd s), 1)" .
    then have "runes (drop 1 s) = map byte (drop 1 s)" using "1.IH" [OF False] "1.prems" r by simp
    then show ?thesis using False d r by (cases s) simp_all
  qed
qed

section \<open>White space\<close>

text \<open>\<open>unicode.IsSpace\<close>, \<open>utf8.DecodeLastRuneInString\<close> and \<open>strings.TrimSpace\<close>.\<close>

definition is_space :: "nat \<Rightarrow> bool" where
  "is_space r \<longleftrightarrow> 9 \<le> r \<and> r \<le> 13 \<or> r = 32 \<or> r = 0x85 \<or> r = 0xA0 \<or> r = 0x1680 \<or> 0x2000 \<le> r \<and> r \<le> 0x200A \<or>
     r = 0x2028 \<or> r = 0x2029 \<or> r = 0x202F \<or> r = 0x205F \<or> r = 0x3000"

fun rune_start_back :: "nat \<Rightarrow> go_string \<Rightarrow> nat" where
  "rune_start_back 0 s = 0"
| "rune_start_back (Suc k) [] = 0"
| "rune_start_back (Suc k) (c # s) = (if is_cont c then Suc (rune_start_back k s) else 0)"

definition decode_last_rune :: "go_string \<Rightarrow> nat \<times> nat" where
  "decode_last_rune s =
     (if s = [] then (RuneError, 0)
      else if byte (last s) < 0x80 then (byte (last s), 1)
      else let k = rune_start_back 3 (rev s);
               w = min (k + 1) (length s);
               (r, n) = decode_rune (drop (length s - w) s)
           in if n \<noteq> w then (RuneError, 1) else (r, n))"

lemma decode_last_width: "s \<noteq> [] \<Longrightarrow> 0 < snd (decode_last_rune s)"
  by (auto simp: decode_last_rune_def Let_def split: prod.splits)

lemma decode_last_drop: "s \<noteq> [] \<Longrightarrow> (r, w) = decode_last_rune s \<Longrightarrow> length s - w < length s"
  using decode_last_width [of s] by (metis diff_less length_greater_0_conv snd_conv)

function trim_space_left :: "go_string \<Rightarrow> go_string" where
  "trim_space_left s =
     (if s = [] then []
      else let (r, w) = decode_rune s in if is_space r then trim_space_left (drop w s) else s)"
  by pat_completeness auto
termination
  by (relation "measure length") (simp_all add: decode_drop)

function trim_space_right :: "go_string \<Rightarrow> go_string" where
  "trim_space_right s =
     (if s = [] then []
      else let (r, w) = decode_last_rune s in if is_space r then trim_space_right (take (length s - w) s) else s)"
  by pat_completeness auto
termination
  by (relation "measure length") (simp_all add: decode_last_drop)

declare trim_space_left.simps [simp del] trim_space_right.simps [simp del]

definition trim_space :: "go_string \<Rightarrow> go_string" where
  "trim_space s = trim_space_right (trim_space_left s)"

lemma trim_space_id:
  assumes "s \<noteq> []" "byte (hd s) < 0x80" "\<not> is_space (byte (hd s))" "byte (last s) < 0x80" "\<not> is_space (byte (last s))"
  shows "trim_space s = s"
proof -
  have "decode_rune s = (byte (hd s), 1)" using assms(1,2) by (cases s) (simp_all add: decode_ascii)
  then have "trim_space_left s = s" using assms(1,3) by (subst trim_space_left.simps) simp
  moreover have "decode_last_rune s = (byte (last s), 1)" using assms(1,4) by (simp add: decode_last_rune_def)
  then have "trim_space_right s = s" using assms(1,5) by (subst trim_space_right.simps) simp
  ultimately show ?thesis by (simp add: trim_space_def)
qed

end
