(* ===== verification/Go_Json.thy ===== *)
theory Go_Json
  imports Go_Utf8
begin

text \<open>
  \<open>json.Marshal\<close> of package \<open>encoding/json\<close> on the values the program serialises: a map is written with its
  keys sorted, a struct in field order, a string with HTML escaping and with invalid UTF-8 replaced. A
  value it cannot encode (a channel, a function, a NaN) is \<open>JUnsupported\<close> and makes the whole encoding
  fail. Floating-point numbers come as the literal text of a \<open>JNumber\<close>.
\<close>

datatype json =
    JNull
  | JBool bool
  | JInt int
  | JNumber go_string
  | JString go_string
  | JArray "json list"
  | JMap "(go_string \<times> json) list"
  | JStruct "(go_string \<times> json) list"
  | JUnsupported

abbreviation BSL :: char where "BSL \<equiv> CHR 0x5C"
abbreviation QUOTE :: char where "QUOTE \<equiv> CHR 0x22"

definition hex_digit :: "nat \<Rightarrow> char" where
  "hex_digit n = ''0123456789abcdef'' ! n"

definition json_ascii :: "nat \<Rightarrow> go_string" where
  "json_ascii r =
     (if r = 0x22 \<or> r = 0x5C then [BSL, byte_char r]
      else if r = 8 then [BSL, CHR ''b'']
      else if r = 12 then [BSL, CHR ''f'']
      else if r = 10 then [BSL, CHR ''n'']
      else if r = 13 then [BSL, CHR ''r'']
      else if r = 9 then [BSL, CHR ''t'']
      else if r < 0x20 \<or> r = 0x3C \<or> r = 0x3E \<or> r = 0x26
        then BSL # ''u00'' @ [hex_digit (r div 16), hex_digit (r mod 16)]
      else [byte_char r])"

function json_chars :: "go_string \<Rightarrow> go_string" where
  "json_chars s =
     (if s = [] then []
      else let (r, w) = decode_rune s
           in (if r < 0x80 then json_ascii r
               else if r = RuneError \<and> w = 1 then BSL # ''ufffd''
               else if r = 0x2028 \<or> r = 0x2029 then BSL # ''u202'' @ [hex_digit (r mod 16)]
               else take w s) @ json_chars (drop w s))"
  by pat_completeness auto
termination
  by (relation "measure length") (simp_all add: decode_drop)

declare json_chars.simps [simp del]

definition json_string :: "go_string \<Rightarrow> go_string" where
  "json_string s = QUOTE # json_chars s @ [QUOTE]"

fun join_comma :: "go_string list \<Rightarrow> go_string" where
  "join_comma [] = []"
| "join_comma [x] = x"
| "join_comma (x # y # ys) = x @ CHR '','' # join_comma (y # ys)"

definition json_object :: "(go_string \<times> go_string) list \<Rightarrow> go_string" where
  "json_object kvs = CHR ''{'' # join_comma (map (\<lambda>(k, v). json_string k @ CHR '':'' # v) kvs) @ [CHR ''}'']"

fun marshal :: "json \<Rightarrow> go_string option"
  and marshal_list :: "json list \<Rightarrow> go_string list option"
  and marshal_fields :: "(go_string \<times> json) list \<Rightarrow> (go_string \<times> go_string) list option" where
  "marshal JNull = Some ''null''"
| "marshal (JBool b) = Some (if b then ''true'' else ''false'')"
| "marshal (JInt n) = Some (itoa n)"
| "marshal (JNumber lit) = Some lit"
| "marshal (JString s) = Some (json_string s)"
| "marshal (JArray vs) = map_option (\<lambda>ts. CHR ''['' # join_comma ts @ [CHR '']'']) (marshal_list vs)"
| "marshal (JMap kvs) = map_option (\<lambda>ts. json_object (sort_key fst ts)) (marshal_fields kvs)"
| "marshal (JStruct kvs) = map_option json_object (marshal_fields kvs)"
| "marshal JUnsupported = None"
| "marshal_list [] = Some []"
| "marshal_list (v # vs) =
     (case marshal v of None \<Rightarrow> None | Some t \<Rightarrow> map_option ((#) t) (marshal_list vs))"
| "marshal_fields [] = Some []"
| "marshal_fields ((k, v) # kvs) =
     (case marshal v of None \<Rightarrow> None | Some t \<Rightarrow> map_option ((#) (k, t)) (marshal_fields kvs))"

lemma json_chars_Nil [simp]: "json_chars [] = []"
  by (simp add: json_chars.simps)

lemma json_chars_ascii: "byte c < 0x80 \<Longrightarrow> json_chars (c # s) = json_ascii (byte c) @ json_chars s"
  by (subst json_chars.simps) (simp add: decode_ascii)

end
