(* ===== verification/Output_Result.thy ===== *)
theory Output_Result
  imports Output_Selection Go_Json
begin

text \<open>
  Bounded JSON results, \<open>outputlimit/result.go\<close>: \<open>applyGrant\<close> combines a call's budget grant with the
  policy, and \<open>BoundJSON\<close> shrinks the source text until the serialised fallback fits. The fallback is the
  caller's function. \<open>None\<close> is a panic of \<open>Apply\<close>, shown not to happen.
\<close>

type_synonym fallback = "go_string \<Rightarrow> report \<Rightarrow> (go_string \<times> json) list"

datatype bound_error =
    ErrFallbackRequired
  | ErrMarshal
  | ErrExhausted
  | ErrMarshalTruncated
  | ErrTooSmall

definition marshal_map :: "(go_string \<times> json) list \<Rightarrow> go_string option" where
  "marshal_map v = marshal (JMap v)"

text \<open>\<open>strings.Replace(s, old, new, 1)\<close>.\<close>

definition replace_first :: "go_string \<Rightarrow> go_string \<Rightarrow> go_string \<Rightarrow> go_string" where
  "replace_first s old new =
     (case str_index s old of None \<Rightarrow> s | Some i \<Rightarrow> take i s @ new @ drop (i + length old) s)"

definition report_marker :: "go_string \<Rightarrow> report \<Rightarrow> go_string" where
  "report_marker reason r = Marker reason (KeptBytes r) (OriginalBytes r) (KeptLines r) (OriginalLines r)"

definition zero_policy :: policy where
  "zero_policy = \<lparr>MaxBytes = 0, MaxLines = 0, MaxLineBytes = 0, HeadFraction = f_zero\<rparr>"

definition grant_policy :: "int \<Rightarrow> policy \<Rightarrow> policy" where
  "grant_policy grant p =
     (let p = (if MaxBytes p \<le> 0 \<or> MaxBytes p > grant then p\<lparr>MaxBytes := grant\<rparr> else p)
      in if MaxLineBytes p \<le> 0 \<or> MaxLineBytes p > grant then p\<lparr>MaxLineBytes := grant\<rparr> else p)"

definition applyGrant :: "go_string \<Rightarrow> int \<Rightarrow> policy \<Rightarrow> (go_string \<times> report) option" where
  "applyGrant value grant configured =
     (if grant \<le> 0
      then case Apply zero_policy value of
             None \<Rightarrow> None
           | Some (_, original) \<Rightarrow>
               Some ([], \<lparr>Truncated = True, Reason = ReasonBudget, OriginalBytes = OriginalBytes original,
                          OriginalLines = OriginalLines original, KeptBytes = 0, KeptLines = 0\<rparr>)
      else let budgetLimited = (MaxBytes configured \<le> 0 \<or> grant < MaxBytes configured)
           in case Apply (grant_policy grant configured) value of
                None \<Rightarrow> None
              | Some (limited, r) \<Rightarrow>
                  if budgetLimited \<and> Truncated r \<and> (Reason r = ReasonBytes \<or> Reason r = ReasonLineLength)
                  then let oldMarker = report_marker (Reason r) r
                       in Some (replace_first limited oldMarker (report_marker ReasonBudget r), r\<lparr>Reason := ReasonBudget\<rparr>)
                  else Some (limited, r))"

definition hard_limit :: "int \<Rightarrow> policy \<Rightarrow> int" where
  "hard_limit grant p = (if MaxBytes p > 0 \<and> MaxBytes p < grant then MaxBytes p else grant)"

text \<open>The loop over \<open>sourceLimit\<close>: \<open>Some None\<close> leaves it for the minimal result.\<close>

function bound_loop ::
  "go_string \<Rightarrow> int \<Rightarrow> policy \<Rightarrow> fallback \<Rightarrow> int \<Rightarrow>
   (bound_error + (go_string \<times> json) list \<times> int) option option" where
  "bound_loop encoded hardLimit p fb sourceLimit =
     (if sourceLimit \<le> 0 then Some None
      else case applyGrant encoded sourceLimit p of
             None \<Rightarrow> None
           | Some (limited, limitedReport) \<Rightarrow>
               let bounded = fb limited limitedReport
               in case marshal_map bounded of
                    None \<Rightarrow> Some (Some (Inl ErrMarshalTruncated))
                  | Some final \<Rightarrow>
                      if slen final \<le> hardLimit then Some (Some (Inr (bounded, slen final)))
                      else bound_loop encoded hardLimit p fb (sourceLimit - max 1 (slen final - hardLimit)))"
  by pat_completeness auto
termination
  by (relation "measure (\<lambda>(_, _, _, _, n). nat n)") auto

declare bound_loop.simps [simp del]

definition minimal_result :: "(go_string \<times> json) list" where
  "minimal_result = [(''truncated'', JBool True)]"

definition BoundJSON ::
  "(go_string \<times> json) list \<Rightarrow> int \<Rightarrow> policy \<Rightarrow> fallback option \<Rightarrow>
   (bound_error + (go_string \<times> json) list \<times> int) option" where
  "BoundJSON projected grant p fallback =
     (case fallback of
        None \<Rightarrow> Some (Inl ErrFallbackRequired)
      | Some fb \<Rightarrow>
          (case marshal_map projected of
             None \<Rightarrow> Some (Inl ErrMarshal)
           | Some encoded \<Rightarrow>
               let hardLimit = hard_limit grant p
               in if hardLimit < 2 then Some (Inl ErrExhausted)
                  else case applyGrant encoded hardLimit p of
                         None \<Rightarrow> None
                       | Some (_, r) \<Rightarrow>
                           if \<not> Truncated r \<and> slen encoded \<le> hardLimit then Some (Inr (projected, slen encoded))
                           else case bound_loop encoded hardLimit p fb (min hardLimit (slen encoded)) of
                                  None \<Rightarrow> None
                                | Some (Some res) \<Rightarrow> Some res
                                | Some None \<Rightarrow>
                                    (case marshal_map minimal_result of
                                       Some final \<Rightarrow>
                                         if slen final \<le> hardLimit then Some (Inr (minimal_result, slen final))
                                         else Some (Inl ErrTooSmall)
                                     | None \<Rightarrow> Some (Inl ErrTooSmall))))"

section \<open>Grants\<close>

lemma grant_policy_simps [simp]:
  "0 < g \<Longrightarrow> 0 < MaxBytes (grant_policy g p) \<and> MaxBytes (grant_policy g p) \<le> g"
  "0 < g \<Longrightarrow> 0 < MaxLineBytes (grant_policy g p) \<and> MaxLineBytes (grant_policy g p) \<le> g"
  "MaxLines (grant_policy g p) = MaxLines p" "HeadFraction (grant_policy g p) = HeadFraction p"
  by (auto simp: grant_policy_def Let_def)

lemma applyGrant_total: "\<exists>out r. applyGrant v g p = Some (out, r)"
  using Apply_defined [of zero_policy v] Apply_defined [of "grant_policy g p" v]
  by (auto simp: applyGrant_def Let_def)

lemma min_limit: "0 < hard_limit g p \<Longrightarrow> 0 < g" "0 < MaxBytes p \<Longrightarrow> hard_limit g p \<le> MaxBytes p" "hard_limit g p \<le> g"
  by (auto simp: hard_limit_def split: if_splits)

section \<open>The shrinking loop\<close>

definition fits :: "int \<Rightarrow> bound_error + (go_string \<times> json) list \<times> int \<Rightarrow> bool" where
  "fits limit res \<longleftrightarrow> (case res of Inl _ \<Rightarrow> True
     | Inr (v, n) \<Rightarrow> n \<le> limit \<and> (\<exists>t. marshal_map v = Some t \<and> n = slen t))"

lemma bound_loop_total: "\<exists>res. bound_loop e h p fb n = Some res"
proof (induction e h p fb n rule: bound_loop.induct)
  case (1 e h p fb n)
  obtain out r where a: "applyGrant e n p = Some (out, r)" using applyGrant_total by blast
  show ?case
  proof (cases "n \<le> 0 \<or> marshal_map (fb out r) = None \<or> (\<exists>t. marshal_map (fb out r) = Some t \<and> slen t \<le> h)")
    case True
    then show ?thesis by (subst bound_loop.simps) (auto simp: a Let_def)
  next
    case False
    then obtain t where t: "\<not> n \<le> 0" "marshal_map (fb out r) = Some t" "\<not> slen t \<le> h" by auto
    from "1.IH" [OF t(1) a refl refl t(2,3)] show ?thesis
      by (subst bound_loop.simps) (simp add: a t Let_def)
  qed
qed

lemma bound_loop_fits: "bound_loop e h p fb n = Some (Some res) \<Longrightarrow> fits h res"
proof (induction e h p fb n rule: bound_loop.induct)
  case (1 e h p fb n)
  obtain out r where a: "applyGrant e n p = Some (out, r)" using applyGrant_total by blast
  show ?case
  proof (cases "n \<le> 0")
    case True
    with "1.prems" show ?thesis by (simp add: bound_loop.simps [of e h p fb n])
  next
    case n: False
    show ?thesis
    proof (cases "marshal_map (fb out r)")
      case None
      with "1.prems" n a show ?thesis by (simp add: bound_loop.simps [of e h p fb n] Let_def fits_def) (auto simp: fits_def)
    next
      case (Some t)
      with "1.prems" "1.IH" [OF n a refl refl Some] n a show ?thesis
        by (auto simp: bound_loop.simps [of e h p fb n] Let_def fits_def split: if_splits)
    qed
  qed
qed

lemma bound_loop_no_error:
  "(\<And>out r. marshal_map (fb out r) \<noteq> None) \<Longrightarrow> bound_loop e h p fb n \<noteq> Some (Some (Inl err))"
proof (induction e h p fb n rule: bound_loop.induct)
  case (1 e h p fb n)
  obtain out r where a: "applyGrant e n p = Some (out, r)" using applyGrant_total by blast
  obtain t where t: "marshal_map (fb out r) = Some t" using "1.prems" [of out r] by blast
  show ?case
    using "1.IH" [OF _ a refl refl t _ "1.prems"] a t by (auto simp: bound_loop.simps [of e h p fb n] Let_def)
qed

lemma marshal_minimal: "\<exists>t. marshal_map minimal_result = Some t \<and> slen t = 18"
  by (simp add: marshal_map_def minimal_result_def json_object_def json_string_def json_chars_ascii json_ascii_def byte_def)

text \<open>How \<open>BoundJSON\<close> ends, once its arguments are valid.\<close>

lemma BoundJSON_cases:
  assumes "marshal_map v = Some t" "2 \<le> hard_limit g p"
  obtains (whole) out r where "applyGrant t (hard_limit g p) p = Some (out, r)" "\<not> Truncated r" "slen t \<le> hard_limit g p"
      "BoundJSON v g p (Some fb) = Some (Inr (v, slen t))"
    | (shrunk) res where "bound_loop t (hard_limit g p) p fb (min (hard_limit g p) (slen t)) = Some (Some res)"
      "BoundJSON v g p (Some fb) = Some res"
    | (minimal) m where "marshal_map minimal_result = Some m" "slen m = 18"
      "BoundJSON v g p (Some fb) = (if 18 \<le> hard_limit g p then Some (Inr (minimal_result, 18)) else Some (Inl ErrTooSmall))"
proof -
  let ?h = "hard_limit g p"
  obtain out r where a: "applyGrant t ?h p = Some (out, r)" using applyGrant_total by blast
  obtain res where l: "bound_loop t ?h p fb (min ?h (slen t)) = Some res" using bound_loop_total by blast
  obtain m where m: "marshal_map minimal_result = Some m" "slen m = 18" using marshal_minimal by blast
  have u: "BoundJSON v g p (Some fb) = (if \<not> Truncated r \<and> slen t \<le> ?h then Some (Inr (v, slen t))
      else case res of Some x \<Rightarrow> Some x | None \<Rightarrow>
        if 18 \<le> ?h then Some (Inr (minimal_result, 18)) else Some (Inl ErrTooSmall))"
    using l by (cases res; cases "slen t \<le> ?h") (simp_all add: BoundJSON_def Let_def assms a m linorder_not_less [THEN iffD2])
  show ?thesis
  proof (cases "\<not> Truncated r \<and> slen t \<le> ?h")
    case True
    with u a show ?thesis by (auto intro: whole)
  next
    case False
    with u l m show ?thesis by (cases res) (auto intro: shrunk minimal)
  qed
qed

lemma minimal_fits: "18 \<le> h \<Longrightarrow> fits h (Inr (minimal_result, 18))"
  using marshal_minimal by (auto simp: fits_def)

section \<open>Properties\<close>

text \<open>C4: \<open>BoundJSON\<close> always returns, never panics, and what it returns fits: the byte count it reports is
  the length of the serialised value, and exceeds neither the grant nor a positive \<open>MaxBytes\<close>, the smaller
  of which is the hard limit.\<close>

theorem bound_json_fits:
  "\<exists>res. BoundJSON v g p fb = Some res \<and>
    (case res of Inl _ \<Rightarrow> True
     | Inr (v', n) \<Rightarrow> (\<exists>t. marshal_map v' = Some t \<and> n = slen t) \<and>
         n \<le> g \<and> n \<le> (if 0 < MaxBytes p then MaxBytes p else g))"
proof -
  have lim: "\<exists>res. x = Some res \<and> (case res of Inl _ \<Rightarrow> True
      | Inr (v', n) \<Rightarrow> (\<exists>t. marshal_map v' = Some t \<and> n = slen t) \<and> n \<le> g \<and> n \<le> (if 0 < MaxBytes p then MaxBytes p else g))"
    if "x = Some res" "fits (hard_limit g p) res" for x res
    using that min_limit(3) [of g p] min_limit(2) [of p g] unfolding fits_def
    by (auto split: sum.splits)
  show ?thesis
  proof (cases "fb = None \<or> marshal_map v = None \<or> hard_limit g p < 2")
    case True
    then show ?thesis by (auto simp: BoundJSON_def Let_def split: option.splits)
  next
    case False
    then obtain f t where ft: "fb = Some f" "marshal_map v = Some t" "2 \<le> hard_limit g p" by auto
    from ft(2,3) show ?thesis
    proof (cases rule: BoundJSON_cases [where fb = f])
      case whole
      then show ?thesis using ft(1,2) by (intro lim [of _ "Inr (v, slen t)"]) (auto simp: fits_def)
    next
      case (shrunk res)
      from bound_loop_fits [OF this(1)] this(2) ft(1) show ?thesis by (intro lim [of _ res]) simp_all
    next
      case minimal
      then show ?thesis using minimal_fits [of "hard_limit g p"] ft(1)
        by (intro lim [of _ "if 18 \<le> hard_limit g p then Inr (minimal_result, 18) else Inl ErrTooSmall"])
          (simp_all add: fits_def)
    qed
  qed
qed

text \<open>With room for the 18 bytes of the minimal marker and a fallback that can be serialised,
  \<open>BoundJSON\<close> always produces a value: truncation alone is never an error.\<close>

theorem bound_json_produces_value:
  assumes "marshal_map v \<noteq> None" and "\<And>out r. marshal_map (fb out r) \<noteq> None" and "18 \<le> hard_limit g p"
  shows "\<exists>v' n. BoundJSON v g p (Some fb) = Some (Inr (v', n))"
proof -
  obtain t where t: "marshal_map v = Some t" using assms(1) by blast
  have h: "2 \<le> hard_limit g p" using assms(3) by simp
  from t h show ?thesis
  proof (cases rule: BoundJSON_cases [where fb = fb])
    case (shrunk res)
    with bound_loop_no_error [of fb, OF assms(2)] show ?thesis by (cases res) auto
  qed (use assms(3) in auto)
qed

text \<open>A fallback that shows the bounded text under \<open>output\<close>, as the skills and MCP tools do.\<close>

definition text_fallback :: fallback where
  "text_fallback out r = [(''output'', JString out), (''truncated'', JBool (Truncated r))]"

lemma text_fallback_marshals: "marshal_map (text_fallback out r) \<noteq> None"
  by (simp add: text_fallback_def marshal_map_def)

theorem bound_json_produces_value_witness:
  "\<exists>v n. BoundJSON [(''content'', JString (replicate 300 CHR ''x''))] 64 Defaults (Some text_fallback) = Some (Inr (v, n))"
  by (rule bound_json_produces_value [OF _ text_fallback_marshals])
    (simp_all add: marshal_map_def hard_limit_def Defaults_def)

text \<open>A grant bounds what is kept like a byte limit does, it never relaxes the line limit, and a cut
  that the grant makes is reported as such, whatever the policy.\<close>

theorem grant_bounds_kept:
  assumes "applyGrant v g p = Some (out, r)"
  shows "KeptBytes r \<le> max 0 g \<and> (0 < MaxBytes p \<longrightarrow> KeptBytes r \<le> MaxBytes p) \<and>
    (0 < MaxLines p \<longrightarrow> KeptLines r \<le> MaxLines p) \<and>
    (Truncated r \<and> (MaxBytes p \<le> 0 \<or> g < MaxBytes p) \<longrightarrow> Reason r \<noteq> ReasonBytes)"
proof (cases "g \<le> 0")
  case True
  with assms show ?thesis by (auto simp: applyGrant_def reason_defs split: option.splits)
next
  case False
  obtain out0 r0 where a: "Apply (grant_policy g p) v = Some (out0, r0)" using Apply_defined by blast
  have m: "MaxBytes (grant_policy g p) \<le> g" "0 < MaxBytes p \<Longrightarrow> MaxBytes (grant_policy g p) \<le> MaxBytes p"
    "0 < MaxBytes (grant_policy g p)" using False by (auto simp: grant_policy_def Let_def)
  have "KeptBytes r0 \<le> MaxBytes (grant_policy g p) \<and> (0 < MaxLines p \<longrightarrow> KeptLines r0 \<le> MaxLines p)"
    using Apply_limits [OF a] m(3) by simp
  moreover have "KeptBytes r = KeptBytes r0 \<and> KeptLines r = KeptLines r0 \<and>
      (Truncated r \<and> (MaxBytes p \<le> 0 \<or> g < MaxBytes p) \<longrightarrow> Reason r \<noteq> ReasonBytes)"
    using assms False a by (auto simp: applyGrant_def Let_def reason_defs split: if_splits)
  moreover from calculation(1) m(1) have "KeptBytes r0 \<le> g" by linarith
  moreover have "0 < MaxBytes p \<Longrightarrow> KeptBytes r0 \<le> MaxBytes p" using calculation(1) m(2) by linarith
  ultimately show ?thesis by auto
qed

theorem grant_bounds_kept_witness:
  "\<exists>out r. applyGrant (replicate 50 CHR ''x'') 16 Defaults = Some (out, r) \<and> KeptBytes r \<le> 16"
proof -
  obtain out r where a: "applyGrant (replicate 50 CHR ''x'') 16 Defaults = Some (out, r)"
    using applyGrant_total by blast
  with grant_bounds_kept [OF a] show ?thesis by auto
qed

definition narrow_lines :: policy where
  "narrow_lines = \<lparr>MaxBytes = 0, MaxLines = 0, MaxLineBytes = 2, HeadFraction = f_half\<rparr>"

definition short_lines :: go_string where
  "short_lines = [CHR ''a'', CHR ''a'', CHR ''a'', CHR ''a'', LF, CHR ''b'']"

lemma short_lines_results:
  "case (Apply narrow_lines short_lines, applyGrant short_lines 100 narrow_lines) of
     (Some (out0, r0), Some (out, r)) \<Rightarrow> out = out0 \<and> Reason r0 = ReasonLineLength \<and> Reason r = ReasonBudget \<and>
       str_index out (Marker ReasonLineLength 2 4 1 1) = Some 1
   | _ \<Rightarrow> False"
  by code_simp

text \<open>A grant that limits nothing is still blamed for the policy's own line elision: the report of
  \<open>applyGrant\<close> says \<open>budget\<close> while the text it returns is the one \<open>Apply\<close> renders without a grant, whose
  per-line marker says \<open>line_length\<close>.\<close>

theorem grant_relabels_line_elision:
  "\<exists>out r0 r. Apply narrow_lines short_lines = Some (out, r0) \<and> applyGrant short_lines 100 narrow_lines = Some (out, r) \<and>
    Reason r0 = ReasonLineLength \<and> Reason r = ReasonBudget \<and> str_index out (Marker ReasonLineLength 2 4 1 1) = Some 1"
  using short_lines_results by (auto split: option.splits)

end
