(* ===== verification/Text_Match.thy ===== *)
theory Text_Match
  imports Go_Prelude
begin

text \<open>
  The edit engine of \<open>codingtools/internal/textmatch\<close>: \<open>normalize.go\<close> (BOM and line endings) and
  \<open>match.go\<close> (the three matching tiers and the splice). The definitions follow the two files; the proofs
  are in \<open>Text_Edit\<close>.
\<close>

section \<open>Package strings\<close>

text \<open>\<open>strings.ReplaceAll\<close> and \<open>strings.Count\<close> of a non-empty string: left to right, without overlap.\<close>

fun replace_skip :: "nat \<Rightarrow> go_string \<Rightarrow> go_string \<Rightarrow> go_string \<Rightarrow> go_string" where
  "replace_skip n old new [] = []"
| "replace_skip (Suc n) old new (c # s) = replace_skip n old new s"
| "replace_skip 0 old new (c # s) =
     (if prefix old (c # s) then new @ replace_skip (length old - 1) old new s
      else c # replace_skip 0 old new s)"

definition replace_all :: "go_string \<Rightarrow> go_string \<Rightarrow> go_string \<Rightarrow> go_string" where
  "replace_all s old new = replace_skip 0 old new s"

fun count_skip :: "nat \<Rightarrow> go_string \<Rightarrow> go_string \<Rightarrow> nat" where
  "count_skip n sub [] = 0"
| "count_skip (Suc n) sub (c # s) = count_skip n sub s"
| "count_skip 0 sub (c # s) =
     (if prefix sub (c # s) then Suc (count_skip (length sub - 1) sub s) else count_skip 0 sub s)"

definition count_str :: "go_string \<Rightarrow> go_string \<Rightarrow> nat" where
  "count_str s sub = count_skip 0 sub s"

section \<open>normalize.go\<close>

definition utf8BOM :: go_string where
  "utf8BOM = [CHR 0xEF, CHR 0xBB, CHR 0xBF]"

record normalizedText =
  content :: go_string
  lineEnding :: go_string
  hadBOM :: bool
  trailingLF :: bool

definition detectLineEnding :: "go_string \<Rightarrow> go_string" where
  "detectLineEnding s =
     (let crlf = int (count_str s [CR, LF]); bareLF = int (count_str s [LF]) - crlf
      in if crlf > bareLF then [CR, LF] else [LF])"

definition stripBOM :: "go_string \<Rightarrow> go_string \<times> bool" where
  "stripBOM s = (if prefix utf8BOM s then (trim_prefix s utf8BOM, True) else (s, False))"

definition normalize :: "go_string \<Rightarrow> normalizedText" where
  "normalize s0 =
     (let le = detectLineEnding s0; (s, bom) = stripBOM s0; s = replace_all s [CR, LF] [LF]
      in \<lparr>content = s, lineEnding = le, hadBOM = bom, trailingLF = suffix [LF] s\<rparr>)"

definition restore :: "go_string \<Rightarrow> go_string \<Rightarrow> bool \<Rightarrow> bool \<Rightarrow> go_string" where
  "restore s le bom tlf =
     (let s = (if tlf \<and> \<not> suffix [LF] s then s @ [LF] else if \<not> tlf then trim_right s [LF] else s);
          s = (if le = [CR, LF] then replace_all s [LF] [CR, LF] else s)
      in if bom then utf8BOM @ s else s)"

section \<open>match.go\<close>

record request =
  req_content :: go_string
  req_old :: go_string
  req_new :: go_string
  replaceAll :: bool

datatype tier = TierExact | TierTrailingWhitespace | TierIndentation

fun tier_number :: "tier \<Rightarrow> nat" where
  "tier_number TierExact = 0"
| "tier_number TierTrailingWhitespace = 1"
| "tier_number TierIndentation = 2"

text \<open>The tiers are the constants 0, 1 and 2 of an integer type, compared as such.\<close>

instantiation tier :: linorder
begin

definition "s \<le> t \<longleftrightarrow> tier_number s \<le> tier_number t"
definition "s < t \<longleftrightarrow> tier_number s < tier_number (t :: tier)"

instance
proof
  fix x y :: tier
  show "x \<le> y \<Longrightarrow> y \<le> x \<Longrightarrow> x = y" by (cases x; cases y) (simp_all add: less_eq_tier_def)
qed (auto simp: less_eq_tier_def less_tier_def)

end

fun tier_String :: "tier \<Rightarrow> go_string" where
  "tier_String TierExact = ''exact''"
| "tier_String TierTrailingWhitespace = ''whitespace''"
| "tier_String TierIndentation = ''indentation''"

datatype edit_error = ErrEmptyOld | ErrNoOpEdit | ErrNoMatch | AmbiguityError nat "nat list"

record match =
  m_start :: nat
  m_end :: nat
  m_line :: nat
  m_delta :: go_string

record logicalLine =
  l_text :: go_string
  l_start :: nat
  l_end :: nat
  l_fullEnd :: nat
  l_terminated :: bool

record edit_result =
  r_content :: go_string
  replacements :: nat
  r_tier :: tier
  ranges :: "(nat \<times> nat) list"
  r_lineEnding :: go_string
  r_hadBOM :: bool

definition lineNumber :: "go_string \<Rightarrow> nat \<Rightarrow> nat" where
  "lineNumber s offset = count_byte (take offset s) LF + 1"

text \<open>The loop of \<open>splitLogicalLines\<close>; \<open>s\<close> is the text from offset \<open>start\<close>.\<close>

function split_logical :: "nat \<Rightarrow> go_string \<Rightarrow> logicalLine list" where
  "split_logical start s =
     (if s = [] then []
      else case index_byte s LF of
             None \<Rightarrow> [\<lparr>l_text = s, l_start = start, l_end = start + length s, l_fullEnd = start + length s,
                       l_terminated = False\<rparr>]
           | Some relative \<Rightarrow>
               \<lparr>l_text = take relative s, l_start = start, l_end = start + relative,
                l_fullEnd = start + relative + 1, l_terminated = True\<rparr> #
               split_logical (start + relative + 1) (drop (relative + 1) s))"
  by pat_completeness auto
termination
  by (relation "measure (\<lambda>(_, s). length s)") auto

declare split_logical.simps [simp del]

definition splitLogicalLines :: "go_string \<Rightarrow> logicalLine list" where
  "splitLogicalLines s = split_logical 0 s"

text \<open>The loop of \<open>exactMatches\<close> from \<open>offset\<close>. \<open>Apply\<close> has rejected an empty old text, for which the
  loop would not advance.\<close>

function exact_from :: "go_string \<Rightarrow> go_string \<Rightarrow> nat \<Rightarrow> match list" where
  "exact_from c old offset =
     (if old = [] \<or> \<not> offset + length old \<le> length c then []
      else case str_index (drop offset c) old of
             None \<Rightarrow> []
           | Some relative \<Rightarrow>
               let start = offset + relative; end' = start + length old
               in \<lparr>m_start = start, m_end = end', m_line = lineNumber c start, m_delta = []\<rparr> # exact_from c old end')"
  by pat_completeness auto
termination
  by (relation "measure (\<lambda>(c, _, offset). length c - offset)") (auto simp: neq_Nil_conv)

declare exact_from.simps [simp del]

definition exactMatches :: "go_string \<Rightarrow> go_string \<Rightarrow> match list" where
  "exactMatches c old = exact_from c old 0"

abbreviation blanks :: go_string where "blanks \<equiv> [CHR '' '', TAB]"

definition trimmed :: "logicalLine \<Rightarrow> go_string" where
  "trimmed l = trim_right (l_text l) blanks"

fun exactLineWindow :: "logicalLine list \<Rightarrow> logicalLine list \<Rightarrow> bool" where
  "exactLineWindow (c # cs) (old # olds) = (trimmed c = trimmed old \<and> exactLineWindow cs olds)"
| "exactLineWindow _ _ = True"

text \<open>The loop of \<open>indentedLineWindow\<close>; \<open>delta\<close> is \<open>None\<close> until it is set.\<close>

fun indented_from :: "go_string option \<Rightarrow> logicalLine list \<Rightarrow> logicalLine list \<Rightarrow> go_string option" where
  "indented_from delta (c # cs) (old # olds) =
     (let contentLine = trimmed c; oldLine = trimmed old
      in if contentLine = [] \<and> oldLine = [] then indented_from delta cs olds
         else if \<not> suffix oldLine contentLine then None
         else let candidate = trim_suffix contentLine oldLine
              in if candidate = [] \<or> \<not> set candidate \<subseteq> set blanks then None
                 else case delta of
                        None \<Rightarrow> indented_from (Some candidate) cs olds
                      | Some d \<Rightarrow> if candidate \<noteq> d then None else indented_from delta cs olds)"
| "indented_from delta _ _ = delta"

definition indentedLineWindow :: "logicalLine list \<Rightarrow> logicalLine list \<Rightarrow> go_string option" where
  "indentedLineWindow cs olds = indented_from None cs olds"

definition compareLineWindow :: "logicalLine list \<Rightarrow> logicalLine list \<Rightarrow> bool \<Rightarrow> go_string option" where
  "compareLineWindow cs olds allowIndentation =
     (if \<not> allowIndentation then (if exactLineWindow cs olds then Some [] else None)
      else indentedLineWindow cs olds)"

text \<open>The loop of \<open>lineMatches\<close> from line \<open>start\<close>; \<open>olds\<close> is not empty.\<close>

function line_from :: "logicalLine list \<Rightarrow> logicalLine list \<Rightarrow> bool \<Rightarrow> bool \<Rightarrow> nat \<Rightarrow> match list" where
  "line_from cs olds tlf allow start =
     (if olds = [] \<or> \<not> start + length olds \<le> length cs then []
      else let endLine = start + length olds - 1
           in if tlf \<and> \<not> l_terminated (cs ! endLine) then line_from cs olds tlf allow (start + 1)
              else case compareLineWindow (take (length olds) (drop start cs)) olds allow of
                     None \<Rightarrow> line_from cs olds tlf allow (start + 1)
                   | Some delta \<Rightarrow>
                       \<lparr>m_start = l_start (cs ! start),
                        m_end = (if tlf then l_fullEnd (cs ! endLine) else l_end (cs ! endLine)),
                        m_line = start + 1, m_delta = delta\<rparr> #
                       line_from cs olds tlf allow (start + length olds))"
  by pat_completeness auto
termination
  by (relation "measure (\<lambda>(cs, _, _, _, start). length cs - start)") (auto simp: neq_Nil_conv)

declare line_from.simps [simp del]

definition lineMatches :: "go_string \<Rightarrow> go_string \<Rightarrow> bool \<Rightarrow> match list" where
  "lineMatches c old allow =
     (let cs = splitLogicalLines c; olds = splitLogicalLines old
      in if olds = [] \<or> length olds > length cs then []
         else line_from cs olds (suffix [LF] old) allow 0)"

definition indentReplacement :: "go_string \<Rightarrow> go_string \<Rightarrow> go_string" where
  "indentReplacement s delta =
     (if s = [] \<or> delta = [] then s
      else concat (map (\<lambda>l. delta @ l_text l @ (if l_terminated l then [LF] else [])) (splitLogicalLines s)))"

text \<open>The tiers are tried in order; the first that matches decides.\<close>

definition find_matches :: "go_string \<Rightarrow> go_string \<Rightarrow> tier \<times> match list" where
  "find_matches c old =
     (let t = TierExact; ms = exactMatches c old;
          (t, ms) = (if ms = [] then (TierTrailingWhitespace, lineMatches c old False) else (t, ms))
      in if ms = [] then (TierIndentation, lineMatches c old True) else (t, ms))"

definition replacement_for :: "tier \<Rightarrow> go_string \<Rightarrow> match \<Rightarrow> go_string" where
  "replacement_for t new m = (if t = TierIndentation then indentReplacement new (m_delta m) else new)"

text \<open>The splice loop of \<open>Apply\<close> from byte \<open>previous\<close>.\<close>

fun splice :: "go_string \<Rightarrow> tier \<Rightarrow> go_string \<Rightarrow> nat \<Rightarrow> match list \<Rightarrow> go_string" where
  "splice c t new previous [] = drop previous c"
| "splice c t new previous (m # ms) =
     drop previous (take (m_start m) c) @ replacement_for t new m @ splice c t new (m_end m) ms"

definition Apply_edit :: "request \<Rightarrow> edit_error + edit_result" where
  "Apply_edit req =
     (if req_old req = [] then Inl ErrEmptyOld
      else if req_old req = req_new req then Inl ErrNoOpEdit
      else let source = normalize (req_content req);
               oldText = content (normalize (req_old req));
               newText = content (normalize (req_new req))
      in if oldText = [] then Inl ErrEmptyOld
         else if oldText = newText then Inl ErrNoOpEdit
         else let (t, matches) = find_matches (content source) oldText
         in if matches = [] then Inl ErrNoMatch
            else if length matches > 1 \<and> \<not> replaceAll req
              then Inl (AmbiguityError (length matches) (map m_line matches))
            else let matches = (if \<not> replaceAll req then take 1 matches else matches);
                     b = splice (content source) t newText 0 matches
            in Inr \<lparr>r_content = restore b (lineEnding source) (hadBOM source) (trailingLF source),
                    replacements = length matches, r_tier = t,
                    ranges = map (\<lambda>m. (m_start m, m_end m)) matches,
                    r_lineEnding = lineEnding source, r_hadBOM = hadBOM source\<rparr>)"

end
