(* ===== verification/Text_Diff.thy ===== *)
theory Text_Diff
  imports Text_Match
begin

text \<open>
  The line diff of \<open>codingtools/internal/textmatch/diff.go\<close>: Myers' algorithm on the lines between the
  common prefix and suffix, bounded by a number of work points, a whole-file replacement when the bound is
  exceeded, the grouping of the operations into hunks, and the unified rendering. The definitions follow
  the file; \<open>Text_Myers\<close> and \<open>Text_Patch\<close> hold the proofs.
\<close>

definition defaultContextLines :: int where "defaultContextLines = 3"
definition maxMyersWorkPoints :: int where "maxMyersWorkPoints = 100000"

definition noNewlineMarker :: go_string where
  "noNewlineMarker = CHR 0x5C # '' No newline at end of file'' @ [LF]"

datatype diffKind = diffEqual | diffDelete | diffInsert

fun kind_byte :: "diffKind \<Rightarrow> char" where
  "kind_byte diffEqual = CHR '' ''"
| "kind_byte diffDelete = CHR ''-''"
| "kind_byte diffInsert = CHR ''+''"

record diffLine =
  d_text :: go_string
  d_terminated :: bool

definition zero_line :: diffLine where "zero_line = \<lparr>d_text = [], d_terminated = False\<rparr>"

record diffOp =
  op_kind :: diffKind
  op_old :: diffLine
  op_new :: diffLine

record diffHunk =
  h_start :: nat
  h_end :: nat

definition op_equal :: "diffLine \<Rightarrow> diffLine \<Rightarrow> diffOp" where
  "op_equal l m = \<lparr>op_kind = diffEqual, op_old = l, op_new = m\<rparr>"

definition op_delete :: "diffLine \<Rightarrow> diffOp" where
  "op_delete l = \<lparr>op_kind = diffDelete, op_old = l, op_new = zero_line\<rparr>"

definition op_insert :: "diffLine \<Rightarrow> diffOp" where
  "op_insert m = \<lparr>op_kind = diffInsert, op_old = zero_line, op_new = m\<rparr>"

section \<open>Lines\<close>

function exactDiffLines :: "go_string \<Rightarrow> diffLine list" where
  "exactDiffLines s =
     (if s = [] then []
      else case index_byte s LF of
             None \<Rightarrow> [\<lparr>d_text = s, d_terminated = False\<rparr>]
           | Some relative \<Rightarrow>
               \<lparr>d_text = take relative s, d_terminated = True\<rparr> # exactDiffLines (drop (relative + 1) s))"
  by pat_completeness auto
termination
  by (relation "measure length") auto

declare exactDiffLines.simps [simp del]

definition diffLines :: "go_string \<Rightarrow> diffLine list" where
  "diffLines s = map (\<lambda>l. \<lparr>d_text = l_text l, d_terminated = l_terminated l\<rparr>) (splitLogicalLines (content (normalize s)))"

fun equalDiffLines :: "diffLine list \<Rightarrow> diffLine list \<Rightarrow> bool" where
  "equalDiffLines [] [] = True"
| "equalDiffLines (a # as) (b # bs) = (a = b \<and> equalDiffLines as bs)"
| "equalDiffLines _ _ = False"

section \<open>Myers' algorithm\<close>

text \<open>The common prefix, with the work points spent; \<open>None\<close> when they exceed the maximum.\<close>

fun common_prefix :: "int \<Rightarrow> diffLine list \<Rightarrow> diffLine list \<Rightarrow> (nat \<times> int) option" where
  "common_prefix wp (a # as) (b # bs) =
     (if a = b
      then if wp + 1 > maxMyersWorkPoints then None
           else map_option (\<lambda>(n, w). (Suc n, w)) (common_prefix (wp + 1) as bs)
      else Some (0, wp))"
| "common_prefix wp _ _ = Some (0, wp)"

type_synonym frontier = "(int, int) gomap"

text \<open>The loop of \<open>advanceMyersDiagonal\<close> along the matching lines.\<close>

function snake :: "diffLine list \<Rightarrow> diffLine list \<Rightarrow> int \<Rightarrow> int \<Rightarrow> int \<Rightarrow> int \<Rightarrow> (int \<times> int \<times> int) option" where
  "snake olds news workBudget x y wp =
     (if x < slen olds \<and> y < slen news \<and> olds ! nat x = news ! nat y
      then if wp + 1 > workBudget then None else snake olds news workBudget (x + 1) (y + 1) (wp + 1)
      else Some (x, y, wp))"
  by pat_completeness auto
termination
  by (relation "measure (\<lambda>(olds, _, _, x, _, _). nat (slen olds - x))") auto

declare snake.simps [simp del]

text \<open>Where the path of a diagonal starts, given the frontier of the previous distance.\<close>

definition diagonal_start :: "frontier \<Rightarrow> int \<Rightarrow> int \<Rightarrow> int" where
  "diagonal_start f distance diagonal =
     (if diagonal \<noteq> - distance \<and> (diagonal = distance \<or> zget f (diagonal - 1) \<ge> zget f (diagonal + 1))
      then zget f (diagonal - 1) + 1 else zget f (diagonal + 1))"

definition advanceMyersDiagonal ::
  "frontier \<Rightarrow> diffLine list \<Rightarrow> diffLine list \<Rightarrow> int \<Rightarrow> int \<Rightarrow> int \<Rightarrow> int \<Rightarrow> (int \<times> int \<times> int) option" where
  "advanceMyersDiagonal f olds news distance diagonal wp workBudget =
     (if wp + 1 > workBudget then None
      else let x = diagonal_start f distance diagonal in snake olds news workBudget x (x - diagonal) (wp + 1))"

definition previousMyersDiagonal :: "frontier \<Rightarrow> int \<Rightarrow> int \<Rightarrow> int" where
  "previousMyersDiagonal f diagonal distance =
     (if diagonal = - distance \<or> (diagonal \<noteq> distance \<and> zget f (diagonal - 1) < zget f (diagonal + 1))
      then diagonal + 1 else diagonal - 1)"

text \<open>The operations are appended to \<open>reversed\<close>, as in the code.\<close>

function back_snake :: "diffLine list \<Rightarrow> diffLine list \<Rightarrow> int \<Rightarrow> int \<Rightarrow> int \<Rightarrow> int \<Rightarrow> diffOp list \<Rightarrow> int \<times> int \<times> diffOp list" where
  "back_snake olds news px py x y reversed =
     (if x > px \<and> y > py
      then back_snake olds news px py (x - 1) (y - 1) (reversed @ [op_equal (olds ! nat (x - 1)) (news ! nat (y - 1))])
      else (x, y, reversed))"
  by pat_completeness auto
termination
  by (relation "measure (\<lambda>(_, _, px, _, x, _, _). nat (x - px))") auto

declare back_snake.simps [simp del]

fun back_from :: "frontier list \<Rightarrow> diffLine list \<Rightarrow> diffLine list \<Rightarrow> nat \<Rightarrow> int \<Rightarrow> int \<Rightarrow> diffOp list \<Rightarrow> int \<times> int \<times> diffOp list" where
  "back_from trace olds news 0 x y reversed = (x, y, reversed)"
| "back_from trace olds news (Suc d) x y reversed =
     (let f = trace ! Suc d;
          previousDiagonal = previousMyersDiagonal f (x - y) (int (Suc d));
          px = zget f previousDiagonal; py = px - previousDiagonal;
          (x, y, reversed) = back_snake olds news px py x y reversed
      in if x = px then back_from trace olds news d x (y - 1) (reversed @ [op_insert (news ! nat (y - 1))])
         else back_from trace olds news d (x - 1) y (reversed @ [op_delete (olds ! nat (x - 1))]))"

function appendMyersRemainder :: "diffOp list \<Rightarrow> diffLine list \<Rightarrow> diffLine list \<Rightarrow> int \<Rightarrow> int \<Rightarrow> diffOp list" where
  "appendMyersRemainder reversed olds news x y =
     (if x > 0 \<and> y > 0
      then appendMyersRemainder (reversed @ [op_equal (olds ! nat (x - 1)) (news ! nat (y - 1))]) olds news (x - 1) (y - 1)
      else if x > 0 then appendMyersRemainder (reversed @ [op_delete (olds ! nat (x - 1))]) olds news (x - 1) y
      else if y > 0 then appendMyersRemainder (reversed @ [op_insert (news ! nat (y - 1))]) olds news x (y - 1)
      else reversed)"
  by pat_completeness auto
termination
  by (relation "measure (\<lambda>(_, _, _, x, y). nat x + nat y)") auto

declare appendMyersRemainder.simps [simp del]

definition backtrackMyers :: "frontier list \<Rightarrow> diffLine list \<Rightarrow> diffLine list \<Rightarrow> nat \<Rightarrow> diffOp list" where
  "backtrackMyers trace olds news distance =
     (let (x, y, reversed) = back_from trace olds news distance (slen olds) (slen news) []
      in rev (appendMyersRemainder reversed olds news x y))"

text \<open>One distance: the loop over its diagonals.\<close>

datatype diagonal_result = OutOfBudget | Reached int int | Exhausted frontier int

function diagonal_loop ::
  "diffLine list \<Rightarrow> diffLine list \<Rightarrow> int \<Rightarrow> int \<Rightarrow> int \<Rightarrow> frontier \<Rightarrow> int \<Rightarrow> diagonal_result" where
  "diagonal_loop olds news workBudget distance diagonal f wp =
     (if diagonal > distance then Exhausted f wp
      else case advanceMyersDiagonal f olds news distance diagonal wp workBudget of
             None \<Rightarrow> OutOfBudget
           | Some (x, y, wp) \<Rightarrow>
               if x \<ge> slen olds \<and> y \<ge> slen news then Reached x y
               else diagonal_loop olds news workBudget distance (diagonal + 2) (AList.update diagonal x f) wp)"
  by pat_completeness auto
termination
  by (relation "measure (\<lambda>(_, _, _, distance, diagonal, _, _). nat (distance + 1 - diagonal))") auto

declare diagonal_loop.simps [simp del]

text \<open>The loop over the distances, from \<open>distance\<close> with \<open>fuel\<close> iterations left: the code runs it for the
  distances 0 to \<open>maxDistance\<close>.\<close>

fun distance_loop ::
  "nat \<Rightarrow> diffLine list \<Rightarrow> diffLine list \<Rightarrow> int \<Rightarrow> frontier list \<Rightarrow> frontier \<Rightarrow> int \<Rightarrow> nat \<Rightarrow> diffOp list option" where
  "distance_loop 0 olds news workBudget trace f wp distance = None"
| "distance_loop (Suc fuel) olds news workBudget trace f wp distance =
     (let trace = trace @ [f]
      in case diagonal_loop olds news workBudget (int distance) (- int distance) f wp of
           OutOfBudget \<Rightarrow> None
         | Reached x y \<Rightarrow> Some (backtrackMyers trace olds news distance)
         | Exhausted f wp \<Rightarrow> distance_loop fuel olds news workBudget trace f wp (Suc distance))"

definition insertedLines :: "diffLine list \<Rightarrow> int \<Rightarrow> diffOp list option" where
  "insertedLines ls workBudget = (if slen ls > workBudget then None else Some (map op_insert ls))"

definition deletedLines :: "diffLine list \<Rightarrow> int \<Rightarrow> diffOp list option" where
  "deletedLines ls workBudget = (if slen ls > workBudget then None else Some (map op_delete ls))"

definition myersMiddleWithBudget :: "diffLine list \<Rightarrow> diffLine list \<Rightarrow> int \<Rightarrow> diffOp list option" where
  "myersMiddleWithBudget olds news workBudget =
     (if olds = [] then insertedLines news workBudget
      else if news = [] then deletedLines olds workBudget
      else distance_loop (length olds + length news + 1) olds news workBudget [] [(1, 0)] 0 0)"

definition myersMiddle :: "diffLine list \<Rightarrow> diffLine list \<Rightarrow> diffOp list option" where
  "myersMiddle olds news = myersMiddleWithBudget olds news maxMyersWorkPoints"

definition myersDiff :: "diffLine list \<Rightarrow> diffLine list \<Rightarrow> diffOp list option" where
  "myersDiff olds news =
     (case common_prefix 0 olds news of
        None \<Rightarrow> None
      | Some (pre, wp) \<Rightarrow>
          (case common_prefix wp (rev (drop pre olds)) (rev (drop pre news)) of
             None \<Rightarrow> None
           | Some (suf, wp) \<Rightarrow>
               let oldMiddle = drop pre (take (length olds - suf) olds);
                   newMiddle = drop pre (take (length news - suf) news)
               in case myersMiddleWithBudget oldMiddle newMiddle (maxMyersWorkPoints - wp) of
                    None \<Rightarrow> None
                  | Some middle \<Rightarrow>
                      Some (map2 op_equal (take pre olds) (take pre news) @ middle @
                            map2 op_equal (drop (length olds - suf) olds) (drop (length news - suf) news))))"

definition wholeFileDiff :: "diffLine list \<Rightarrow> diffLine list \<Rightarrow> diffOp list" where
  "wholeFileDiff olds news = map op_delete olds @ map op_insert news"

section \<open>Hunks\<close>

text \<open>The loop of \<open>groupHunks\<close> over the operations from \<open>index\<close>; \<open>n\<close> is their number.\<close>

fun group_from :: "nat \<Rightarrow> nat \<Rightarrow> diffHunk list \<Rightarrow> nat \<Rightarrow> diffOp list \<Rightarrow> diffHunk list" where
  "group_from c n hunks index [] = hunks"
| "group_from c n hunks index (op # ops) =
     (if op_kind op = diffEqual then group_from c n hunks (Suc index) ops
      else let start = index - c; end' = min n (index + c + 1)
           in if hunks \<noteq> [] \<and> start \<le> h_end (last hunks)
              then group_from c n
                     (if end' > h_end (last hunks) then butlast hunks @ [(last hunks)\<lparr>h_end := end'\<rparr>] else hunks)
                     (Suc index) ops
              else group_from c n (hunks @ [\<lparr>h_start = start, h_end = end'\<rparr>]) (Suc index) ops)"

definition groupHunks :: "diffOp list \<Rightarrow> nat \<Rightarrow> diffHunk list" where
  "groupHunks ops c = group_from c (length ops) [] 0 ops"

fun hunkCounts :: "diffOp list \<Rightarrow> nat \<times> nat" where
  "hunkCounts [] = (0, 0)"
| "hunkCounts (op # ops) =
     (let (a, b) = hunkCounts ops
      in case op_kind op of diffEqual \<Rightarrow> (a + 1, b + 1) | diffDelete \<Rightarrow> (a + 1, b) | diffInsert \<Rightarrow> (a, b + 1))"

fun advancePositions :: "diffOp \<Rightarrow> nat \<times> nat \<Rightarrow> nat \<times> nat" where
  "advancePositions op (a, b) =
     (case op_kind op of diffEqual \<Rightarrow> (a + 1, b + 1) | diffDelete \<Rightarrow> (a + 1, b) | diffInsert \<Rightarrow> (a, b + 1))"

definition renderDiffOp :: "diffOp \<Rightarrow> go_string" where
  "renderDiffOp op =
     kind_byte (op_kind op) #
     (case op_kind op of
        diffEqual \<Rightarrow> d_text (op_old op) @ [LF] @
          (if \<not> d_terminated (op_old op) \<or> \<not> d_terminated (op_new op) then noNewlineMarker else [])
      | diffDelete \<Rightarrow> d_text (op_old op) @ [LF] @ (if \<not> d_terminated (op_old op) then noNewlineMarker else [])
      | diffInsert \<Rightarrow> d_text (op_new op) @ [LF] @ (if \<not> d_terminated (op_new op) then noNewlineMarker else []))"

text \<open>A rendered hunk before it is text: the numbers of its header and its operations.\<close>

record hunk_header =
  oldStart :: nat
  oldCount :: nat
  newStart :: nat
  newCount :: nat
  h_body :: "diffOp list"

text \<open>The loop of \<open>unifiedDiff\<close> over the hunks, from an operation and the positions before it.\<close>

fun hunk_headers :: "diffOp list \<Rightarrow> nat \<Rightarrow> nat \<times> nat \<Rightarrow> diffHunk list \<Rightarrow> hunk_header list" where
  "hunk_headers ops operation pos [] = []"
| "hunk_headers ops operation pos (h # hs) =
     (let first = max operation (h_start h);
          (a, b) = foldl (\<lambda>p op. advancePositions op p) pos (drop operation (take first ops));
          (oc, nc) = hunkCounts (drop (h_start h) (take (h_end h) ops));
          bdy = drop first (take (h_end h) ops)
      in \<lparr>oldStart = (if oc = 0 then a else a + 1), oldCount = oc, newStart = (if nc = 0 then b else b + 1),
          newCount = nc, h_body = bdy\<rparr> #
         hunk_headers ops (max first (h_end h)) (foldl (\<lambda>p op. advancePositions op p) (a, b) bdy) hs)"

definition render_hunk :: "hunk_header \<Rightarrow> go_string" where
  "render_hunk h =
     ''@@ -'' @ itoa (int (oldStart h)) @ '','' @ itoa (int (oldCount h)) @ '' +'' @ itoa (int (newStart h)) @ '','' @
     itoa (int (newCount h)) @ '' @@'' @ [LF] @ concat (map renderDiffOp (h_body h))"

definition diff_ops :: "diffLine list \<Rightarrow> diffLine list \<Rightarrow> diffOp list" where
  "diff_ops olds news = (case myersDiff olds news of Some ops \<Rightarrow> ops | None \<Rightarrow> wholeFileDiff olds news)"

definition effective_context :: "int \<Rightarrow> nat" where
  "effective_context c = (let c = (if c = 0 then defaultContextLines else c) in nat (if c < 0 then 0 else c))"

definition diff_hunks :: "diffLine list \<Rightarrow> diffLine list \<Rightarrow> int \<Rightarrow> hunk_header list" where
  "diff_hunks olds news c =
     (let ops = diff_ops olds news in hunk_headers ops 0 (0, 0) (groupHunks ops (effective_context c)))"

definition unifiedDiff :: "diffLine list \<Rightarrow> diffLine list \<Rightarrow> go_string \<Rightarrow> int \<Rightarrow> go_string" where
  "unifiedDiff olds news path c =
     (if equalDiffLines olds news then []
      else let hunks = diff_hunks olds news c
           in if hunks = [] then []
              else ''--- a/'' @ path @ [LF] @ ''+++ b/'' @ path @ [LF] @ concat (map render_hunk hunks))"

definition UnifiedDiff :: "go_string \<Rightarrow> go_string \<Rightarrow> go_string \<Rightarrow> int \<Rightarrow> go_string" where
  "UnifiedDiff old new path c = unifiedDiff (diffLines old) (diffLines new) path c"

definition UnifiedDiffExact :: "go_string \<Rightarrow> go_string \<Rightarrow> go_string \<Rightarrow> int \<Rightarrow> go_string" where
  "UnifiedDiffExact old new path c = unifiedDiff (exactDiffLines old) (exactDiffLines new) path c"

end
