(* ===== verification/Text_Myers.thy ===== *)
theory Text_Myers
  imports Text_Diff
begin

text \<open>
  Correctness of the diff: whatever \<open>myersDiff\<close> returns, and the whole-file replacement, is an edit script
  from the old to the new lines. The invariant of the search says that each stored frontier holds, per
  diagonal, the end of a path of matching lines that starts next to the frontier before; two lemmas about
  points outside the grid show that the search stops exactly at the end of both files, which is where the
  backtracking starts.
\<close>

section \<open>Edit scripts\<close>

definition old_side :: "diffOp list \<Rightarrow> diffLine list" where
  "old_side ops = map op_old (filter (\<lambda>op. op_kind op \<noteq> diffInsert) ops)"

definition new_side :: "diffOp list \<Rightarrow> diffLine list" where
  "new_side ops = map op_new (filter (\<lambda>op. op_kind op \<noteq> diffDelete) ops)"

definition script :: "diffOp list \<Rightarrow> diffLine list \<Rightarrow> diffLine list \<Rightarrow> bool" where
  "script ops olds news \<longleftrightarrow> old_side ops = olds \<and> new_side ops = news \<and>
     (\<forall>op \<in> set ops. op_kind op = diffEqual \<longrightarrow> op_old op = op_new op)"

lemma script_Nil [simp]: "script [] olds news \<longleftrightarrow> olds = [] \<and> news = []"
  by (auto simp: script_def old_side_def new_side_def)

lemma script_op [simp]:
  "script (op_equal l l # ops) (l # olds) (l # news) \<longleftrightarrow> script ops olds news"
  "script (op_delete l # ops) (l # olds) news \<longleftrightarrow> script ops olds news"
  "script (op_insert l # ops) olds (l # news) \<longleftrightarrow> script ops olds news"
  by (auto simp: script_def old_side_def new_side_def op_equal_def op_delete_def op_insert_def)

lemma side_append [simp]:
  "old_side (a @ b) = old_side a @ old_side b" "new_side (a @ b) = new_side a @ new_side b"
  by (simp_all add: old_side_def new_side_def)

lemma script_append: "script a o1 n1 \<Longrightarrow> script b o2 n2 \<Longrightarrow> script (a @ b) (o1 @ o2) (n1 @ n2)"
  by (auto simp: script_def)

lemma script_equals: "script (map2 op_equal ls ls) ls ls"
  by (induction ls) auto

lemma script_deletes: "script (map op_delete ls) ls []"
  by (induction ls) auto

lemma script_inserts: "script (map op_insert ls) [] ls"
  by (induction ls) auto

section \<open>Backtracking\<close>

definition remains :: "diffLine list \<Rightarrow> diffLine list \<Rightarrow> int \<Rightarrow> int \<Rightarrow> diffOp list \<Rightarrow> bool" where
  "remains olds news x y r \<longleftrightarrow> 0 \<le> x \<and> x \<le> slen olds \<and> 0 \<le> y \<and> y \<le> slen news \<and>
     script (rev r) (drop (nat x) olds) (drop (nat y) news)"

lemma drop_pred: "0 < x \<Longrightarrow> x \<le> slen xs \<Longrightarrow> drop (nat (x - 1)) xs = xs ! nat (x - 1) # drop (nat x) xs"
proof -
  assume "0 < x" "x \<le> slen xs"
  then have "nat (x - 1) < length xs" "Suc (nat (x - 1)) = nat x" by (auto simp: slen_def)
  then show ?thesis by (metis Cons_nth_drop_Suc)
qed

lemma remains_equal:
  "remains olds news x y r \<Longrightarrow> 0 < x \<Longrightarrow> 0 < y \<Longrightarrow> olds ! nat (x - 1) = news ! nat (y - 1) \<Longrightarrow>
   remains olds news (x - 1) (y - 1) (r @ [op_equal (olds ! nat (x - 1)) (news ! nat (y - 1))])"
  by (simp add: remains_def drop_pred)

lemma remains_delete:
  "remains olds news x y r \<Longrightarrow> 0 < x \<Longrightarrow> remains olds news (x - 1) y (r @ [op_delete (olds ! nat (x - 1))])"
  by (simp add: remains_def drop_pred)

lemma remains_insert:
  "remains olds news x y r \<Longrightarrow> 0 < y \<Longrightarrow> remains olds news x (y - 1) (r @ [op_insert (news ! nat (y - 1))])"
  by (simp add: remains_def drop_pred)

section \<open>Frontiers\<close>

definition matches_at :: "diffLine list \<Rightarrow> diffLine list \<Rightarrow> int \<Rightarrow> int \<Rightarrow> bool" where
  "matches_at olds news k i \<longleftrightarrow> i < slen olds \<and> i - k < slen news \<and> olds ! nat i = news ! nat (i - k)"

text \<open>The end \<open>x\<close> of the run of matching lines from \<open>x0\<close> on the diagonal \<open>k\<close>.\<close>

definition snake_end :: "diffLine list \<Rightarrow> diffLine list \<Rightarrow> int \<Rightarrow> int \<Rightarrow> int \<Rightarrow> bool" where
  "snake_end olds news x0 k x \<longleftrightarrow> x0 \<le> x \<and> (\<forall>i. x0 \<le> i \<and> i < x \<longrightarrow> matches_at olds news k i)"

lemma snake_Some:
  "snake olds news b x y wp = Some (x', y', wp') \<Longrightarrow> snake_end olds news x (x - y) x' \<and> y' = x' - (x - y)"
proof (induction olds news b x y wp rule: snake.induct)
  case (1 olds news b x y wp)
  show ?case
  proof (cases "x < slen olds \<and> y < slen news \<and> olds ! nat x = news ! nat y")
    case True
    with "1.prems" have w: "\<not> wp + 1 > b" "snake olds news b (x + 1) (y + 1) (wp + 1) = Some (x', y', wp')"
      by (auto simp: snake.simps [of olds news b x y wp] split: if_splits)
    from "1.IH" [OF True w] have ih: "snake_end olds news (x + 1) (x - y) x'" "y' = x' - (x - y)" by auto
    have "matches_at olds news (x - y) x" using True by (simp add: matches_at_def)
    then have "matches_at olds news (x - y) i" if "x \<le> i" "i < x'" for i
      using ih(1) that by (cases "i = x") (auto simp: snake_end_def)
    with ih show ?thesis by (auto simp: snake_end_def)
  next
    case False
    with "1.prems" show ?thesis by (auto simp: snake.simps [of olds news b x y wp] snake_end_def)
  qed
qed

lemma snake_inside: "snake_end olds news x0 k x \<Longrightarrow> x = x0 \<or> x \<le> slen olds \<and> x - k \<le> slen news"
proof -
  assume s: "snake_end olds news x0 k x"
  show ?thesis
  proof (cases "x = x0")
    case False
    with s have "matches_at olds news k (x - 1)" by (auto simp: snake_end_def)
    then show ?thesis by (simp add: matches_at_def)
  qed simp
qed

definition diag :: "int \<Rightarrow> int \<Rightarrow> bool" where
  "diag d k \<longleftrightarrow> - d \<le> k \<and> k \<le> d \<and> even (d - k)"

definition terminal :: "diffLine list \<Rightarrow> diffLine list \<Rightarrow> int \<Rightarrow> int \<Rightarrow> bool" where
  "terminal olds news k x \<longleftrightarrow> slen olds \<le> x \<and> slen news \<le> x - k"

abbreviation layer :: "diffLine list \<Rightarrow> diffLine list \<Rightarrow> frontier \<Rightarrow> int \<Rightarrow> int \<Rightarrow> int \<Rightarrow> bool" where
  "layer olds news g d k x \<equiv> snake_end olds news (diagonal_start g d k) k x"

lemma diagonal_start_cong:
  "(\<And>j. odd (d - j) \<Longrightarrow> zget f j = zget g j) \<Longrightarrow> even (d - k) \<Longrightarrow> diagonal_start f d k = diagonal_start g d k"
proof -
  assume a: "\<And>j. odd (d - j) \<Longrightarrow> zget f j = zget g j" and e: "even (d - k)"
  have "odd (d - (k - 1))" "odd (d - (k + 1))" using e by presburger+
  then have "zget f (k - 1) = zget g (k - 1)" "zget f (k + 1) = zget g (k + 1)" by (auto intro: a)
  then show ?thesis unfolding diagonal_start_def by presburger
qed

lemma advance_layer:
  assumes "advanceMyersDiagonal f olds news d k wp b = Some (x, y, w)"
    and "\<And>j. odd (d - j) \<Longrightarrow> zget f j = zget g j" "even (d - k)"
  shows "layer olds news g d k x \<and> y = x - k"
proof -
  have "diagonal_start f d k = diagonal_start g d k" by (rule diagonal_start_cong) (fact assms)+
  with assms(1) have "snake olds news b (diagonal_start g d k) (diagonal_start g d k - k) (wp + 1) = Some (x, y, w)"
    by (simp add: advanceMyersDiagonal_def Let_def split: if_splits)
  from snake_Some [OF this] show ?thesis by simp
qed

lemma diagonal_loop_step:
  "diagonal_loop olds news b d k f wp = (if k > d then Exhausted f wp
     else case advanceMyersDiagonal f olds news d k wp b of None \<Rightarrow> OutOfBudget
     | Some (x, y, w) \<Rightarrow> if x \<ge> slen olds \<and> y \<ge> slen news then Reached x y
         else diagonal_loop olds news b d (k + 2) (AList.update k x f) w)"
  by (rule diagonal_loop.simps)

lemma diagonal_loop_Reached:
  "diagonal_loop olds news b d k f wp = Reached x y \<Longrightarrow> (\<And>j. odd (d - j) \<Longrightarrow> zget f j = zget g j) \<Longrightarrow>
   even (d - k) \<Longrightarrow> - d \<le> k \<Longrightarrow> \<exists>k'. diag d k' \<and> layer olds news g d k' x \<and> terminal olds news k' x"
proof (induction olds news b d k f wp rule: diagonal_loop.induct)
  case (1 olds news b d k f wp)
  show ?case
  proof (cases "k > d \<or> advanceMyersDiagonal f olds news d k wp b = None")
    case True
    with "1.prems"(1) show ?thesis by (cases "k > d") (simp_all add: diagonal_loop_step [of olds news b d k f wp])
  next
    case False
    then obtain x1 y1 w1 where a: "\<not> k > d" "advanceMyersDiagonal f olds news d k wp b = Some (x1, y1, w1)" by auto
    have s: "layer olds news g d k x1" "y1 = x1 - k" using advance_layer [OF a(2) "1.prems"(2,3)] by auto
    show ?thesis
    proof (cases "x1 \<ge> slen olds \<and> y1 \<ge> slen news")
      case True
      with a "1.prems"(1) have "x1 = x" by (simp add: diagonal_loop_step [of olds news b d k f wp])
      with True a(1) "1.prems"(3,4) s show ?thesis by (auto simp: diag_def terminal_def)
    next
      case n: False
      have r: "diagonal_loop olds news b d (k + 2) (AList.update k x1 f) w1 = Reached x y"
        using "1.prems"(1) a n by (simp add: diagonal_loop_step [of olds news b d k f wp])
      show ?thesis
        by (rule "1.IH" [OF a refl refl n r]) (use "1.prems"(2-4) in auto)
    qed
  qed
qed

lemma diagonal_loop_Exhausted:
  "diagonal_loop olds news b d k f wp = Exhausted f' wp' \<Longrightarrow> (\<And>j. odd (d - j) \<Longrightarrow> zget f j = zget g j) \<Longrightarrow>
   even (d - k) \<Longrightarrow> - d \<le> k \<Longrightarrow>
   (\<forall>j. j < k \<longrightarrow> zget f' j = zget f j) \<and>
   (\<forall>j. k \<le> j \<and> diag d j \<longrightarrow> layer olds news g d j (zget f' j) \<and> \<not> terminal olds news j (zget f' j))"
proof (induction olds news b d k f wp rule: diagonal_loop.induct)
  case (1 olds news b d k f wp)
  show ?case
  proof (cases "k > d \<or> advanceMyersDiagonal f olds news d k wp b = None")
    case True
    with "1.prems"(1) show ?thesis
      by (cases "k > d") (auto simp: diagonal_loop_step [of olds news b d k f wp] diag_def)
  next
    case False
    then obtain x1 y1 w1 where a: "\<not> k > d" "advanceMyersDiagonal f olds news d k wp b = Some (x1, y1, w1)" by auto
    have s: "layer olds news g d k x1" "y1 = x1 - k" using advance_layer [OF a(2) "1.prems"(2,3)] by auto
    have n: "\<not> (x1 \<ge> slen olds \<and> y1 \<ge> slen news)"
      using "1.prems"(1) a by (auto simp: diagonal_loop_step [of olds news b d k f wp])
    have r: "diagonal_loop olds news b d (k + 2) (AList.update k x1 f) w1 = Exhausted f' wp'"
      using "1.prems"(1) a n by (simp add: diagonal_loop_step [of olds news b d k f wp])
    have ih: "(\<forall>j. j < k + 2 \<longrightarrow> zget f' j = zget (AList.update k x1 f) j) \<and>
      (\<forall>j. k + 2 \<le> j \<and> diag d j \<longrightarrow> layer olds news g d j (zget f' j) \<and> \<not> terminal olds news j (zget f' j))"
      by (rule "1.IH" [OF a refl refl n r]) (use "1.prems"(2-4) in auto)
    have k: "zget f' k = x1" using ih by simp
    have "layer olds news g d j (zget f' j) \<and> \<not> terminal olds news j (zget f' j)" if "k \<le> j" "diag d j" for j
    proof (cases "j = k")
      case True
      with k s n show ?thesis by (simp add: terminal_def)
    next
      case False
      with that have "k < j" "even (d - j)" by (auto simp: diag_def)
      with "1.prems"(3) have "k + 2 \<le> j" by presburger
      with ih that show ?thesis by blast
    qed
    with ih show ?thesis by auto
  qed
qed

section \<open>The search\<close>

text \<open>The frontiers stored so far: the one of distance \<open>e\<close> is the element \<open>Suc e\<close> of the trace.\<close>

definition levels_ok :: "diffLine list \<Rightarrow> diffLine list \<Rightarrow> frontier list \<Rightarrow> bool" where
  "levels_ok olds news tr \<longleftrightarrow> tr \<noteq> [] \<and> tr ! 0 = [(1, 0)] \<and>
     (\<forall>e k. Suc e < length tr \<and> diag (int e) k \<longrightarrow>
        layer olds news (tr ! e) (int e) k (zget (tr ! Suc e) k) \<and> \<not> terminal olds news k (zget (tr ! Suc e) k))"

lemma levels_ok_snoc:
  assumes "levels_ok olds news tr" "length tr = Suc e"
    and "\<And>k. diag (int e) k \<Longrightarrow> layer olds news (tr ! e) (int e) k (zget f k) \<and> \<not> terminal olds news k (zget f k)"
  shows "levels_ok olds news (tr @ [f])"
  using assms unfolding levels_ok_def by (auto simp: nth_append less_Suc_eq)

lemma distance_loop_Some:
  "distance_loop fuel olds news b trace f wp d = Some ops \<Longrightarrow> levels_ok olds news (trace @ [f]) \<Longrightarrow> length trace = d \<Longrightarrow>
   \<exists>tr e k x. levels_ok olds news tr \<and> length tr = Suc e \<and> ops = backtrackMyers tr olds news e \<and> diag (int e) k \<and>
     layer olds news (tr ! e) (int e) k x \<and> terminal olds news k x"
proof (induction fuel olds news b trace f wp d rule: distance_loop.induct)
  case (2 fuel olds news b trace f wp d)
  define tr where "tr = trace @ [f]"
  have tr: "levels_ok olds news tr" "length tr = Suc d" "tr ! d = f" using "2.prems" by (simp_all add: tr_def nth_append)
  show ?case
  proof (cases "diagonal_loop olds news b (int d) (- int d) f wp")
    case OutOfBudget
    with "2.prems"(1) show ?thesis by simp
  next
    case (Reached x y)
    with "2.prems"(1) have "ops = backtrackMyers tr olds news d" by (simp add: tr_def)
    moreover have "\<exists>k. diag (int d) k \<and> layer olds news f (int d) k x \<and> terminal olds news k x"
      by (rule diagonal_loop_Reached [OF Reached]) simp_all
    ultimately show ?thesis using tr by blast
  next
    case (Exhausted f' wp')
    have "(\<forall>j. j < - int d \<longrightarrow> zget f' j = zget f j) \<and> (\<forall>j. - int d \<le> j \<and> diag (int d) j \<longrightarrow>
        layer olds news f (int d) j (zget f' j) \<and> \<not> terminal olds news j (zget f' j))"
      by (rule diagonal_loop_Exhausted [OF Exhausted]) simp_all
    then have "levels_ok olds news (tr @ [f'])"
      using tr by (intro levels_ok_snoc) (auto simp: diag_def)
    moreover have "distance_loop fuel olds news b tr f' wp' (Suc d) = Some ops"
      using "2.prems"(1) Exhausted by (simp add: tr_def)
    ultimately show ?thesis using "2.IH" [OF tr_def Exhausted] tr(2) by simp
  qed
qed simp

text \<open>Where a path starts, seen from the frontier before: by a deletion or by an insertion.\<close>

lemma start_cases:
  assumes "diag (int (Suc e)) k"
  obtains (del) "diag (int e) (k - 1)" "diagonal_start g (int (Suc e)) k = zget g (k - 1) + 1"
      "diag (int e) (k + 1) \<Longrightarrow> zget g (k - 1) \<ge> zget g (k + 1)" "previousMyersDiagonal g k (int (Suc e)) = k - 1"
    | (ins) "diag (int e) (k + 1)" "diagonal_start g (int (Suc e)) k = zget g (k + 1)"
      "diag (int e) (k - 1) \<Longrightarrow> zget g (k - 1) < zget g (k + 1)" "previousMyersDiagonal g k (int (Suc e)) = k + 1"
proof (cases "k \<noteq> - int (Suc e) \<and> (k = int (Suc e) \<or> zget g (k - 1) \<ge> zget g (k + 1))")
  case True
  have "diag (int e) (k - 1)" using assms True by (auto simp: diag_def) presburger+
  moreover have "diagonal_start g (int (Suc e)) k = zget g (k - 1) + 1" using True by (simp add: diagonal_start_def)
  moreover have "diag (int e) (k + 1) \<Longrightarrow> zget g (k - 1) \<ge> zget g (k + 1)" using True by (auto simp: diag_def)
  moreover have "previousMyersDiagonal g k (int (Suc e)) = k - 1" using True by (auto simp: previousMyersDiagonal_def)
  ultimately show ?thesis by (rule del)
next
  case False
  have "diag (int e) (k + 1)" using assms False by (auto simp: diag_def) presburger+
  moreover have "diagonal_start g (int (Suc e)) k = zget g (k + 1)" using False by (auto simp: diagonal_start_def)
  moreover have "diag (int e) (k - 1) \<Longrightarrow> zget g (k - 1) < zget g (k + 1)" using False by (auto simp: diag_def)
  moreover have "previousMyersDiagonal g k (int (Suc e)) = k + 1" using False by (auto simp: previousMyersDiagonal_def)
  ultimately show ?thesis by (rule ins)
qed

lemma start_ge:
  "diag (int (Suc e)) k \<Longrightarrow> diag (int e) (k - 1) \<Longrightarrow> zget g (k - 1) + 1 \<le> diagonal_start g (int (Suc e)) k"
  "diag (int (Suc e)) k \<Longrightarrow> diag (int e) (k + 1) \<Longrightarrow> zget g (k + 1) \<le> diagonal_start g (int (Suc e)) k"
  by (erule start_cases [where g = g]; simp)+

lemma diag_0: "diag 0 k \<longleftrightarrow> k = 0"
  by (auto simp: diag_def)

lemma start_0: "diagonal_start [(1, 0)] 0 0 = 0"
  by (simp add: diagonal_start_def)

lemma start_nonneg:
  assumes "levels_ok olds news tr"
  shows "e < length tr \<Longrightarrow> diag (int e) k \<Longrightarrow>
    0 \<le> diagonal_start (tr ! e) (int e) k \<and> k \<le> diagonal_start (tr ! e) (int e) k"
proof (induction e arbitrary: k)
  case 0
  with assms show ?case by (simp add: diag_0 levels_ok_def start_0)
next
  case (Suc e)
  have V: "0 \<le> zget (tr ! Suc e) j \<and> j \<le> zget (tr ! Suc e) j" if "diag (int e) j" for j
    using Suc.IH [OF _ that] assms Suc.prems(1) that unfolding levels_ok_def snake_end_def
    by (meson Suc_lessD order_trans)
  from Suc.prems(2) show ?case
    by (cases rule: start_cases [where g = "tr ! Suc e"]) (use V [of "k - 1"] V [of "k + 1"] in auto)
qed

lemma level_layer:
  assumes "levels_ok olds news tr" "Suc e < length tr" "diag (int e) k"
  shows "layer olds news (tr ! e) (int e) k (zget (tr ! Suc e) k)" "\<not> terminal olds news k (zget (tr ! Suc e) k)"
    "diagonal_start (tr ! e) (int e) k \<le> zget (tr ! Suc e) k"
  using assms by (auto simp: levels_ok_def snake_end_def)

text \<open>A point below the grid is beaten by the next diagonal, a point to the right of it by the previous one.\<close>

lemma not_slen_neg [simp]: "\<not> slen s < 0"
  by (simp add: slen_def)

lemma below_grid:
  assumes "levels_ok olds news tr"
  shows "Suc e < length tr \<Longrightarrow> diag (int e) j \<Longrightarrow> slen news < zget (tr ! Suc e) j - j \<Longrightarrow>
    diag (int e) (j + 2) \<and> zget (tr ! Suc e) j + 1 \<le> zget (tr ! Suc e) (j + 2)"
proof (induction e arbitrary: j)
  case 0
  with level_layer(1) [OF assms 0(1,2)] assms have "snake_end olds news 0 0 (zget (tr ! Suc 0) 0)" "j = 0"
    by (simp_all add: diag_0 levels_ok_def start_0)
  with snake_inside [OF this(1)] 0 slen_nonneg [of olds] slen_nonneg [of news] have False by auto
  then show ?case ..
next
  case (Suc e)
  let ?g = "tr ! Suc e" and ?f = "tr ! Suc (Suc e)"
  have nb: "\<not> (zget ?f j \<le> slen olds \<and> zget ?f j - j \<le> slen news)" using Suc.prems(3) by simp
  then have x: "zget ?f j = diagonal_start ?g (int (Suc e)) j"
    using snake_inside [OF level_layer(1) [OF assms Suc.prems(1,2)]] by blast
  from Suc.prems(2) show ?case
  proof (cases rule: start_cases [where g = ?g])
    case del
    with x Suc.prems(3) have "slen news < zget ?g (j - 1) - (j - 1)" by simp
    from Suc.IH [OF _ del(1) this] Suc.prems(1) have "diag (int e) (j + 1) \<and> zget ?g (j - 1) + 1 \<le> zget ?g (j + 1)"
      by (simp add: algebra_simps)
    with del(3) show ?thesis by linarith
  next
    case ins
    have d: "diag (int (Suc e)) (j + 2)" using ins(1) by (auto simp: diag_def)
    have "zget ?g (j + 2 - 1) + 1 \<le> diagonal_start ?g (int (Suc e)) (j + 2)"
      by (rule start_ge(1) [OF d]) (use ins(1) in \<open>simp add: algebra_simps\<close>)
    with level_layer(3) [OF assms Suc.prems(1) d] ins(2) x d show ?thesis by (simp add: algebra_simps)
  qed
qed

lemma right_of_grid:
  assumes "levels_ok olds news tr"
  shows "Suc e < length tr \<Longrightarrow> diag (int e) j \<Longrightarrow> slen olds < zget (tr ! Suc e) j \<Longrightarrow>
    diag (int e) (j - 2) \<and> zget (tr ! Suc e) j - 1 \<le> zget (tr ! Suc e) (j - 2)"
proof (induction e arbitrary: j)
  case 0
  with level_layer(1) [OF assms 0(1,2)] assms have "snake_end olds news 0 0 (zget (tr ! Suc 0) 0)" "j = 0"
    by (simp_all add: diag_0 levels_ok_def start_0)
  with snake_inside [OF this(1)] 0 slen_nonneg [of olds] slen_nonneg [of news] have False by auto
  then show ?case ..
next
  case (Suc e)
  let ?g = "tr ! Suc e" and ?f = "tr ! Suc (Suc e)"
  have x: "zget ?f j = diagonal_start ?g (int (Suc e)) j"
    using snake_inside [OF level_layer(1) [OF assms Suc.prems(1,2)]] Suc.prems(3) by auto
  have step: "zget ?f (j - 2) \<ge> zget ?g (j - 1)" "diag (int (Suc e)) (j - 2)" if "diag (int e) (j - 1)"
  proof -
    show d: "diag (int (Suc e)) (j - 2)" using that by (auto simp: diag_def)
    have "zget ?g (j - 2 + 1) \<le> diagonal_start ?g (int (Suc e)) (j - 2)"
      by (rule start_ge(2) [OF d]) (use that in \<open>simp add: algebra_simps\<close>)
    with level_layer(3) [OF assms Suc.prems(1) d] show "zget ?f (j - 2) \<ge> zget ?g (j - 1)" by (simp add: algebra_simps)
  qed
  from Suc.prems(2) show ?case
  proof (cases rule: start_cases [where g = ?g])
    case del
    with step x show ?thesis by auto
  next
    case ins
    with x Suc.prems(3) have "slen olds < zget ?g (j + 1)" by simp
    from Suc.IH [OF _ ins(1) this] Suc.prems(1) have "diag (int e) (j - 1) \<and> zget ?g (j + 1) - 1 \<le> zget ?g (j - 1)"
      by (simp add: algebra_simps)
    with step ins(2) x show ?thesis by auto
  qed
qed

text \<open>The search stops exactly at the end of both files.\<close>

lemma terminal_corner:
  assumes ok: "levels_ok olds news tr" and len: "length tr = Suc d" and k: "diag (int d) k"
    and lay: "layer olds news (tr ! d) (int d) k x" and fin: "terminal olds news k x"
  shows "x = slen olds \<and> x - k = slen news"
proof (cases "x = diagonal_start (tr ! d) (int d) k")
  case False
  with snake_inside [OF lay] fin show ?thesis by (auto simp: terminal_def)
next
  case x: True
  show ?thesis
  proof (cases d)
    case 0
    with ok k x have "x = 0" "k = 0" by (simp_all add: diag_0 levels_ok_def start_0)
    with fin show ?thesis using slen_nonneg [of olds] slen_nonneg [of news] by (simp add: terminal_def)
  next
    case (Suc e)
    let ?g = "tr ! Suc e"
    have e: "Suc e < length tr" using len Suc by simp
    from k [unfolded Suc] show ?thesis
    proof (cases rule: start_cases [where g = ?g])
      case del
      then have "x - 1 = zget ?g (k - 1)" using x Suc by simp
      with level_layer(2) [OF ok e del(1)] fin have xN: "x = slen olds" by (auto simp: terminal_def)
      have "\<not> slen news < x - k"
      proof
        assume "slen news < x - k"
        with below_grid [OF ok e del(1)] \<open>x - 1 = _\<close> have "diag (int e) (k + 1) \<and> zget ?g (k - 1) + 1 \<le> zget ?g (k + 1)"
          by (simp add: algebra_simps)
        with del(3) show False by linarith
      qed
      with xN fin show ?thesis by (simp add: terminal_def)
    next
      case ins
      then have xg: "x = zget ?g (k + 1)" using x Suc by simp
      with level_layer(2) [OF ok e ins(1)] fin have yM: "x - k = slen news" by (auto simp: terminal_def)
      have "\<not> slen olds < x"
      proof
        assume "slen olds < x"
        with right_of_grid [OF ok e ins(1)] xg have r: "diag (int e) (k - 1)" "x - 1 \<le> zget ?g (k - 1)"
          by (simp_all add: algebra_simps)
        then have "terminal olds news (k - 1) (zget ?g (k - 1))"
          using yM \<open>slen olds < x\<close> by (simp add: terminal_def)
        with level_layer(2) [OF ok e r(1)] show False by simp
      qed
      with yM fin show ?thesis by (simp add: terminal_def)
    qed
  qed
qed

section \<open>The path back\<close>

lemma back_snake_to:
  assumes "0 \<le> x0" "k \<le> x0" "px = x0 - 1 \<and> py = x0 - k \<or> px = x0 \<and> py = x0 - k - 1"
  shows "snake_end olds news x0 k x \<Longrightarrow> remains olds news x (x - k) r \<Longrightarrow>
    \<exists>r'. back_snake olds news px py x (x - k) r = (x0, x0 - k, r') \<and> remains olds news x0 (x0 - k) r'"
proof (induction "nat (x - x0)" arbitrary: x r)
  case 0
  then have "x = x0" by (simp add: snake_end_def)
  with assms(3) 0 show ?case by (subst back_snake.simps) auto
next
  case (Suc n)
  then have x: "x0 < x" by simp
  then have m: "matches_at olds news k (x - 1)" "snake_end olds news x0 k (x - 1)"
    using Suc.prems(1) by (auto simp: snake_end_def)
  have eq: "olds ! nat (x - 1) = news ! nat (x - 1 - k)" using m(1) by (simp add: matches_at_def)
  then have r: "remains olds news (x - 1) (x - 1 - k) (r @ [op_equal (olds ! nat (x - 1)) (news ! nat (x - k - 1))])"
    using remains_equal [OF Suc.prems(2)] x assms(1,2) by (simp add: algebra_simps)
  have "back_snake olds news px py x (x - k) r =
      back_snake olds news px py (x - 1) (x - 1 - k) (r @ [op_equal (olds ! nat (x - 1)) (news ! nat (x - k - 1))])"
    using x assms(3) by (subst back_snake.simps) (auto simp: algebra_simps)
  with Suc.hyps(1) [OF _ m(2) r] Suc.hyps(2) show ?case by simp
qed

lemma remainder_done:
  "(\<And>i. 0 \<le> i \<Longrightarrow> i < x \<Longrightarrow> olds ! nat i = news ! nat i) \<Longrightarrow> remains olds news x x r \<Longrightarrow>
   script (rev (appendMyersRemainder r olds news x x)) olds news"
proof (induction "nat x" arbitrary: x r)
  case 0
  then have "x = 0" by (simp add: remains_def)
  with 0 show ?case by (subst appendMyersRemainder.simps) (simp add: remains_def)
next
  case (Suc n)
  then have x: "0 < x" by simp
  with Suc.prems have "remains olds news (x - 1) (x - 1) (r @ [op_equal (olds ! nat (x - 1)) (news ! nat (x - 1))])"
    by (intro remains_equal) simp_all
  with Suc.hyps(1) [of "x - 1"] Suc.hyps(2) Suc.prems(1) x show ?case
    by (subst appendMyersRemainder.simps) simp
qed

lemma back_from_script:
  assumes ok: "levels_ok olds news tr"
  shows "e < length tr \<Longrightarrow> diag (int e) k \<Longrightarrow> layer olds news (tr ! e) (int e) k x \<Longrightarrow> remains olds news x (x - k) r \<Longrightarrow>
    back_from tr olds news e x (x - k) r = (x', y', r') \<Longrightarrow> script (rev (appendMyersRemainder r' olds news x' y')) olds news"
proof (induction e arbitrary: k x r)
  case 0
  then have "k = 0" "snake_end olds news 0 0 x" using ok by (simp_all add: diag_0 levels_ok_def start_0)
  with 0 show ?case by (auto simp: snake_end_def matches_at_def intro!: remainder_done)
next
  case (Suc e)
  let ?g = "tr ! Suc e"
  define x0 where "x0 = diagonal_start ?g (int (Suc e)) k"
  have e: "Suc e < length tr" by (rule Suc.prems(1))
  have lay: "snake_end olds news x0 k x" using Suc.prems(3) by (simp add: x0_def)
  have x0: "0 \<le> x0" "k \<le> x0" using start_nonneg [OF ok Suc.prems(1,2)] by (simp_all add: x0_def)
  have pos: "0 \<le> zget ?g j" "j \<le> zget ?g j" if "diag (int e) j" for j
    using start_nonneg [OF ok _ that] level_layer(3) [OF ok e that] e by fastforce+
  from Suc.prems(2) show ?case
  proof (cases rule: start_cases [where g = ?g])
    case del
    have px: "zget ?g (k - 1) = x0 - 1" using del(2) by (simp add: x0_def)
    have "x0 - 1 = x0 - 1 \<and> x0 - k = x0 - k \<or> x0 - 1 = x0 \<and> x0 - k = x0 - k - 1" by simp
    from back_snake_to [OF x0 this lay Suc.prems(4)] obtain r1 where
      b: "back_snake olds news (x0 - 1) (x0 - k) x (x - k) r = (x0, x0 - k, r1)" "remains olds news x0 (x0 - k) r1" by blast
    have rem: "remains olds news (x0 - 1) (x0 - 1 - (k - 1)) (r1 @ [op_delete (olds ! nat (x0 - 1))])"
      using remains_delete [OF b(2)] pos(1) [OF del(1)] px by simp
    have "back_from tr olds news (Suc e) x (x - k) r =
        back_from tr olds news e (x0 - 1) (x0 - 1 - (k - 1)) (r1 @ [op_delete (olds ! nat (x0 - 1))])"
      using b(1) by (simp add: Let_def del(4) px del: of_nat_Suc)
    with Suc.IH [OF _ del(1) _ rem] level_layer(1) [OF ok e del(1)] px Suc.prems(1,5) show ?thesis by simp
  next
    case ins
    have px: "zget ?g (k + 1) = x0" using ins(2) by (simp add: x0_def)
    have "x0 = x0 - 1 \<and> x0 - k - 1 = x0 - k \<or> x0 = x0 \<and> x0 - k - 1 = x0 - k - 1" by simp
    from back_snake_to [OF x0 this lay Suc.prems(4)] obtain r1 where
      b: "back_snake olds news x0 (x0 - k - 1) x (x - k) r = (x0, x0 - k, r1)" "remains olds news x0 (x0 - k) r1" by blast
    have rem: "remains olds news x0 (x0 - (k + 1)) (r1 @ [op_insert (news ! nat (x0 - k - 1))])"
      using remains_insert [OF b(2)] pos(2) [OF ins(1)] px by (simp add: algebra_simps)
    have "back_from tr olds news (Suc e) x (x - k) r =
        back_from tr olds news e x0 (x0 - (k + 1)) (r1 @ [op_insert (news ! nat (x0 - k - 1))])"
      using b(1) by (simp add: Let_def ins(4) px del: of_nat_Suc) (simp add: px diff_diff_eq)
    with Suc.IH [OF _ ins(1) _ rem] level_layer(1) [OF ok e ins(1)] px Suc.prems(1,5) show ?thesis by simp
  qed
qed

section \<open>The algorithms\<close>

lemma myersMiddle_script: "myersMiddleWithBudget olds news b = Some ops \<Longrightarrow> script ops olds news"
proof -
  assume a: "myersMiddleWithBudget olds news b = Some ops"
  show ?thesis
  proof (cases "olds = [] \<or> news = []")
    case True
    with a script_deletes script_inserts show ?thesis
      by (auto simp: myersMiddleWithBudget_def insertedLines_def deletedLines_def split: if_splits)
  next
    case False
    have l: "levels_ok olds news ([] @ [[(1, 0)]])" by (simp add: levels_ok_def)
    have m: "distance_loop (length olds + length news + 1) olds news b [] [(1, 0)] 0 0 = Some ops"
      using a False by (simp add: myersMiddleWithBudget_def del: distance_loop.simps)
    from distance_loop_Some [OF m l list.size(3)] obtain tr d k x where
      t: "levels_ok olds news tr" "length tr = Suc d" "ops = backtrackMyers tr olds news d" "diag (int d) k"
        "layer olds news (tr ! d) (int d) k x" "terminal olds news k x"
      by blast
    from terminal_corner [OF t(1,2,4,5,6)] have x: "x = slen olds" "x - k = slen news" by auto
    have "remains olds news (slen olds) (slen news) []" by (simp add: remains_def slen_def)
    with x have r: "remains olds news x (x - k) []" by metis
    obtain x' y' r' where "back_from tr olds news d x (x - k) [] = (x', y', r')" by (cases "back_from tr olds news d x (x - k) []") auto
    with back_from_script [OF t(1) _ t(4,5) r this] t(2,3) show ?thesis
      unfolding backtrackMyers_def x(1) [symmetric] x(2) [symmetric] by simp
  qed
qed

lemma common_prefix_Some:
  "common_prefix wp as bs = Some (n, w) \<Longrightarrow> n \<le> length as \<and> n \<le> length bs \<and> take n as = take n bs"
  by (induction wp as bs arbitrary: n w rule: common_prefix.induct) (auto split: if_splits)

lemma drop_mid: "p + q \<le> length xs \<Longrightarrow> xs = take p xs @ drop p (take (length xs - q) xs) @ drop (length xs - q) xs"
  by (metis append_take_drop_id append.assoc le_diff_conv2 add_leD2 drop_take min.absorb1 take_take)

lemma myersDiff_script: "myersDiff olds news = Some ops \<Longrightarrow> script ops olds news"
proof -
  assume a: "myersDiff olds news = Some ops"
  then obtain p w where p: "common_prefix 0 olds news = Some (p, w)" by (auto simp: myersDiff_def split: option.splits)
  with a obtain q w2 where q: "common_prefix w (rev (drop p olds)) (rev (drop p news)) = Some (q, w2)"
    by (auto simp: myersDiff_def split: option.splits)
  let ?om = "drop p (take (length olds - q) olds)" and ?nm = "drop p (take (length news - q) news)"
  from a p q obtain mid where m: "myersMiddleWithBudget ?om ?nm (maxMyersWorkPoints - w2) = Some mid"
    "ops = map2 op_equal (take p olds) (take p news) @ mid @ map2 op_equal (drop (length olds - q) olds) (drop (length news - q) news)"
    by (auto simp: myersDiff_def Let_def split: option.splits)
  note P = common_prefix_Some [OF p] and Q = common_prefix_Some [OF q]
  have len: "p + q \<le> length olds" "p + q \<le> length news" using P Q by auto
  have "rev (drop (length olds - q) olds) = rev (drop (length news - q) news)"
    using Q len by (simp add: take_rev)
  then have suf: "drop (length olds - q) olds = drop (length news - q) news" by simp
  have "script ops (take p olds @ ?om @ drop (length olds - q) olds) (take p news @ ?nm @ drop (length news - q) news)"
    unfolding m(2) using P suf script_equals myersMiddle_script [OF m(1)] by (intro script_append) auto
  then show ?thesis using drop_mid [OF len(1)] drop_mid [OF len(2)] by simp
qed

lemma wholeFileDiff_script: "script (wholeFileDiff olds news) olds news"
  using script_append [OF script_deletes script_inserts, of olds news] by (simp add: wholeFileDiff_def)

text \<open>A differ: on the pairs of files it answers, its operations form an edit script.\<close>

locale differ =
  fixes diff :: "diffLine list \<Rightarrow> diffLine list \<Rightarrow> diffOp list option"
  assumes diff_script: "diff olds news = Some ops \<Longrightarrow> script ops olds news"
begin

lemma diff_sides: "diff olds news = Some ops \<Longrightarrow> old_side ops = olds \<and> new_side ops = news"
  using diff_script by (auto simp: script_def)

lemma diff_equal_only: "diff olds news = Some ops \<Longrightarrow> (\<forall>op \<in> set ops. op_kind op = diffEqual) \<Longrightarrow> olds = news"
proof -
  assume d: "diff olds news = Some ops" and e: "\<forall>op \<in> set ops. op_kind op = diffEqual"
  then have "old_side ops = map op_old ops" "new_side ops = map op_new ops"
    by (simp_all add: old_side_def new_side_def filter_id_conv)
  moreover have "map op_old ops = map op_new ops" using diff_script [OF d] e by (auto simp: script_def)
  ultimately show "olds = news" using diff_sides [OF d] by simp
qed

end

interpretation myers: differ myersDiff
  by unfold_locales (rule myersDiff_script)

interpretation whole_file: differ "\<lambda>olds news. Some (wholeFileDiff olds news)"
  by unfold_locales (use wholeFileDiff_script in auto)

interpretation with_fallback: differ "\<lambda>olds news. Some (diff_ops olds news)"
  by unfold_locales (auto simp: diff_ops_def wholeFileDiff_script split: option.splits intro: myersDiff_script)

text \<open>C6: Myers' search is correct: when it answers within its work budget, its operations, read on the old
  side, are the old lines, read on the new side, the new lines, and every equal operation pairs equal lines.\<close>

theorem myers_edit_script:
  assumes "myersDiff olds news = Some ops"
  shows "old_side ops = olds \<and> new_side ops = news \<and> (\<forall>op \<in> set ops. op_kind op = diffEqual \<longrightarrow> op_old op = op_new op)"
  using myers.diff_script [OF assms] by (simp add: script_def)

definition dline :: "go_string \<Rightarrow> diffLine" where
  "dline s = \<lparr>d_text = s, d_terminated = True\<rparr>"

lemma myers_example: "myersDiff [dline ''a'', dline ''b'', dline ''c''] [dline ''a'', dline ''x'', dline ''c''] =
  Some [op_equal (dline ''a'') (dline ''a''), op_delete (dline ''b''), op_insert (dline ''x''), op_equal (dline ''c'') (dline ''c'')]"
  by code_simp

theorem myers_edit_script_witness:
  "\<exists>ops. myersDiff [dline ''a'', dline ''b'', dline ''c''] [dline ''a'', dline ''x'', dline ''c''] = Some ops \<and>
    old_side ops = [dline ''a'', dline ''b'', dline ''c''] \<and> new_side ops = [dline ''a'', dline ''x'', dline ''c'']"
  using myers_edit_script [OF myers_example] myers_example by blast

end
