(* ===== verification/Text_Edit.thy ===== *)
theory Text_Edit
  imports Text_Match
begin

text \<open>
  Correctness of the edit engine: normalising and restoring a text, the scans for matches, the splice, the
  choice of the tier and the error cases. Both match loops are leftmost scans for hits of a fixed width;
  the locale \<open>leftmost_scan\<close> states that interface and is interpreted on both.
\<close>

section \<open>Replacing and counting\<close>

lemma replace_skip_drop: "replace_skip n old new s = replace_all (drop n s) old new"
  by (induction n old new s rule: replace_skip.induct) (simp_all add: replace_all_def)

lemma replace_all_simps:
  "replace_all [] old new = []"
  "old \<noteq> [] \<Longrightarrow> replace_all (c # s) old new =
     (if prefix old (c # s) then new @ replace_all (drop (length old) (c # s)) old new else c # replace_all s old new)"
proof -
  show "replace_all (c # s) old new =
     (if prefix old (c # s) then new @ replace_all (drop (length old) (c # s)) old new else c # replace_all s old new)"
    if "old \<noteq> []"
  proof -
    have "replace_all (c # s) old new = (if prefix old (c # s) then new @ replace_skip (length old - 1) old new s
        else c # replace_skip 0 old new s)" by (simp add: replace_all_def)
    with that show ?thesis by (cases old) (simp_all add: replace_skip_drop)
  qed
qed (simp add: replace_all_def)

lemma count_skip_drop: "count_skip n sub s = count_str (drop n s) sub"
  by (induction n sub s rule: count_skip.induct) (simp_all add: count_str_def)

lemma count_str_simps:
  "count_str [] sub = 0"
  "sub \<noteq> [] \<Longrightarrow> count_str (c # s) sub =
     (if prefix sub (c # s) then Suc (count_str (drop (length sub) (c # s)) sub) else count_str s sub)"
proof -
  show "count_str (c # s) sub =
     (if prefix sub (c # s) then Suc (count_str (drop (length sub) (c # s)) sub) else count_str s sub)"
    if "sub \<noteq> []"
  proof -
    have "count_str (c # s) sub = (if prefix sub (c # s) then Suc (count_skip (length sub - 1) sub s)
        else count_skip 0 sub s)" by (simp add: count_str_def)
    with that show ?thesis by (cases sub) (simp_all add: count_skip_drop)
  qed
qed (simp add: count_str_def)

text \<open>The two replacements of line endings, as recursive functions.\<close>

fun to_lf :: "go_string \<Rightarrow> go_string" where
  "to_lf (a # b # s) = (if a = CR \<and> b = LF then LF # to_lf s else a # to_lf (b # s))"
| "to_lf s = s"

fun to_crlf :: "go_string \<Rightarrow> go_string" where
  "to_crlf [] = []"
| "to_crlf (c # s) = (if c = LF then CR # LF # to_crlf s else c # to_crlf s)"

lemma replace_to_lf: "replace_all s [CR, LF] [LF] = to_lf s"
  by (induction s rule: to_lf.induct) (auto simp: replace_all_simps)

lemma replace_to_crlf: "replace_all s [LF] [CR, LF] = to_crlf s"
  by (induction s) (auto simp: replace_all_simps)

lemma count_LF: "count_str s [LF] = count_byte s LF"
  by (induction s) (auto simp: count_str_simps)

lemma count_CRLF_simps:
  "count_str [a] [CR, LF] = 0"
  "count_str (a # b # s) [CR, LF] = (if a = CR \<and> b = LF then Suc (count_str s [CR, LF]) else count_str (b # s) [CR, LF])"
  by (auto simp: count_str_simps)

lemma count_CRLF_le: "count_str s [CR, LF] \<le> count_byte s LF"
  by (induction s rule: to_lf.induct) (auto simp: count_CRLF_simps count_str_simps(1))

lemma to_lf_id: "count_str s [CR, LF] = 0 \<Longrightarrow> to_lf s = s"
  by (induction s rule: to_lf.induct) (auto simp: count_CRLF_simps split: if_splits)

lemma to_crlf_to_lf: "count_str s [CR, LF] = count_byte s LF \<Longrightarrow> to_crlf (to_lf s) = s"
proof (induction s rule: to_lf.induct)
  case (1 a b s)
  show ?case
  proof (cases "a = CR \<and> b = LF")
    case True
    with 1 show ?thesis by (simp add: count_CRLF_simps)
  next
    case False
    then have c: "count_str (b # s) [CR, LF] = count_byte (a # b # s) LF"
      using "1.prems" by (auto simp: count_CRLF_simps)
    with count_CRLF_le [of "b # s"] have "a \<noteq> LF" by (auto split: if_splits)
    with c False 1 show ?thesis by auto
  qed
qed (auto simp: count_CRLF_simps split: if_splits)

lemma last_to_lf: "s \<noteq> [] \<Longrightarrow> to_lf s \<noteq> [] \<and> (last (to_lf s) = LF \<longleftrightarrow> last s = LF)"
  by (induction s rule: to_lf.induct) auto

lemma last_to_crlf: "s \<noteq> [] \<Longrightarrow> to_crlf s \<noteq> [] \<and> (last (to_crlf s) = LF \<longleftrightarrow> last s = LF)"
  by (induction s) auto

lemma suffix_LF: "suffix [LF] s \<longleftrightarrow> s \<noteq> [] \<and> last s = LF"
  by (auto simp: suffix_def) (metis append_butlast_last_id)

lemma suffix_LF_to_lf: "suffix [LF] (to_lf s) \<longleftrightarrow> suffix [LF] s"
  using last_to_lf [of s] by (cases "s = []") (auto simp: suffix_LF)

lemma suffix_LF_to_crlf: "suffix [LF] (to_crlf s) \<longleftrightarrow> suffix [LF] s"
  using last_to_crlf [of s] by (cases "s = []") (auto simp: suffix_LF)

lemma trim_right_LF_id: "\<not> suffix [LF] s \<Longrightarrow> trim_right s [LF] = s"
  by (cases s rule: rev_cases) (auto simp: trim_right_def)

lemma trim_right_LF_no: "\<not> suffix [LF] (trim_right s [LF])"
  by (induction s rule: rev_induct) (auto simp: trim_right_def)

section \<open>Normalising and restoring\<close>

definition without_bom :: "go_string \<Rightarrow> go_string" where
  "without_bom s = fst (stripBOM s)"

lemma bom_split: "s = (if snd (stripBOM s) then utf8BOM else []) @ without_bom s"
  by (auto simp: stripBOM_def without_bom_def trim_prefix_def prefix_def)

lemma count_bom:
  "count_str (utf8BOM @ s) [CR, LF] = count_str s [CR, LF]" "count_byte (utf8BOM @ s) LF = count_byte s LF"
  by (cases s; simp add: utf8BOM_def count_str_simps)+

lemma count_without_bom:
  "count_str (without_bom s) [CR, LF] = count_str s [CR, LF]" "count_byte (without_bom s) LF = count_byte s LF"
  using bom_split [of s] count_bom [of "without_bom s"] by (cases "snd (stripBOM s)"; metis append_Nil)+

lemma normalize_simps [simp]:
  "content (normalize s) = to_lf (without_bom s)" "lineEnding (normalize s) = detectLineEnding s"
  "hadBOM (normalize s) = snd (stripBOM s)" "trailingLF (normalize s) = suffix [LF] (without_bom s)"
  by (simp_all add: normalize_def Let_def without_bom_def replace_to_lf suffix_LF_to_lf split: prod.split)

definition uniform_endings :: "go_string \<Rightarrow> bool" where
  "uniform_endings s \<longleftrightarrow> count_str s [CR, LF] = 0 \<or> count_str s [CR, LF] = count_byte s LF"

lemma restore_normalized:
  "restore (to_lf s) le bom (suffix [LF] s) =
     (if bom then utf8BOM else []) @ (if le = [CR, LF] then to_crlf (to_lf s) else to_lf s)"
  using suffix_LF_to_lf [of s] by (simp add: restore_def Let_def trim_right_LF_id replace_to_crlf)

text \<open>Reading and writing back a file with uniform line endings changes nothing: restoring what
  \<open>normalize\<close> produced gives the original bytes, with or without a BOM, LF or CRLF.\<close>

theorem normalize_restore:
  assumes "uniform_endings s"
  shows "restore (content (normalize s)) (lineEnding (normalize s)) (hadBOM (normalize s)) (trailingLF (normalize s)) = s"
proof -
  let ?w = "without_bom s"
  have "(if detectLineEnding s = [CR, LF] then to_crlf (to_lf ?w) else to_lf ?w) = ?w"
  proof (cases "count_str s [CR, LF] = 0")
    case True
    then show ?thesis by (simp add: detectLineEnding_def Let_def count_without_bom to_lf_id)
  next
    case False
    with assms have "count_str s [CR, LF] = count_byte s LF" by (simp add: uniform_endings_def)
    with False show ?thesis
      by (simp add: detectLineEnding_def Let_def count_without_bom to_crlf_to_lf count_LF)
  qed
  with bom_split [of s] show ?thesis by (simp add: restore_normalized)
qed

theorem normalize_restore_witness:
  "restore (content (normalize (utf8BOM @ [CHR ''a'', CR, LF, CHR ''b'', CR, LF]))) [CR, LF] True True =
    utf8BOM @ [CHR ''a'', CR, LF, CHR ''b'', CR, LF]"
  using normalize_restore [of "utf8BOM @ [CHR ''a'', CR, LF, CHR ''b'', CR, LF]"]
  by (simp add: uniform_endings_def utf8BOM_def count_str_simps detectLineEnding_def stripBOM_def
      without_bom_def trim_prefix_def suffix_LF)

section \<open>Leftmost scans\<close>

text \<open>
  A scan for hits of a fixed width up to a limit. The client's view is the list of hit positions from an
  offset; the provider promises that it is empty when there is no hit, and otherwise starts with the first
  hit and goes on behind it.
\<close>

locale leftmost_scan =
  fixes found :: "nat \<Rightarrow> nat list" and hit :: "nat \<Rightarrow> bool" and width :: nat and limit :: nat
  assumes width_pos: "0 < width"
    and scan_none: "(\<And>i. off \<le> i \<Longrightarrow> i + width \<le> limit \<Longrightarrow> \<not> hit i) \<Longrightarrow> found off = []"
    and scan_hit: "off \<le> i \<Longrightarrow> i + width \<le> limit \<Longrightarrow> hit i \<Longrightarrow> (\<And>j. off \<le> j \<Longrightarrow> j < i \<Longrightarrow> \<not> hit j) \<Longrightarrow>
      found off = i # found (i + width)"
begin

lemma first_hit:
  obtains (none) "found off = []" "\<And>i. off \<le> i \<Longrightarrow> i + width \<le> limit \<Longrightarrow> \<not> hit i"
    | (some) i where "found off = i # found (i + width)" "off \<le> i" "i + width \<le> limit" "hit i"
        "\<And>j. off \<le> j \<Longrightarrow> j < i \<Longrightarrow> \<not> hit j"
proof (cases "\<exists>i. off \<le> i \<and> i + width \<le> limit \<and> hit i")
  case True
  define i where "i = (LEAST i. off \<le> i \<and> i + width \<le> limit \<and> hit i)"
  have i: "off \<le> i \<and> i + width \<le> limit \<and> hit i" unfolding i_def by (rule LeastI_ex [OF True])
  have least: "\<not> hit j" if "off \<le> j" "j < i" for j
    using not_less_Least [of j "\<lambda>i. off \<le> i \<and> i + width \<le> limit \<and> hit i"] that i by (auto simp: i_def)
  show ?thesis by (rule some [of i]) (use scan_hit [of off i] i least in auto)
next
  case False
  show ?thesis by (rule none) (use scan_none [of off] False in auto)
qed

lemma scan_induct [case_names none some]:
  assumes "\<And>off. found off = [] \<Longrightarrow> (\<And>i. off \<le> i \<Longrightarrow> i + width \<le> limit \<Longrightarrow> \<not> hit i) \<Longrightarrow> P off"
    and "\<And>off i. found off = i # found (i + width) \<Longrightarrow> off \<le> i \<Longrightarrow> i + width \<le> limit \<Longrightarrow> hit i \<Longrightarrow>
      (\<And>j. off \<le> j \<Longrightarrow> j < i \<Longrightarrow> \<not> hit j) \<Longrightarrow> P (i + width) \<Longrightarrow> P off"
  shows "P off"
proof (induction "limit - off" arbitrary: off rule: less_induct)
  case less
  show ?case
  proof (cases rule: first_hit [of off])
    case none
    then show ?thesis by (rule assms(1))
  next
    case (some i)
    moreover have "P (i + width)" using less [of "i + width"] some width_pos by simp
    ultimately show ?thesis by (rule assms(2))
  qed
qed

lemma found_sound: "i \<in> set (found off) \<Longrightarrow> off \<le> i \<and> i + width \<le> limit \<and> hit i"
  by (induction off rule: scan_induct) auto

lemma found_separated: "sorted_wrt (\<lambda>i j. i + width \<le> j) (found off)"
proof (induction off rule: scan_induct)
  case (some off i)
  then show ?case using found_sound [of _ "i + width"] by auto
qed simp

lemma found_complete: "off \<le> j \<Longrightarrow> j + width \<le> limit \<Longrightarrow> hit j \<Longrightarrow> \<exists>i \<in> set (found off). i \<le> j \<and> j < i + width"
proof (induction off rule: scan_induct)
  case (some off i)
  show ?case
  proof (cases "j < i + width")
    case True
    then show ?thesis using some by (metis leI list.set_intros(1))
  next
    case False
    then show ?thesis using some by auto
  qed
qed auto

lemma found_empty_iff: "found off = [] \<longleftrightarrow> (\<forall>i. off \<le> i \<longrightarrow> i + width \<le> limit \<longrightarrow> \<not> hit i)"
  by (cases rule: first_hit [of off]) auto

lemma found_single: "found off = [i] \<Longrightarrow> off \<le> j \<Longrightarrow> j + width \<le> limit \<Longrightarrow> hit j \<Longrightarrow> i \<le> j \<and> j < i + width"
  using found_complete [of off j] by simp

end

section \<open>The exact scan\<close>

definition occurs_at :: "go_string \<Rightarrow> go_string \<Rightarrow> nat \<Rightarrow> bool" where
  "occurs_at c old i \<longleftrightarrow> take (length old) (drop i c) = old"

lemma exact_none:
  assumes "\<And>i. off \<le> i \<Longrightarrow> i + length old \<le> length c \<Longrightarrow> \<not> occurs_at c old i"
  shows "exact_from c old off = []"
proof (cases "str_index (drop off c) old")
  case (Some r)
  then have "r + length old \<le> length c - off" "occurs_at c old (off + r)"
    using str_index_Some [OF Some] by (auto simp: occurs_at_def add.commute)
  with assms [of "off + r"] have "\<not> off + length old \<le> length c" by linarith
  then show ?thesis by (simp add: exact_from.simps)
qed (simp add: exact_from.simps)

lemma str_index_first_hit:
  assumes "occurs_at c old i" "off \<le> i" "i + length old \<le> length c" "\<And>j. off \<le> j \<Longrightarrow> j < i \<Longrightarrow> \<not> occurs_at c old j"
  shows "str_index (drop off c) old = Some (i - off)"
proof -
  have hit: "take (length old) (drop (i - off) (drop off c)) = old" using assms(1,2) by (simp add: occurs_at_def)
  then have "sublist old (drop off c)"
    by (metis append_take_drop_id sublist_appendI append.assoc)
  then obtain r where r: "str_index (drop off c) old = Some r" by (metis not_None_eq str_index_None)
  have "\<not> i - off < r" using str_index_first [OF r] hit by blast
  moreover have "occurs_at c old (off + r)"
    using str_index_Some [OF r] by (simp add: occurs_at_def add.commute)
  then have "\<not> off + r < i" using assms(4) [of "off + r"] by auto
  ultimately show ?thesis using r by simp
qed

lemma exact_hit:
  assumes "old \<noteq> []" "occurs_at c old i" "off \<le> i" "i + length old \<le> length c"
    "\<And>j. off \<le> j \<Longrightarrow> j < i \<Longrightarrow> \<not> occurs_at c old j"
  shows "exact_from c old off =
    \<lparr>m_start = i, m_end = i + length old, m_line = lineNumber c i, m_delta = []\<rparr> # exact_from c old (i + length old)"
  using str_index_first_hit [OF assms(2-5)] assms(1,3,4) by (subst exact_from.simps) (simp add: Let_def)

definition exact_positions :: "go_string \<Rightarrow> go_string \<Rightarrow> nat \<Rightarrow> nat list" where
  "exact_positions c old off = map m_start (exact_from c old off)"

lemma exact_positions_none:
  assumes "\<And>i. off \<le> i \<Longrightarrow> i + length old \<le> length c \<Longrightarrow> \<not> occurs_at c old i"
  shows "exact_positions c old off = []"
  using exact_none [of off old c] assms by (simp add: exact_positions_def)

lemma exact_positions_hit:
  assumes "old \<noteq> []" "off \<le> i" "i + length old \<le> length c" "occurs_at c old i"
    "\<And>j. off \<le> j \<Longrightarrow> j < i \<Longrightarrow> \<not> occurs_at c old j"
  shows "exact_positions c old off = i # exact_positions c old (i + length old)"
  using exact_hit [of old c i off] assms by (simp add: exact_positions_def)

interpretation exact_scan: leftmost_scan "exact_positions c (b # old)" "occurs_at c (b # old)" "length (b # old)" "length c"
  for c b old
  by unfold_locales (simp, rule exact_positions_none, assumption, rule exact_positions_hit, simp_all)

lemma exact_match_shape: "m \<in> set (exact_from c old off) \<Longrightarrow>
   m_end m = m_start m + length old \<and> m_line m = lineNumber c (m_start m) \<and> m_delta m = []"
proof (induction c old off rule: exact_from.induct)
  case (1 c old off)
  show ?case
  proof (cases "old = [] \<or> \<not> off + length old \<le> length c \<or> str_index (drop off c) old = None")
    case True
    then have "exact_from c old off = []" by (subst exact_from.simps) auto
    with "1.prems" show ?thesis by simp
  next
    case False
    then obtain r where "str_index (drop off c) old = Some r" "\<not> (old = [] \<or> \<not> off + length old \<le> length c)" by auto
    with "1.IH" [OF this(2,1) refl refl] "1.prems" show ?thesis
      by (auto simp: Let_def exact_from.simps [of c old off])
  qed
qed

section \<open>The line scan\<close>

definition window_hit :: "logicalLine list \<Rightarrow> logicalLine list \<Rightarrow> bool \<Rightarrow> bool \<Rightarrow> nat \<Rightarrow> bool" where
  "window_hit cs olds tlf allow i \<longleftrightarrow> (tlf \<longrightarrow> l_terminated (cs ! (i + length olds - 1))) \<and>
     compareLineWindow (take (length olds) (drop i cs)) olds allow \<noteq> None"

definition line_match :: "logicalLine list \<Rightarrow> logicalLine list \<Rightarrow> bool \<Rightarrow> bool \<Rightarrow> nat \<Rightarrow> match" where
  "line_match cs olds tlf allow i =
     (let e = cs ! (i + length olds - 1)
      in \<lparr>m_start = l_start (cs ! i), m_end = (if tlf then l_fullEnd e else l_end e), m_line = i + 1,
          m_delta = the (compareLineWindow (take (length olds) (drop i cs)) olds allow)\<rparr>)"

lemma line_step:
  "line_from cs olds tlf allow i =
     (if olds = [] \<or> \<not> i + length olds \<le> length cs then []
      else if window_hit cs olds tlf allow i then line_match cs olds tlf allow i # line_from cs olds tlf allow (i + length olds)
      else line_from cs olds tlf allow (Suc i))"
  by (subst line_from.simps) (auto simp: window_hit_def line_match_def Let_def split: option.splits)

lemma line_none:
  "(\<And>i. off \<le> i \<Longrightarrow> i + length olds \<le> length cs \<Longrightarrow> \<not> window_hit cs olds tlf allow i) \<Longrightarrow>
   line_from cs olds tlf allow off = []"
proof (induction "length cs - off" arbitrary: off)
  case 0
  then show ?case by (cases olds) (simp_all add: line_step [of cs _ tlf allow off])
next
  case (Suc n)
  then have "line_from cs olds tlf allow (Suc off) = []" by simp
  with Suc.prems [of off] show ?case by (auto simp: line_step [of cs olds tlf allow off])
qed

lemma line_hit:
  assumes "olds \<noteq> []" "i + length olds \<le> length cs" "window_hit cs olds tlf allow i"
  shows "off \<le> i \<Longrightarrow> (\<And>j. off \<le> j \<Longrightarrow> j < i \<Longrightarrow> \<not> window_hit cs olds tlf allow j) \<Longrightarrow>
    line_from cs olds tlf allow off = line_match cs olds tlf allow i # line_from cs olds tlf allow (i + length olds)"
proof (induction "i - off" arbitrary: off)
  case 0
  then show ?case using assms by (subst line_step) simp
next
  case (Suc n)
  then have "line_from cs olds tlf allow (Suc off) =
      line_match cs olds tlf allow i # line_from cs olds tlf allow (i + length olds)" by simp
  with Suc assms show ?case by (subst line_step) auto
qed

definition line_positions :: "logicalLine list \<Rightarrow> logicalLine list \<Rightarrow> bool \<Rightarrow> bool \<Rightarrow> nat \<Rightarrow> nat list" where
  "line_positions cs olds tlf allow off = map (\<lambda>m. m_line m - 1) (line_from cs olds tlf allow off)"

lemma line_positions_none:
  assumes "\<And>i. off \<le> i \<Longrightarrow> i + length olds \<le> length cs \<Longrightarrow> \<not> window_hit cs olds tlf allow i"
  shows "line_positions cs olds tlf allow off = []"
  using line_none [of off olds cs tlf allow] assms by (simp add: line_positions_def)

lemma line_positions_hit:
  assumes "olds \<noteq> []" "off \<le> i" "i + length olds \<le> length cs" "window_hit cs olds tlf allow i"
    "\<And>j. off \<le> j \<Longrightarrow> j < i \<Longrightarrow> \<not> window_hit cs olds tlf allow j"
  shows "line_positions cs olds tlf allow off = i # line_positions cs olds tlf allow (i + length olds)"
  using line_hit [of olds i cs tlf allow off] assms by (simp add: line_positions_def line_match_def Let_def)

interpretation line_scan: leftmost_scan "line_positions cs (l # olds) tlf allow" "window_hit cs (l # olds) tlf allow"
    "length (l # olds)" "length cs"
  for cs l olds tlf allow
  by unfold_locales (simp, rule line_positions_none, assumption, rule line_positions_hit, simp_all)

section \<open>Lines and their offsets\<close>

definition line_bounds :: "nat \<Rightarrow> nat \<Rightarrow> logicalLine \<Rightarrow> bool" where
  "line_bounds lo hi l \<longleftrightarrow> lo \<le> l_start l \<and> l_start l \<le> l_end l \<and> l_end l \<le> l_fullEnd l \<and> l_fullEnd l \<le> hi"

lemma split_logical_bounds:
  "(\<forall>l \<in> set (split_logical off s). line_bounds off (off + length s) l) \<and>
   sorted_wrt (\<lambda>a b. l_fullEnd a \<le> l_start b) (split_logical off s)"
proof (induction off s rule: split_logical.induct)
  case (1 off s)
  show ?case
  proof (cases "s = [] \<or> index_byte s LF = None")
    case True
    then show ?thesis by (auto simp: split_logical.simps [of off s] line_bounds_def)
  next
    case False
    then obtain r where r: "s \<noteq> []" "index_byte s LF = Some r" by auto
    have "r < length s" using index_byte_Some [OF r(2)] by simp
    with "1.IH" [OF r] r show ?thesis
      by (auto simp: split_logical.simps [of off s] line_bounds_def)
  qed
qed

lemma line_offsets:
  "i < length (splitLogicalLines c) \<Longrightarrow> line_bounds 0 (length c) (splitLogicalLines c ! i)"
  "i < j \<Longrightarrow> j < length (splitLogicalLines c) \<Longrightarrow> l_fullEnd (splitLogicalLines c ! i) \<le> l_start (splitLogicalLines c ! j)"
  using split_logical_bounds [of 0 c] by (auto simp: splitLogicalLines_def sorted_wrt_iff_nth_less)

section \<open>Matches are disjoint and in order\<close>

fun chain :: "nat \<Rightarrow> nat \<Rightarrow> match list \<Rightarrow> bool" where
  "chain n prev [] \<longleftrightarrow> prev \<le> n"
| "chain n prev (m # ms) \<longleftrightarrow> prev \<le> m_start m \<and> m_start m \<le> m_end m \<and> chain n (m_end m) ms"

lemma chain_mono: "chain n q ms \<Longrightarrow> p \<le> q \<Longrightarrow> chain n p ms"
  by (cases ms) auto

lemma chain_take: "chain n p ms \<Longrightarrow> chain n p (take k ms)"
proof (induction ms arbitrary: p k)
  case (Cons m ms)
  have le: "chain n q xs \<Longrightarrow> q \<le> n" for q xs by (induction xs arbitrary: q) fastforce+
  from Cons le [OF Cons.prems] show ?case by (cases k) auto
qed simp

lemma exact_chain: "off \<le> length c \<Longrightarrow> chain (length c) off (exact_from c old off)"
proof (induction c old off rule: exact_from.induct)
  case (1 c old off)
  show ?case
  proof (cases "old = [] \<or> \<not> off + length old \<le> length c \<or> str_index (drop off c) old = None")
    case True
    then have "exact_from c old off = []" by (subst exact_from.simps) auto
    with "1.prems" show ?thesis by simp
  next
    case False
    then obtain r where r: "str_index (drop off c) old = Some r" "\<not> (old = [] \<or> \<not> off + length old \<le> length c)" by auto
    have "off + r + length old \<le> length c" using str_index_Some [OF r(1)] r(2) by auto
    with "1.IH" [OF r(2,1) refl refl] r show ?thesis
      by (auto simp: Let_def exact_from.simps [of c old off])
  qed
qed

lemma line_chain:
  fixes c old :: go_string
  defines "cs \<equiv> splitLogicalLines c"
  shows "p \<le> length c \<Longrightarrow> (i < length cs \<Longrightarrow> p \<le> l_start (cs ! i)) \<Longrightarrow> chain (length c) p (line_from cs olds tlf allow i)"
proof (induction "length cs - i" arbitrary: i p rule: less_induct)
  case less
  show ?case
  proof (cases "olds = [] \<or> \<not> i + length olds \<le> length cs")
    case True
    with less.prems show ?thesis by (subst line_step) auto
  next
    case False
    then have k: "0 < length olds" "i + length olds \<le> length cs" "i < length cs"
      by (auto simp: neq_Nil_conv)
    let ?e = "i + length olds - 1"
    have b: "line_bounds 0 (length c) (cs ! i)" "line_bounds 0 (length c) (cs ! ?e)"
      using line_offsets(1) k unfolding cs_def by auto
    have ie: "l_start (cs ! i) \<le> l_start (cs ! ?e)"
    proof (cases "i < ?e")
      case True
      then have "l_fullEnd (cs ! i) \<le> l_start (cs ! ?e)" using line_offsets(2) [of i ?e c] k unfolding cs_def by auto
      with b show ?thesis by (auto simp: line_bounds_def)
    next
      case False
      with k have "?e = i" by linarith
      then show ?thesis by simp
    qed
    have dec: "length cs - (i + length olds) < length cs - i" using k by linarith
    have "i + length olds < length cs \<Longrightarrow> l_fullEnd (cs ! ?e) \<le> l_start (cs ! (i + length olds))"
      using line_offsets(2) [of ?e "i + length olds" c] k(1) unfolding cs_def by linarith
    then have next': "chain (length c) (l_fullEnd (cs ! ?e)) (line_from cs olds tlf allow (i + length olds))"
      using less.hyps [OF dec, of "l_fullEnd (cs ! ?e)"] b unfolding cs_def line_bounds_def by auto
    have "chain (length c) p (line_from cs olds tlf allow (Suc i))"
      using less.hyps [of "Suc i" p] k less.prems line_offsets(2) [of i "Suc i" c] b
      unfolding cs_def line_bounds_def by fastforce
    moreover have "chain (length c) p (line_match cs olds tlf allow i # line_from cs olds tlf allow (i + length olds))"
      using next' chain_mono [OF next', of "l_end (cs ! ?e)"] ie b less.prems k
      by (auto simp: line_match_def Let_def line_bounds_def)
    ultimately show ?thesis using k by (subst line_step) auto
  qed
qed

section \<open>The splice\<close>

fun gaps :: "go_string \<Rightarrow> nat \<Rightarrow> match list \<Rightarrow> go_string list" where
  "gaps c prev [] = [drop prev c]"
| "gaps c prev (m # ms) = drop prev (take (m_start m) c) # gaps c (m_end m) ms"

fun weave :: "go_string list \<Rightarrow> go_string list \<Rightarrow> go_string" where
  "weave (g # gs) (t # ts) = g @ t @ weave gs ts"
| "weave gs [] = concat gs"
| "weave [] ts = concat ts"

definition text_at :: "go_string \<Rightarrow> match \<Rightarrow> go_string" where
  "text_at c m = drop (m_start m) (take (m_end m) c)"

lemma length_gaps [simp]: "length (gaps c p ms) = Suc (length ms)"
  by (induction ms arbitrary: p) auto

lemma splice_weave: "splice c t new p ms = weave (gaps c p ms) (map (replacement_for t new) ms)"
  by (induction ms arbitrary: p) auto

lemma drop_take_split: "p \<le> m \<Longrightarrow> m \<le> e \<Longrightarrow> drop p c = drop p (take m c) @ drop m (take e c) @ drop e c"
proof -
  assume "p \<le> m" "m \<le> e"
  then obtain a b where "m = p + a" "e = p + a + b" by (metis le_Suc_ex)
  moreover have "drop p c = take a (drop p c) @ take b (drop (p + a) c) @ drop (p + a + b) c"
    by (metis add.commute append_take_drop_id drop_drop)
  ultimately show ?thesis by (simp add: drop_take)
qed

lemma source_weave: "chain (length c) p ms \<Longrightarrow> drop p c = weave (gaps c p ms) (map (text_at c) ms)"
proof (induction ms arbitrary: p)
  case (Cons m ms)
  then show ?case using drop_take_split [of p "m_start m" "m_end m" c] by (simp add: text_at_def)
qed simp

section \<open>What a match means\<close>

lemma exactLineWindow_iff: "length cs = length olds \<Longrightarrow> exactLineWindow cs olds \<longleftrightarrow> map trimmed cs = map trimmed olds"
  by (induction cs olds rule: list_induct2) auto

definition indented_as :: "go_string \<Rightarrow> logicalLine \<Rightarrow> logicalLine \<Rightarrow> bool" where
  "indented_as delta c old \<longleftrightarrow> trimmed c = (if trimmed old = [] then [] else delta @ trimmed old)"

lemma trimmed_nonblank: "trimmed l \<noteq> [] \<Longrightarrow> \<not> set (trimmed l) \<subseteq> set blanks"
proof -
  assume "trimmed l \<noteq> []"
  then have d: "dropWhile (\<lambda>c. c \<in> set blanks) (rev (l_text l)) \<noteq> []" by (simp add: trimmed_def trim_right_def)
  from hd_in_set [OF d] hd_dropWhile [OF d] show ?thesis
    unfolding trimmed_def trim_right_def set_rev by (meson subsetD)
qed

lemma indented_from_shape:
  "length cs = length olds \<Longrightarrow> indented_from delta cs olds = Some d \<Longrightarrow>
   list_all2 (indented_as d) cs olds \<and> (\<forall>x. delta = Some x \<longrightarrow> x = d) \<and>
   (delta = None \<longrightarrow> d \<noteq> [] \<and> set d \<subseteq> set blanks)"
proof (induction cs olds arbitrary: delta rule: list_induct2)
  case (Cons c cs old olds)
  show ?case
  proof (cases "trimmed c = [] \<and> trimmed old = []")
    case True
    with Cons show ?thesis by (simp add: indented_as_def)
  next
    case False
    define cand where "cand = trim_suffix (trimmed c) (trimmed old)"
    from False Cons.prems have c: "suffix (trimmed old) (trimmed c)" "cand \<noteq> []" "set cand \<subseteq> set blanks"
      by (auto simp: Let_def cand_def split: if_splits)
    from c(1) have t: "trimmed c = cand @ trimmed old" by (auto simp: cand_def trim_suffix_def suffix_def)
    have "trimmed old \<noteq> []" using trimmed_nonblank [of c] t c by auto
    then have ind: "indented_as cand c old" using t by (simp add: indented_as_def)
    have "indented_from (Some cand) cs olds = Some d \<and> (\<forall>x. delta = Some x \<longrightarrow> x = cand)"
      using Cons.prems False c unfolding cand_def by (auto simp: Let_def split: if_splits option.splits)
    with Cons.IH [of "Some cand"] ind c show ?thesis by auto
  qed
qed simp

text \<open>What the lines of a hit have in common with the lines of the old text, per tier.\<close>

definition lines_agree :: "tier \<Rightarrow> go_string \<Rightarrow> logicalLine list \<Rightarrow> logicalLine list \<Rightarrow> bool" where
  "lines_agree t delta cs olds \<longleftrightarrow>
     (if t = TierIndentation then delta \<noteq> [] \<and> set delta \<subseteq> set blanks \<and> list_all2 (indented_as delta) cs olds
      else map trimmed cs = map trimmed olds)"

lemma window_hit_agree:
  assumes "window_hit cs olds tlf allow i" "i + length olds \<le> length cs"
  shows "lines_agree (if allow then TierIndentation else TierTrailingWhitespace)
    (m_delta (line_match cs olds tlf allow i)) (take (length olds) (drop i cs)) olds"
proof -
  have len: "length (take (length olds) (drop i cs)) = length olds" using assms(2) by simp
  show ?thesis
    using assms(1) indented_from_shape [OF len, of None] exactLineWindow_iff [OF len]
    by (auto simp: window_hit_def line_match_def compareLineWindow_def indentedLineWindow_def lines_agree_def Let_def
        split: if_splits)
qed

lemma line_from_hits:
  "m \<in> set (line_from cs olds tlf allow off) \<Longrightarrow>
   \<exists>i. off \<le> i \<and> i + length olds \<le> length cs \<and> window_hit cs olds tlf allow i \<and> m = line_match cs olds tlf allow i"
proof (induction "length cs - off" arbitrary: off rule: less_induct)
  case less
  from less.prems have n: "olds \<noteq> []" "off + length olds \<le> length cs"
    by (auto simp: line_step [of cs olds tlf allow off] split: if_splits)
  then have k: "0 < length olds" "off < length cs" by (auto simp: neq_Nil_conv)
  show ?case
  proof (cases "window_hit cs olds tlf allow off \<and> m = line_match cs olds tlf allow off")
    case True
    with n show ?thesis by auto
  next
    case False
    then have "m \<in> set (line_from cs olds tlf allow (off + length olds)) \<or> m \<in> set (line_from cs olds tlf allow (Suc off))"
      using less.prems n by (auto simp: line_step [of cs olds tlf allow off] split: if_splits)
    moreover have "off < off + length olds" using k(1) by linarith
    ultimately obtain j where j: "off < j" "m \<in> set (line_from cs olds tlf allow j)" by blast
    with less.hyps [of j] k show ?thesis by (meson diff_less_mono2 le_trans less_imp_le)
  qed
qed

section \<open>The matches of a tier\<close>

fun tier_matches :: "tier \<Rightarrow> go_string \<Rightarrow> go_string \<Rightarrow> match list" where
  "tier_matches TierExact c old = exactMatches c old"
| "tier_matches TierTrailingWhitespace c old = lineMatches c old False"
| "tier_matches TierIndentation c old = lineMatches c old True"

text \<open>A hit of a tier: an occurrence of the old text at a byte, or a window of lines from a line.\<close>

definition tier_hit :: "tier \<Rightarrow> go_string \<Rightarrow> go_string \<Rightarrow> nat \<Rightarrow> bool" where
  "tier_hit t c old i \<longleftrightarrow>
     (if t = TierExact then occurs_at c old i
      else i + length (splitLogicalLines old) \<le> length (splitLogicalLines c) \<and>
        window_hit (splitLogicalLines c) (splitLogicalLines old) (suffix [LF] old) (t = TierIndentation) i)"

definition tier_width :: "tier \<Rightarrow> go_string \<Rightarrow> nat" where
  "tier_width t old = (if t = TierExact then length old else length (splitLogicalLines old))"

text \<open>The position of a match: its first byte, or the number of its first line, from 0.\<close>

definition tier_pos :: "tier \<Rightarrow> match \<Rightarrow> nat" where
  "tier_pos t m = (if t = TierExact then m_start m else m_line m - 1)"

lemma find_matches_tier: "find_matches c old = (t, ms) \<Longrightarrow> ms = tier_matches t c old \<and> (\<forall>u < t. tier_matches u c old = [])"
proof -
  assume f: "find_matches c old = (t, ms)"
  have u: "u < t \<longleftrightarrow> tier_number u < tier_number t" for u by (simp add: less_tier_def)
  show ?thesis
    using f unfolding u find_matches_def by (auto simp: Let_def split: if_splits; case_tac u; simp)
qed

lemma find_matches_none: "find_matches c old = (t, []) \<Longrightarrow> tier_matches u c old = []"
  by (cases u) (auto simp: find_matches_def Let_def split: if_splits)

lemma splitLogicalLines_Nil [simp]: "splitLogicalLines s = [] \<longleftrightarrow> s = []"
  by (auto simp: splitLogicalLines_def split_logical.simps [of 0 s] split: option.splits)

lemma lineMatches_from:
  "old \<noteq> [] \<Longrightarrow> lineMatches c old allow =
   line_from (splitLogicalLines c) (splitLogicalLines old) (suffix [LF] old) allow 0"
  by (auto simp: lineMatches_def Let_def line_step [where i = 0])

lemma tier_positions:
  assumes "old \<noteq> []"
  shows "map (tier_pos t) (tier_matches t c old) =
    (if t = TierExact then exact_positions c old 0
     else line_positions (splitLogicalLines c) (splitLogicalLines old) (suffix [LF] old) (t = TierIndentation) 0)"
  using assms
  by (cases t) (simp_all add: tier_pos_def exact_positions_def exactMatches_def line_positions_def lineMatches_from)

lemma occurs_at_bound: "occurs_at c old i \<Longrightarrow> old \<noteq> [] \<Longrightarrow> i + length old \<le> length c"
  by (drule arg_cong [of _ _ length, OF occurs_at_def [THEN iffD1]]) (auto simp: min_def neq_Nil_conv split: if_splits)

text \<open>Both scans, as one statement about the hits of a tier.\<close>

lemma tier_complete:
  assumes "old \<noteq> []" "tier_hit t c old j"
  shows "\<exists>m \<in> set (tier_matches t c old). tier_pos t m \<le> j \<and> j < tier_pos t m + tier_width t old"
proof -
  obtain b bs where b: "old = b # bs" using assms(1) by (cases old) auto
  obtain l ls where l: "splitLogicalLines old = l # ls" using assms(1) by (cases "splitLogicalLines old") auto
  have "\<exists>i \<in> set (map (tier_pos t) (tier_matches t c old)). i \<le> j \<and> j < i + tier_width t old"
  proof (cases "t = TierExact")
    case True
    then show ?thesis
      using exact_scan.found_complete [of 0 j b bs c] occurs_at_bound [of c old j] assms b
      unfolding tier_positions [OF assms(1)] by (auto simp: tier_hit_def tier_width_def)
  next
    case False
    then show ?thesis
      using line_scan.found_complete [of 0 j l ls "splitLogicalLines c" "suffix [LF] old" "t = TierIndentation"] assms l
      unfolding tier_positions [OF assms(1)] by (auto simp: tier_hit_def tier_width_def)
  qed
  then show ?thesis by auto
qed

lemma tier_chain: "old \<noteq> [] \<Longrightarrow> chain (length c) 0 (tier_matches t c old)"
  by (cases t) (simp_all add: exactMatches_def exact_chain lineMatches_from line_chain)

text \<open>What a match of a tier covers.\<close>

definition covers :: "tier \<Rightarrow> go_string \<Rightarrow> go_string \<Rightarrow> match \<Rightarrow> bool" where
  "covers t c old m \<longleftrightarrow>
     (if t = TierExact then text_at c m = old
      else (let cs = splitLogicalLines c; olds = splitLogicalLines old; i = m_line m - 1; e = cs ! (i + length olds - 1)
            in i + length olds \<le> length cs \<and> m_start m = l_start (cs ! i) \<and>
               m_end m = (if suffix [LF] old then l_fullEnd e else l_end e) \<and>
               lines_agree t (m_delta m) (take (length olds) (drop i cs)) olds))"

lemma tier_covers:
  assumes "old \<noteq> []" "m \<in> set (tier_matches t c old)"
  shows "covers t c old m"
proof (cases "t = TierExact")
  case True
  obtain b bs where b: "old = b # bs" using assms(1) by (cases old) auto
  have "m_start m \<in> set (exact_positions c old 0)"
    using assms True by (auto simp: exact_positions_def exactMatches_def)
  with exact_scan.found_sound [of "m_start m" c b bs 0] b have "occurs_at c old (m_start m)" by simp
  with True exact_match_shape [of m c old 0] assms show ?thesis
    by (simp add: covers_def text_at_def occurs_at_def exactMatches_def drop_take)
next
  case False
  let ?olds = "splitLogicalLines old" and ?cs = "splitLogicalLines c"
  have "m \<in> set (line_from ?cs ?olds (suffix [LF] old) (t = TierIndentation) 0)"
    using assms False by (cases t) (simp_all add: lineMatches_from)
  from line_from_hits [OF this] obtain i where i: "i + length ?olds \<le> length ?cs"
      "window_hit ?cs ?olds (suffix [LF] old) (t = TierIndentation) i"
      "m = line_match ?cs ?olds (suffix [LF] old) (t = TierIndentation) i" by blast
  have "lines_agree t (m_delta m) (take (length ?olds) (drop i ?cs)) ?olds"
    using window_hit_agree [OF i(2,1)] i(3) False by (cases t) simp_all
  then show ?thesis using False i(1,3) by (simp add: covers_def line_match_def Let_def)
qed

section \<open>Properties of an edit\<close>

definition source_of :: "request \<Rightarrow> go_string" where "source_of req = content (normalize (req_content req))"
definition old_of :: "request \<Rightarrow> go_string" where "old_of req = content (normalize (req_old req))"
definition new_of :: "request \<Rightarrow> go_string" where "new_of req = content (normalize (req_new req))"

text \<open>How a successful edit comes about.\<close>

lemma Apply_edit_Inr:
  assumes "Apply_edit req = Inr r"
  obtains t ms where "find_matches (source_of req) (old_of req) = (t, ms)" "ms \<noteq> []" "old_of req \<noteq> []"
    "old_of req \<noteq> new_of req" "replaceAll req \<or> length ms = 1" "r_tier r = t"
    "ranges r = map (\<lambda>m. (m_start m, m_end m)) ms" "replacements r = length ms"
    "r_lineEnding r = detectLineEnding (req_content req)" "r_hadBOM r = snd (stripBOM (req_content req))"
    "r_content r = restore (splice (source_of req) t (new_of req) 0 ms) (detectLineEnding (req_content req))
       (snd (stripBOM (req_content req))) (suffix [LF] (without_bom (req_content req)))"
proof -
  obtain t ms where f: "find_matches (source_of req) (old_of req) = (t, ms)" by fastforce
  have one: "replaceAll req \<or> length ms = 1" "ms \<noteq> []" "old_of req \<noteq> []" "old_of req \<noteq> new_of req"
    using assms f unfolding source_of_def old_of_def new_of_def
    by (auto simp: Apply_edit_def Let_def less_Suc_eq_le Suc_lessI split: if_splits) (metis Suc_lessI length_greater_0_conv One_nat_def)+
  then have t1: "(if \<not> replaceAll req then take 1 ms else ms) = ms" by (cases ms) auto
  have "Inr r = (Inr \<lparr>r_content = restore (splice (source_of req) t (new_of req) 0 ms) (detectLineEnding (req_content req))
       (snd (stripBOM (req_content req))) (suffix [LF] (without_bom (req_content req))),
     replacements = length ms, r_tier = t, ranges = map (\<lambda>m. (m_start m, m_end m)) ms,
     r_lineEnding = detectLineEnding (req_content req), r_hadBOM = snd (stripBOM (req_content req))\<rparr> :: edit_error + edit_result)"
    using assms f t1 unfolding source_of_def old_of_def new_of_def
    by (auto simp: Apply_edit_def Let_def split: if_splits)
  then show ?thesis using f one by (intro that) simp_all
qed

text \<open>C5: An edit replaces exactly what it matched and nothing else: the source is the text between the
  matches woven with the matched texts, the edited text is the same pieces woven with the replacements, the
  ranges are the matches, in order and disjoint, and every matched text agrees with the old text in the
  sense of its tier (equal bytes; equal lines up to trailing blanks; lines indented by one common prefix).\<close>

theorem edit_replaces_matches_only:
  assumes "Apply_edit req = Inr r"
  shows "\<exists>ms gs. ranges r = map (\<lambda>m. (m_start m, m_end m)) ms \<and> chain (length (source_of req)) 0 ms \<and>
    source_of req = weave gs (map (text_at (source_of req)) ms) \<and> length gs = Suc (length ms) \<and>
    (\<forall>m \<in> set ms. covers (r_tier r) (source_of req) (old_of req) m) \<and>
    r_content r = restore (weave gs (map (replacement_for (r_tier r) (new_of req)) ms)) (detectLineEnding (req_content req))
      (snd (stripBOM (req_content req))) (suffix [LF] (without_bom (req_content req)))"
  using assms
proof (cases rule: Apply_edit_Inr)
  case (1 t ms)
  have ms: "ms = tier_matches t (source_of req) (old_of req)" using find_matches_tier [OF 1(1)] by simp
  have ch: "chain (length (source_of req)) 0 ms" unfolding ms by (rule tier_chain [OF 1(3)])
  have "source_of req = weave (gaps (source_of req) 0 ms) (map (text_at (source_of req)) ms)"
    using source_weave [OF ch] by simp
  moreover have "\<forall>m \<in> set ms. covers (r_tier r) (source_of req) (old_of req) m"
    using tier_covers [OF 1(3)] 1(6) by (simp add: ms)
  ultimately show ?thesis using 1(6,7,11) ch splice_weave
    by (intro exI [of _ ms] exI [of _ "gaps (source_of req) 0 ms"]) simp
qed

definition plain_edit :: "go_string \<Rightarrow> go_string \<Rightarrow> go_string \<Rightarrow> request" where
  "plain_edit c old new = \<lparr>req_content = c, req_old = old, req_new = new, replaceAll = False\<rparr>"

lemma example_edit: "case Apply_edit (plain_edit ''aaa bbb'' ''aa'' ''c'') of Inl _ \<Rightarrow> False
    | Inr r \<Rightarrow> r_content r = ''ca bbb'' \<and> ranges r = [(0, 2)] \<and> r_tier r = TierExact"
  by code_simp

theorem edit_replaces_matches_only_witness:
  "\<exists>r (ms :: match list) gs. Apply_edit (plain_edit ''aaa bbb'' ''aa'' ''c'') = Inr r \<and> ranges r = map (\<lambda>m. (m_start m, m_end m)) ms \<and>
    source_of (plain_edit ''aaa bbb'' ''aa'' ''c'') = weave gs (map (text_at (source_of (plain_edit ''aaa bbb'' ''aa'' ''c''))) ms)"
proof -
  obtain r where r: "Apply_edit (plain_edit ''aaa bbb'' ''aa'' ''c'') = Inr r"
    using example_edit by (auto split: sum.splits)
  from edit_replaces_matches_only [OF r] r show ?thesis by blast
qed

text \<open>Without \<open>ReplaceAll\<close> an accepted edit is unambiguous: there is exactly one range, the tier is the
  first one with any match, and every hit of that tier in the source overlaps the replaced one.\<close>

theorem edit_unambiguous:
  assumes "Apply_edit req = Inr r" and "\<not> replaceAll req"
  shows "\<exists>m. tier_matches (r_tier r) (source_of req) (old_of req) = [m] \<and> ranges r = [(m_start m, m_end m)] \<and>
    (\<forall>u < r_tier r. tier_matches u (source_of req) (old_of req) = []) \<and>
    (\<forall>j. tier_hit (r_tier r) (source_of req) (old_of req) j \<longrightarrow>
      tier_pos (r_tier r) m \<le> j \<and> j < tier_pos (r_tier r) m + tier_width (r_tier r) (old_of req))"
  using assms(1)
proof (cases rule: Apply_edit_Inr)
  case (1 t ms)
  from 1(5) assms(2) obtain m where m: "ms = [m]" by (auto simp: length_Suc_conv)
  have f: "tier_matches t (source_of req) (old_of req) = [m]" "\<forall>u < t. tier_matches u (source_of req) (old_of req) = []"
    using find_matches_tier [OF 1(1)] m by auto
  have "tier_pos t m \<le> j \<and> j < tier_pos t m + tier_width t (old_of req)" if "tier_hit t (source_of req) (old_of req) j" for j
    using tier_complete [OF 1(3) that] f(1) by auto
  with f m 1(6,7) show ?thesis by auto
qed

theorem edit_unambiguous_witness:
  "\<exists>r (m :: match). Apply_edit (plain_edit ''aaa bbb'' ''aa'' ''c'') = Inr r \<and> ranges r = [(m_start m, m_end m)]"
proof -
  obtain r where r: "Apply_edit (plain_edit ''aaa bbb'' ''aa'' ''c'') = Inr r"
    using example_edit by (auto split: sum.splits)
  have "\<not> replaceAll (plain_edit ''aaa bbb'' ''aa'' ''c'')" by (simp add: plain_edit_def)
  from edit_unambiguous [OF r this] r show ?thesis by blast
qed

text \<open>A refused edit has a reason in the text: \<open>ErrNoMatch\<close> means that the old text occurs nowhere, and no
  window of lines agrees with it in either line tier; an ambiguity error reports, in order, the lines of all
  the (at least two) disjoint matches of the tier that decided.\<close>

theorem edit_errors_justified:
  assumes "Apply_edit req = Inl e"
  shows "(e = ErrNoMatch \<longrightarrow> \<not> sublist (old_of req) (source_of req) \<and> (\<forall>t j. \<not> tier_hit t (source_of req) (old_of req) j)) \<and>
    (\<forall>n ls. e = AmbiguityError n ls \<longrightarrow> \<not> replaceAll req \<and> 2 \<le> n \<and>
      (\<exists>t. ls = map m_line (tier_matches t (source_of req) (old_of req)) \<and> n = length ls \<and>
        (\<forall>u < t. tier_matches u (source_of req) (old_of req) = [])))"
proof -
  obtain t ms where f: "find_matches (source_of req) (old_of req) = (t, ms)" by fastforce
  have cases': "e \<in> {ErrEmptyOld, ErrNoOpEdit} \<or> old_of req \<noteq> [] \<and>
      (e = ErrNoMatch \<and> ms = [] \<or> e = AmbiguityError (length ms) (map m_line ms) \<and> 2 \<le> length ms \<and> \<not> replaceAll req)"
    using assms f unfolding source_of_def old_of_def
    by (auto simp: Apply_edit_def Let_def split: if_splits)
  have none: "\<not> tier_hit u (source_of req) (old_of req) j" if "ms = []" "old_of req \<noteq> []" for u j
    using tier_complete [OF that(2), of u "source_of req" j] find_matches_none f that(1) by fastforce
  have "\<not> sublist (old_of req) (source_of req)" if "ms = []" "old_of req \<noteq> []"
  proof
    assume "sublist (old_of req) (source_of req)"
    then obtain a b where ab: "source_of req = a @ old_of req @ b" by (auto simp: sublist_def)
    have "tier_hit TierExact (source_of req) (old_of req) (length a)"
      unfolding ab by (simp add: tier_hit_def occurs_at_def)
    with none [OF that] show False by blast
  qed
  with cases' none find_matches_tier [OF f] show ?thesis by auto
qed

theorem edit_errors_justified_witness:
  "Apply_edit (plain_edit ''abc'' ''x'' ''y'') = Inl ErrNoMatch \<and> \<not> sublist ''x'' ''abc''"
proof -
  have e: "Apply_edit (plain_edit ''abc'' ''x'' ''y'') = Inl ErrNoMatch" by code_simp
  have "source_of (plain_edit ''abc'' ''x'' ''y'') = ''abc''" "old_of (plain_edit ''abc'' ''x'' ''y'') = ''x''"
    by (code_simp)+
  with edit_errors_justified [OF e] e show ?thesis by simp
qed

section \<open>Replacing all occurrences, line endings\<close>

lemma replace_all_Nil [simp]: "replace_all [] old new = []"
  by (simp add: replace_all_simps)

lemma replace_all_index:
  "old \<noteq> [] \<Longrightarrow> replace_all s old new = (case str_index s old of None \<Rightarrow> s
     | Some r \<Rightarrow> take r s @ new @ replace_all (drop (r + length old) s) old new)"
proof (induction s)
  case (Cons c s)
  show ?case
  proof (cases "prefix old (c # s)")
    case True
    with Cons.prems show ?thesis by (simp add: replace_all_simps(2))
  next
    case False
    with Cons show ?thesis by (simp add: replace_all_simps(2) split: option.splits)
  qed
qed simp

lemma splice_exact:
  "old \<noteq> [] \<Longrightarrow> off \<le> length c \<Longrightarrow> splice c TierExact new off (exact_from c old off) = replace_all (drop off c) old new"
proof (induction c old off rule: exact_from.induct)
  case (1 c old off)
  show ?case
  proof (cases "str_index (drop off c) old")
    case None
    then have "exact_from c old off = []" by (subst exact_from.simps) simp
    with None "1.prems" show ?thesis by (simp add: replace_all_index [of old "drop off c"])
  next
    case (Some r)
    have le: "off + r + length old \<le> length c" using str_index_Some [OF Some] "1.prems"(2) by auto
    then have g: "\<not> (old = [] \<or> \<not> off + length old \<le> length c)" using "1.prems"(1) by auto
    have e: "exact_from c old off = \<lparr>m_start = off + r, m_end = off + r + length old, m_line = lineNumber c (off + r),
        m_delta = []\<rparr> # exact_from c old (off + r + length old)"
      using g Some by (subst exact_from.simps) (simp add: Let_def)
    have "drop off (take (off + r) c) = take r (drop off c)" by (simp add: drop_take)
    moreover have "drop (r + length old) (drop off c) = drop (off + r + length old) c" by (simp add: ac_simps)
    ultimately show ?thesis
      using "1.IH" [OF g Some refl refl "1.prems"(1) le] Some "1.prems"(1)
      by (simp add: e replacement_for_def replace_all_index [of old "drop off c"])
  qed
qed

text \<open>At the exact tier, \<open>ReplaceAll\<close> computes what \<open>strings.ReplaceAll\<close> computes on the normalised source.\<close>

theorem replace_all_exact:
  assumes "Apply_edit req = Inr r" and "replaceAll req" and "r_tier r = TierExact"
  shows "r_content r = restore (replace_all (source_of req) (old_of req) (new_of req)) (detectLineEnding (req_content req))
    (snd (stripBOM (req_content req))) (suffix [LF] (without_bom (req_content req)))"
  using assms(1)
proof (cases rule: Apply_edit_Inr)
  case (1 t ms)
  then have "ms = exact_from (source_of req) (old_of req) 0"
    using find_matches_tier [OF 1(1)] assms(3) by (simp add: exactMatches_def)
  with 1 assms(3) splice_exact [OF 1(3), of 0 "source_of req" "new_of req"] show ?thesis by simp
qed

theorem replace_all_exact_witness:
  "\<exists>r. Apply_edit (plain_edit ''abab'' ''a'' ''xy''\<lparr>replaceAll := True\<rparr>) = Inr r \<and> r_content r = ''xybxyb''"
proof -
  let ?q = "plain_edit ''abab'' ''a'' ''xy''\<lparr>replaceAll := True\<rparr>"
  have "case Apply_edit ?q of Inl _ \<Rightarrow> False | Inr r \<Rightarrow> r_tier r = TierExact" by code_simp
  then obtain r where r: "Apply_edit ?q = Inr r" "r_tier r = TierExact" by (auto split: sum.splits)
  have "restore (replace_all (source_of ?q) (old_of ?q) (new_of ?q)) (detectLineEnding (req_content ?q))
    (snd (stripBOM (req_content ?q))) (suffix [LF] (without_bom (req_content ?q))) = ''xybxyb''" by code_simp
  with replace_all_exact [OF r(1) _ r(2)] r(1) show ?thesis by (simp add: plain_edit_def)
qed

lemma to_crlf_no_bare: "count_str (to_crlf s) [CR, LF] = count_byte (to_crlf s) LF"
proof (induction s)
  case (Cons c s)
  show ?case
  proof (cases "c = LF")
    case True
    with Cons show ?thesis by (simp add: count_CRLF_simps)
  next
    case False
    have "count_str (c # to_crlf s) [CR, LF] = count_str (to_crlf s) [CR, LF]"
      by (cases s) (auto simp: count_str_simps)
    with False Cons show ?thesis by simp
  qed
qed (simp add: count_str_simps)

lemma restore_ending:
  "suffix [LF] (restore s le bom tlf) \<longleftrightarrow> tlf"
  "le = [CR, LF] \<Longrightarrow> count_str (restore s le bom tlf) [CR, LF] = count_byte (restore s le bom tlf) LF"
  "prefix utf8BOM (restore s le True tlf)"
proof -
  define s1 where "s1 = (if tlf \<and> \<not> suffix [LF] s then s @ [LF] else if \<not> tlf then trim_right s [LF] else s)"
  define s2 where "s2 = (if le = [CR, LF] then to_crlf s1 else s1)"
  have r: "restore s le bom tlf = (if bom then utf8BOM @ s2 else s2)" for bom
    by (simp add: restore_def s1_def s2_def Let_def replace_to_crlf)
  have "suffix [LF] s1 \<longleftrightarrow> tlf" by (auto simp: s1_def trim_right_LF_no)
  then have "suffix [LF] s2 \<longleftrightarrow> tlf" by (simp add: s2_def suffix_LF_to_crlf)
  moreover have "suffix [LF] (utf8BOM @ s2) \<longleftrightarrow> suffix [LF] s2"
    by (cases "s2 = []") (simp_all add: suffix_LF, simp add: utf8BOM_def)
  ultimately show "suffix [LF] (restore s le bom tlf) \<longleftrightarrow> tlf" by (simp add: r)
  show "prefix utf8BOM (restore s le True tlf)" by (simp add: r)
  show "count_str (restore s le bom tlf) [CR, LF] = count_byte (restore s le bom tlf) LF" if "le = [CR, LF]"
    unfolding r using that to_crlf_no_bare [of s1] by (simp add: s2_def count_bom(1)) (simp add: utf8BOM_def)
qed

text \<open>An edit keeps the conventions of the file: the BOM, the presence of a final newline, and in a file
  whose line endings are mostly CRLF every line of the result ends in CRLF, the inserted ones included.\<close>

theorem edit_keeps_conventions:
  assumes "Apply_edit req = Inr r"
  shows "(suffix [LF] (r_content r) \<longleftrightarrow> suffix [LF] (without_bom (req_content req))) \<and>
    (prefix utf8BOM (req_content req) \<longrightarrow> prefix utf8BOM (r_content r)) \<and>
    (detectLineEnding (req_content req) = [CR, LF] \<longrightarrow>
      count_str (r_content r) [CR, LF] = count_byte (r_content r) LF)"
  using assms
proof (cases rule: Apply_edit_Inr)
  case (1 t ms)
  have "prefix utf8BOM (req_content req) \<Longrightarrow> snd (stripBOM (req_content req))" by (simp add: stripBOM_def)
  then show ?thesis unfolding 1(11) by (simp add: restore_ending)
qed

theorem edit_keeps_conventions_witness:
  "\<exists>r. Apply_edit (plain_edit [CHR ''a'', CR, LF, CHR ''b'', CR, LF] ''b'' [CHR ''c'', LF, CHR ''d'']) = Inr r \<and>
    count_str (r_content r) [CR, LF] = count_byte (r_content r) LF \<and> suffix [LF] (r_content r)"
proof -
  let ?q = "plain_edit [CHR ''a'', CR, LF, CHR ''b'', CR, LF] ''b'' [CHR ''c'', LF, CHR ''d'']"
  have "case Apply_edit ?q of Inl _ \<Rightarrow> False | Inr r \<Rightarrow> True" by code_simp
  then obtain r where r: "Apply_edit ?q = Inr r" by (auto split: sum.splits)
  have "detectLineEnding (req_content ?q) = [CR, LF] \<and> suffix [LF] (without_bom (req_content ?q))" by code_simp
  with edit_keeps_conventions [OF r] r show ?thesis by blast
qed

end
