(* ===== verification/Text_Patch.thy ===== *)
theory Text_Patch
  imports Text_Myers Text_Edit
begin

text \<open>
  Correctness of the unified diff: the hunks cover every change, are in order and disjoint, and applying
  them, with the numbers their headers carry, to the old lines gives the new lines.
\<close>

section \<open>Grouping\<close>

definition hunks_ok :: "nat \<Rightarrow> diffHunk list \<Rightarrow> bool" where
  "hunks_ok n hs \<longleftrightarrow> sorted_wrt (\<lambda>h k. h_end h < h_start k) hs \<and> (\<forall>h \<in> set hs. h_start h < h_end h \<and> h_end h \<le> n)"

definition covered :: "diffHunk list \<Rightarrow> nat \<Rightarrow> bool" where
  "covered hs i \<longleftrightarrow> (\<exists>h \<in> set hs. h_start h \<le> i \<and> i < h_end h)"

lemma covered_append [simp]: "covered (a @ b) i \<longleftrightarrow> covered a i \<or> covered b i"
  by (auto simp: covered_def)

lemma hunks_ok_snoc:
  "hunks_ok n (hs @ [h]) \<longleftrightarrow> hunks_ok n hs \<and> (\<forall>k \<in> set hs. h_end k < h_start h) \<and> h_start h < h_end h \<and> h_end h \<le> n"
  by (auto simp: hunks_ok_def sorted_wrt_append)

definition group_inv :: "nat \<Rightarrow> nat \<Rightarrow> diffOp list \<Rightarrow> nat \<Rightarrow> diffHunk list \<Rightarrow> bool" where
  "group_inv c n all index hs \<longleftrightarrow> hunks_ok n hs \<and> (hs \<noteq> [] \<longrightarrow> h_start (last hs) \<le> index - c) \<and>
     (\<forall>i < index. op_kind (all ! i) \<noteq> diffEqual \<longrightarrow> covered hs i)"

lemma group_extend:
  assumes "group_inv c n all index (hs @ [h])" "index < n"
  shows "group_inv c n all (Suc index)
    (if min n (index + c + 1) > h_end h then hs @ [h\<lparr>h_end := min n (index + c + 1)\<rparr>] else hs @ [h])"
proof -
  let ?h = "if min n (index + c + 1) > h_end h then h\<lparr>h_end := min n (index + c + 1)\<rparr> else h"
  have ok: "hunks_ok n (hs @ [?h])" "h_start ?h \<le> index - c" "h_end h \<le> h_end ?h" "min n (index + c + 1) \<le> h_end ?h"
      "h_start ?h = h_start h"
    using assms(1) by (auto simp: group_inv_def hunks_ok_snoc)
  have "covered (hs @ [?h]) i" if "i < Suc index" "op_kind (all ! i) \<noteq> diffEqual" for i
  proof (cases "i = index")
    case True
    then have "h_start ?h \<le> i" "i < h_end ?h" using ok assms(2) by linarith+
    then show ?thesis by (auto simp: covered_def)
  next
    case False
    with that assms(1) have "covered (hs @ [h]) i" by (auto simp: group_inv_def)
    with ok(3,5) show ?thesis by (fastforce simp: covered_def)
  qed
  with ok(1,2) have "group_inv c n all (Suc index) (hs @ [?h])" by (auto simp: group_inv_def)
  then show ?thesis by (cases "min n (index + c + 1) > h_end h") (simp_all only: if_True if_False)
qed

lemma drop_Cons_facts: "drop i xs = y # ys \<Longrightarrow> i < length xs \<and> xs ! i = y \<and> drop (Suc i) xs = ys"
  by (metis Cons_nth_drop_Suc drop_all leI list.inject list.distinct(1))

lemma group_from_inv:
  "group_inv c n all index hs \<Longrightarrow> n = index + length ops \<Longrightarrow> drop index all = ops \<Longrightarrow> length all = n \<Longrightarrow>
   group_inv c n all n (group_from c n hs index ops)"
proof (induction c n hs index ops rule: group_from.induct)
  case (2 c n hs index op ops)
  have idx: "index < n" "all ! index = op" "drop (Suc index) all = ops"
    using drop_Cons_facts [OF "2.prems"(3)] unfolding "2.prems"(4) by blast+
  have n': "n = Suc index + length ops" using "2.prems"(2) by simp
  note rest = n' idx(3) "2.prems"(4)
  show ?case
  proof (cases "op_kind op = diffEqual")
    case True
    have "group_inv c n all (Suc index) hs"
      using "2.prems"(1) idx(2) True by (auto simp: group_inv_def less_Suc_eq)
    from "2.IH"(1) [OF True this rest] True show ?thesis by simp
  next
    case False
    let ?s = "index - c" and ?e = "min n (index + c + 1)"
    show ?thesis
    proof (cases "hs \<noteq> [] \<and> ?s \<le> h_end (last hs)")
      case True
      then obtain bs b where hs: "hs = bs @ [b]" by (metis append_butlast_last_id)
      have "group_inv c n all (Suc index) (if ?e > h_end (last hs) then butlast hs @ [(last hs)\<lparr>h_end := ?e\<rparr>] else hs)"
        using "2.prems"(1) idx(1) unfolding hs last_snoc butlast_snoc by (intro group_extend)
      from "2.IH"(2) [OF False refl refl True this rest] True False show ?thesis
        by (simp only: group_from.simps Let_def if_False if_True simp_thms)
    next
      case new: False
      have "h_end k < ?s" if "k \<in> set hs" for k
      proof -
        from that obtain bs b where hs: "hs = bs @ [b]" by (cases hs rule: rev_cases) auto
        with new have "h_end b < ?s" by simp
        moreover have "h_end k \<le> h_end b" using that hs "2.prems"(1)
          by (auto simp: group_inv_def hunks_ok_snoc)
        ultimately show ?thesis by simp
      qed
      then have "group_inv c n all (Suc index) (hs @ [\<lparr>h_start = ?s, h_end = ?e\<rparr>])"
        using "2.prems"(1) idx(1) by (auto simp: group_inv_def hunks_ok_snoc covered_def less_Suc_eq)
      from "2.IH"(3) [OF False refl refl new this rest] False new show ?thesis
        by (simp only: group_from.simps Let_def if_False if_True simp_thms)
    qed
  qed
qed simp

lemma groupHunks_ok:
  "hunks_ok (length ops) (groupHunks ops c)"
  "i < length ops \<Longrightarrow> op_kind (ops ! i) \<noteq> diffEqual \<Longrightarrow> covered (groupHunks ops c) i"
proof -
  have "group_inv c (length ops) ops (length ops) (groupHunks ops c)"
    unfolding groupHunks_def by (rule group_from_inv) (simp_all add: group_inv_def hunks_ok_def)
  then show "hunks_ok (length ops) (groupHunks ops c)"
    "i < length ops \<Longrightarrow> op_kind (ops ! i) \<noteq> diffEqual \<Longrightarrow> covered (groupHunks ops c) i"
    by (auto simp: group_inv_def)
qed

section \<open>Positions and counts\<close>

lemma hunkCounts_sides: "hunkCounts ops = (length (old_side ops), length (new_side ops))"
  by (induction ops) (auto simp: old_side_def new_side_def split: diffKind.splits)

lemma positions_sides:
  "foldl (\<lambda>p op. advancePositions op p) (a, b) ops = (a + length (old_side ops), b + length (new_side ops))"
  by (induction ops arbitrary: a b) (auto simp: old_side_def new_side_def split: diffKind.splits)

section \<open>Applying a patch\<close>

text \<open>
  What a reader of a unified diff does: copy up to the start of the hunk, which its header gives on the old
  and on the new side (a side with no lines names the line before), check the lines the hunk shows, put its
  new lines in their place. \<open>None\<close> is a patch that does not apply.
\<close>

fun apply_hunks :: "nat \<Rightarrow> nat \<Rightarrow> diffLine list \<Rightarrow> hunk_header list \<Rightarrow> diffLine list option" where
  "apply_hunks pos npos olds [] = Some (drop pos olds)"
| "apply_hunks pos npos olds (h # hs) =
     (let start = (if oldCount h = 0 then oldStart h else oldStart h - 1);
          nstart = (if newCount h = 0 then newStart h else newStart h - 1)
      in if pos \<le> start \<and> npos + (start - pos) = nstart \<and> newCount h = length (new_side (h_body h)) \<and>
            take (oldCount h) (drop start olds) = old_side (h_body h)
         then map_option (\<lambda>r. drop pos (take start olds) @ new_side (h_body h) @ r)
                (apply_hunks (start + oldCount h) (nstart + newCount h) olds hs)
         else None)"

lemma all_equal_sides:
  assumes "\<And>op. op \<in> set ops \<Longrightarrow> op_kind op = diffEqual \<and> op_old op = op_new op"
  shows "old_side ops = new_side ops"
proof -
  have "filter (\<lambda>op. op_kind op \<noteq> diffInsert) ops = ops" "filter (\<lambda>op. op_kind op \<noteq> diffDelete) ops = ops"
    by (rule filter_True, use assms in force)+
  moreover have "map op_old ops = map op_new ops" using assms by (intro map_cong) blast+
  ultimately show ?thesis by (simp add: old_side_def new_side_def)
qed

lemma side_split:
  "drop (length (old_side (take i ops))) (old_side ops) = old_side (drop i ops)"
  "drop (length (new_side (take i ops))) (new_side ops) = new_side (drop i ops)"
  by (metis append_eq_conv_conj append_take_drop_id side_append(1))
    (metis append_eq_conv_conj append_take_drop_id side_append(2))

lemma take_split: "i \<le> j \<Longrightarrow> take j xs = take i xs @ drop i (take j xs)"
  by (metis append_take_drop_id min.absorb1 take_take)

lemma take_append_sub: "ys @ zs = xs \<Longrightarrow> take (length ys) xs = ys"
  by auto

lemma hunk_headers_apply:
  assumes eq: "\<forall>op \<in> set ops. op_kind op = diffEqual \<longrightarrow> op_old op = op_new op"
  shows "hunks_ok (length ops) hs \<Longrightarrow> (\<forall>h \<in> set hs. p \<le> h_start h) \<Longrightarrow> p \<le> length ops \<Longrightarrow>
    (\<forall>i. p \<le> i \<and> i < length ops \<and> op_kind (ops ! i) \<noteq> diffEqual \<longrightarrow> covered hs i) \<Longrightarrow>
    apply_hunks (length (old_side (take p ops))) (length (new_side (take p ops))) (old_side ops)
      (hunk_headers ops p (length (old_side (take p ops)), length (new_side (take p ops))) hs) =
      Some (new_side (drop p ops))"
proof (induction hs arbitrary: p)
  case Nil
  have "op_kind op = diffEqual \<and> op_old op = op_new op" if "op \<in> set (drop p ops)" for op
  proof -
    from that obtain i where "i < length ops - p" "op = ops ! (p + i)" by (auto simp: in_set_conv_nth)
    with Nil(4) eq show ?thesis by (auto simp: covered_def)
  qed
  from all_equal_sides [OF this] show ?case by (simp add: side_split)
next
  case (Cons h hs)
  let ?s = "h_start h" and ?e = "h_end h"
  define gap where "gap = drop p (take ?s ops)"
  define bdy where "bdy = drop ?s (take ?e ops)"
  have h: "p \<le> ?s" "?s < ?e" "?e \<le> length ops" "hunks_ok (length ops) hs" "\<forall>k \<in> set hs. ?e < h_start k"
    using Cons.prems by (auto simp: hunks_ok_def)
  have ts: "take ?s ops = take p ops @ gap" and te: "take ?e ops = take ?s ops @ bdy"
    using h unfolding gap_def bdy_def by (intro take_split; simp)+
  have "op_kind op = diffEqual \<and> op_old op = op_new op" if "op \<in> set gap" for op
  proof -
    from that obtain i where i: "i < ?s - p" "op = ops ! (p + i)" using h by (auto simp: gap_def in_set_conv_nth)
    have "\<not> covered (h # hs) (p + i)" using i h by (auto simp: covered_def hunks_ok_def)
    moreover have "p + i < length ops" using i(1) h by linarith
    ultimately have "op_kind op = diffEqual" "op \<in> set ops"
      using spec [OF Cons.prems(4), of "p + i"] unfolding i(2) by (auto intro: nth_mem)
    with eq show ?thesis by blast
  qed
  then have gap: "old_side gap = new_side gap" by (rule all_equal_sides)
  define a b where "a = length (old_side (take p ops))" and "b = length (new_side (take p ops))"
  have "take p ops @ drop p ops = take p ops @ gap @ bdy @ drop ?e ops"
    using te ts by (metis append.assoc append_take_drop_id)
  then have dp: "drop p ops = gap @ bdy @ drop ?e ops" by (rule same_append_eq [THEN iffD1])
  have olds: "drop a (old_side ops) = old_side gap @ old_side bdy @ old_side (drop ?e ops)"
    using side_split(1) [of p ops] dp by (simp add: a_def)
  have cov: "\<forall>i. ?e \<le> i \<and> i < length ops \<and> op_kind (ops ! i) \<noteq> diffEqual \<longrightarrow> covered hs i"
  proof (intro allI impI)
    fix i assume i: "?e \<le> i \<and> i < length ops \<and> op_kind (ops ! i) \<noteq> diffEqual"
    with h(1,2) have "p \<le> i" by linarith
    with i Cons.prems(4) have "covered (h # hs) i" by blast
    with i show "covered hs i" by (auto simp: covered_def)
  qed
  have ih: "apply_hunks (length (old_side (take ?e ops))) (length (new_side (take ?e ops))) (old_side ops)
      (hunk_headers ops ?e (length (old_side (take ?e ops)), length (new_side (take ?e ops))) hs) =
      Some (new_side (drop ?e ops))"
    by (rule Cons.IH) (use h cov in auto)
  have len: "length (old_side (take ?e ops)) = a + length (old_side gap) + length (old_side bdy)"
    "length (new_side (take ?e ops)) = b + length (new_side gap) + length (new_side bdy)"
    by (simp_all add: te ts a_def b_def)
  have hh: "hunk_headers ops p (a, b) (h # hs) =
      \<lparr>oldStart = (if old_side bdy = [] then a + length (old_side gap) else a + length (old_side gap) + 1),
       oldCount = length (old_side bdy),
       newStart = (if new_side bdy = [] then b + length (new_side gap) else b + length (new_side gap) + 1),
       newCount = length (new_side bdy), h_body = bdy\<rparr> #
      hunk_headers ops ?e (length (old_side (take ?e ops)), length (new_side (take ?e ops))) hs"
    using h by (simp add: Let_def max_def positions_sides hunkCounts_sides len flip: gap_def bdy_def)
  have tk: "take (length (old_side bdy)) (drop (a + length (old_side gap)) (old_side ops)) = old_side bdy"
    "drop a (take (a + length (old_side gap)) (old_side ops)) = old_side gap"
  proof -
    have "drop (a + length (old_side gap)) (old_side ops) = old_side bdy @ old_side (drop ?e ops)"
      using olds by (metis add.commute append_eq_conv_conj drop_drop)
    then show "take (length (old_side bdy)) (drop (a + length (old_side gap)) (old_side ops)) = old_side bdy" by simp
    show "drop a (take (a + length (old_side gap)) (old_side ops)) = old_side gap"
      using olds by (simp add: drop_take)
  qed
  show ?case
    unfolding a_def [symmetric] b_def [symmetric] hh
    using ih tk gap len by (auto simp: Let_def dp)
qed

section \<open>Properties\<close>

lemma hunks_apply: "apply_hunks 0 0 olds (diff_hunks olds news c) = Some news"
proof -
  let ?ops = "diff_ops olds news" and ?hs = "groupHunks (diff_ops olds news) (effective_context c)"
  have s: "script ?ops olds news" by (rule with_fallback.diff_script) simp
  have "apply_hunks (length (old_side (take 0 ?ops))) (length (new_side (take 0 ?ops))) (old_side ?ops)
      (hunk_headers ?ops 0 (length (old_side (take 0 ?ops)), length (new_side (take 0 ?ops))) ?hs) =
      Some (new_side (drop 0 ?ops))"
    using s groupHunks_ok by (intro hunk_headers_apply) (auto simp: script_def)
  moreover have "old_side [] = []" "new_side [] = []" by (simp_all add: old_side_def new_side_def)
  ultimately show ?thesis using s by (simp add: diff_hunks_def Let_def script_def)
qed

text \<open>C7: A unified diff is a patch: applying the hunks, at the places and with the counts their headers give
  and with the lines they show checked, to the old lines gives the new lines, for every number of context
  lines, whether Myers' search answered or the whole file is replaced.\<close>

theorem unified_diff_applies: "apply_hunks 0 0 olds (diff_hunks olds news c) = Some news"
  by (rule hunks_apply)

lemma equalDiffLines_iff: "equalDiffLines a b \<longleftrightarrow> a = b"
  by (induction a b rule: equalDiffLines.induct) auto

definition diff_text :: "diffLine list \<Rightarrow> go_string" where
  "diff_text ls = concat (map (\<lambda>l. d_text l @ (if d_terminated l then [LF] else [])) ls)"

lemma exactDiffLines_text: "diff_text (exactDiffLines s) = s"
proof (induction s rule: exactDiffLines.induct)
  case (1 s)
  show ?case
  proof (cases "s = [] \<or> index_byte s LF = None")
    case True
    then show ?thesis by (auto simp: exactDiffLines.simps [of s] diff_text_def)
  next
    case False
    then obtain r where r: "s \<noteq> []" "index_byte s LF = Some r" by auto
    have "r < length s" "s ! r = LF" using index_byte_Some [OF r(2)] by auto
    then have "s = take r s @ LF # drop (r + 1) s" by (metis Suc_eq_plus1 id_take_nth_drop)
    with "1.IH" [OF r] r show ?thesis by (simp add: exactDiffLines.simps [of s] diff_text_def)
  qed
qed

lemma diff_hunks_Nil: "diff_hunks olds news c = [] \<Longrightarrow> olds = news"
  using hunks_apply [of olds news c] by simp

text \<open>The exact diff of two texts is empty exactly when they are the same bytes: no change goes
  unreported, and none is made up.\<close>

theorem exact_diff_empty_iff: "UnifiedDiffExact old new path c = [] \<longleftrightarrow> old = new"
proof -
  have "exactDiffLines old = exactDiffLines new \<longleftrightarrow> old = new" by (metis exactDiffLines_text)
  then show ?thesis
    using diff_hunks_Nil [of "exactDiffLines old" "exactDiffLines new" c]
    by (auto simp: UnifiedDiffExact_def unifiedDiff_def equalDiffLines_iff Let_def)
qed

text \<open>The hunks are in order, disjoint and not adjacent, each lies within the operations, and together
  they contain every deletion and every insertion.\<close>

theorem hunks_partition_changes:
  assumes "hs = groupHunks ops c"
  shows "sorted_wrt (\<lambda>h k. h_end h < h_start k) hs \<and> (\<forall>h \<in> set hs. h_start h < h_end h \<and> h_end h \<le> length ops) \<and>
    (\<forall>i < length ops. op_kind (ops ! i) \<noteq> diffEqual \<longrightarrow> covered hs i)"
  using groupHunks_ok(1) [of ops c] groupHunks_ok(2) [of _ ops c] assms by (simp add: hunks_ok_def)

theorem hunks_partition_changes_witness:
  "covered (groupHunks [op_equal (dline ''a'') (dline ''a''), op_delete (dline ''b'')] 0) 1"
  using hunks_partition_changes [OF refl, of "[op_equal (dline ''a'') (dline ''a''), op_delete (dline ''b'')]" 0]
  by (simp add: op_delete_def)

end
