(* ===== verification/Path_Glob.thy ===== *)
theory Path_Glob
  imports Go_Utf8
begin

text \<open>
  \<open>MatchString\<close> of \<open>internal/pathglob\<close>: a greedy matcher with one backtracking point for patterns of
  literals, \<open>?\<close>, \<open>*\<close> and backslash escapes over runes. It is proved equivalent to the declarative meaning
  of a pattern. The path matcher of the same package is in \<open>Path_Rules\<close>.
\<close>

abbreviation rune_backslash :: nat where "rune_backslash \<equiv> 0x5C"
abbreviation rune_question :: nat where "rune_question \<equiv> 0x3F"
abbreviation rune_star :: nat where "rune_star \<equiv> 0x2A"

record stringMatchState =
  st_pattern :: "nat list"
  st_value :: "nat list"
  patternIndex :: nat
  valueIndex :: nat
  star :: int
  retry :: nat

definition consume_step :: "nat \<Rightarrow> stringMatchState \<Rightarrow> stringMatchState" where
  "consume_step patternStep st =
     st\<lparr>patternIndex := patternIndex st + patternStep, valueIndex := valueIndex st + 1\<rparr>"

definition advanceEscaped :: "stringMatchState \<Rightarrow> stringMatchState option" where
  "advanceEscaped st =
     (let (literal, step) = (if patternIndex st + 1 < length (st_pattern st)
                             then (st_pattern st ! (patternIndex st + 1), 2) else (rune_backslash, 1))
      in if literal \<noteq> st_value st ! valueIndex st then None else Some (consume_step step st))"

text \<open>\<open>advance\<close>: \<open>None\<close> for \<open>false\<close>, else the changed state.\<close>

definition advance :: "stringMatchState \<Rightarrow> stringMatchState option" where
  "advance st =
     (if patternIndex st \<ge> length (st_pattern st) then None
      else let r = st_pattern st ! patternIndex st
      in if r = rune_backslash then advanceEscaped st
         else if r = rune_question then Some (consume_step 1 st)
         else if r = rune_star
           then Some (st\<lparr>star := int (patternIndex st), patternIndex := patternIndex st + 1, retry := valueIndex st\<rparr>)
         else if r \<noteq> st_value st ! valueIndex st then None
         else Some (consume_step 1 st))"

definition retryStar :: "stringMatchState \<Rightarrow> stringMatchState option" where
  "retryStar st =
     (if star st < 0 then None
      else Some (st\<lparr>patternIndex := nat (star st) + 1, retry := retry st + 1, valueIndex := retry st + 1\<rparr>))"

fun skip_stars :: "nat list \<Rightarrow> bool" where
  "skip_stars [] = True"
| "skip_stars (r # p) = (if r = rune_star then skip_stars p else False)"

text \<open>
  The loop of \<open>MatchString\<close>. It terminates because a new star lies to the right of the one before, a retry
  moves the retry position, and everything else consumes a rune of the value.
\<close>

lemma advance_measure:
  assumes "advance st = Some st'" "valueIndex st < length (st_value st)"
  shows "st_value st' = st_value st \<and> st_pattern st' = st_pattern st"
    "(st', st) \<in> measures [\<lambda>s. if star s \<ge> int (patternIndex s) then 1 else 0,
      \<lambda>s. nat (int (length (st_pattern s)) - star s), \<lambda>s. length (st_value s) - retry s,
      \<lambda>s. length (st_value s) - valueIndex s]"
  using assms
  by (auto simp: advance_def advanceEscaped_def consume_step_def Let_def split: if_splits)

lemma retryStar_measure:
  assumes "retryStar st = Some st'" "valueIndex st < length (st_value st)"
  shows "st_value st' = st_value st \<and> st_pattern st' = st_pattern st"
    "(st', st) \<in> measures [\<lambda>s. if star s \<ge> int (patternIndex s) then 1 else 0,
      \<lambda>s. nat (int (length (st_pattern s)) - star s), \<lambda>s. length (st_value s) - retry s,
      \<lambda>s. length (st_value s) - valueIndex s]"
  using assms by (auto simp: retryStar_def split: if_splits)

function match_loop :: "stringMatchState \<Rightarrow> bool" where
  "match_loop st =
     (if valueIndex st < length (st_value st)
      then (case advance st of
              Some st' \<Rightarrow> match_loop st'
            | None \<Rightarrow> (case retryStar st of Some st' \<Rightarrow> match_loop st' | None \<Rightarrow> False))
      else skip_stars (drop (patternIndex st) (st_pattern st)))"
  by pat_completeness auto
termination
  by (relation "measures [\<lambda>s. if star s \<ge> int (patternIndex s) then 1 else 0,
      \<lambda>s. nat (int (length (st_pattern s)) - star s), \<lambda>s. length (st_value s) - retry s,
      \<lambda>s. length (st_value s) - valueIndex s]")
    (simp, rule retryStar_measure(2), assumption+, rule advance_measure(2), assumption+)

declare match_loop.simps [simp del]

definition match_runes :: "nat list \<Rightarrow> nat list \<Rightarrow> bool" where
  "match_runes p v =
     match_loop \<lparr>st_pattern = p, st_value = v, patternIndex = 0, valueIndex = 0, star = -1, retry = 0\<rparr>"

definition MatchString :: "go_string \<Rightarrow> go_string \<Rightarrow> bool" where
  "MatchString pattern value = match_runes (runes pattern) (runes value)"

section \<open>The meaning of a pattern\<close>

datatype glob_token = GLit nat | GAny | GStar

fun tokens :: "nat list \<Rightarrow> glob_token list" where
  "tokens [] = []"
| "tokens [r] = [if r = rune_question then GAny else if r = rune_star then GStar else GLit r]"
| "tokens (r # s # p) =
     (if r = rune_backslash then GLit s # tokens p
      else (if r = rune_question then GAny else if r = rune_star then GStar else GLit r) # tokens (s # p))"

fun glob :: "glob_token list \<Rightarrow> nat list \<Rightarrow> bool" where
  "glob [] v = (v = [])"
| "glob (GLit c # ts) v = (case v of [] \<Rightarrow> False | x # v' \<Rightarrow> x = c \<and> glob ts v')"
| "glob (GAny # ts) v = (case v of [] \<Rightarrow> False | x # v' \<Rightarrow> glob ts v')"
| "glob (GStar # ts) v = (\<exists>i \<le> length v. glob ts (drop i v))"

lemma tokens_drop:
  "i < length p \<Longrightarrow> tokens (drop i p) =
     (if p ! i = rune_backslash \<and> i + 1 < length p then GLit (p ! (i + 1)) # tokens (drop (i + 2) p)
      else (if p ! i = rune_question then GAny else if p ! i = rune_star then GStar else GLit (p ! i)) # tokens (drop (i + 1) p))"
proof -
  assume i: "i < length p"
  show ?thesis
  proof (cases "i + 1 < length p")
    case True
    then have "drop i p = p ! i # p ! (i + 1) # drop (i + 2) p" "drop (i + 1) p = p ! (i + 1) # drop (i + 2) p"
      using i by (simp_all add: Cons_nth_drop_Suc)
    then show ?thesis using True by simp
  next
    case False
    then have "drop i p = [p ! i]" "drop (i + 1) p = []" using i by (simp_all add: Cons_nth_drop_Suc [symmetric])
    then show ?thesis using False by simp
  qed
qed

lemma glob_fixed: "GStar \<notin> set lits \<Longrightarrow> glob (lits @ ts) v \<Longrightarrow> length lits \<le> length v \<and> glob ts (drop (length lits) v)"
proof (induction lits arbitrary: v)
  case (Cons l lits)
  then show ?case by (cases l; cases v) auto
qed simp

lemma glob_star_absorb: "glob (GStar # ts) (drop a v) \<Longrightarrow> b \<le> a \<Longrightarrow> a \<le> length v \<Longrightarrow> glob (GStar # ts) (drop b v)"
proof -
  assume "glob (GStar # ts) (drop a v)" "b \<le> a" "a \<le> length v"
  then obtain i where "i \<le> length v - a" "glob ts (drop (a - b + i) (drop b v))" by (auto simp: add.commute)
  then show ?thesis using \<open>b \<le> a\<close> \<open>a \<le> length v\<close> by (auto intro!: exI [of _ "a - b + i"])
qed

lemma glob_star_iff:
  assumes "i \<le> length v"
  shows "glob (GStar # ts) (drop i v) \<longleftrightarrow> (\<exists>j. i \<le> j \<and> j \<le> length v \<and> glob ts (drop j v))"
proof
  assume "glob (GStar # ts) (drop i v)"
  then obtain k where "k \<le> length v - i" "glob ts (drop (i + k) v)" by (auto simp: add.commute)
  then show "\<exists>j. i \<le> j \<and> j \<le> length v \<and> glob ts (drop j v)" using assms by (intro exI [of _ "i + k"]) auto
next
  assume "\<exists>j. i \<le> j \<and> j \<le> length v \<and> glob ts (drop j v)"
  then obtain j where "i \<le> j" "j \<le> length v" "glob ts (drop j v)" by blast
  then show "glob (GStar # ts) (drop i v)" by (auto intro!: exI [of _ "j - i"])
qed

lemma skip_stars_glob: "skip_stars p \<longleftrightarrow> glob (tokens p) []"
  by (induction p rule: tokens.induct) auto

section \<open>The loop computes the meaning\<close>

definition rest_tokens :: "stringMatchState \<Rightarrow> nat \<Rightarrow> glob_token list" where
  "rest_tokens st i = tokens (drop i (st_pattern st))"

text \<open>What the loop still has to decide: the pattern from here on, or the saved star with more runes.\<close>

definition undecided :: "stringMatchState \<Rightarrow> bool" where
  "undecided st \<longleftrightarrow> glob (rest_tokens st (patternIndex st)) (drop (valueIndex st) (st_value st)) \<or>
     (0 \<le> star st \<and> (\<exists>j. retry st < j \<and> j \<le> length (st_value st) \<and>
        glob (rest_tokens st (nat (star st) + 1)) (drop j (st_value st))))"

text \<open>Between the saved star and the pattern position lie only tokens of width one.\<close>

definition match_inv :: "stringMatchState \<Rightarrow> bool" where
  "match_inv st \<longleftrightarrow> valueIndex st \<le> length (st_value st) \<and>
     (0 \<le> star st \<longrightarrow> (\<exists>lits. GStar \<notin> set lits \<and> retry st + length lits = valueIndex st \<and>
        rest_tokens st (nat (star st) + 1) = lits @ rest_tokens st (patternIndex st)))"

lemma inv_extend:
  assumes "match_inv st" "valueIndex st < length (st_value st)" "t \<noteq> GStar"
    "rest_tokens st (patternIndex st) = t # rest_tokens st (patternIndex st + k)"
  shows "match_inv (consume_step k st)"
proof -
  have r: "rest_tokens (consume_step k st) = rest_tokens st" by (simp add: fun_eq_iff rest_tokens_def consume_step_def)
  have "\<exists>lits. GStar \<notin> set lits \<and> retry st + length lits = valueIndex st + 1 \<and>
      rest_tokens st (nat (star st) + 1) = lits @ rest_tokens st (patternIndex st + k)" if s: "0 \<le> star st"
  proof -
    obtain lits where "GStar \<notin> set lits" "retry st + length lits = valueIndex st"
      "rest_tokens st (nat (star st) + 1) = lits @ rest_tokens st (patternIndex st)"
      using assms(1) s by (auto simp: match_inv_def)
    then show ?thesis using assms(3,4) by (intro exI [of _ "lits @ [t]"]) auto
  qed
  then show ?thesis using assms(2) by (simp add: match_inv_def r) (simp add: consume_step_def)
qed

lemma undecided_consume:
  assumes "rest_tokens st (patternIndex st) = t # rest_tokens st (patternIndex st + k)"
    "t = GAny \<or> t = GLit (st_value st ! valueIndex st)" "valueIndex st < length (st_value st)"
  shows "undecided (consume_step k st) = undecided st"
proof -
  have r: "rest_tokens (consume_step k st) = rest_tokens st" by (simp add: fun_eq_iff rest_tokens_def consume_step_def)
  have d: "drop (valueIndex st) (st_value st) = st_value st ! valueIndex st # drop (valueIndex st + 1) (st_value st)"
    using assms(3) by (simp add: Cons_nth_drop_Suc)
  show ?thesis using assms(1,2) by (auto simp: undecided_def r d) (auto simp: consume_step_def)
qed

lemma advance_Some:
  assumes a: "advance st = Some st'" and v: "valueIndex st < length (st_value st)" and i: "match_inv st"
  shows "match_inv st' \<and> undecided st' = undecided st"
proof -
  let ?r = "st_pattern st ! patternIndex st" and ?x = "st_value st ! valueIndex st"
  have p: "patternIndex st < length (st_pattern st)" using a by (auto simp: advance_def split: if_splits)
  note t = tokens_drop [OF p, folded rest_tokens_def]
  consider (esc) "?r = rune_backslash" "patternIndex st + 1 < length (st_pattern st)"
      "st_pattern st ! (patternIndex st + 1) = ?x" "st' = consume_step 2 st"
    | (lit) "?r \<noteq> rune_question" "?r \<noteq> rune_star" "\<not> (?r = rune_backslash \<and> patternIndex st + 1 < length (st_pattern st))"
      "?r = ?x" "st' = consume_step 1 st"
    | (any) "?r = rune_question" "st' = consume_step 1 st"
    | (new_star) "?r = rune_star" "st' = st\<lparr>star := int (patternIndex st), patternIndex := patternIndex st + 1, retry := valueIndex st\<rparr>"
    using a p by (auto simp: advance_def advanceEscaped_def Let_def split: if_splits)
  then show ?thesis
  proof cases
    case esc
    then show ?thesis using t inv_extend [OF i v] undecided_consume [OF _ _ v] by auto
  next
    case lit
    then show ?thesis using t inv_extend [OF i v, of "GLit ?r" 1] undecided_consume [OF _ _ v, of "GLit ?r" 1] by auto
  next
    case any
    then show ?thesis using t inv_extend [OF i v, of GAny 1] undecided_consume [OF _ _ v, of GAny 1] by auto
  next
    case new_star
    let ?ts = "rest_tokens st (patternIndex st + 1)"
    have ts: "rest_tokens st (patternIndex st) = GStar # ?ts" using t new_star(1) by simp
    have inv: "match_inv st'" using v by (simp add: new_star(2) match_inv_def rest_tokens_def)
    have "undecided st' \<longleftrightarrow> glob (GStar # ?ts) (drop (valueIndex st) (st_value st))"
    proof -
      have "undecided st' \<longleftrightarrow> glob ?ts (drop (valueIndex st) (st_value st)) \<or>
          (\<exists>j. valueIndex st < j \<and> j \<le> length (st_value st) \<and> glob ?ts (drop j (st_value st)))"
        by (simp add: undecided_def new_star(2) rest_tokens_def)
      also have "\<dots> \<longleftrightarrow> (\<exists>j. valueIndex st \<le> j \<and> j \<le> length (st_value st) \<and> glob ?ts (drop j (st_value st)))"
        using v by (metis le_eq_less_or_eq)
      also have "\<dots> \<longleftrightarrow> glob (GStar # ?ts) (drop (valueIndex st) (st_value st))"
        using v by (simp add: glob_star_iff [of "valueIndex st"] del: glob.simps)
      finally show ?thesis .
    qed
    moreover have "undecided st \<longleftrightarrow> glob (GStar # ?ts) (drop (valueIndex st) (st_value st))"
    proof -
      have "glob (GStar # ?ts) (drop (valueIndex st) (st_value st))"
        if s: "0 \<le> star st" "retry st < j" "j \<le> length (st_value st)"
          "glob (rest_tokens st (nat (star st) + 1)) (drop j (st_value st))" for j
      proof -
        obtain lits where l: "GStar \<notin> set lits" "retry st + length lits = valueIndex st"
          "rest_tokens st (nat (star st) + 1) = lits @ GStar # ?ts"
          using i s(1) ts by (auto simp: match_inv_def)
        from glob_fixed [OF l(1) s(4) [unfolded l(3)]]
        have f: "length lits \<le> length (st_value st) - j" "glob (GStar # ?ts) (drop (j + length lits) (st_value st))"
          by (simp_all add: add.commute del: glob.simps)
        show ?thesis by (rule glob_star_absorb [OF f(2)]) (use s(2,3) l(2) f(1) in linarith)+
      qed
      then show ?thesis by (auto simp: undecided_def ts)
    qed
    ultimately show ?thesis using inv by simp
  qed
qed

lemma advance_None:
  assumes a: "advance st = None" and v: "valueIndex st < length (st_value st)"
  shows "\<not> glob (rest_tokens st (patternIndex st)) (drop (valueIndex st) (st_value st))"
proof -
  let ?r = "st_pattern st ! patternIndex st" and ?x = "st_value st ! valueIndex st"
  have d: "drop (valueIndex st) (st_value st) = ?x # drop (valueIndex st + 1) (st_value st)"
    using v by (simp add: Cons_nth_drop_Suc)
  show ?thesis
  proof (cases "patternIndex st < length (st_pattern st)")
    case True
    note t = tokens_drop [OF True, folded rest_tokens_def]
    show ?thesis using a True d t
      by (auto simp: advance_def advanceEscaped_def Let_def split: if_splits)
  next
    case False
    then show ?thesis using v by (simp add: rest_tokens_def)
  qed
qed

lemma retry_step:
  assumes "retryStar st = Some st'" "valueIndex st < length (st_value st)" "match_inv st"
    "\<not> glob (rest_tokens st (patternIndex st)) (drop (valueIndex st) (st_value st))"
  shows "match_inv st' \<and> undecided st' = undecided st"
proof -
  have s: "0 \<le> star st" and st': "st' = st\<lparr>patternIndex := nat (star st) + 1, retry := retry st + 1, valueIndex := retry st + 1\<rparr>"
    using assms(1) by (auto simp: retryStar_def split: if_splits)
  have r: "rest_tokens st' = rest_tokens st" by (simp add: fun_eq_iff rest_tokens_def st')
  obtain lits :: "glob_token list" where "retry st + length lits = valueIndex st" using assms(3) s by (auto simp: match_inv_def)
  then have le: "retry st + 1 \<le> length (st_value st)" using assms(2) by simp
  have "match_inv st'" using le by (simp add: match_inv_def r) (simp add: st')
  moreover have "undecided st' = undecided st"
    using s le assms(4) by (simp add: undecided_def r) (simp add: st', metis Suc_leI le_eq_less_or_eq lessI less_trans)
  ultimately show ?thesis ..
qed

lemma loop_end:
  assumes "\<not> valueIndex st < length (st_value st)" "match_inv st"
  shows "undecided st = skip_stars (drop (patternIndex st) (st_pattern st))"
proof -
  have v: "valueIndex st = length (st_value st)" using assms by (simp add: match_inv_def)
  have "\<not> glob (rest_tokens st (nat (star st) + 1)) (drop j (st_value st))"
    if s: "0 \<le> star st" "retry st < j" "j \<le> length (st_value st)" for j
  proof
    assume g: "glob (rest_tokens st (nat (star st) + 1)) (drop j (st_value st))"
    obtain lits where l: "GStar \<notin> set lits" "retry st + length lits = valueIndex st"
      "rest_tokens st (nat (star st) + 1) = lits @ rest_tokens st (patternIndex st)"
      using assms(2) s(1) by (auto simp: match_inv_def)
    from glob_fixed [OF l(1) g [unfolded l(3)]] have "length lits \<le> length (st_value st) - j" by simp
    with l(2) s v show False by linarith
  qed
  then show ?thesis using v by (auto simp: undecided_def skip_stars_glob rest_tokens_def)
qed

lemma match_loop_undecided: "match_inv st \<Longrightarrow> match_loop st = undecided st"
proof (induction st rule: match_loop.induct)
  case (1 st)
  show ?case
  proof (cases "valueIndex st < length (st_value st)")
    case v: True
    show ?thesis
    proof (cases "advance st")
      case (Some st')
      from advance_Some [OF Some v "1.prems"] "1.IH"(2) [OF v Some] show ?thesis
        by (simp add: match_loop.simps [of st] v Some)
    next
      case None
      note g = advance_None [OF None v]
      show ?thesis
      proof (cases "retryStar st")
        case (Some st')
        from retry_step [OF Some v "1.prems" g] "1.IH"(1) [OF v None Some] show ?thesis
          by (simp add: match_loop.simps [of st] v None Some)
      next
        case n: None
        then have "star st < 0" by (simp add: retryStar_def split: if_splits)
        with g show ?thesis by (simp add: match_loop.simps [of st] v None n undecided_def)
      qed
    qed
  next
    case False
    with loop_end [OF False "1.prems"] show ?thesis by (simp add: match_loop.simps [of st])
  qed
qed

lemma match_runes_glob: "match_runes p v = glob (tokens p) v"
proof -
  let ?st = "\<lparr>st_pattern = p, st_value = v, patternIndex = 0, valueIndex = 0, star = -1, retry = 0\<rparr>"
  have "match_loop ?st = undecided ?st" by (rule match_loop_undecided) (simp add: match_inv_def)
  then show ?thesis by (simp add: match_runes_def undecided_def rest_tokens_def)
qed

lemma MatchString_glob: "MatchString pattern value = glob (tokens (runes pattern)) (runes value)"
  by (simp add: MatchString_def match_runes_glob)

text \<open>C8: The greedy matcher with a single backtracking point decides exactly the meaning of the pattern: each
  \<open>*\<close> stands for some run of runes, \<open>?\<close> for one rune, an escape for the rune behind it.\<close>

theorem match_string_correct: "MatchString pattern value \<longleftrightarrow> glob (tokens (runes pattern)) (runes value)"
  by (rule MatchString_glob)

end
