(* ===== verification/Syntax_Arguments.thy ===== *)
theory Syntax_Arguments
  imports Go_Utf8
begin

text \<open>
  Invocation arguments and their substitution, \<open>arguments.go\<close> and \<open>substitution.go\<close> of
  \<open>internal/syntax\<close>: the shell-like scanner, named and positional arguments, and the single-pass bounded
  expansion of \<open>$ARGUMENTS\<close>, positional and \<open>${...}\<close> tokens.
\<close>

section \<open>arguments.go\<close>

record arguments =
  Raw :: go_string
  Declared :: "go_string list"
  Positionals :: "go_string list"
  Named :: "(go_string \<times> go_string) list"

datatype argument_error =
    ErrInvalidDeclared go_string
  | ErrDuplicateDeclared go_string
  | ErrEndsWithEscape
  | ErrUnterminatedQuote
  | ErrDuplicateNamed go_string

record argumentScanner =
  sc_tokens :: "go_string list"
  sc_token :: go_string
  started :: bool
  quote :: "nat option"
  escaped :: bool

abbreviation rune_quote :: nat where "rune_quote \<equiv> 0x27"
abbreviation rune_dquote :: nat where "rune_dquote \<equiv> 0x22"
abbreviation rune_bslash :: nat where "rune_bslash \<equiv> 0x5C"

definition sc_write :: "nat \<Rightarrow> argumentScanner \<Rightarrow> argumentScanner" where
  "sc_write r s = s\<lparr>sc_token := sc_token s @ encode_rune r, started := True\<rparr>"

definition sc_flush :: "argumentScanner \<Rightarrow> argumentScanner" where
  "sc_flush s = (if \<not> started s then s else s\<lparr>sc_tokens := sc_tokens s @ [sc_token s], sc_token := [], started := False\<rparr>)"

definition consumeQuoted :: "nat \<Rightarrow> argumentScanner \<Rightarrow> argumentScanner" where
  "consumeQuoted r s = (if quote s = Some r then s\<lparr>quote := None, started := True\<rparr> else sc_write r s)"

definition sc_consume :: "argumentScanner \<Rightarrow> nat \<Rightarrow> argumentScanner" where
  "sc_consume s r =
     (if escaped s then (sc_write r s)\<lparr>escaped := False\<rparr>
      else if r = rune_bslash \<and> quote s \<noteq> Some rune_quote then s\<lparr>escaped := True, started := True\<rparr>
      else if quote s \<noteq> None then consumeQuoted r s
      else if r = rune_quote \<or> r = rune_dquote then s\<lparr>quote := Some r, started := True\<rparr>
      else if is_space r then sc_flush s
      else sc_write r s)"

definition empty_scanner :: argumentScanner where
  "empty_scanner = \<lparr>sc_tokens = [], sc_token = [], started = False, quote = None, escaped = False\<rparr>"

definition splitArguments :: "go_string \<Rightarrow> argument_error + go_string list" where
  "splitArguments source =
     (let s = foldl sc_consume empty_scanner (runes source)
      in if escaped s then Inl ErrEndsWithEscape
         else if quote s \<noteq> None then Inl ErrUnterminatedQuote
         else Inr (sc_tokens (sc_flush s)))"

definition name_rune :: "bool \<Rightarrow> nat \<Rightarrow> bool" where
  "name_rune first r \<longleftrightarrow> 97 \<le> r \<and> r \<le> 122 \<or> 65 \<le> r \<and> r \<le> 90 \<or> r = 95 \<or> \<not> first \<and> 48 \<le> r \<and> r \<le> 57"

definition validArgumentName :: "go_string \<Rightarrow> bool" where
  "validArgumentName v = (case runes v of [] \<Rightarrow> False | r # rs \<Rightarrow> name_rune True r \<and> list_all (name_rune False) rs)"

fun check_declared :: "go_string list \<Rightarrow> go_string list \<Rightarrow> argument_error option" where
  "check_declared seen [] = None"
| "check_declared seen (n # ns) =
     (if \<not> validArgumentName n then Some (ErrInvalidDeclared n)
      else if n \<in> set seen then Some (ErrDuplicateDeclared n)
      else check_declared (n # seen) ns)"

text \<open>\<open>strings.Cut(token, "=")\<close>.\<close>

definition cut_equals :: "go_string \<Rightarrow> (go_string \<times> go_string) option" where
  "cut_equals t = (case index_byte t (CHR ''='') of None \<Rightarrow> None | Some i \<Rightarrow> Some (take i t, drop (i + 1) t))"

fun classify :: "go_string list \<Rightarrow> go_string list \<Rightarrow> arguments \<Rightarrow> go_string list \<Rightarrow> argument_error + arguments" where
  "classify declared seen a [] = Inr a"
| "classify declared seen a (t # ts) =
     (case cut_equals t of
        Some (n, v) \<Rightarrow>
          if n \<in> set declared
          then if n \<in> set seen then Inl (ErrDuplicateNamed n)
               else classify declared (n # seen) (a\<lparr>Named := Named a @ [(n, v)]\<rparr>) ts
          else classify declared seen (a\<lparr>Positionals := Positionals a @ [t]\<rparr>) ts
      | None \<Rightarrow> classify declared seen (a\<lparr>Positionals := Positionals a @ [t]\<rparr>) ts)"

definition ParseArguments :: "go_string \<Rightarrow> go_string list \<Rightarrow> argument_error + arguments" where
  "ParseArguments source declared =
     (case check_declared [] declared of
        Some e \<Rightarrow> Inl e
      | None \<Rightarrow>
          (case splitArguments source of
             Inl e \<Rightarrow> Inl e
           | Inr ts \<Rightarrow>
               classify declared [] \<lparr>Raw = source, Declared = declared, Positionals = [], Named = []\<rparr> ts))"

definition namedValue :: "arguments \<Rightarrow> go_string \<Rightarrow> go_string option" where
  "namedValue a n = map_of (Named a) n"

definition is_declared :: "arguments \<Rightarrow> go_string \<Rightarrow> bool" where
  "is_declared a n \<longleftrightarrow> n \<in> set (Declared a)"

section \<open>substitution.go\<close>

record variables =
  v_SessionID :: go_string
  v_SkillDir :: go_string
  v_ProjectDir :: go_string
  v_PluginRoot :: go_string
  v_PluginData :: go_string
  v_Effort :: go_string

record substitutions =
  s_Arguments :: arguments
  s_Variables :: variables

datatype sub_warning = WarnMissingArgument nat | WarnUnresolvedVariable nat

datatype substitutionKind = substitutionNone | substitutionArguments | substitutionPositional | substitutionNamed

definition allArgumentsToken :: go_string where "allArgumentsToken = ''$ARGUMENTS''"

definition is_digit :: "char \<Rightarrow> bool" where
  "is_digit c \<longleftrightarrow> 48 \<le> byte c \<and> byte c \<le> 57"

definition isVariableCharacter :: "char \<Rightarrow> bool" where
  "isVariableCharacter c \<longleftrightarrow> 97 \<le> byte c \<and> byte c \<le> 122 \<or> 65 \<le> byte c \<and> byte c \<le> 90 \<or> is_digit c \<or> c = CHR ''_''"

definition validVariableName :: "go_string \<Rightarrow> bool" where
  "validVariableName v \<longleftrightarrow> v \<noteq> [] \<and> list_all isVariableCharacter v"

text \<open>The rest of the source from the token on; the end is relative to it.\<close>

definition tokenBoundary :: "go_string \<Rightarrow> nat \<Rightarrow> bool" where
  "tokenBoundary rest i \<longleftrightarrow> length rest \<le> i \<or> \<not> isVariableCharacter (rest ! i)"

definition substitutionToken :: "go_string \<Rightarrow> go_string \<times> nat \<times> substitutionKind" where
  "substitutionToken rest =
     (if prefix allArgumentsToken rest \<and> tokenBoundary rest (length allArgumentsToken)
      then (''ARGUMENTS'', length allArgumentsToken, substitutionArguments)
      else if 1 < length rest \<and> is_digit (rest ! 1)
      then let digits = takeWhile is_digit (drop 1 rest)
           in (digits, 1 + length digits, substitutionPositional)
      else case (if prefix ''${'' rest then index_byte (drop 2 rest) (CHR ''}'') else None) of
             Some close \<Rightarrow>
               let name = take close (drop 2 rest)
               in if validVariableName name then (name, 2 + close + 1, substitutionNamed) else ([], 1, substitutionNone)
           | None \<Rightarrow> ([], 1, substitutionNone))"

definition digits_value :: "go_string \<Rightarrow> nat" where
  "digits_value ds = foldl (\<lambda>n c. n * 10 + (byte c - 48)) 0 ds"

text \<open>\<open>lookup\<close>: the value and whether it was found; an empty value counts as missing.\<close>

definition variable_table :: "variables \<Rightarrow> (go_string \<times> go_string) list" where
  "variable_table v =
     [(''SESSION_ID'', v_SessionID v), (''CLAUDE_SESSION_ID'', v_SessionID v), (''SKILL_DIR'', v_SkillDir v),
      (''PROJECT_DIR'', v_ProjectDir v), (''CLAUDE_PROJECT_DIR'', v_ProjectDir v), (''PLUGIN_ROOT'', v_PluginRoot v),
      (''CLAUDE_PLUGIN_ROOT'', v_PluginRoot v), (''PLUGIN_DATA'', v_PluginData v), (''CLAUDE_PLUGIN_DATA'', v_PluginData v),
      (''EFFORT'', v_Effort v), (''CLAUDE_CODE_EFFORT_LEVEL'', v_Effort v)]"

definition lookup :: "variables \<Rightarrow> go_string \<Rightarrow> go_string \<times> bool" where
  "lookup v n = (case map_of (variable_table v) n of None \<Rightarrow> ([], False) | Some x \<Rightarrow> (x, x \<noteq> []))"

text \<open>\<open>strconv.Atoi\<close> fails for a number over the range of \<open>int\<close>, which is over every position as well.\<close>

definition resolveSubstitution :: "go_string \<Rightarrow> substitutionKind \<Rightarrow> substitutions \<Rightarrow> go_string \<times> bool \<times> bool" where
  "resolveSubstitution name kind vals =
     (case kind of
        substitutionArguments \<Rightarrow> (Raw (s_Arguments vals), True, False)
      | substitutionPositional \<Rightarrow>
          let position = digits_value name; ps = Positionals (s_Arguments vals)
          in if 0 < position \<and> position \<le> length ps then (ps ! (position - 1), True, False) else ([], False, True)
      | substitutionNamed \<Rightarrow>
          (case namedValue (s_Arguments vals) name of
             Some v \<Rightarrow> (v, True, False)
           | None \<Rightarrow> if is_declared (s_Arguments vals) name then ([], False, True)
                     else let (v, found) = lookup (s_Variables vals) name in (v, found, False))
      | substitutionNone \<Rightarrow> ([], False, False))"

text \<open>\<open>boundedSubstitutionOutput.write\<close>; \<open>None\<close> is \<open>ErrSubstitutionLimit\<close>.\<close>

definition bounded_write :: "int \<Rightarrow> go_string \<Rightarrow> go_string \<Rightarrow> go_string option" where
  "bounded_write maximum out v = (if maximum > 0 \<and> slen v > maximum - slen out then None else Some (out @ v))"

text \<open>\<open>expandSubstitution\<close>: the text it writes, the end of the token and whether a warning is due.\<close>

definition expandSubstitution :: "go_string \<Rightarrow> substitutions \<Rightarrow> go_string \<times> nat \<times> (nat \<Rightarrow> sub_warning) option" where
  "expandSubstitution rest vals =
     (let (name, end', kind) = substitutionToken rest
      in if kind = substitutionNone then (take 1 rest, 1, None)
         else let (replacement, found, missing) = resolveSubstitution name kind vals
         in if found then (replacement, end', None)
            else (take end' rest, end', Some (if missing then WarnMissingArgument else WarnUnresolvedVariable)))"

lemma substitutionToken_end: "rest \<noteq> [] \<Longrightarrow> 0 < fst (snd (substitutionToken rest))"
  by (auto simp: substitutionToken_def Let_def allArgumentsToken_def split: option.splits)

lemma expand_end: "rest \<noteq> [] \<Longrightarrow> (t, e, w) = expandSubstitution rest vals \<Longrightarrow> length rest - e < length rest"
  using substitutionToken_end [of rest]
  by (auto simp: expandSubstitution_def Let_def split: prod.splits if_splits)

lemma expand_end_pair: "rest \<noteq> [] \<Longrightarrow> (t, y) = expandSubstitution rest vals \<Longrightarrow> (e, w) = y \<Longrightarrow> length rest - e < length rest"
  using expand_end [of rest t e w vals] by simp

text \<open>The loop of \<open>SubstituteBounded\<close> from \<open>rest\<close> on, with the current line, the warnings and the output.\<close>

function sub_loop ::
  "int \<Rightarrow> substitutions \<Rightarrow> nat \<Rightarrow> sub_warning list \<Rightarrow> go_string \<Rightarrow> go_string \<Rightarrow> sub_warning list \<times> go_string option" where
  "sub_loop maximum vals line warnings out rest =
     (if rest = [] then (warnings, Some out)
      else if hd rest \<noteq> CHR ''$''
      then case bounded_write maximum out (take 1 rest) of
             None \<Rightarrow> (warnings, None)
           | Some out' \<Rightarrow> sub_loop maximum vals (if hd rest = LF then line + 1 else line) warnings out' (tl rest)
      else let (text, end', code) = expandSubstitution rest vals
           in case bounded_write maximum out text of
                None \<Rightarrow> (warnings, None)
              | Some out' \<Rightarrow>
                  sub_loop maximum vals line (warnings @ (case code of None \<Rightarrow> [] | Some c \<Rightarrow> [c line])) out' (drop end' rest))"
  by pat_completeness auto
termination
  by (relation "measure (\<lambda>(_, _, _, _, _, rest). length rest)") (simp_all add: expand_end_pair)

declare sub_loop.simps [simp del]

definition SubstituteBounded :: "go_string \<Rightarrow> substitutions \<Rightarrow> int \<Rightarrow> sub_warning list \<times> go_string option" where
  "SubstituteBounded source vals maximum = sub_loop maximum vals 1 [] [] source"

definition Substitute :: "go_string \<Rightarrow> substitutions \<Rightarrow> go_string \<times> sub_warning list" where
  "Substitute source vals =
     (let (ws, out) = SubstituteBounded source vals 0 in (case out of None \<Rightarrow> [] | Some o' \<Rightarrow> o', ws))"

section \<open>Splitting\<close>

lemma runes_Nil [simp]: "runes [] = []"
  by (simp add: runes_def)

text \<open>Evaluation of the scanner on ASCII sources.\<close>

lemmas scanner_eval = splitArguments_def empty_scanner_def runes_ascii byte_def sc_consume_def sc_write_def sc_flush_def
  consumeQuoted_def is_space_def encode_rune_def valid_rune_def byte_char_def char_of_def bit_iff_odd

lemma cut_equals_Some: "cut_equals t = Some (n, v) \<Longrightarrow> t = n @ ''='' @ v \<and> CHR ''='' \<notin> set n"
  using index_byte_Some [of t "CHR ''=''"]
  by (auto simp: cut_equals_def split: option.splits) (metis id_take_nth_drop)

definition names_declared :: "go_string list \<Rightarrow> go_string \<Rightarrow> bool" where
  "names_declared declared t \<longleftrightarrow> (\<exists>n v. cut_equals t = Some (n, v) \<and> n \<in> set declared)"

lemma classify_partition:
  "classify declared seen a ts = Inr b \<Longrightarrow> distinct (map fst (Named a)) \<Longrightarrow> set (map fst (Named a)) = set seen \<Longrightarrow>
   set seen \<subseteq> set declared \<Longrightarrow>
   distinct (map fst (Named b)) \<and> set (map fst (Named b)) \<subseteq> set declared \<and> Raw b = Raw a \<and> Declared b = Declared a \<and>
   Positionals b = Positionals a @ filter (\<lambda>t. \<not> names_declared declared t) ts \<and>
   map (\<lambda>(n, v). n @ ''='' @ v) (Named b) = map (\<lambda>(n, v). n @ ''='' @ v) (Named a) @ filter (names_declared declared) ts"
proof (induction declared seen a ts rule: classify.induct)
  case (2 declared seen a t ts)
  show ?case
  proof (cases "cut_equals t")
    case None
    with 2 show ?thesis by (simp add: names_declared_def)
  next
    case (Some nv)
    obtain n v where nv: "nv = (n, v)" by fastforce
    with Some have c: "cut_equals t = Some (n, v)" by simp
    show ?thesis
    proof (cases "n \<in> set declared")
      case True
      with "2.prems"(1) c have f: "n \<notin> set seen" by (auto split: if_splits)
      have "names_declared declared t" using c True by (simp add: names_declared_def)
      moreover have "classify declared (n # seen) (a\<lparr>Named := Named a @ [(n, v)]\<rparr>) ts = Inr b"
        using "2.prems"(1) c True f by simp
      moreover have "n \<notin> fst ` set (Named a)" using f "2.prems"(3) by simp
      ultimately show ?thesis
        using "2.IH"(2) [OF c refl True f] "2.prems"(2-4) True cut_equals_Some [OF c, THEN conjunct1, symmetric] by simp
    next
      case False
      then have "\<not> names_declared declared t" using c by (simp add: names_declared_def)
      with "2.IH"(3) [OF c refl False] "2.prems" c False show ?thesis by simp
    qed
  qed
qed auto

text \<open>Parsed arguments are the tokens of the source: each token that assigns to a declared name is a named
  argument, every other token is positional, both in source order; no name is assigned twice and none is
  undeclared.\<close>

theorem parse_arguments_partition:
  assumes "ParseArguments source declared = Inr a"
  shows "Raw a = source \<and> Declared a = declared \<and> distinct (map fst (Named a)) \<and> set (map fst (Named a)) \<subseteq> set declared \<and>
    (\<exists>ts. splitArguments source = Inr ts \<and> Positionals a = filter (\<lambda>t. \<not> names_declared declared t) ts \<and>
       map (\<lambda>(n, v). n @ ''='' @ v) (Named a) = filter (names_declared declared) ts)"
proof -
  obtain ts where "splitArguments source = Inr ts"
    "classify declared [] \<lparr>Raw = source, Declared = declared, Positionals = [], Named = []\<rparr> ts = Inr a"
    using assms by (auto simp: ParseArguments_def split: option.splits sum.splits)
  with classify_partition [OF this(2)] show ?thesis by auto
qed

theorem parse_arguments_partition_witness:
  "\<exists>a. ParseArguments ''x name=v y'' [''name''] = Inr a \<and> distinct (map fst (Named a))"
proof -
  have "splitArguments ''x name=v y'' = Inr [''x'', ''name=v'', ''y'']" by (simp add: scanner_eval Let_def)
  moreover have "validArgumentName ''name''" by (simp add: validArgumentName_def name_rune_def runes_ascii byte_def)
  ultimately obtain a where a: "ParseArguments ''x name=v y'' [''name''] = Inr a"
    by (auto simp: ParseArguments_def cut_equals_def)
  with parse_arguments_partition [OF a] show ?thesis by blast
qed

section \<open>Quoting\<close>

text \<open>A quoting that any caller can use: two single quotes, then every rune behind a backslash.\<close>

definition quote_runes :: "nat list \<Rightarrow> go_string" where
  "quote_runes rs = [CHR 0x27, CHR 0x27] @ concat (map (\<lambda>r. CHR 0x5C # encode_rune r) rs)"

definition encode_all :: "nat list \<Rightarrow> go_string" where
  "encode_all rs = concat (map encode_rune rs)"

fun join_space :: "go_string list \<Rightarrow> go_string" where
  "join_space [] = []"
| "join_space [t] = t"
| "join_space (t # ts) = t @ CHR '' '' # join_space ts"

lemma runes_escaped: "list_all valid_rune rs \<Longrightarrow>
   runes (concat (map (\<lambda>r. CHR 0x5C # encode_rune r) rs) @ s) = concat (map (\<lambda>r. [rune_bslash, r]) rs) @ runes s"
proof (induction rs)
  case (Cons r rs)
  have "runes (CHR 0x5C # encode_rune r @ t) = rune_bslash # r # runes t" for t
    using Cons.prems by (simp add: runes_ascii runes_encode byte_def)
  with Cons show ?case by simp
qed simp

lemma runes_quote: "list_all valid_rune rs \<Longrightarrow>
   runes (quote_runes rs @ s) = rune_quote # rune_quote # concat (map (\<lambda>r. [rune_bslash, r]) rs) @ runes s"
  by (simp add: quote_runes_def runes_ascii runes_escaped byte_def)

lemma scan_escaped:
  "quote s = None \<Longrightarrow> \<not> escaped s \<Longrightarrow>
   foldl sc_consume s (concat (map (\<lambda>r. [rune_bslash, r]) rs)) =
     s\<lparr>sc_token := sc_token s @ encode_all rs, started := started s \<or> rs \<noteq> []\<rparr>"
proof (induction rs arbitrary: s)
  case (Cons r rs)
  have "sc_consume (sc_consume s rune_bslash) r = s\<lparr>sc_token := sc_token s @ encode_rune r, started := True\<rparr>"
    using Cons.prems by (simp add: sc_consume_def sc_write_def)
  then show ?case using Cons.IH [of "s\<lparr>sc_token := sc_token s @ encode_rune r, started := True\<rparr>"] Cons.prems
    by (simp add: encode_all_def)
qed (simp add: encode_all_def)

lemma scan_quoted:
  "foldl sc_consume \<lparr>sc_tokens = T, sc_token = [], started = False, quote = None, escaped = False\<rparr>
     (rune_quote # rune_quote # concat (map (\<lambda>r. [rune_bslash, r]) rs)) =
   \<lparr>sc_tokens = T, sc_token = encode_all rs, started = True, quote = None, escaped = False\<rparr>"
  by (simp add: sc_consume_def consumeQuoted_def scan_escaped)

lemma scan_joined:
  "list_all (list_all valid_rune) ts \<Longrightarrow>
   (let s = foldl sc_consume \<lparr>sc_tokens = T, sc_token = [], started = False, quote = None, escaped = False\<rparr>
              (runes (join_space (map quote_runes ts)))
    in \<not> escaped s \<and> quote s = None \<and> sc_tokens (sc_flush s) = T @ map encode_all ts)"
proof (induction ts arbitrary: T)
  case (Cons t ts)
  show ?case
  proof (cases ts)
    case Nil
    then show ?thesis using Cons.prems runes_quote [of t "[]"] scan_quoted [of T t]
      by (simp add: Let_def sc_flush_def)
  next
    case (Cons u us)
    have r: "runes (CHR '' '' # s) = 32 # runes s" for s by (simp add: runes_ascii byte_def)
    have sp: "sc_consume \<lparr>sc_tokens = T, sc_token = encode_all t, started = True, quote = None, escaped = False\<rparr> 32 =
      \<lparr>sc_tokens = T @ [encode_all t], sc_token = [], started = False, quote = None, escaped = False\<rparr>"
      by (simp add: sc_consume_def is_space_def sc_flush_def)
    have j: "runes (join_space (map quote_runes (t # ts))) =
      (rune_quote # rune_quote # concat (map (\<lambda>r. [rune_bslash, r]) t)) @ 32 # runes (join_space (map quote_runes ts))"
      using Cons.prems Cons by (simp add: runes_quote r)
    show ?thesis using Cons.IH [of "T @ [encode_all t]"] Cons.prems
      unfolding j foldl_append scan_quoted unfolding foldl.simps(2) sp by (simp add: Let_def)
  qed
qed (simp add: Let_def sc_flush_def)



section \<open>Substitution\<close>

lemma bounded_write_0 [simp]: "bounded_write 0 out v = Some (out @ v)"
  by (simp add: bounded_write_def)

lemma sub_loop_unbounded: "\<exists>ws full. sub_loop 0 vals line warnings out rest = (ws, Some full) \<and> prefix out full"
proof (induction "0 :: int" vals line warnings out rest rule: sub_loop.induct)
  case (1 vals line warnings out rest)
  show ?case
  proof (cases "rest = [] \<or> hd rest \<noteq> CHR ''$''")
    case True
    then show ?thesis
    proof (cases "rest = []")
      case r: False
      with True have d: "hd rest \<noteq> CHR ''$''" by simp
      from "1.hyps"(1) [OF r d bounded_write_0] obtain ws full where
        "sub_loop 0 vals (if hd rest = LF then line + 1 else line) warnings (out @ take 1 rest) (tl rest) = (ws, Some full)"
        "prefix (out @ take 1 rest) full" by blast
      then show ?thesis using r d append_prefixD [of out "take 1 rest" full]
        by (simp add: sub_loop.simps [of 0 vals line warnings out rest])
    qed (simp add: sub_loop.simps)
  next
    case False
    obtain t e w where x: "expandSubstitution rest vals = (t, e, w)" by (cases "expandSubstitution rest vals") auto
    from False "1.hyps"(2) [OF _ _ x [symmetric] refl refl bounded_write_0] show ?thesis
      by (auto simp: sub_loop.simps [of 0 vals line warnings out rest] x dest: append_prefixD)
  qed
qed

lemma sub_loop_bounded:
  "0 < m \<Longrightarrow> slen out \<le> m \<Longrightarrow> sub_loop 0 vals line warnings out rest = (ws, Some full) \<Longrightarrow>
    (if slen full \<le> m then sub_loop m vals line warnings out rest = (ws, Some full)
     else snd (sub_loop m vals line warnings out rest) = None)"
proof (induction m vals line warnings out rest rule: sub_loop.induct)
  case (1 m vals line warnings out rest)
  have over: "slen (out @ v) \<le> slen full" if "sub_loop 0 vals l2 w2 (out @ v) r2 = (ws, Some full)" for v l2 w2 r2
    using sub_loop_unbounded [of vals l2 w2 "out @ v" r2] that prefix_length_le by (fastforce simp: slen_def)
  show ?case
  proof (cases "rest = []")
    case True
    with "1.prems" show ?thesis by (simp add: sub_loop.simps)
  next
    case r: False
    show ?thesis
    proof (cases "hd rest = CHR ''$''")
      case False
      let ?l = "if hd rest = LF then line + 1 else line"
      have z: "sub_loop 0 vals ?l warnings (out @ take 1 rest) (tl rest) = (ws, Some full)"
        using "1.prems"(3) r False by (simp add: sub_loop.simps [of 0 vals line warnings out rest])
      show ?thesis
      proof (cases "bounded_write m out (take 1 rest)")
        case None
        then have "m < slen (out @ take 1 rest)" by (auto simp: bounded_write_def split: if_splits)
        with over [OF z] None r False show ?thesis by (simp add: sub_loop.simps [of m vals line warnings out rest])
      next
        case (Some o2)
        then have o2: "o2 = out @ take 1 rest" "slen o2 \<le> m"
          using "1.prems"(1,2) by (auto simp: bounded_write_def split: if_splits)
        from "1.IH"(1) [OF r False Some "1.prems"(1) o2(2)] z o2(1) Some r False show ?thesis
          by (cases "hd rest = LF"; cases "slen full \<le> m") (simp_all add: sub_loop.simps [of m vals line warnings out rest])
      qed
    next
      case d: True
      then have nd: "\<not> hd rest \<noteq> CHR ''$''" by simp
      obtain t e w where x: "expandSubstitution rest vals = (t, e, w)" by (cases "expandSubstitution rest vals") auto
      let ?w = "warnings @ (case w of None \<Rightarrow> [] | Some c \<Rightarrow> [c line])"
      have z: "sub_loop 0 vals line ?w (out @ t) (drop e rest) = (ws, Some full)"
        using "1.prems"(3) r d x by (simp add: sub_loop.simps [of 0 vals line warnings out rest])
      show ?thesis
      proof (cases "bounded_write m out t")
        case None
        then have "m < slen (out @ t)" by (auto simp: bounded_write_def split: if_splits)
        with over [OF z] None r d x show ?thesis by (simp add: sub_loop.simps [of m vals line warnings out rest])
      next
        case (Some o2)
        then have o2: "o2 = out @ t" "slen o2 \<le> m"
          using "1.prems"(1,2) by (auto simp: bounded_write_def split: if_splits)
        from "1.IH"(2) [OF r nd x [symmetric] refl refl Some "1.prems"(1) o2(2)] z o2(1) Some r d x show ?thesis
          by (cases "slen full \<le> m") (simp_all add: sub_loop.simps [of m vals line warnings out rest])
      qed
    qed
  qed
qed

text \<open>C11: The bounded substitution is the unbounded one with a limit: it returns the same output and warnings
  when the output fits, and the limit error exactly when it does not; it never builds a longer output.\<close>

theorem substitute_bounded_exact:
  assumes "0 < maximum"
  shows "(if slen (fst (Substitute source vals)) \<le> maximum
    then SubstituteBounded source vals maximum = (snd (Substitute source vals), Some (fst (Substitute source vals)))
    else snd (SubstituteBounded source vals maximum) = None)"
proof -
  obtain ws full where f: "sub_loop 0 vals 1 [] [] source = (ws, Some full)" using sub_loop_unbounded by blast
  with sub_loop_bounded [OF assms _ f] assms show ?thesis
    by (simp add: Substitute_def SubstituteBounded_def del: One_nat_def)
qed

definition no_values :: substitutions where
  "no_values = \<lparr>s_Arguments = \<lparr>Raw = ''one two'', Declared = [], Positionals = [''one'', ''two''], Named = []\<rparr>,
     s_Variables = \<lparr>v_SessionID = ''s1'', v_SkillDir = [], v_ProjectDir = [], v_PluginRoot = [], v_PluginData = [], v_Effort = []\<rparr>\<rparr>"

theorem substitute_bounded_exact_witness:
  "snd (SubstituteBounded ''$1 and $2'' no_values 20) = Some ''one and two'' \<and>
   snd (SubstituteBounded ''$1 and $2'' no_values 5) = None"
proof -
  have s: "fst (Substitute ''$1 and $2'' no_values) = ''one and two''" by code_simp
  show ?thesis using substitute_bounded_exact [of 20 "''$1 and $2''" no_values]
      substitute_bounded_exact [of 5 "''$1 and $2''" no_values] unfolding s by simp
qed

end
