(* ===== verification/Syntax_Policy.thy ===== *)
theory Syntax_Policy
  imports Path_Glob Syntax_Arguments
begin

text \<open>
  Tool policies, \<open>toolpolicy.go\<close>, exposure, \<open>exposure.go\<close>, and the per-invocation scopes that carry them,
  \<open>scope.go\<close>, all of \<open>internal/syntax\<close>. A policy is a list of layers; a request must pass every layer, a
  denial in any layer wins.
\<close>

record toolPattern =
  Tool :: go_string
  Argument :: go_string

text \<open>
  \<open>strings.ToLower\<close> as far as a comparison with ASCII names can tell: the upper-case ASCII letters and the
  two other characters whose lower case is an ASCII letter (U+0130 and the Kelvin sign). Every other rune
  maps to a non-ASCII rune, for which the rune itself stands.
\<close>

definition lower_rune :: "nat \<Rightarrow> nat" where
  "lower_rune r = (if 65 \<le> r \<and> r \<le> 90 then r + 32 else if r = 0x130 then 0x69 else if r = 0x212A then 0x6B else r)"

definition to_lower :: "go_string \<Rightarrow> go_string" where
  "to_lower s = concat (map (encode_rune \<circ> lower_rune) (runes s))"

definition canonicalToolName :: "go_string \<Rightarrow> go_string" where
  "canonicalToolName name =
     (let l = to_lower name
      in if l = ''read'' then ''read'' else if l = ''write'' then ''write'' else if l = ''edit'' then ''edit''
         else if l = ''bash'' then ''bash'' else if l = ''grep'' then ''grep''
         else if l = ''glob'' \<or> l = ''find'' then ''find''
         else if l = ''ls'' \<or> l = ''list'' then ''ls'' else name)"

section \<open>Parsing patterns\<close>

definition isToolPatternSpace :: "char \<Rightarrow> bool" where
  "isToolPatternSpace c \<longleftrightarrow> c = CHR '' '' \<or> c = TAB \<or> c = LF \<or> c = CR"

definition tool_rune :: "nat \<Rightarrow> bool" where
  "tool_rune r \<longleftrightarrow> 97 \<le> r \<and> r \<le> 122 \<or> 65 \<le> r \<and> r \<le> 90 \<or> 48 \<le> r \<and> r \<le> 57 \<or> r \<in> {0x5F, 0x2E, 0x2A, 0x3A, 0x2D}"

definition validToolName :: "go_string \<Rightarrow> bool" where
  "validToolName v \<longleftrightarrow> v \<noteq> [] \<and> list_all tool_rune (runes v)"

datatype pattern_error =
  ErrPatternEmpty | ErrPatternInvalid | ErrPatternArgument | ErrPatternTool | ErrPatternNewline | ErrPatternList

abbreviation LPAR :: char where "LPAR \<equiv> CHR ''(''"
abbreviation RPAR :: char where "RPAR \<equiv> CHR '')''"

definition ParseToolPattern :: "go_string \<Rightarrow> pattern_error + toolPattern" where
  "ParseToolPattern source0 =
     (let source = trim_space source0
      in if source = [] then Inl ErrPatternEmpty
         else
           let parsed =
             (case index_byte source LPAR of
                Some open' \<Rightarrow>
                  let arg = drop (open' + 1) (butlast source)
                  in if \<not> suffix [RPAR] source \<or> LPAR \<in> set arg \<or> RPAR \<in> set arg then Inl ErrPatternInvalid
                     else if arg = [] then Inl ErrPatternArgument
                     else Inr \<lparr>Tool = take open' source, Argument = arg\<rparr>
              | None \<Rightarrow> if RPAR \<in> set source then Inl ErrPatternInvalid else Inr \<lparr>Tool = source, Argument = []\<rparr>)
           in case parsed of
                Inl e \<Rightarrow> Inl e
              | Inr pat \<Rightarrow>
                  if \<not> validToolName (Tool pat) then Inl ErrPatternTool
                  else if CR \<in> set (Argument pat) \<or> LF \<in> set (Argument pat) then Inl ErrPatternNewline
                  else Inr pat)"

text \<open>\<open>toolPatternEnd\<close> from an index, with the depth of open parentheses: the pattern and the rest.\<close>

fun pattern_end :: "nat \<Rightarrow> go_string \<Rightarrow> go_string \<times> go_string" where
  "pattern_end depth [] = ([], [])"
| "pattern_end depth (c # s) =
     (let depth = (if c = LPAR then depth + 1 else depth);
          depth = (if c = RPAR \<and> depth > 0 then depth - 1 else depth)
      in if depth = 0 \<and> isToolPatternSpace c then ([], c # s)
         else let (p, rest) = pattern_end depth s in (c # p, rest))"

definition next_depth :: "nat \<Rightarrow> char \<Rightarrow> nat" where
  "next_depth depth c =
     (let depth = (if c = LPAR then depth + 1 else depth)
      in if c = RPAR \<and> depth > 0 then depth - 1 else depth)"

lemma pattern_end_step:
  "pattern_end depth (c # s) =
     (if next_depth depth c = 0 \<and> isToolPatternSpace c then ([], c # s)
      else (c # fst (pattern_end (next_depth depth c) s), snd (pattern_end (next_depth depth c) s)))"
  unfolding pattern_end.simps next_depth_def Let_def by (simp only: case_prod_unfold)

declare pattern_end.simps(2) [simp del]

lemma pattern_end_append: "fst (pattern_end d s) @ snd (pattern_end d s) = s"
  by (induction s arbitrary: d) (simp_all add: pattern_end_step)

lemma pattern_end_shrinks: "\<not> isToolPatternSpace c \<Longrightarrow> (p, rest) = pattern_end 0 (c # s) \<Longrightarrow> length rest < Suc (length s)"
  using arg_cong [OF pattern_end_append [of "next_depth 0 c" s], of length] by (simp add: pattern_end_step)

function splitToolPatterns :: "go_string \<Rightarrow> go_string list" where
  "splitToolPatterns s =
     (case dropWhile isToolPatternSpace s of
        [] \<Rightarrow> []
      | c # s' \<Rightarrow> let (p, rest) = pattern_end 0 (c # s') in p # splitToolPatterns rest)"
  by pat_completeness auto
termination
proof (relation "measure length")
  fix s c s' x p rest
  assume d: "dropWhile isToolPatternSpace s = c # s'" and x: "x = pattern_end 0 (c # s')" "(p, rest) = x"
  have "\<not> isToolPatternSpace c" using hd_dropWhile [of isToolPatternSpace s] d by simp
  moreover have "length (c # s') \<le> length s" using length_dropWhile_le [of isToolPatternSpace s] d by simp
  ultimately show "(rest, s) \<in> measure length" using pattern_end_shrinks [of c p rest s'] x by simp
qed simp

declare splitToolPatterns.simps [simp del]

definition ParseToolPatterns :: "go_string \<Rightarrow> toolPattern list \<times> pattern_error list" where
  "ParseToolPatterns source =
     (let parts = splitToolPatterns source; rs = map ParseToolPattern parts
      in (concat (map (\<lambda>r. case r of Inl _ \<Rightarrow> [] | Inr p \<Rightarrow> [p]) rs),
          concat (map (\<lambda>r. case r of Inl e \<Rightarrow> [e] | Inr _ \<Rightarrow> []) rs) @ (if parts = [] then [ErrPatternList] else [])))"

section \<open>Policies\<close>

record toolPolicyLayer =
  allowed :: "toolPattern list"
  denied :: "toolPattern list"
  restrict :: bool

type_synonym toolPolicy = "toolPolicyLayer list"

definition NewToolPolicy :: "toolPattern list \<Rightarrow> toolPattern list \<Rightarrow> toolPolicy" where
  "NewToolPolicy a d = [\<lparr>allowed = a, denied = d, restrict = (a \<noteq> [])\<rparr>]"

definition NewRestrictedToolPolicy :: "toolPattern list \<Rightarrow> toolPattern list \<Rightarrow> toolPolicy" where
  "NewRestrictedToolPolicy a d = [\<lparr>allowed = a, denied = d, restrict = True\<rparr>]"

definition Intersect :: "toolPolicy \<Rightarrow> toolPolicy \<Rightarrow> toolPolicy" where
  "Intersect p q = p @ q"

text \<open>The name a pattern is matched with: patterns without wildcards are canonicalised like the request.\<close>

definition pattern_tool :: "toolPattern \<Rightarrow> go_string" where
  "pattern_tool p = (if CHR ''*'' \<notin> set (Tool p) \<and> CHR ''?'' \<notin> set (Tool p) then canonicalToolName (Tool p) else Tool p)"

definition argumentPatternMatch :: "go_string \<Rightarrow> go_string \<Rightarrow> bool" where
  "argumentPatternMatch pattern value =
     (if suffix '':*'' pattern
      then let p = trim_suffix pattern '':*'' in value = p \<or> prefix (p @ '' '') value
      else MatchString pattern value)"

definition pattern_matches :: "toolPattern \<Rightarrow> go_string \<Rightarrow> go_string \<Rightarrow> bool" where
  "pattern_matches p tool argument =
     (if \<not> MatchString (pattern_tool p) (canonicalToolName tool) then False
      else Argument p = [] \<or> argumentPatternMatch (Argument p) argument)"

definition layer_denies :: "toolPolicyLayer \<Rightarrow> go_string \<Rightarrow> go_string \<Rightarrow> bool" where
  "layer_denies l tool argument = list_ex (\<lambda>p. pattern_matches p tool argument) (denied l)"

definition layer_allows :: "toolPolicyLayer \<Rightarrow> go_string \<Rightarrow> go_string \<Rightarrow> bool" where
  "layer_allows l tool argument = list_ex (\<lambda>p. pattern_matches p tool argument) (allowed l)"

definition Allows :: "toolPolicy \<Rightarrow> go_string \<Rightarrow> go_string \<Rightarrow> bool" where
  "Allows p tool argument =
     (if list_ex (\<lambda>l. layer_denies l tool argument) p then False
      else list_all (\<lambda>l. \<not> (restrict l \<and> \<not> layer_allows l tool argument)) p)"

definition layer_hides :: "toolPolicyLayer \<Rightarrow> go_string \<Rightarrow> bool" where
  "layer_hides l tool = list_ex (\<lambda>p. Argument p = [] \<and> pattern_matches p tool []) (denied l)"

definition layer_shows :: "toolPolicyLayer \<Rightarrow> go_string \<Rightarrow> bool" where
  "layer_shows l tool = list_ex (\<lambda>p. MatchString (pattern_tool p) tool) (allowed l)"

definition Visible :: "toolPolicy \<Rightarrow> go_string \<Rightarrow> bool" where
  "Visible p tool0 =
     (let tool = canonicalToolName tool0
      in if list_ex (\<lambda>l. layer_hides l tool) p then False
         else list_all (\<lambda>l. \<not> (restrict l \<and> \<not> layer_shows l tool)) p)"

definition Allowed :: "toolPolicy \<Rightarrow> toolPattern list" where
  "Allowed p = (case p of [] \<Rightarrow> [] | l # _ \<Rightarrow> allowed l)"

definition Denied :: "toolPolicy \<Rightarrow> toolPattern list" where
  "Denied p = (case p of [] \<Rightarrow> [] | l # _ \<Rightarrow> denied l)"

section \<open>Exposure\<close>

datatype invocationKind = InvocationUser | InvocationModel | InvocationOther

record exposure =
  UserInvocable :: bool
  ModelInvocable :: bool

definition DefaultExposure :: exposure where
  "DefaultExposure = \<lparr>UserInvocable = True, ModelInvocable = True\<rparr>"

definition exposure_allows :: "exposure \<Rightarrow> invocationKind \<Rightarrow> bool \<Rightarrow> bool \<Rightarrow> bool" where
  "exposure_allows e kind repositoryScoped trusted =
     (case kind of
        InvocationUser \<Rightarrow> UserInvocable e
      | InvocationModel \<Rightarrow> if repositoryScoped \<and> \<not> trusted then False else ModelInvocable e
      | InvocationOther \<Rightarrow> False)"

section \<open>Scopes\<close>

type_synonym scopeKey = "go_string \<times> go_string"

record turnScope =
  Policy :: toolPolicy
  Arguments :: arguments
  Variables :: variables
  DocumentPath :: go_string
  DocumentTrust :: bool

datatype scope_error = ErrScopeIDs | ErrScopeExists | ErrScopeMissing

type_synonym scopeStore = "(scopeKey, turnScope) gomap"

definition zero_arguments :: arguments where
  "zero_arguments = \<lparr>Raw = [], Declared = [], Positionals = [], Named = []\<rparr>"

definition zero_variables :: variables where
  "zero_variables = \<lparr>v_SessionID = [], v_SkillDir = [], v_ProjectDir = [], v_PluginRoot = [], v_PluginData = [], v_Effort = []\<rparr>"

definition missing_ids :: "scopeKey \<Rightarrow> bool" where
  "missing_ids key \<longleftrightarrow> fst key = [] \<or> snd key = []"

definition scope_Set :: "scopeKey \<Rightarrow> turnScope \<Rightarrow> scopeStore \<Rightarrow> scopeStore \<times> scope_error option" where
  "scope_Set key scope s = (if missing_ids key then (s, Some ErrScopeIDs) else (AList.update key scope s, None))"

definition scope_Begin :: "scopeKey \<Rightarrow> turnScope \<Rightarrow> scopeStore \<Rightarrow> scopeStore \<times> scope_error option" where
  "scope_Begin key scope s =
     (if missing_ids key then (s, Some ErrScopeIDs)
      else if map_of s key \<noteq> None then (s, Some ErrScopeExists)
      else (AList.update key scope s, None))"

definition scope_Get :: "scopeKey \<Rightarrow> scopeStore \<Rightarrow> turnScope option" where
  "scope_Get key s = map_of s key"

definition scope_IntersectPolicy :: "scopeKey \<Rightarrow> toolPolicy \<Rightarrow> scopeStore \<Rightarrow> scopeStore \<times> scope_error option" where
  "scope_IntersectPolicy key p s =
     (case map_of s key of
        None \<Rightarrow> (s, Some ErrScopeMissing)
      | Some scope \<Rightarrow> (AList.update key (scope\<lparr>Policy := Intersect (Policy scope) p\<rparr>) s, None))"

definition scope_SetOrIntersectPolicy :: "scopeKey \<Rightarrow> toolPolicy \<Rightarrow> scopeStore \<Rightarrow> scopeStore \<times> scope_error option" where
  "scope_SetOrIntersectPolicy key p s =
     (if missing_ids key then (s, Some ErrScopeIDs)
      else case map_of s key of
             Some scope \<Rightarrow> (AList.update key (scope\<lparr>Policy := Intersect (Policy scope) p\<rparr>) s, None)
           | None \<Rightarrow>
               (AList.update key \<lparr>Policy = p, Arguments = zero_arguments, Variables = zero_variables, DocumentPath = [],
                  DocumentTrust = False\<rparr> s, None))"

definition scope_Release :: "scopeKey \<Rightarrow> scopeStore \<Rightarrow> scopeStore \<times> bool" where
  "scope_Release key s = (AList.delete key s, map_of s key \<noteq> None)"

definition scope_ReleaseSession :: "go_string \<Rightarrow> scopeStore \<Rightarrow> scopeStore \<times> nat" where
  "scope_ReleaseSession sid s =
     (filter (\<lambda>(k, _). fst k \<noteq> sid) s, length (filter (\<lambda>(k, _). fst k = sid) s))"

definition scope_Len :: "scopeStore \<Rightarrow> nat" where
  "scope_Len s = length s"

section \<open>What a policy admits\<close>

lemma ascii_names [simp]:
  "to_lower ''read'' = ''read''" "to_lower ''write'' = ''write''" "to_lower ''edit'' = ''edit''"
  "to_lower ''bash'' = ''bash''" "to_lower ''grep'' = ''grep''" "to_lower ''find'' = ''find''"
  "to_lower ''ls'' = ''ls''"
  by (simp_all add: to_lower_def lower_rune_def scanner_eval)

lemma canonical_idem [simp]: "canonicalToolName (canonicalToolName name) = canonicalToolName name"
proof -
  have fixed: "canonicalToolName x = x" if "x \<in> {''read'', ''write'', ''edit'', ''bash'', ''grep'', ''find'', ''ls''}" for x
  proof -
    have "to_lower x = x"
      using that by auto
    with that show ?thesis unfolding canonicalToolName_def Let_def by auto
  qed
  show ?thesis
    by (cases "canonicalToolName name = name") (auto simp: canonicalToolName_def Let_def intro!: fixed [unfolded canonicalToolName_def Let_def] split: if_splits)
qed

lemma Allows_iff:
  "Allows p tool a \<longleftrightarrow> (\<forall>l \<in> set p. \<not> layer_denies l tool a \<and> (restrict l \<longrightarrow> layer_allows l tool a))"
  by (auto simp: Allows_def list_ex_iff list_all_iff)

lemma Visible_iff:
  "Visible p tool \<longleftrightarrow>
     (\<forall>l \<in> set p. \<not> layer_hides l (canonicalToolName tool) \<and> (restrict l \<longrightarrow> layer_shows l (canonicalToolName tool)))"
  by (auto simp: Visible_def Let_def list_ex_iff list_all_iff)

section \<open>Proofs about scopes\<close>

datatype scope_call =
    CallSet scopeKey turnScope
  | CallBegin scopeKey turnScope
  | CallIntersect scopeKey toolPolicy
  | CallSetOrIntersect scopeKey toolPolicy
  | CallRelease scopeKey
  | CallReleaseSession go_string

fun perform :: "scope_call \<Rightarrow> scopeStore \<Rightarrow> scopeStore" where
  "perform (CallSet key scope) s = fst (scope_Set key scope s)"
| "perform (CallBegin key scope) s = fst (scope_Begin key scope s)"
| "perform (CallIntersect key p) s = fst (scope_IntersectPolicy key p s)"
| "perform (CallSetOrIntersect key p) s = fst (scope_SetOrIntersectPolicy key p s)"
| "perform (CallRelease key) s = fst (scope_Release key s)"
| "perform (CallReleaseSession sid) s = fst (scope_ReleaseSession sid s)"

text \<open>The calls that replace or end the scope of a key, and the policy a call adds to it.\<close>

fun replaces :: "scopeKey \<Rightarrow> scope_call \<Rightarrow> bool" where
  "replaces key (CallSet k _) \<longleftrightarrow> k = key"
| "replaces key (CallRelease k) \<longleftrightarrow> k = key"
| "replaces key (CallReleaseSession sid) \<longleftrightarrow> sid = fst key"
| "replaces key _ \<longleftrightarrow> False"

fun installed_by :: "scopeKey \<Rightarrow> scope_call \<Rightarrow> toolPolicy" where
  "installed_by key (CallIntersect k p) = (if k = key then p else [])"
| "installed_by key (CallSetOrIntersect k p) = (if k = key then p else [])"
| "installed_by key _ = []"

lemma map_of_filter_keys: "map_of (filter (\<lambda>(k, _). P k) s) key = (if P key then map_of s key else None)"
  by (induction s) auto

lemma perform_keeps:
  assumes "map_of s key = Some scope" "\<not> replaces key c" "\<not> missing_ids key"
  shows "map_of (perform c s) key = Some (scope\<lparr>Policy := Policy scope @ installed_by key c\<rparr>)"
  using assms
  by (cases c)
    (auto simp: scope_Set_def scope_Begin_def scope_IntersectPolicy_def scope_SetOrIntersectPolicy_def scope_Release_def
      scope_ReleaseSession_def Intersect_def update_conv' delete_conv' map_of_filter_keys split: option.splits)

lemma run_keeps:
  assumes "map_of s key = Some scope" "list_all (\<lambda>c. \<not> replaces key c) calls" "\<not> missing_ids key"
  shows "map_of (fold perform calls s) key =
    Some (scope\<lparr>Policy := Policy scope @ concat (map (installed_by key) calls)\<rparr>)"
  using assms by (induction calls arbitrary: s scope) (auto simp: perform_keeps)

text \<open>C12: During a turn the policy of a scope can only be narrowed: whatever calls are made on the store for this
  and other keys, short of replacing or releasing the scope, the scope stays, its other fields are unchanged, and
  afterwards a tool call is allowed exactly when it was allowed before and every policy installed since allows
  it.\<close>

theorem scope_policies_only_narrow:
  assumes "scope_Get key s = Some scope" and "\<not> missing_ids key" and "list_all (\<lambda>c. \<not> replaces key c) calls"
  shows "\<exists>scope'. scope_Get key (fold perform calls s) = Some scope' \<and> scope'\<lparr>Policy := Policy scope\<rparr> = scope \<and>
    (\<forall>tool argument. Allows (Policy scope') tool argument \<longleftrightarrow>
       Allows (Policy scope) tool argument \<and> list_all (\<lambda>c. Allows (installed_by key c) tool argument) calls)"
  using run_keeps [of s key scope calls] assms
  by (auto simp: scope_Get_def Allows_iff list_all_iff)

theorem scope_policies_only_narrow_witness:
  "let key = (''s'', ''i''); read_only = NewToolPolicy [\<lparr>Tool = ''read'', Argument = []\<rparr>] [];
       scope = \<lparr>Policy = [], Arguments = zero_arguments, Variables = zero_variables, DocumentPath = [], DocumentTrust = False\<rparr>
   in \<exists>scope'. scope_Get key (fold perform [CallSetOrIntersect key read_only, CallRelease (''s'', ''j'')] [(key, scope)]) = Some scope' \<and>
        Allows (Policy scope') ''bash'' [] = Allows read_only ''bash'' []"
proof -
  define read_only where "read_only = NewToolPolicy [\<lparr>Tool = ''read'', Argument = []\<rparr>] []"
  define scope where
    "scope = \<lparr>Policy = [], Arguments = zero_arguments, Variables = zero_variables, DocumentPath = [], DocumentTrust = False\<rparr>"
  let ?key = "(''s'', ''i'')" and ?calls = "[CallSetOrIntersect (''s'', ''i'') read_only, CallRelease (''s'', ''j'')]"
  have "scope_Get ?key [(?key, scope)] = Some scope" "\<not> missing_ids ?key" "list_all (\<lambda>c. \<not> replaces ?key c) ?calls"
    by (simp_all add: scope_Get_def missing_ids_def)
  from scope_policies_only_narrow [OF this] obtain scope'
    where "scope_Get ?key (fold perform ?calls [(?key, scope)]) = Some scope'"
      and allows: "\<forall>tool argument. Allows (Policy scope') tool argument \<longleftrightarrow>
        Allows (Policy scope) tool argument \<and> list_all (\<lambda>c. Allows (installed_by ?key c) tool argument) ?calls"
    by blast
  moreover have "Allows (Policy scope') ''bash'' [] = Allows read_only ''bash'' []"
    by (simp only: allows) (simp add: scope_def Allows_iff)
  ultimately have "\<exists>scope'. scope_Get ?key (fold perform ?calls [(?key, scope)]) = Some scope' \<and>
      Allows (Policy scope') ''bash'' [] = Allows read_only ''bash'' []" by blast
  then show ?thesis by (simp only: Let_def read_only_def scope_def)
qed

text \<open>A tool whose call a policy allows, with whatever argument, is visible under that policy.\<close>

theorem allowed_tools_visible:
  assumes "Allows p tool argument"
  shows "Visible p tool"
  unfolding Visible_iff
proof (intro ballI conjI impI)
  fix l assume l: "l \<in> set p"
  with assms have d: "\<not> layer_denies l tool argument" and a: "restrict l \<Longrightarrow> layer_allows l tool argument"
    by (auto simp: Allows_iff)
  show "\<not> layer_hides l (canonicalToolName tool)"
    using d by (auto simp: layer_hides_def layer_denies_def list_ex_iff pattern_matches_def split: if_splits)
  show "layer_shows l (canonicalToolName tool)" if "restrict l"
    using a [OF that] by (auto simp: layer_shows_def layer_allows_def list_ex_iff pattern_matches_def split: if_splits)
qed

theorem allowed_tools_visible_witness: "Visible (NewToolPolicy [] []) ''bash''"
  by (rule allowed_tools_visible [of _ _ "[]"]) (simp add: Allows_iff NewToolPolicy_def layer_denies_def)

section \<open>Patterns and their text\<close>

definition render_pattern :: "toolPattern \<Rightarrow> go_string" where
  "render_pattern p = Tool p @ (if Argument p = [] then [] else LPAR # Argument p @ [RPAR])"

definition valid_pattern :: "toolPattern \<Rightarrow> bool" where
  "valid_pattern p \<longleftrightarrow> validToolName (Tool p) \<and> set (Argument p) \<inter> {LPAR, RPAR, CR, LF} = {}"

lemma tool_name_chars:
  assumes "validToolName v" "c \<in> set v"
  shows "tool_rune (byte c)"
proof -
  have "runes v = map byte v"
    using assms(1) by (intro ascii_runes [of tool_rune]) (auto simp: validToolName_def tool_rune_def)
  then show ?thesis using assms by (auto simp: validToolName_def list_all_iff)
qed

lemma tool_name_no_paren: "validToolName v \<Longrightarrow> LPAR \<notin> set v \<and> RPAR \<notin> set v"
  using tool_name_chars [of v LPAR] tool_name_chars [of v RPAR] by (auto simp: tool_rune_def byte_def)

lemma tool_rune_plain: "tool_rune (byte c) \<Longrightarrow> byte c < 0x80 \<and> \<not> is_space (byte c)"
  by (auto simp: tool_rune_def is_space_def)

lemma paren_plain: "byte RPAR < 0x80 \<and> \<not> is_space (byte RPAR)"
  by (simp add: byte_def is_space_def)

lemma render_trim: "valid_pattern p \<Longrightarrow> trim_space (render_pattern p) = render_pattern p"
proof -
  assume v: "valid_pattern p"
  then have "Tool p \<noteq> []" and t: "validToolName (Tool p)" by (auto simp: valid_pattern_def validToolName_def)
  moreover from this have "tool_rune (byte (hd (Tool p)))" "tool_rune (byte (last (Tool p)))"
    using tool_name_chars [OF t] by simp_all
  ultimately show ?thesis
    using tool_rune_plain paren_plain by (intro trim_space_id) (auto simp: render_pattern_def)
qed

lemma index_byte_append: "b \<notin> set xs \<Longrightarrow> index_byte (xs @ b # ys) b = Some (length xs)"
  by (induction xs) auto

lemma parse_render:
  assumes "valid_pattern p" "trim_space s = render_pattern p"
  shows "ParseToolPattern s = Inr p"
proof -
  have t: "validToolName (Tool p)" "Tool p \<noteq> []" and a: "set (Argument p) \<inter> {LPAR, RPAR, CR, LF} = {}"
    using assms(1) by (auto simp: valid_pattern_def validToolName_def)
  note np = tool_name_no_paren [OF t(1)]
  show ?thesis
  proof (cases "Argument p = []")
    case True
    then have "trim_space s = Tool p" using assms(2) by (simp add: render_pattern_def)
    moreover have "index_byte (Tool p) LPAR = None" using np by (simp add: index_byte_None)
    ultimately show ?thesis using t np True unfolding ParseToolPattern_def by (cases p) simp
  next
    case False
    then have "trim_space s = Tool p @ LPAR # Argument p @ [RPAR]" using assms(2) by (simp add: render_pattern_def)
    moreover have "suffix [RPAR] (Tool p @ LPAR # Argument p @ [RPAR])" by (simp add: suffix_def)
    moreover have "butlast (Tool p @ LPAR # Argument p @ [RPAR]) = Tool p @ LPAR # Argument p" by (simp add: butlast_append)
    ultimately show ?thesis using t np a False index_byte_append [of LPAR "Tool p" "Argument p @ [RPAR]"]
      unfolding ParseToolPattern_def by (cases p) (simp add: Let_def)
  qed
qed

lemma render_parse:
  assumes "ParseToolPattern s = Inr p"
  shows "valid_pattern p \<and> trim_space s = render_pattern p"
proof (cases "index_byte (trim_space s) LPAR")
  case None
  then show ?thesis using assms unfolding ParseToolPattern_def
    by (auto simp: Let_def valid_pattern_def render_pattern_def split: if_splits)
next
  case (Some n)
  define src where "src = trim_space s"
  have suf: "suffix [RPAR] src" and p: "p = \<lparr>Tool = take n src, Argument = drop (n + 1) (butlast src)\<rparr>"
    and arg: "drop (n + 1) (butlast src) \<noteq> []" "LPAR \<notin> set (drop (n + 1) (butlast src))" "RPAR \<notin> set (drop (n + 1) (butlast src))"
    and val: "validToolName (Tool p)" "CR \<notin> set (Argument p)" "LF \<notin> set (Argument p)"
    using assms Some unfolding ParseToolPattern_def src_def by (auto simp: Let_def split: if_splits)
  obtain pre where pre: "src = pre @ [RPAR]" using suf by (auto simp: suffix_def)
  have n: "n < length src" "src ! n = LPAR" using index_byte_Some [of src LPAR n] Some by (simp_all add: src_def)
  with pre have "n < length pre" "pre ! n = LPAR" by (auto simp: nth_append split: if_splits)
  then have "pre = take n pre @ LPAR # drop (Suc n) pre" by (metis id_take_nth_drop)
  then have "src = take n src @ LPAR # drop (n + 1) (butlast src) @ [RPAR]" using pre \<open>n < length pre\<close> by simp
  then show ?thesis using p arg val by (auto simp: valid_pattern_def render_pattern_def src_def)
qed

text \<open>Parsing a tool pattern succeeds exactly on the texts that, trimmed, are a valid tool name alone or followed
  by a non-empty argument in parentheses without parentheses or line breaks, it returns that name and that argument,
  and every valid pattern is read back from its own text.\<close>

theorem tool_pattern_roundtrip:
  "(ParseToolPattern s = Inr p \<longleftrightarrow> valid_pattern p \<and> trim_space s = render_pattern p) \<and>
   (valid_pattern p \<longrightarrow> ParseToolPattern (render_pattern p) = Inr p)"
  using parse_render render_parse render_trim by blast

theorem tool_pattern_roundtrip_witness:
  "ParseToolPattern ''Bash(git:*)'' = Inr \<lparr>Tool = ''Bash'', Argument = ''git:*''\<rparr>"
proof -
  define p where "p = \<lparr>Tool = ''Bash'', Argument = ''git:*''\<rparr>"
  have "valid_pattern p"
    by (simp add: valid_pattern_def p_def validToolName_def tool_rune_def runes_ascii byte_def)
  then have "ParseToolPattern (render_pattern p) = Inr p" using tool_pattern_roundtrip [of "[]" p] by blast
  then show ?thesis by (simp add: p_def render_pattern_def)
qed

end
