(* ===== verification/Syntax_Markdown.thy ===== *)
theory Syntax_Markdown
  imports Syntax_Policy
begin

text \<open>
  Markdown code regions, \<open>markdown.go\<close>, and the command directives found in them, \<open>instruction.go\<close>, of
  \<open>internal/syntax\<close>: fences and inline code spans, the binary search of an offset, and the proof that the
  regions are in order and disjoint, which the search relies on.
\<close>

datatype codeRegionKind = CodeRegionInline | CodeRegionFence

record codeRegion =
  Kind :: codeRegionKind
  Start :: nat
  End :: nat
  ContentStart :: nat
  ContentEnd :: nat

abbreviation TICK :: char where "TICK \<equiv> CHR 0x60"

section \<open>Lines, runs and escapes\<close>

definition markdownLineEnd :: "go_string \<Rightarrow> nat \<Rightarrow> nat \<times> nat" where
  "markdownLineEnd source start =
     (case index_byte (drop start source) LF of
        Some newline \<Rightarrow> (start + newline, start + newline + 1)
      | None \<Rightarrow> (length source, length source))"

definition leadingSpaces :: "go_string \<Rightarrow> nat" where
  "leadingSpaces v = length (takeWhile (\<lambda>c. c = CHR '' '') v)"

definition markerRun :: "go_string \<Rightarrow> nat \<Rightarrow> char \<Rightarrow> nat" where
  "markerRun v start marker = length (takeWhile (\<lambda>c. c = marker) (drop start v))"

definition escapedMarkdownByte :: "go_string \<Rightarrow> nat \<Rightarrow> bool" where
  "escapedMarkdownByte source index =
     (length (takeWhile (\<lambda>c. c = CHR 0x5C) (rev (take index source))) mod 2 = 1)"

section \<open>Fences\<close>

definition openingFence :: "go_string \<Rightarrow> (char \<times> nat) option" where
  "openingFence line =
     (let indent = leadingSpaces line
      in if indent > 3 \<or> indent \<ge> length line \<or> (line ! indent \<noteq> TICK \<and> line ! indent \<noteq> CHR ''~'') then None
         else let marker = line ! indent; ticks = markerRun line indent marker
         in if ticks < 3 then None
            else if marker = TICK \<and> TICK \<in> set (drop (indent + ticks) line) then None
            else Some (marker, ticks))"

definition closingFence :: "go_string \<Rightarrow> char \<Rightarrow> nat \<Rightarrow> bool" where
  "closingFence line marker minimum =
     (let indent = leadingSpaces line
      in if indent > 3 \<or> indent \<ge> length line \<or> line ! indent \<noteq> marker then False
         else let ticks = markerRun line indent marker
         in ticks \<ge> minimum \<and> trim_space (drop (indent + ticks) line) = [])"

definition substring :: "go_string \<Rightarrow> nat \<Rightarrow> nat \<Rightarrow> go_string" where
  "substring s i j = take (j - i) (drop i s)"

lemma line_end_bounds:
  "start < length source \<Longrightarrow> markdownLineEnd source start = (e, n) \<Longrightarrow> start \<le> e \<and> e \<le> n \<and> start < n \<and> n \<le> length source"
  using index_byte_Some [of "drop start source" LF]
  by (auto simp: markdownLineEnd_def Suc_le_eq split: option.splits)

lemma line_end_shrinks:
  "start < length source \<Longrightarrow> (e, n) = markdownLineEnd source start \<Longrightarrow> length source - n < length source - start"
  using line_end_bounds [of start source e n] by simp linarith

text \<open>The inner loop of \<open>scanFences\<close>: the closing fence from \<open>candidate\<close> on, \<open>(closeStart, closeEnd)\<close>.\<close>

function find_close :: "go_string \<Rightarrow> char \<Rightarrow> nat \<Rightarrow> nat \<Rightarrow> nat \<times> nat" where
  "find_close source marker ticks candidate =
     (if candidate < length source
      then let (candidateEnd, candidateNext) = markdownLineEnd source candidate
           in if closingFence (substring source candidate candidateEnd) marker ticks then (candidate, candidateNext)
              else find_close source marker ticks candidateNext
      else (length source, length source))"
  by pat_completeness auto
termination
  by (relation "measure (\<lambda>(source, _, _, candidate). length source - candidate)") (auto simp: line_end_shrinks)

declare find_close.simps [simp del]

lemma find_close_bounds:
  "candidate \<le> length source \<Longrightarrow> find_close source marker ticks candidate = (cs, ce) \<Longrightarrow>
   candidate \<le> cs \<and> cs \<le> ce \<and> ce \<le> length source"
proof (induction source marker ticks candidate rule: find_close.induct)
  case (1 source marker ticks candidate)
  show ?case
  proof (cases "candidate < length source")
    case True
    obtain e n where l: "markdownLineEnd source candidate = (e, n)" by fastforce
    note b = line_end_bounds [OF True l]
    show ?thesis
    proof (cases "closingFence (substring source candidate e) marker ticks")
      case True
      then show ?thesis using "1.prems" \<open>candidate < length source\<close> l b by (auto simp: find_close.simps [of source marker ticks candidate])
    next
      case False
      then have "find_close source marker ticks n = (cs, ce)"
        using "1.prems" \<open>candidate < length source\<close> l by (simp add: find_close.simps [of source marker ticks candidate])
      with "1.IH" [OF True l [symmetric] refl False] b show ?thesis by simp
    qed
  next
    case False
    then have "find_close source marker ticks candidate = (length source, length source)" by (subst find_close.simps) simp
    then show ?thesis using "1.prems" by simp
  qed
qed

definition fence_at :: "go_string \<Rightarrow> nat \<Rightarrow> codeRegion option" where
  "fence_at source lineStart =
     (let (lineEnd, nextLine) = markdownLineEnd source lineStart
      in case openingFence (substring source lineStart lineEnd) of
           None \<Rightarrow> None
         | Some (marker, ticks) \<Rightarrow>
             let (closeStart, closeEnd) = find_close source marker ticks nextLine
             in Some \<lparr>Kind = CodeRegionFence, Start = lineStart, End = closeEnd, ContentStart = nextLine, ContentEnd = closeStart\<rparr>)"

lemma fence_at_bounds:
  assumes "lineStart < length source" "fence_at source lineStart = Some r"
  shows "Start r = lineStart \<and> lineStart < ContentStart r \<and> ContentStart r \<le> ContentEnd r \<and> ContentEnd r \<le> End r \<and>
    End r \<le> length source"
proof -
  obtain e n where l: "markdownLineEnd source lineStart = (e, n)" by fastforce
  note b = line_end_bounds [OF assms(1) l]
  obtain marker ticks where "openingFence (substring source lineStart e) = Some (marker, ticks)"
    using assms(2) l by (auto simp: fence_at_def split: option.splits)
  moreover obtain cs ce where c: "find_close source marker ticks n = (cs, ce)" by fastforce
  ultimately show ?thesis using assms(2) l b find_close_bounds [OF _ c] by (auto simp: fence_at_def)
qed

function scanFences_from :: "go_string \<Rightarrow> nat \<Rightarrow> codeRegion list" where
  "scanFences_from source lineStart =
     (if lineStart < length source
      then case fence_at source lineStart of
             None \<Rightarrow> scanFences_from source (snd (markdownLineEnd source lineStart))
           | Some r \<Rightarrow> r # scanFences_from source (End r)
      else [])"
  by pat_completeness auto
termination
proof (relation "measure (\<lambda>(source, i). length source - i)")
  fix source :: go_string and lineStart
  assume i: "lineStart < length source"
  then show "((source, snd (markdownLineEnd source lineStart)), source, lineStart) \<in> measure (\<lambda>(source, i). length source - i)"
    using line_end_shrinks [OF i] by (simp add: prod_eq_iff)
  fix r assume "fence_at source lineStart = Some r"
  with fence_at_bounds [OF i this]
  show "((source, End r), source, lineStart) \<in> measure (\<lambda>(source, i). length source - i)" by auto
qed simp

declare scanFences_from.simps [simp del]

definition scanFences :: "go_string \<Rightarrow> codeRegion list" where
  "scanFences source = scanFences_from source 0"

section \<open>Inline code\<close>

function findInlineClose :: "go_string \<Rightarrow> nat \<Rightarrow> nat \<Rightarrow> nat \<Rightarrow> nat option" where
  "findInlineClose source index end' ticks =
     (if index < end'
      then if source ! index \<noteq> TICK \<or> escapedMarkdownByte source index then findInlineClose source (index + 1) end' ticks
           else let run = markerRun (take end' source) index TICK
           in if run = ticks then Some index
              else findInlineClose source (index + max 1 run) end' ticks
      else None)"
  by pat_completeness auto
termination
  by (relation "measure (\<lambda>(source, index, end', _). end' - index)") auto

declare findInlineClose.simps [simp del]

function scanInlineCode :: "go_string \<Rightarrow> nat \<Rightarrow> nat \<Rightarrow> codeRegion list" where
  "scanInlineCode source index end' =
     (if index < end'
      then if source ! index \<noteq> TICK \<or> escapedMarkdownByte source index then scanInlineCode source (index + 1) end'
           else let ticks = max 1 (markerRun (take end' source) index TICK)
           in case findInlineClose source (index + ticks) end' ticks of
                None \<Rightarrow> scanInlineCode source (index + ticks) end'
              | Some close \<Rightarrow>
                  \<lparr>Kind = CodeRegionInline, Start = index, End = close + ticks, ContentStart = index + ticks, ContentEnd = close\<rparr>
                  # scanInlineCode source (max (close + ticks) (index + 1)) end'
      else [])"
  by pat_completeness auto
termination
  by (relation "measure (\<lambda>(source, index, end'). end' - index)") auto

declare scanInlineCode.simps [simp del]

text \<open>
  At a back tick below \<open>end'\<close> the run is never empty and a match never moves back, so the two \<open>max\<close> above,
  which let the recursions be defined on every argument, never change anything the code computes.
\<close>

lemma markerRun_pos: "index < end' \<Longrightarrow> end' \<le> length source \<Longrightarrow> source ! index = m \<Longrightarrow> 0 < markerRun (take end' source) index m"
  by (simp add: markerRun_def Cons_nth_drop_Suc [symmetric])

section \<open>Regions\<close>

text \<open>The scans between the fences, with the cursor of the code.\<close>

fun inline_gaps :: "go_string \<Rightarrow> nat \<Rightarrow> codeRegion list \<Rightarrow> codeRegion list" where
  "inline_gaps source cursor [] = scanInlineCode source cursor (length source)"
| "inline_gaps source cursor (fence # fences) =
     scanInlineCode source cursor (Start fence) @ inline_gaps source (End fence) fences"

definition ScanCodeRegions :: "go_string \<Rightarrow> codeRegion list" where
  "ScanCodeRegions source =
     (let fences = scanFences source in sort_key Start (fences @ inline_gaps source 0 fences))"

text \<open>\<open>sort.Search(n, f)\<close> between two indices.\<close>

function search_between :: "(nat \<Rightarrow> bool) \<Rightarrow> nat \<Rightarrow> nat \<Rightarrow> nat" where
  "search_between f i j =
     (if i < j then let h = (i + j) div 2 in if \<not> f h then search_between f (h + 1) j else search_between f i h else i)"
  by pat_completeness auto
termination
  by (relation "measure (\<lambda>(f, i, j). j - i)") auto

declare search_between.simps [simp del]

definition sort_search :: "nat \<Rightarrow> (nat \<Rightarrow> bool) \<Rightarrow> nat" where
  "sort_search n f = search_between f 0 n"

definition IsCodeOffset :: "codeRegion list \<Rightarrow> nat \<Rightarrow> bool" where
  "IsCodeOffset regions offset =
     (let index = sort_search (length regions) (\<lambda>i. End (regions ! i) > offset)
      in index < length regions \<and> Start (regions ! index) \<le> offset)"

section \<open>Command directives\<close>

record commandDirective =
  cmd_Start :: nat
  cmd_End :: nat
  cmd_ContentStart :: nat
  cmd_ContentEnd :: nat
  cmd_Line :: nat
  Command :: go_string

definition lineAtOffset :: "go_string \<Rightarrow> nat \<Rightarrow> nat" where
  "lineAtOffset source offset = count_byte (take offset source) LF + 1"

definition fenceCommandMarker :: "go_string \<Rightarrow> bool" where
  "fenceCommandMarker opening0 =
     (let opening = dropWhile (\<lambda>c. c = CHR '' '') (trim_space opening0)
      in case opening of
           [] \<Rightarrow> False
         | marker # _ \<Rightarrow>
             if marker \<noteq> TICK \<and> marker \<noteq> CHR ''~'' then False
             else trim_space (dropWhile (\<lambda>c. c = marker) opening) = ''!'')"

definition region_directive :: "go_string \<Rightarrow> codeRegion \<Rightarrow> commandDirective option" where
  "region_directive source region =
     (case Kind region of
        CodeRegionInline \<Rightarrow>
          if Start region = 0 \<or> source ! (Start region - 1) \<noteq> CHR ''!'' \<or> escapedMarkdownByte source (Start region - 1)
          then None
          else Some \<lparr>cmd_Start = Start region - 1, cmd_End = End region, cmd_ContentStart = ContentStart region,
            cmd_ContentEnd = ContentEnd region, cmd_Line = lineAtOffset source (Start region - 1),
            Command = substring source (ContentStart region) (ContentEnd region)\<rparr>
      | CodeRegionFence \<Rightarrow>
          if \<not> fenceCommandMarker (substring source (Start region) (ContentStart region)) then None
          else Some \<lparr>cmd_Start = Start region, cmd_End = End region, cmd_ContentStart = ContentStart region,
            cmd_ContentEnd = ContentEnd region, cmd_Line = lineAtOffset source (Start region),
            Command = substring source (ContentStart region) (ContentEnd region)\<rparr>)"

definition ScanCommandDirectives :: "go_string \<Rightarrow> commandDirective list" where
  "ScanCommandDirectives source = List.map_filter (region_directive source) (ScanCodeRegions source)"

section \<open>Closing runs\<close>

lemma findInlineClose_bounds:
  assumes "findInlineClose source index end' ticks = Some close" "end' \<le> length source"
  shows "index \<le> close \<and> close < end' \<and> source ! close = TICK \<and> markerRun (take end' source) close TICK = ticks"
  using assms
proof (induction source index end' ticks rule: findInlineClose.induct)
  case (1 source index end' ticks)
  let ?run = "markerRun (take end' source) index TICK"
  have i: "index < end'" using "1.prems"(1) by (auto simp: findInlineClose.simps [of source index] split: if_splits)
  consider (skip) "source ! index \<noteq> TICK \<or> escapedMarkdownByte source index"
    | (hit) "\<not> (source ! index \<noteq> TICK \<or> escapedMarkdownByte source index)" "?run = ticks"
    | (other) "\<not> (source ! index \<noteq> TICK \<or> escapedMarkdownByte source index)" "?run \<noteq> ticks"
    by blast
  then show ?case
  proof cases
    case skip
    then have "findInlineClose source (index + 1) end' ticks = Some close"
      using "1.prems"(1) i by (simp add: findInlineClose.simps [of source index])
    from "1.IH"(1) [OF i skip this "1.prems"(2)] show ?thesis by simp
  next
    case hit
    then show ?thesis using "1.prems"(1) i by (simp add: findInlineClose.simps [of source index])
  next
    case other
    then have "findInlineClose source (index + max 1 ?run) end' ticks = Some close"
      using "1.prems"(1) i by (simp add: findInlineClose.simps [of source index] Let_def)
    from "1.IH"(2) [OF i other(1) refl other(2) this "1.prems"(2)] show ?thesis by simp
  qed
qed

section \<open>Layout of the regions\<close>

definition well_formed :: "codeRegion \<Rightarrow> bool" where
  "well_formed r \<longleftrightarrow> Start r < ContentStart r \<and> ContentStart r \<le> ContentEnd r \<and> ContentEnd r \<le> End r"

fun laid_out :: "nat \<Rightarrow> codeRegion list \<Rightarrow> nat \<Rightarrow> bool" where
  "laid_out lo [] hi \<longleftrightarrow> lo \<le> hi"
| "laid_out lo (r # rs) hi \<longleftrightarrow> lo \<le> Start r \<and> well_formed r \<and> laid_out (End r) rs hi"

lemma laid_out_le: "laid_out lo rs hi \<Longrightarrow> lo \<le> hi"
  by (induction rs arbitrary: lo) (auto simp: well_formed_def, fastforce)

lemma laid_out_mono: "laid_out lo rs hi \<Longrightarrow> lo' \<le> lo \<Longrightarrow> laid_out lo' rs hi"
  by (cases rs) auto

lemma laid_out_append: "laid_out lo xs mid \<Longrightarrow> laid_out mid ys hi \<Longrightarrow> laid_out lo (xs @ ys) hi"
  by (induction xs arbitrary: lo) (auto intro: laid_out_mono)

lemma laid_out_between: "laid_out lo rs hi \<Longrightarrow> r \<in> set rs \<Longrightarrow> lo \<le> Start r \<and> End r \<le> hi \<and> well_formed r"
proof (induction rs arbitrary: lo)
  case (Cons a rs)
  show ?case
  proof (cases "r = a")
    case True then show ?thesis using Cons.prems laid_out_le [of "End a" rs hi] by simp
  next
    case False
    then have "End a \<le> Start r \<and> End r \<le> hi \<and> well_formed r" using Cons by auto
    with Cons.prems show ?thesis by (auto simp: well_formed_def)
  qed
qed simp

lemma laid_out_sorted: "laid_out lo rs hi \<Longrightarrow> sorted_wrt (\<lambda>r r'. End r \<le> Start r') rs"
  by (induction rs arbitrary: lo) (auto dest: laid_out_between)

lemma scanFences_laid_out: "i \<le> length source \<Longrightarrow> laid_out i (scanFences_from source i) (length source)"
proof (induction source i rule: scanFences_from.induct)
  case (1 source i)
  show ?case
  proof (cases "i < length source")
    case False then show ?thesis using "1.prems" by (subst scanFences_from.simps) simp
  next
    case True
    show ?thesis
    proof (cases "fence_at source i")
      case None
      obtain e n where l: "markdownLineEnd source i = (e, n)" by fastforce
      with None True have "scanFences_from source i = scanFences_from source n" by (simp add: scanFences_from.simps [of source i])
      with "1.IH"(1) [OF True None] l line_end_bounds [OF True l] show ?thesis by (auto intro: laid_out_mono)
    next
      case (Some r)
      with True have "scanFences_from source i = r # scanFences_from source (End r)" by (simp add: scanFences_from.simps [of source i])
      with "1.IH"(2) [OF True Some] fence_at_bounds [OF True Some] show ?thesis by (auto simp: well_formed_def)
    qed
  qed
qed

lemma markerRun_bound: "i \<le> length s \<Longrightarrow> i + markerRun s i c \<le> length s"
  using length_takeWhile_le [of "\<lambda>x. x = c" "drop i s"] by (simp add: markerRun_def)

lemma scanInline_laid_out:
  "i \<le> end' \<Longrightarrow> end' \<le> length source \<Longrightarrow> laid_out i (scanInlineCode source i end') end'"
proof (induction source i end' rule: scanInlineCode.induct)
  case (1 source i end')
  let ?run = "max 1 (markerRun (take end' source) i TICK)"
  show ?case
  proof (cases "i < end'")
    case False then show ?thesis using "1.prems" by (subst scanInlineCode.simps) simp
  next
    case True
    show ?thesis
    proof (cases "source ! i \<noteq> TICK \<or> escapedMarkdownByte source i")
      case skip: True
      then have "scanInlineCode source i end' = scanInlineCode source (i + 1) end'" using True by (simp add: scanInlineCode.simps [of source i])
      with "1.IH"(1) [OF True skip] True "1.prems" show ?thesis by (auto intro: laid_out_mono)
    next
      case tick: False
      then have run: "?run = markerRun (take end' source) i TICK" using markerRun_pos [of i end' source TICK] True "1.prems" by simp
      have fits: "i + ?run \<le> end'" using run markerRun_bound [of i "take end' source" TICK] True "1.prems" by simp
      show ?thesis
      proof (cases "findInlineClose source (i + ?run) end' ?run")
        case None
        then have "scanInlineCode source i end' = scanInlineCode source (i + ?run) end'"
          using True tick by (simp add: scanInlineCode.simps [of source i] Let_def)
        with "1.IH"(2) [OF True tick refl None] fits "1.prems" show ?thesis by (auto intro: laid_out_mono)
      next
        case (Some close)
        note c = findInlineClose_bounds [OF Some "1.prems"(2)]
        have e: "close + ?run \<le> end'" using c markerRun_bound [of close "take end' source" TICK] "1.prems" by simp
        have "scanInlineCode source i end' =
            \<lparr>Kind = CodeRegionInline, Start = i, End = close + ?run, ContentStart = i + ?run, ContentEnd = close\<rparr>
            # scanInlineCode source (max (close + ?run) (i + 1)) end'"
          using True tick Some by (simp only: scanInlineCode.simps [of source i] Let_def) simp
        moreover have "max (close + ?run) (i + 1) = close + ?run" using c by linarith
        moreover have "laid_out (close + ?run) (scanInlineCode source (close + ?run) end') end'"
          using "1.IH"(3) [OF True tick refl Some] e "1.prems" calculation(2) by simp
        ultimately show ?thesis using c by (simp add: well_formed_def)
      qed
    qed
  qed
qed

text \<open>Fences and gaps woven in order; sorting the concatenation gives the same list.\<close>

fun weave :: "go_string \<Rightarrow> nat \<Rightarrow> codeRegion list \<Rightarrow> codeRegion list" where
  "weave source cursor [] = scanInlineCode source cursor (length source)"
| "weave source cursor (fence # fences) =
     scanInlineCode source cursor (Start fence) @ fence # weave source (End fence) fences"

lemma mset_weave: "mset (weave source cursor fences) = mset (fences @ inline_gaps source cursor fences)"
  by (induction fences arbitrary: cursor) simp_all

lemma weave_laid_out:
  "laid_out cursor fences (length source) \<Longrightarrow> laid_out cursor (weave source cursor fences) (length source)"
proof (induction fences arbitrary: cursor)
  case Nil
  then show ?case by (simp add: scanInline_laid_out)
next
  case (Cons f fs)
  then have "laid_out cursor (scanInlineCode source cursor (Start f)) (Start f)"
    using laid_out_between [OF Cons.prems, of f] by (intro scanInline_laid_out) (auto simp: well_formed_def)
  moreover have "laid_out (Start f) (f # weave source (End f) fs) (length source)" using Cons by simp
  ultimately show ?case by (simp add: laid_out_append)
qed

lemma laid_out_starts: "laid_out lo rs hi \<Longrightarrow> sorted (map Start rs) \<and> distinct (map Start rs)"
proof (induction rs arbitrary: lo)
  case (Cons r rs)
  then have "\<forall>r' \<in> set rs. Start r < Start r'"
    using laid_out_between [of "End r" rs hi] by (fastforce simp: well_formed_def)
  moreover have "sorted (map Start rs) \<and> distinct (map Start rs)" using Cons by (auto intro: Cons.IH)
  ultimately show ?case by auto
qed simp

lemma regions_woven: "ScanCodeRegions source = weave source 0 (scanFences source)"
proof -
  define fences where "fences = scanFences source"
  let ?w = "weave source 0 fences" and ?u = "fences @ inline_gaps source 0 fences"
  have w: "sorted (map Start ?w) \<and> distinct (map Start ?w)"
    using laid_out_starts weave_laid_out scanFences_laid_out [of 0 source] by (metis fences_def scanFences_def zero_le)
  have m: "mset ?w = mset ?u" by (rule mset_weave)
  have "sort_key Start ?u = ?w"
  proof (rule map_sorted_distinct_set_unique)
    have "mset (map Start (sort_key Start ?u)) = mset (map Start ?w)" using m by simp
    then show "distinct (map Start (sort_key Start ?u))" using w by (metis mset_eq_imp_distinct_iff)
    have "set (sort_key Start ?u) = set ?w" using m by (metis mset_eq_setD set_sort)
    then show "set (sort_key Start ?u) = set ?w" .
    then show "inj_on Start (set (sort_key Start ?u) \<union> set ?w)" using w by (simp add: distinct_map)
  qed (use w in simp_all)
  then show ?thesis by (simp add: ScanCodeRegions_def fences_def Let_def)
qed

lemma regions_laid_out: "laid_out 0 (ScanCodeRegions source) (length source)"
  using weave_laid_out [of 0 "scanFences source" source] scanFences_laid_out [of 0 source]
  by (simp add: regions_woven scanFences_def)

section \<open>Binary search\<close>

text \<open>The contract of \<open>sort.Search\<close>: a predicate that stays true once it is true.\<close>

locale searchable =
  fixes n :: nat and f :: "nat \<Rightarrow> bool"
  assumes upward: "i \<le> j \<Longrightarrow> j < n \<Longrightarrow> f i \<Longrightarrow> f j"
begin

lemma search_between_least:
  assumes "i \<le> j" "j \<le> n" "\<forall>k < i. \<not> f k" "\<forall>k. j \<le> k \<and> k < n \<longrightarrow> f k"
  shows "search_between f i j \<le> n \<and> (\<forall>k < search_between f i j. \<not> f k) \<and>
    (\<forall>k. search_between f i j \<le> k \<and> k < n \<longrightarrow> f k)"
  using assms
proof (induction "j - i" arbitrary: i j rule: less_induct)
  case less
  show ?case
  proof (cases "i < j")
    case False
    then have "search_between f i j = i" by (subst search_between.simps) simp
    with less.prems False show ?thesis by auto
  next
    case True
    define h where "h = (i + j) div 2"
    have h: "i \<le> h" "h < j" using True by (auto simp: h_def)
    show ?thesis
    proof (cases "f h")
      case fh: True
      have eq: "search_between f i j = search_between f i h"
        using True fh by (subst search_between.simps) (simp add: h_def)
      have up: "\<forall>k. h \<le> k \<and> k < n \<longrightarrow> f k" using upward [OF _ _ fh] by blast
      have "h - i < j - i" "h \<le> n" using h less.prems(2) by simp_all
      from less.hyps [OF this(1) h(1) this(2) less.prems(3) up] show ?thesis unfolding eq .
    next
      case fh: False
      have eq: "search_between f i j = search_between f (h + 1) j"
        using True fh by (subst search_between.simps) (simp add: h_def)
      have "h < n" using h less.prems(2) by simp
      then have low: "\<forall>k < h + 1. \<not> f k" using upward [of _ h] fh by (auto simp: less_Suc_eq_le)
      have "j - (h + 1) < j - i" "h + 1 \<le> j" using h by simp_all
      from less.hyps [OF this less.prems(2) low less.prems(4)] show ?thesis unfolding eq .
    qed
  qed
qed

lemma sort_search_least:
  "sort_search n f \<le> n \<and> (\<forall>k < sort_search n f. \<not> f k) \<and> (\<forall>k. sort_search n f \<le> k \<and> k < n \<longrightarrow> f k)"
  unfolding sort_search_def by (rule search_between_least) auto

end

interpretation region_search: searchable "length (ScanCodeRegions source)" "\<lambda>i. End (ScanCodeRegions source ! i) > offset"
  for source offset
proof
  fix i j
  assume ij: "i \<le> j" "j < length (ScanCodeRegions source)" and e: "End (ScanCodeRegions source ! i) > offset"
  have "End (ScanCodeRegions source ! i) \<le> End (ScanCodeRegions source ! j)"
  proof (cases "i = j")
    case False
    then have "End (ScanCodeRegions source ! i) \<le> Start (ScanCodeRegions source ! j)"
      using sorted_wrt_nth_less [OF laid_out_sorted [OF regions_laid_out], of i j source] ij by simp
    moreover have "well_formed (ScanCodeRegions source ! j)"
      using laid_out_between [OF regions_laid_out] ij(2) nth_mem by blast
    ultimately show ?thesis by (simp add: well_formed_def)
  qed simp
  with e show "End (ScanCodeRegions source ! j) > offset" by simp
qed

lemma code_offset_iff:
  "IsCodeOffset (ScanCodeRegions source) offset \<longleftrightarrow> (\<exists>r \<in> set (ScanCodeRegions source). Start r \<le> offset \<and> offset < End r)"
proof -
  define rs where "rs = ScanCodeRegions source"
  define i where "i = sort_search (length rs) (\<lambda>i. End (rs ! i) > offset)"
  note search = region_search.sort_search_least [of source offset, folded rs_def, folded i_def]
  have code: "IsCodeOffset rs offset \<longleftrightarrow> i < length rs \<and> Start (rs ! i) \<le> offset"
    by (simp add: IsCodeOffset_def i_def Let_def)
  show ?thesis unfolding rs_def [symmetric]
  proof
    assume "IsCodeOffset rs offset"
    then show "\<exists>r \<in> set rs. Start r \<le> offset \<and> offset < End r" using code search nth_mem [of i rs] by blast
  next
    assume "\<exists>r \<in> set rs. Start r \<le> offset \<and> offset < End r"
    then obtain k where k: "k < length rs" "Start (rs ! k) \<le> offset" "offset < End (rs ! k)" by (auto simp: in_set_conv_nth)
    then have "i \<le> k" using search by (meson not_le)
    have "Start (rs ! i) \<le> Start (rs ! k)"
    proof (cases "i = k")
      case False
      then have "End (rs ! i) \<le> Start (rs ! k)"
        using sorted_wrt_nth_less [OF laid_out_sorted [OF regions_laid_out], of i k source] \<open>i \<le> k\<close> k(1) by (simp add: rs_def)
      moreover have "well_formed (rs ! i)"
        using laid_out_between [OF regions_laid_out, of _ source] \<open>i \<le> k\<close> k(1) nth_mem [of i rs] by (simp add: rs_def)
      ultimately show ?thesis by (simp add: well_formed_def)
    qed simp
    with k \<open>i \<le> k\<close> code show "IsCodeOffset rs offset" by simp
  qed
qed

text \<open>The code regions of a document are in order and disjoint, lie inside it, and the binary search finds an
  offset inside code exactly when some region covers it.\<close>

theorem code_regions_searchable:
  "sorted_wrt (\<lambda>r r'. End r \<le> Start r') (ScanCodeRegions source) \<and>
   list_all (\<lambda>r. Start r < ContentStart r \<and> ContentStart r \<le> ContentEnd r \<and> ContentEnd r \<le> End r \<and> End r \<le> length source)
     (ScanCodeRegions source) \<and>
   (IsCodeOffset (ScanCodeRegions source) offset \<longleftrightarrow>
     list_ex (\<lambda>r. Start r \<le> offset \<and> offset < End r) (ScanCodeRegions source))"
  using laid_out_sorted [OF regions_laid_out] laid_out_between [OF regions_laid_out] code_offset_iff
  by (auto simp: list_all_iff list_ex_iff well_formed_def)

section \<open>Directives\<close>

text \<open>The last byte of a region that does not reach the end of the source.\<close>

definition last_byte_ok :: "go_string \<Rightarrow> codeRegion \<Rightarrow> bool" where
  "last_byte_ok source r \<longleftrightarrow> End r = length source \<or> source ! (End r - 1) \<in> {TICK, LF}"

lemma line_end_last: "start \<le> length source \<Longrightarrow> markdownLineEnd source start = (e, n) \<Longrightarrow> n = length source \<or> source ! (n - 1) = LF"
  using index_byte_Some [of "drop start source" LF] by (auto simp: markdownLineEnd_def split: option.splits)

lemma find_close_last:
  "candidate \<le> length source \<Longrightarrow> find_close source marker ticks candidate = (cs, ce) \<Longrightarrow> ce = length source \<or> source ! (ce - 1) = LF"
proof (induction source marker ticks candidate rule: find_close.induct)
  case (1 source marker ticks candidate)
  show ?case
  proof (cases "candidate < length source")
    case True
    obtain e n where l: "markdownLineEnd source candidate = (e, n)" by fastforce
    show ?thesis
    proof (cases "closingFence (substring source candidate e) marker ticks")
      case close: True
      have "find_close source marker ticks candidate = (candidate, n)" using True close l by (subst find_close.simps) simp
      then show ?thesis using "1.prems" line_end_last [OF _ l] by simp
    next
      case False
      have "find_close source marker ticks candidate = find_close source marker ticks n"
        using True False l by (subst find_close.simps) simp
      then show ?thesis using "1.IH" [OF True l [symmetric] refl False] "1.prems" line_end_bounds [OF True l] by simp
    qed
  next
    case False
    then have "find_close source marker ticks candidate = (length source, length source)" by (subst find_close.simps) simp
    then show ?thesis using "1.prems" by simp
  qed
qed

lemma fences_last: "r \<in> set (scanFences_from source i) \<Longrightarrow> last_byte_ok source r"
proof (induction source i rule: scanFences_from.induct)
  case (1 source i)
  have i: "i < length source" using "1.prems" by (subst (asm) scanFences_from.simps) (auto split: if_splits)
  show ?case
  proof (cases "fence_at source i")
    case None
    then have "r \<in> set (scanFences_from source (snd (markdownLineEnd source i)))"
      using "1.prems" i by (subst (asm) scanFences_from.simps) simp
    then show ?thesis by (rule "1.IH"(1) [OF i None])
  next
    case (Some f)
    then consider "r = f" | "r \<in> set (scanFences_from source (End f))"
      using "1.prems" i by (subst (asm) scanFences_from.simps) auto
    then show ?thesis
    proof cases
      case 1
      obtain e n where l: "markdownLineEnd source i = (e, n)" by fastforce
      obtain marker ticks where "openingFence (substring source i e) = Some (marker, ticks)"
        using Some l by (auto simp: fence_at_def split: option.splits)
      moreover obtain cs ce where c: "find_close source marker ticks n = (cs, ce)" by fastforce
      ultimately have "End r = ce" using Some l 1 by (auto simp: fence_at_def)
      then show ?thesis using find_close_last [OF _ c] line_end_bounds [OF i l] by (auto simp: last_byte_ok_def)
    next
      case 2
      then show ?thesis by (rule "1.IH"(2) [OF i Some])
    qed
  qed
qed

lemma markerRun_nth: "k < markerRun v i c \<Longrightarrow> i \<le> length v \<Longrightarrow> v ! (i + k) = c"
  using takeWhile_nth [of k "\<lambda>x. x = c" "drop i v"] nth_mem [of k "takeWhile (\<lambda>x. x = c) (drop i v)"]
  by (auto simp: markerRun_def dest!: set_takeWhileD)

lemma inline_last:
  "end' \<le> length source \<Longrightarrow> r \<in> set (scanInlineCode source i end') \<Longrightarrow> last_byte_ok source r"
proof (induction source i end' rule: scanInlineCode.induct)
  case (1 source i end')
  let ?run = "max 1 (markerRun (take end' source) i TICK)"
  have i: "i < end'" using "1.prems"(2) by (subst (asm) scanInlineCode.simps) (auto split: if_splits)
  show ?case
  proof (cases "source ! i \<noteq> TICK \<or> escapedMarkdownByte source i")
    case skip: True
    then have "r \<in> set (scanInlineCode source (i + 1) end')"
      using "1.prems"(2) i by (subst (asm) scanInlineCode.simps) simp
    then show ?thesis by (rule "1.IH"(1) [OF i skip "1.prems"(1)])
  next
    case tick: False
    show ?thesis
    proof (cases "findInlineClose source (i + ?run) end' ?run")
      case None
      then have "r \<in> set (scanInlineCode source (i + ?run) end')"
        using "1.prems"(2) i tick by (subst (asm) scanInlineCode.simps) (simp add: Let_def)
      then show ?thesis by (rule "1.IH"(2) [OF i tick refl None "1.prems"(1)])
    next
      case (Some close)
      then have "End r = close + ?run \<or> r \<in> set (scanInlineCode source (max (close + ?run) (i + 1)) end')"
        using "1.prems"(2) i tick by (subst (asm) scanInlineCode.simps) (auto simp: Let_def)
      then show ?thesis
      proof
        assume e: "End r = close + ?run"
        note c = findInlineClose_bounds [OF Some "1.prems"(1)]
        have "close + ?run \<le> length (take end' source)"
          using c markerRun_bound [of close "take end' source" TICK] "1.prems"(1) by simp
        moreover have "take end' source ! (close + (?run - 1)) = TICK"
          using c "1.prems"(1) by (intro markerRun_nth) auto
        moreover have "close + (?run - 1) < close + ?run" "close + ?run - 1 = close + (?run - 1)" by linarith+
        ultimately have "source ! (End r - 1) = TICK" using e by (metis length_take min.bounded_iff nth_take order_less_le_trans)
        then show ?thesis by (simp add: last_byte_ok_def)
      qed (rule "1.IH"(3) [OF i tick refl Some "1.prems"(1)])
    qed
  qed
qed

lemma regions_last: "r \<in> set (ScanCodeRegions source) \<Longrightarrow> last_byte_ok source r"
proof -
  have gaps: "r \<in> set (inline_gaps source cursor fences) \<Longrightarrow> list_all (\<lambda>f. Start f \<le> length source) fences \<Longrightarrow> last_byte_ok source r"
    for cursor fences
    by (induction fences arbitrary: cursor) (auto intro: inline_last)
  assume "r \<in> set (ScanCodeRegions source)"
  moreover have "list_all (\<lambda>f. Start f \<le> length source) (scanFences source)"
    using laid_out_between [OF scanFences_laid_out [of 0 source]]
    by (fastforce simp: list_all_iff scanFences_def well_formed_def)
  ultimately show ?thesis
    using gaps fences_last [of r source 0] by (auto simp: ScanCodeRegions_def Let_def scanFences_def)
qed

lemma directive_start:
  "region_directive source r = Some d \<Longrightarrow> cmd_End d = End r \<and> cmd_Start d \<le> Start r \<and>
   (cmd_Start d = Start r \<or> Kind r = CodeRegionInline \<and> Start r = Suc (cmd_Start d) \<and> source ! cmd_Start d = CHR ''!'')"
  by (auto simp: region_directive_def split: codeRegionKind.splits if_splits)

lemma directive_after:
  assumes "laid_out lo (r # rs) (length source)" "list_all (last_byte_ok source) (r # rs)" "r' \<in> set rs"
    and "region_directive source r' = Some d'"
  shows "End r \<le> cmd_Start d'"
proof -
  have s: "End r \<le> Start r'" "well_formed r" using assms(1,3) laid_out_between [of "End r" rs] by auto
  have r': "End r' \<le> length source" "well_formed r'" using assms(1,3) laid_out_between [of "End r" rs] by auto
  show ?thesis
  proof (rule ccontr)
    assume n: "\<not> End r \<le> cmd_Start d'"
    with directive_start [OF assms(4)] s(1) have e: "End r = Suc (cmd_Start d')" "source ! cmd_Start d' = CHR ''!''" "End r = Start r'"
      by auto
    have "End r < length source" using e(3) r' by (auto simp: well_formed_def)
    then have "source ! (End r - 1) \<in> {TICK, LF}" using assms(2) by (auto simp: last_byte_ok_def)
    then show False using e by auto
  qed
qed

lemma directives_ordered:
  "laid_out lo rs (length source) \<Longrightarrow> list_all (last_byte_ok source) rs \<Longrightarrow>
   sorted_wrt (\<lambda>d d'. cmd_End d \<le> cmd_Start d') (List.map_filter (region_directive source) rs)"
proof (induction rs arbitrary: lo)
  case (Cons r rs)
  have rest: "sorted_wrt (\<lambda>d d'. cmd_End d \<le> cmd_Start d') (List.map_filter (region_directive source) rs)"
    using Cons by auto
  show ?case
  proof (cases "region_directive source r")
    case (Some d)
    have "cmd_End d \<le> cmd_Start d'" if "d' \<in> set (List.map_filter (region_directive source) rs)" for d'
      using that directive_after [OF Cons.prems] directive_start [OF Some]
      by (auto simp: List.map_filter_def)
    with rest Some show ?thesis by (simp add: List.map_filter_simps)
  qed (simp add: rest List.map_filter_simps)
qed (simp add: List.map_filter_simps)

text \<open>The command directives of a prompt come in order and do not overlap, so that replacing each by its output
  is well defined; each lies inside the text, holds exactly the code between its delimiters and carries the number of
  the line it starts on.\<close>

theorem directives_disjoint:
  "sorted_wrt (\<lambda>d d'. cmd_End d \<le> cmd_Start d') (ScanCommandDirectives source) \<and>
   list_all (\<lambda>d. cmd_Start d < cmd_ContentStart d \<and> cmd_ContentStart d \<le> cmd_ContentEnd d \<and> cmd_ContentEnd d \<le> cmd_End d \<and>
       cmd_End d \<le> length source \<and> IsCodeOffset (ScanCodeRegions source) (cmd_ContentStart d - 1) \<and>
       Command d = substring source (cmd_ContentStart d) (cmd_ContentEnd d) \<and>
       cmd_Line d = length (filter (\<lambda>c. c = LF) (take (cmd_Start d) source)) + 1)
     (ScanCommandDirectives source)"
proof
  show "sorted_wrt (\<lambda>d d'. cmd_End d \<le> cmd_Start d') (ScanCommandDirectives source)"
    unfolding ScanCommandDirectives_def
    by (rule directives_ordered [OF regions_laid_out]) (simp add: list_all_iff regions_last)
  have "cmd_Start d < cmd_ContentStart d \<and> cmd_ContentStart d \<le> cmd_ContentEnd d \<and> cmd_ContentEnd d \<le> cmd_End d \<and>
      cmd_End d \<le> length source \<and> IsCodeOffset (ScanCodeRegions source) (cmd_ContentStart d - 1) \<and>
      Command d = substring source (cmd_ContentStart d) (cmd_ContentEnd d) \<and>
      cmd_Line d = length (filter (\<lambda>c. c = LF) (take (cmd_Start d) source)) + 1"
    if d: "d \<in> set (ScanCommandDirectives source)" for d
  proof -
    obtain r where r: "r \<in> set (ScanCodeRegions source)" "region_directive source r = Some d"
      using d by (auto simp: ScanCommandDirectives_def List.map_filter_def)
    have w: "well_formed r" "End r \<le> length source" using laid_out_between [OF regions_laid_out r(1)] by simp_all
    have c: "cmd_ContentStart d = ContentStart r" "cmd_ContentEnd d = ContentEnd r" "cmd_End d = End r"
      "cmd_Line d = lineAtOffset source (cmd_Start d)" "Command d = substring source (ContentStart r) (ContentEnd r)"
      using r(2) by (auto simp: region_directive_def split: codeRegionKind.splits if_splits)
    moreover have "IsCodeOffset (ScanCodeRegions source) (ContentStart r - 1)"
      unfolding code_offset_iff using r(1) w by (intro bexI [of _ r]) (auto simp: well_formed_def)
    ultimately show ?thesis
      using w directive_start [OF r(2)] by (auto simp: well_formed_def lineAtOffset_def count_byte_def)
  qed
  then show "list_all (\<lambda>d. cmd_Start d < cmd_ContentStart d \<and> cmd_ContentStart d \<le> cmd_ContentEnd d \<and> cmd_ContentEnd d \<le> cmd_End d \<and>
       cmd_End d \<le> length source \<and> IsCodeOffset (ScanCodeRegions source) (cmd_ContentStart d - 1) \<and>
       Command d = substring source (cmd_ContentStart d) (cmd_ContentEnd d) \<and>
       cmd_Line d = length (filter (\<lambda>c. c = LF) (take (cmd_Start d) source)) + 1)
     (ScanCommandDirectives source)" unfolding list_all_iff by blast
qed

end
