(* ===== verification/Go_Path.thy ===== *)
theory Go_Path
  imports Go_Prelude
begin

text \<open>
  The functions of \<open>path/filepath\<close> the program uses, for a Unix build (separator slash, no volume names):
  \<open>Clean\<close>, \<open>Join\<close>, \<open>Dir\<close>, \<open>Base\<close>, \<open>IsAbs\<close>, \<open>Rel\<close>. A path is taken apart into its components and put
  together again.
\<close>

abbreviation SLASH :: char where "SLASH \<equiv> CHR ''/''"

text \<open>\<open>strings.Split(s, "/")\<close> and \<open>strings.Join(parts, "/")\<close>.\<close>

fun split_on :: "char \<Rightarrow> go_string \<Rightarrow> go_string list" where
  "split_on b [] = [[]]"
| "split_on b (c # s) = (if c = b then [] # split_on b s else (case split_on b s of [] \<Rightarrow> [[c]] | p # ps \<Rightarrow> (c # p) # ps))"

fun join_on :: "char \<Rightarrow> go_string list \<Rightarrow> go_string" where
  "join_on b [] = []"
| "join_on b [p] = p"
| "join_on b (p # q # ps) = p @ b # join_on b (q # ps)"

lemma split_on_nonempty [simp]: "split_on b s \<noteq> []"
  by (induction s) (auto split: list.splits)

lemma join_split [simp]: "join_on b (split_on b s) = s"
proof (induction s)
  case (Cons c s)
  obtain p ps where "split_on b s = p # ps" by (cases "split_on b s") simp_all
  with Cons show ?case by (cases ps) auto
qed simp

lemma split_no_sep: "p \<in> set (split_on b s) \<Longrightarrow> b \<notin> set p"
proof (induction s arbitrary: p)
  case (Cons c s)
  obtain q qs where "split_on b s = q # qs" by (cases "split_on b s") simp_all
  with Cons show ?case by (fastforce split: if_splits)
qed simp

lemma split_single [simp]: "b \<notin> set p \<Longrightarrow> split_on b p = [p]"
  by (induction p) auto

lemma split_append: "b \<notin> set p \<Longrightarrow> split_on b (p @ b # s) = p # split_on b s"
  by (induction p) auto

lemma split_join: "ps \<noteq> [] \<Longrightarrow> (\<And>p. p \<in> set ps \<Longrightarrow> b \<notin> set p) \<Longrightarrow> split_on b (join_on b ps) = ps"
  by (induction b ps rule: join_on.induct) (simp_all add: split_append)

section \<open>Components\<close>

definition parts :: "go_string \<Rightarrow> go_string list" where
  "parts p = filter (\<lambda>c. c \<noteq> []) (split_on SLASH p)"

definition IsAbs :: "go_string \<Rightarrow> bool" where
  "IsAbs p \<longleftrightarrow> prefix ''/'' p"

text \<open>One component of \<open>Clean\<close>: the output so far, on which \<open>..\<close> backs up.\<close>

definition clean_step :: "bool \<Rightarrow> go_string list \<Rightarrow> go_string \<Rightarrow> go_string list" where
  "clean_step rooted out c =
     (if c = [] \<or> c = ''.'' then out
      else if c = ''..'' then
        (if out \<noteq> [] \<and> last out \<noteq> ''..'' then butlast out
         else if rooted then out
         else out @ [''..''])
      else out @ [c])"

definition clean_parts :: "bool \<Rightarrow> go_string list \<Rightarrow> go_string list" where
  "clean_parts rooted cs = foldl (clean_step rooted) [] cs"

definition render_path :: "bool \<Rightarrow> go_string list \<Rightarrow> go_string" where
  "render_path rooted cs =
     (if rooted then SLASH # join_on SLASH cs else if cs = [] then ''.'' else join_on SLASH cs)"

definition Clean :: "go_string \<Rightarrow> go_string" where
  "Clean p = render_path (IsAbs p) (clean_parts (IsAbs p) (split_on SLASH p))"

definition path_join :: "go_string list \<Rightarrow> go_string" where
  "path_join elems = (let es = filter (\<lambda>e. e \<noteq> []) elems in if es = [] then [] else Clean (join_on SLASH es))"

definition path_dir :: "go_string \<Rightarrow> go_string" where
  "path_dir p = Clean (rev (dropWhile (\<lambda>c. c \<noteq> SLASH) (rev p)))"

definition path_base :: "go_string \<Rightarrow> go_string" where
  "path_base p =
     (if p = [] then ''.''
      else let q = trim_right p ''/''
           in if q = [] then ''/'' else rev (takeWhile (\<lambda>c. c \<noteq> SLASH) (rev q)))"

text \<open>\<open>Rel\<close>: the common components are dropped, what is left of the base becomes \<open>..\<close>.\<close>

fun drop_common :: "go_string list \<Rightarrow> go_string list \<Rightarrow> go_string list \<times> go_string list" where
  "drop_common (b # bs) (t # ts) = (if b = t then drop_common bs ts else (b # bs, t # ts))"
| "drop_common bs ts = (bs, ts)"

definition Rel :: "go_string \<Rightarrow> go_string \<Rightarrow> go_string option" where
  "Rel base targ =
     (let b = Clean base; t = Clean targ
      in if t = b then Some ''.''
         else if IsAbs b \<noteq> IsAbs t then None
         else let (bs, ts) = drop_common (if b = ''.'' then [] else parts b) (parts t)
              in if bs \<noteq> [] \<and> hd bs = ''..'' then None
                 else Some (join_on SLASH (replicate (length bs) ''..'' @ ts)))"

section \<open>Clean paths\<close>

text \<open>The components of a clean absolute path.\<close>

definition plain :: "go_string \<Rightarrow> bool" where
  "plain c \<longleftrightarrow> c \<noteq> [] \<and> c \<noteq> ''.'' \<and> c \<noteq> ''..'' \<and> SLASH \<notin> set c"

definition clean_abs :: "go_string \<Rightarrow> bool" where
  "clean_abs p \<longleftrightarrow> IsAbs p \<and> Clean p = p"

lemma parts_no_slash: "c \<in> set (parts p) \<Longrightarrow> c \<noteq> [] \<and> SLASH \<notin> set c"
  by (auto simp: parts_def dest: split_no_sep)

lemma parts_render: "(\<And>c. c \<in> set cs \<Longrightarrow> c \<noteq> [] \<and> SLASH \<notin> set c) \<Longrightarrow> parts (SLASH # join_on SLASH cs) = cs"
  by (cases "cs = []") (auto simp: parts_def split_join filter_id_conv)

lemma clean_parts_plain:
  "(\<And>c. c \<in> set cs \<Longrightarrow> SLASH \<notin> set c) \<Longrightarrow> list_all plain out \<Longrightarrow> list_all plain (foldl (clean_step True) out cs)"
proof (induction cs arbitrary: out)
  case (Cons c cs)
  have "list_all plain (clean_step True out c)"
    using Cons.prems by (auto simp: clean_step_def plain_def list_all_iff dest: in_set_butlastD)
  then show ?case using Cons by simp
qed simp

lemma clean_parts_id: "list_all plain cs \<Longrightarrow> foldl (clean_step rooted) out cs = out @ cs"
  by (induction cs arbitrary: out) (auto simp: clean_step_def plain_def)

lemma clean_parts_skip_empty: "foldl (clean_step rooted) out (filter (\<lambda>c. c \<noteq> []) cs) = foldl (clean_step rooted) out cs"
  by (induction cs arbitrary: out) (auto simp: clean_step_def)

lemma Clean_parts: "Clean p = render_path (IsAbs p) (clean_parts (IsAbs p) (parts p))"
  by (simp add: Clean_def clean_parts_def parts_def clean_parts_skip_empty)

lemma IsAbs_render [simp]: "IsAbs (SLASH # s)"
  by (simp add: IsAbs_def)

lemma parts_Clean_abs:
  assumes "IsAbs p"
  shows "parts (Clean p) = clean_parts True (parts p) \<and> list_all plain (parts (Clean p)) \<and> IsAbs (Clean p)"
proof -
  have "list_all plain (clean_parts True (parts p))"
    unfolding clean_parts_def by (rule clean_parts_plain) (auto dest: parts_no_slash)
  then show ?thesis using assms
    by (auto simp: Clean_parts render_path_def parts_render plain_def list_all_iff)
qed

lemma Clean_idem: "IsAbs p \<Longrightarrow> clean_abs (Clean p)"
  using parts_Clean_abs [of p]
  by (simp add: clean_abs_def) (metis Clean_parts append_Nil clean_parts_def clean_parts_id)

lemma clean_abs_parts:
  "clean_abs p \<Longrightarrow> list_all plain (parts p) \<and> p = SLASH # join_on SLASH (parts p)"
  using parts_Clean_abs [of p] Clean_parts [of p]
  by (auto simp: clean_abs_def render_path_def)

lemma clean_abs_render: "list_all plain cs \<Longrightarrow> clean_abs (SLASH # join_on SLASH cs)"
  by (simp add: clean_abs_def Clean_parts parts_render plain_def list_all_iff render_path_def clean_parts_def)
    (simp add: clean_parts_id [of cs True "[]", unfolded list_all_iff plain_def] )

lemma clean_abs_eq: "clean_abs p \<Longrightarrow> clean_abs q \<Longrightarrow> parts p = parts q \<Longrightarrow> p = q"
  by (metis clean_abs_parts)

section \<open>Containment\<close>

lemma drop_common_prefix: "fst (drop_common bs ts) = [] \<longleftrightarrow> prefix bs ts"
  by (induction bs ts rule: drop_common.induct) auto

lemma drop_common_suffixes:
  "\<exists>cs. bs = cs @ fst (drop_common bs ts) \<and> ts = cs @ snd (drop_common bs ts)"
proof (induction bs ts rule: drop_common.induct)
  case (1 b bs t ts)
  then show ?case by (cases "b = t") (auto intro: exI [of _ "b # _"])
qed auto

text \<open>\<open>Contains\<close> of \<open>root.go\<close> asks whether the relative path leads up; for clean paths that is a question
  about components.\<close>

definition leads_up :: "go_string \<Rightarrow> bool" where
  "leads_up rel \<longleftrightarrow> rel = ''..'' \<or> prefix ''../'' rel"

lemma dotdot_prefix:
  assumes "SLASH \<notin> set p"
  shows "prefix ''../'' (p @ SLASH # s) \<longleftrightarrow> p = ''..''"
proof (cases p)
  case (Cons a q)
  then show ?thesis using assms by (cases q; cases "tl q") auto
qed simp

lemma leads_up_join:
  assumes "list_all (\<lambda>c. SLASH \<notin> set c) cs"
  shows "leads_up (join_on SLASH cs) \<longleftrightarrow> cs \<noteq> [] \<and> hd cs = ''..''"
proof -
  consider "cs = []" | p where "cs = [p]" | p q ps where "cs = p # q # ps" by (cases cs; cases "tl cs") auto
  then show ?thesis
  proof cases
    case 1
    then show ?thesis by (simp add: leads_up_def)
  next
    case 2
    then have "\<not> prefix ''../'' p" using assms by (auto simp: prefix_def)
    then show ?thesis using 2 by (simp add: leads_up_def)
  next
    case 3
    have "p @ SLASH # x \<noteq> ''..''" for x
    proof
      assume "p @ SLASH # x = ''..''"
      then have "SLASH \<in> set (''..'')" by (metis in_set_conv_decomp)
      then show False by simp
    qed
    then show ?thesis using assms 3 dotdot_prefix [of p] by (simp add: leads_up_def)
  qed
qed

lemma Rel_clean:
  assumes "clean_abs b" "clean_abs t"
  shows "\<exists>rel. Rel b t = Some rel \<and> (leads_up rel \<longleftrightarrow> \<not> prefix (parts b) (parts t))"
proof -
  note pb = clean_abs_parts [OF assms(1)] and pt = clean_abs_parts [OF assms(2)]
  have c: "Clean b = b" "Clean t = t" "IsAbs b" "IsAbs t" using assms by (simp_all add: clean_abs_def)
  obtain bs ts where d: "drop_common (parts b) (parts t) = (bs, ts)" by fastforce
  have dot: "b \<noteq> ''.''" using c(3) by (auto simp: IsAbs_def)
  have sub: "list_all plain bs" "list_all plain ts"
    using drop_common_suffixes [of "parts b" "parts t"] d pb pt by (fastforce simp: list_all_iff)+
  show ?thesis
  proof (cases "t = b")
    case True
    then show ?thesis using c by (simp add: Rel_def leads_up_def)
  next
    case False
    have up: "\<not> (bs \<noteq> [] \<and> hd bs = ''..'')" using sub(1) by (cases bs) (auto simp: plain_def)
    have "Rel b t = Some (join_on SLASH (replicate (length bs) ''..'' @ ts))"
      unfolding Rel_def Let_def c using False dot up d c by simp
    moreover have "replicate (length bs) ''..'' @ ts \<noteq> []"
    proof
      assume e: "replicate (length bs) ''..'' @ ts = []"
      then have "parts b = parts t" using drop_common_suffixes [of "parts b" "parts t"] d by auto
      with False clean_abs_eq [OF assms] show False by simp
    qed
    moreover have "list_all (\<lambda>c. SLASH \<notin> set c) (replicate (length bs) ''..'' @ ts)"
      using sub(2) by (simp add: list_all_iff plain_def ball_Un)
    moreover have "hd (replicate (length bs) ''..'' @ ts) = ''..'' \<longleftrightarrow> bs \<noteq> []" if "replicate (length bs) ''..'' @ ts \<noteq> []"
    proof (cases bs)
      case Nil
      then have "plain (hd ts)" using sub(2) that by (cases ts) simp_all
      then show ?thesis using Nil by (simp add: plain_def)
    qed simp
    moreover have "bs = [] \<longleftrightarrow> prefix (parts b) (parts t)" using drop_common_prefix [of "parts b" "parts t"] d by simp
    ultimately show ?thesis using leads_up_join by metis
  qed
qed

section \<open>Parents\<close>

lemma split_snoc: "split_on b (s @ [b]) = split_on b s @ [[]]"
  by (induction s) (auto split: list.splits)

lemma parts_snoc [simp]: "parts (s @ [SLASH]) = parts s"
  by (simp add: parts_def split_snoc)

lemma parts_Cons [simp]: "parts (SLASH # s) = parts s"
  by (simp add: parts_def)

lemma parts_Nil [simp]: "parts [] = []"
  by (simp add: parts_def)

lemma join_snoc: "cs \<noteq> [] \<Longrightarrow> join_on b (cs @ [c]) = join_on b cs @ b # c"
  by (induction b cs rule: join_on.induct) simp_all

text \<open>The length of a list of components with a separator after each.\<close>

definition weight :: "go_string list \<Rightarrow> nat" where
  "weight cs = sum_list (map (\<lambda>c. length c + 1) cs)"

lemma weight_simps [simp]: "weight [] = 0" "weight (c # cs) = length c + 1 + weight cs" "weight (cs @ ds) = weight cs + weight ds"
  by (simp_all add: weight_def)

lemma weight_split: "weight (split_on b s) = length s + 1"
  by (induction s) (auto split: list.splits)

lemma weight_parts: "weight (parts s) \<le> length s + 1"
proof -
  have "weight (filter P cs) \<le> weight cs" for P :: "go_string \<Rightarrow> bool" and cs by (induction cs) auto
  then show ?thesis using weight_split [of SLASH s] by (metis parts_def)
qed

lemma length_join: "cs \<noteq> [] \<Longrightarrow> length (join_on b cs) + 1 = weight cs"
  by (induction b cs rule: join_on.induct) auto

lemma weight_butlast: "weight (butlast cs) \<le> weight cs"
  by (induction cs) auto

lemma weight_clean: "weight (foldl (clean_step rooted) out cs) \<le> weight out + weight cs"
proof (induction cs arbitrary: out)
  case (Cons c cs)
  have "weight (clean_step rooted out c) \<le> weight out + (length c + 1)"
    using weight_butlast [of out] by (auto simp: clean_step_def)
  with Cons [of "clean_step rooted out c"] show ?case by simp
qed simp

lemma length_Clean: "length (Clean p) \<le> max 1 (if IsAbs p then weight (parts p) else weight (parts p) - 1)"
proof -
  define cs where "cs = clean_parts (IsAbs p) (parts p)"
  have w: "weight cs \<le> weight (parts p)" using weight_clean [of "IsAbs p" "[]"] by (simp add: cs_def clean_parts_def)
  have "length (Clean p) \<le> max 1 (if IsAbs p then weight cs else weight cs - 1)"
  proof (cases "cs = []")
    case True
    then show ?thesis unfolding Clean_parts cs_def [symmetric] render_path_def by simp
  next
    case False
    then show ?thesis using length_join [OF False, of SLASH]
      unfolding Clean_parts cs_def [symmetric] render_path_def by auto
  qed
  with w show ?thesis by (auto simp: le_max_iff_disj)
qed

lemma length_Clean_slash: "s \<noteq> [] \<Longrightarrow> length (Clean (s @ [SLASH])) \<le> length s"
proof (cases "IsAbs (s @ [SLASH])")
  case True
  assume s: "s \<noteq> []"
  with True obtain t where "s = SLASH # t" by (cases s) (auto simp: IsAbs_def)
  then show ?thesis using length_Clean [of "s @ [SLASH]"] weight_parts [of t] True by simp
next
  case False
  assume "s \<noteq> []"
  then have "1 \<le> length s" by (cases s) auto
  then show ?thesis using length_Clean [of "s @ [SLASH]"] weight_parts [of s] False by simp
qed

text \<open>Going to the parent ends: the length drops until the path is its own parent.\<close>

definition parent_measure :: "go_string \<Rightarrow> nat" where
  "parent_measure p = (if p = ''.'' then 0 else Suc (length p))"

lemma Clean_Nil [simp]: "Clean [] = ''.''"
  by (simp add: Clean_def IsAbs_def clean_parts_def clean_step_def render_path_def)

lemma Clean_root [simp]: "Clean ''/'' = ''/''"
  by (simp add: Clean_parts IsAbs_def clean_parts_def render_path_def)

lemma dropWhile_no_slash: "SLASH \<notin> set t \<Longrightarrow> dropWhile (\<lambda>c. c \<noteq> SLASH) (rev t @ s) = dropWhile (\<lambda>c. c \<noteq> SLASH) s"
  by (induction t arbitrary: s) auto

lemma path_dir_slash: "SLASH \<notin> set t \<Longrightarrow> path_dir (s @ SLASH # t) = Clean (s @ [SLASH])"
  using dropWhile_no_slash [of t "SLASH # rev s"] by (simp add: path_dir_def)

lemma path_dir_no_slash: "SLASH \<notin> set t \<Longrightarrow> path_dir t = ''.''"
proof -
  assume "SLASH \<notin> set t"
  then have "dropWhile (\<lambda>c. c \<noteq> SLASH) (rev t) = []" by (auto simp only: dropWhile_eq_Nil_conv set_rev)
  then show ?thesis unfolding path_dir_def by (simp only: rev.simps Clean_Nil)
qed

lemma path_dir_decreases: "path_dir p \<noteq> p \<Longrightarrow> parent_measure (path_dir p) < parent_measure p"
proof -
  assume ne: "path_dir p \<noteq> p"
  show ?thesis
  proof (cases "SLASH \<in> set p")
    case False
    with ne path_dir_no_slash [OF False] show ?thesis by (auto simp: parent_measure_def)
  next
    case True
    then obtain s t where p: "p = s @ SLASH # t" "SLASH \<notin> set t" by (meson split_list_last)
    note d = path_dir_slash [OF p(2), of s, folded p(1)]
    have dot: "p \<noteq> ''.''" using True by auto
    show ?thesis
    proof (cases "s = []")
      case Nil: True
      with d ne p(1) have "t \<noteq> []" by auto
      then show ?thesis using d Nil p(1) dot by (simp add: parent_measure_def)
    next
      case False
      then show ?thesis using length_Clean_slash [OF False] d p(1) dot by (simp add: parent_measure_def)
    qed
  qed
qed

lemma clean_abs_split:
  assumes "clean_abs p" "parts p = cs @ [c]"
  obtains pre where "p = pre @ SLASH # c" "parts pre = cs" "SLASH \<notin> set c" "c \<noteq> []" "list_all plain cs"
proof
  have p: "p = SLASH # join_on SLASH (cs @ [c])" and pl: "list_all plain (cs @ [c])"
    using clean_abs_parts [OF assms(1)] assms(2) by simp_all
  let ?pre = "if cs = [] then [] else SLASH # join_on SLASH cs"
  show "p = ?pre @ SLASH # c" using p join_snoc [of cs] by simp
  show "SLASH \<notin> set c" "c \<noteq> []" using pl by (auto simp: plain_def)
  show "list_all plain cs" using pl by simp
  then show "parts ?pre = cs" using parts_render [of cs] by (auto simp: plain_def list_all_iff)
qed

lemma dir_base_clean:
  assumes "clean_abs p" "parts p = cs @ [c]"
  shows "clean_abs (path_dir p) \<and> parts (path_dir p) = cs \<and> path_base p = c"
proof -
  from clean_abs_split [OF assms] obtain pre where
    pre: "p = pre @ SLASH # c" "parts pre = cs" "SLASH \<notin> set c" "c \<noteq> []" "list_all plain cs" .
  have "IsAbs (pre @ [SLASH])" using assms(1) pre(1) by (cases pre) (auto simp: clean_abs_def IsAbs_def)
  then have "clean_abs (Clean (pre @ [SLASH])) \<and> parts (Clean (pre @ [SLASH])) = cs"
    using Clean_idem parts_Clean_abs [of "pre @ [SLASH]"] pre(2,5) clean_parts_id [of cs True "[]"] by (simp add: clean_parts_def)
  moreover have "path_dir p = Clean (pre @ [SLASH])"
    using pre by (simp add: path_dir_slash)
  moreover have "trim_right p ''/'' = p"
    using pre by (cases c rule: rev_cases) (auto simp: trim_right_def)
  then have "path_base p = c" using pre by (simp add: path_base_def takeWhile_append)
  ultimately show ?thesis by simp
qed

lemma dir_root: "clean_abs p \<Longrightarrow> parts p = [] \<Longrightarrow> p = ''/'' \<and> path_dir p = p"
  using clean_abs_parts [of p] path_dir_slash [of "[]" "[]"] by simp

lemma path_join_clean:
  assumes "clean_abs p" "plain c"
  shows "clean_abs (path_join [p, c]) \<and> parts (path_join [p, c]) = parts p @ [c]"
proof -
  have e: "path_join [p, c] = Clean (p @ SLASH # c)" and a: "IsAbs (p @ SLASH # c)"
    using assms by (auto simp: path_join_def clean_abs_def IsAbs_def plain_def prefix_def)
  have "parts (p @ SLASH # c) = parts p @ [c]"
  proof -
    have "split_on SLASH (q @ SLASH # c) = split_on SLASH q @ [c]" for q
      using assms(2) by (induction q) (auto simp: plain_def split: list.splits)
    then show ?thesis using assms(2) by (simp add: parts_def plain_def)
  qed
  moreover have "list_all plain (parts p @ [c])" using assms clean_abs_parts by auto
  ultimately show ?thesis
    using Clean_idem [OF a] parts_Clean_abs [OF a] clean_parts_id [of "parts p @ [c]" True "[]"]
    by (simp only: e clean_parts_def append_Nil)
qed

end
