(* ===== verification/Workspace_Root.thy ===== *)
theory Workspace_Root
  imports Go_Path
begin

text \<open>
  The workspace root of \<open>workspace/root.go\<close>: resolution of paths and the containment check. The operating
  system is a record of functions, one per call the code makes; a run of an operation sees one state of the file
  system.
\<close>

datatype os_error = NotExist | OtherFailure

datatype root_error =
  ErrPathEmpty | ErrOutsideRoot | ErrNotFound | ErrNotDirectory | ErrOS os_error

record file_system =
  fs_cwd :: "os_error + go_string"
  fs_lstat :: "go_string \<Rightarrow> os_error option"
  fs_stat :: "go_string \<Rightarrow> os_error + bool"
  fs_eval :: "go_string \<Rightarrow> os_error + go_string"

text \<open>\<open>fs_stat\<close> tells whether a directory was found. \<open>filepath.Abs\<close> joins a relative path to the current
  directory.\<close>

definition path_abs :: "file_system \<Rightarrow> go_string \<Rightarrow> os_error + go_string" where
  "path_abs fs p = (if IsAbs p then Inr (Clean p) else case fs_cwd fs of Inl e \<Rightarrow> Inl e | Inr wd \<Rightarrow> Inr (path_join [wd, p]))"

definition NewRoot :: "file_system \<Rightarrow> go_string \<Rightarrow> root_error + go_string" where
  "NewRoot fs dir =
     (if dir = [] then Inl ErrPathEmpty
      else case path_abs fs dir of
        Inl e \<Rightarrow> Inl (ErrOS e)
      | Inr abs' \<Rightarrow>
          (case fs_eval fs abs' of
             Inl e \<Rightarrow> Inl (ErrOS e)
           | Inr real' \<Rightarrow>
               (case fs_stat fs real' of
                  Inl e \<Rightarrow> Inl (ErrOS e)
                | Inr isdir \<Rightarrow> if \<not> isdir then Inl ErrNotDirectory else Inr real')))"

text \<open>The loop of \<open>resolveExistingAncestor\<close>: the existing ancestor and the tail, last component first.\<close>

function existing_ancestor :: "file_system \<Rightarrow> go_string list \<Rightarrow> go_string \<Rightarrow> os_error + go_string \<times> go_string list" where
  "existing_ancestor fs tail ancestor =
     (case fs_lstat fs ancestor of
        None \<Rightarrow> Inr (ancestor, tail)
      | Some e \<Rightarrow>
          if e \<noteq> NotExist then Inl e
          else let parent = path_dir ancestor
               in if parent = ancestor then Inl e
                  else existing_ancestor fs (tail @ [path_base ancestor]) parent)"
  by pat_completeness auto
termination
  by (relation "measure (\<lambda>(_, _, p). parent_measure p)") (auto intro: path_dir_decreases)

declare existing_ancestor.simps [simp del]

definition resolveExistingAncestor :: "file_system \<Rightarrow> go_string \<Rightarrow> os_error + go_string" where
  "resolveExistingAncestor fs path0 =
     (case existing_ancestor fs [] (Clean path0) of
        Inl e \<Rightarrow> Inl e
      | Inr (ancestor, tail) \<Rightarrow>
          (case fs_eval fs ancestor of
             Inl e \<Rightarrow> Inl e
           | Inr real' \<Rightarrow> Inr (Clean (foldl (\<lambda>r c. path_join [r, c]) real' (rev tail)))))"

definition Contains :: "go_string \<Rightarrow> go_string \<Rightarrow> bool" where
  "Contains root path = (case Rel root path of None \<Rightarrow> False | Some rel \<Rightarrow> rel \<noteq> ''..'' \<and> \<not> prefix ''../'' rel)"

definition Root_Rel :: "go_string \<Rightarrow> go_string \<Rightarrow> go_string" where
  "Root_Rel dir abs' = (case Rel dir abs' of None \<Rightarrow> abs' | Some rel \<Rightarrow> if rel = ''.'' then ''.'' else rel)"

text \<open>A nil root and the zero root are both the empty directory name.\<close>

definition Resolve :: "file_system \<Rightarrow> go_string \<Rightarrow> go_string \<Rightarrow> root_error + go_string" where
  "Resolve fs dir path =
     (if path = [] then Inl ErrPathEmpty
      else if dir = [] then Inl ErrOutsideRoot
      else let candidate = Clean (if \<not> IsAbs path then path_join [dir, path] else path)
      in case resolveExistingAncestor fs candidate of
           Inl e \<Rightarrow> Inl (ErrOS e)
         | Inr resolved \<Rightarrow> if \<not> Contains dir resolved then Inl ErrOutsideRoot else Inr resolved)"

definition ResolveExisting :: "file_system \<Rightarrow> go_string \<Rightarrow> go_string \<Rightarrow> root_error + go_string" where
  "ResolveExisting fs dir path =
     (case Resolve fs dir path of
        Inl e \<Rightarrow> if e = ErrOS NotExist then Inl ErrNotFound else Inl e
      | Inr resolved \<Rightarrow>
          (case fs_stat fs resolved of
             Inl e \<Rightarrow> if e = NotExist then Inl ErrNotFound else Inl (ErrOS e)
           | Inr _ \<Rightarrow> Inr resolved))"

definition ResolveForWrite :: "file_system \<Rightarrow> go_string \<Rightarrow> go_string \<Rightarrow> root_error + go_string" where
  "ResolveForWrite fs dir path =
     (case Resolve fs dir path of
        Inl e \<Rightarrow> Inl e
      | Inr resolved \<Rightarrow>
          (case resolveExistingAncestor fs (path_dir resolved) of
             Inl e \<Rightarrow> Inl (ErrOS e)
           | Inr parent \<Rightarrow> if \<not> Contains dir parent then Inl ErrOutsideRoot else Inr resolved))"

definition canonicalPath :: "file_system \<Rightarrow> go_string \<Rightarrow> go_string option" where
  "canonicalPath fs path =
     (case path_abs fs path of
        Inl _ \<Rightarrow> None
      | Inr absolute \<Rightarrow> (case resolveExistingAncestor fs absolute of Inl _ \<Rightarrow> None | Inr resolved \<Rightarrow> Some resolved))"

definition ContainsCanonical :: "file_system \<Rightarrow> go_string \<Rightarrow> go_string \<Rightarrow> bool" where
  "ContainsCanonical fs root path =
     (case (canonicalPath fs root, canonicalPath fs path) of
        (Some r, Some p) \<Rightarrow> Contains r p
      | _ \<Rightarrow> False)"

section \<open>Containment\<close>

text \<open>What \<open>EvalSymlinks\<close> documents: its result is clean, and absolute when its argument is.\<close>

definition eval_clean :: "file_system \<Rightarrow> bool" where
  "eval_clean fs \<longleftrightarrow> (\<forall>p q. IsAbs p \<longrightarrow> fs_eval fs p = Inr q \<longrightarrow> clean_abs q)"

lemma contains_iff: "clean_abs r \<Longrightarrow> clean_abs p \<Longrightarrow> Contains r p \<longleftrightarrow> prefix (parts r) (parts p)"
  using Rel_clean [of r p] by (auto simp: Contains_def leads_up_def)

lemma ancestor_parts:
  assumes "clean_abs p" "existing_ancestor fs tail p = Inr (anc, tail')" "list_all plain tail"
  shows "clean_abs anc \<and> fs_lstat fs anc = None \<and> list_all plain tail' \<and> parts p @ rev tail = parts anc @ rev tail'"
  using assms
proof (induction fs tail p rule: existing_ancestor.induct)
  case (1 fs tail p)
  show ?case
  proof (cases "fs_lstat fs p")
    case None
    then show ?thesis using "1.prems" by (simp add: existing_ancestor.simps [of fs tail p])
  next
    case (Some e)
    then have e: "\<not> e \<noteq> NotExist" "path_dir p \<noteq> p"
      and rec: "existing_ancestor fs (tail @ [path_base p]) (path_dir p) = Inr (anc, tail')"
      using "1.prems"(2) by (auto simp: existing_ancestor.simps [of fs tail p] Let_def split: if_splits)
    have ne: "parts p \<noteq> []" using dir_root [OF "1.prems"(1)] e(2) by auto
    then obtain cs c where c: "parts p = cs @ [c]" by (metis append_butlast_last_id)
    note d = dir_base_clean [OF "1.prems"(1) c]
    have "plain c" using clean_abs_parts [OF "1.prems"(1)] c by simp
    with "1.IH" [OF Some e(1) refl e(2) _ rec] d "1.prems"(3) c show ?thesis by simp
  qed
qed

lemma join_tail:
  "clean_abs r \<Longrightarrow> list_all plain cs \<Longrightarrow>
   clean_abs (foldl (\<lambda>r c. path_join [r, c]) r cs) \<and> parts (foldl (\<lambda>r c. path_join [r, c]) r cs) = parts r @ cs"
proof (induction cs arbitrary: r)
  case (Cons c cs)
  have r: "clean_abs (path_join [r, c]) \<and> parts (path_join [r, c]) = parts r @ [c]"
    using path_join_clean Cons.prems by simp
  with Cons.IH [of "path_join [r, c]"] Cons.prems show ?case by simp
qed simp

lemma resolve_ancestor:
  assumes "eval_clean fs" "IsAbs p" "resolveExistingAncestor fs p = Inr q"
  shows "clean_abs q \<and> (\<exists>anc real' tail. fs_lstat fs anc = None \<and> fs_eval fs anc = Inr real' \<and>
    parts (Clean p) = parts anc @ tail \<and> parts q = parts real' @ tail)"
proof -
  obtain anc tail where a: "existing_ancestor fs [] (Clean p) = Inr (anc, tail)"
    using assms(3) by (auto simp: resolveExistingAncestor_def split: sum.splits)
  then obtain real' where r: "fs_eval fs anc = Inr real'" and q: "q = Clean (foldl (\<lambda>r c. path_join [r, c]) real' (rev tail))"
    using assms(3) by (auto simp: resolveExistingAncestor_def split: sum.splits)
  have anc: "clean_abs anc" "fs_lstat fs anc = None" "list_all plain tail" "parts (Clean p) = parts anc @ rev tail"
    using ancestor_parts [OF Clean_idem [OF assms(2)] a] by simp_all
  then have "clean_abs real'" using assms(1) r by (auto simp: eval_clean_def clean_abs_def)
  with anc(3) have "clean_abs (foldl (\<lambda>r c. path_join [r, c]) real' (rev tail)) \<and>
      parts (foldl (\<lambda>r c. path_join [r, c]) real' (rev tail)) = parts real' @ rev tail"
    by (intro join_tail) (simp_all add: list_all_iff)
  moreover from this have "q = foldl (\<lambda>r c. path_join [r, c]) real' (rev tail)" using q by (simp add: clean_abs_def)
  ultimately show ?thesis using anc r by metis
qed

text \<open>What \<open>os.Getwd\<close> documents: a rooted path.\<close>

definition cwd_rooted :: "file_system \<Rightarrow> bool" where
  "cwd_rooted fs \<longleftrightarrow> (case fs_cwd fs of Inl _ \<Rightarrow> True | Inr wd \<Rightarrow> IsAbs wd)"

lemma join_rooted: "IsAbs wd \<Longrightarrow> clean_abs (path_join [wd, p])"
  by (cases "p = []") (auto simp: path_join_def IsAbs_def prefix_def intro!: Clean_idem)

lemma path_abs_clean: "cwd_rooted fs \<Longrightarrow> path_abs fs p = Inr q \<Longrightarrow> clean_abs q"
  by (auto simp: path_abs_def cwd_rooted_def Clean_idem join_rooted split: if_splits sum.splits)

lemma NewRoot_clean: "eval_clean fs \<Longrightarrow> cwd_rooted fs \<Longrightarrow> NewRoot fs dir = Inr root \<Longrightarrow> clean_abs root"
  by (auto simp: NewRoot_def eval_clean_def split: if_splits sum.splits dest!: path_abs_clean) (auto simp: clean_abs_def)

text \<open>The path an operation looks at before links are resolved.\<close>

definition candidate :: "go_string \<Rightarrow> go_string \<Rightarrow> go_string" where
  "candidate root path = Clean (if IsAbs path then path else path_join [root, path])"

lemma candidate_clean: "clean_abs root \<Longrightarrow> clean_abs (candidate root path)"
proof (cases "IsAbs path")
  case True
  then show ?thesis by (simp add: candidate_def Clean_idem)
next
  case False
  assume "clean_abs root"
  then have "clean_abs (path_join [root, path])" using join_rooted by (simp only: clean_abs_def)
  with False show ?thesis by (simp add: candidate_def) (simp add: clean_abs_def)
qed

lemma Resolve_cases:
  assumes "clean_abs root" "path \<noteq> []"
  shows "Resolve fs root path =
    (case resolveExistingAncestor fs (candidate root path) of
       Inl e \<Rightarrow> Inl (ErrOS e)
     | Inr q \<Rightarrow> if Contains root q then Inr q else Inl ErrOutsideRoot)"
proof -
  have "root \<noteq> []" using assms(1) by (auto simp: clean_abs_def IsAbs_def)
  then show ?thesis using assms(2) by (simp add: Resolve_def candidate_def Let_def split: sum.splits)
qed

lemma Resolve_Inr:
  assumes "eval_clean fs" "clean_abs root" "Resolve fs root path = Inr p"
  shows "clean_abs p \<and> prefix (parts root) (parts p) \<and>
    (\<exists>anc real' tail. fs_lstat fs anc = None \<and> fs_eval fs anc = Inr real' \<and>
      parts (candidate root path) = parts anc @ tail \<and> parts p = parts real' @ tail)"
proof -
  have "path \<noteq> []" using assms(3) by (auto simp: Resolve_def)
  then have r: "resolveExistingAncestor fs (candidate root path) = Inr p" and c: "Contains root p"
    using assms(2,3) Resolve_cases [of root path fs] by (auto split: sum.splits if_splits)
  have cand: "IsAbs (candidate root path)" "Clean (candidate root path) = candidate root path"
    using candidate_clean [OF assms(2)] by (simp_all add: clean_abs_def)
  from resolve_ancestor [OF assms(1) cand(1) r] show ?thesis
    using contains_iff [OF assms(2)] c unfolding cand(2) by blast
qed

lemma Resolve_existing:
  assumes "eval_clean fs" "clean_abs root" "path \<noteq> []"
    and "fs_lstat fs (candidate root path) = None" "fs_eval fs (candidate root path) = Inr q"
  shows "Resolve fs root path = (if prefix (parts root) (parts q) then Inr q else Inl ErrOutsideRoot)"
proof -
  have cand: "IsAbs (candidate root path)" "Clean (candidate root path) = candidate root path"
    using candidate_clean [OF assms(2)] by (simp_all add: clean_abs_def)
  then have q: "clean_abs q" using assms(1,5) by (auto simp: eval_clean_def)
  have "resolveExistingAncestor fs (candidate root path) = Inr q"
    using assms(4,5) q by (simp add: resolveExistingAncestor_def cand existing_ancestor.simps clean_abs_def)
  then show ?thesis using Resolve_cases [OF assms(2,3)] contains_iff [OF assms(2) q] by simp
qed

lemma Resolve_variants:
  "ResolveExisting fs root path = Inr p \<Longrightarrow> Resolve fs root path = Inr p"
  "ResolveForWrite fs root path = Inr p \<Longrightarrow> Resolve fs root path = Inr p"
  by (auto simp: ResolveExisting_def ResolveForWrite_def split: sum.splits if_splits)

text \<open>C13: Whatever path a tool passes, absolute, relative, with dots or through symbolic links, a path that the
  workspace root resolves is clean, absolute and lies in the root directory; it is the link-free location of an
  existing ancestor of the requested path followed by the components that do not exist yet. A request for an existing
  file is answered with its real location when that is in the root, and refused otherwise.\<close>

theorem resolve_contained:
  assumes "eval_clean fs" and "cwd_rooted fs" and "NewRoot fs dir = Inr root"
  shows "(Inr p \<in> {Resolve fs root path, ResolveExisting fs root path, ResolveForWrite fs root path} \<longrightarrow>
      clean_abs p \<and> prefix (parts root) (parts p) \<and>
      (\<exists>anc real' tail. fs_lstat fs anc = None \<and> fs_eval fs anc = Inr real' \<and>
        parts (candidate root path) = parts anc @ tail \<and> parts p = parts real' @ tail)) \<and>
    (path \<noteq> [] \<and> fs_lstat fs (candidate root path) = None \<and> fs_eval fs (candidate root path) = Inr q \<longrightarrow>
      Resolve fs root path = (if prefix (parts root) (parts q) then Inr q else Inl ErrOutsideRoot))"
proof -
  have root: "clean_abs root" by (rule NewRoot_clean [OF assms])
  have "Resolve fs root path = Inr p"
    if "Inr p \<in> {Resolve fs root path, ResolveExisting fs root path, ResolveForWrite fs root path}"
    using that Resolve_variants [of fs root path p] by auto
  then show ?thesis
    using Resolve_Inr [OF assms(1) root] Resolve_existing [OF assms(1) root] by blast
qed

theorem resolve_contained_witness:
  "let fs = \<lparr>fs_cwd = Inr ''/w'', fs_lstat = (\<lambda>p. None), fs_stat = (\<lambda>p. Inr True),
        fs_eval = (\<lambda>p. if p = ''/w'' then Inr ''/w'' else Inr ''/etc/passwd'')\<rparr>
   in NewRoot fs ''/w'' = Inr ''/w'' \<and> Resolve fs ''/w'' ''link'' = Inl ErrOutsideRoot"
proof -
  define fs where "fs = \<lparr>fs_cwd = Inr ''/w'', fs_lstat = (\<lambda>p. None), fs_stat = (\<lambda>p. Inr True),
        fs_eval = (\<lambda>p. if p = ''/w'' then Inr ''/w'' else Inr ''/etc/passwd'')\<rparr>"
  have clean: "clean_abs ''/w''" "clean_abs ''/etc/passwd''"
    by (simp_all add: clean_abs_def IsAbs_def Clean_def clean_parts_def clean_step_def render_path_def)
  have fs: "eval_clean fs" "cwd_rooted fs" using clean by (auto simp: fs_def eval_clean_def cwd_rooted_def IsAbs_def)
  have root: "NewRoot fs ''/w'' = Inr ''/w''" using clean by (simp add: NewRoot_def path_abs_def fs_def clean_abs_def)
  have cand: "candidate ''/w'' ''link'' = ''/w/link''"
    by (simp add: candidate_def path_join_def IsAbs_def Clean_def clean_parts_def clean_step_def render_path_def)
  have "Resolve fs ''/w'' ''link'' = (if prefix (parts ''/w'') (parts ''/etc/passwd'') then Inr ''/etc/passwd'' else Inl ErrOutsideRoot)"
  proof -
    have "''link'' \<noteq> [] \<and> fs_lstat fs (candidate ''/w'' ''link'') = None \<and> fs_eval fs (candidate ''/w'' ''link'') = Inr ''/etc/passwd''"
      unfolding cand by (simp add: fs_def)
    then show ?thesis using resolve_contained [OF fs root, of "[]" "''link''" "''/etc/passwd''"] by blast
  qed
  then have "Resolve fs ''/w'' ''link'' = Inl ErrOutsideRoot" by (simp add: parts_def)
  with root show ?thesis by (simp add: fs_def)
qed

end
