(* ===== verification/Workspace_State.thy ===== *)
theory Workspace_State
  imports Go_Path
begin

text \<open>
  Shared state of a workspace: the read ledger (\<open>workspace/ledger.go\<close>), the mutation queue
  (\<open>workspace/queue.go\<close>) and the touch bus (\<open>workspace/touch.go\<close>). Ledger and bus operations run under
  their mutex, so each is one atomic step; the queue is modelled by the steps of its concurrent callers.
\<close>

section \<open>The read ledger\<close>

datatype ledger_error = ErrNeverRead | ErrStaleRead

type_synonym ledgerKey = "go_string \<times> go_string"

record ledgerEntry =
  entry_hash :: go_string
  entry_size :: int
  entry_at :: int

type_synonym ledger = "(ledgerKey, ledgerEntry) gomap"

definition NewLedger :: ledger where "NewLedger = []"

text \<open>\<open>filepath.ToSlash\<close> is the identity where the separator is the slash.\<close>

definition normalizeLedgerPath :: "go_string \<Rightarrow> go_string" where
  "normalizeLedgerPath path = Clean path"

definition ledger_record :: "go_string \<Rightarrow> go_string \<Rightarrow> int \<Rightarrow> go_string \<Rightarrow> int \<Rightarrow> ledger \<Rightarrow> ledger" where
  "ledger_record sid path size' hash now l =
     AList.update (sid, normalizeLedgerPath path) \<lparr>entry_hash = hash, entry_size = size', entry_at = now\<rparr> l"

definition RecordRead :: "go_string \<Rightarrow> go_string \<Rightarrow> int \<Rightarrow> go_string \<Rightarrow> int \<Rightarrow> ledger \<Rightarrow> ledger" where
  "RecordRead = ledger_record"

definition RecordWrite :: "go_string \<Rightarrow> go_string \<Rightarrow> int \<Rightarrow> go_string \<Rightarrow> int \<Rightarrow> ledger \<Rightarrow> ledger" where
  "RecordWrite = ledger_record"

definition VerifyWrite :: "go_string \<Rightarrow> go_string \<Rightarrow> int \<Rightarrow> go_string \<Rightarrow> bool \<Rightarrow> ledger \<Rightarrow> ledger_error option" where
  "VerifyWrite sid path size' hash exists l =
     (if \<not> exists then None
      else case map_of l (sid, normalizeLedgerPath path) of
        None \<Rightarrow> Some ErrNeverRead
      | Some entry \<Rightarrow> if entry_size entry \<noteq> size' \<or> entry_hash entry \<noteq> hash then Some ErrStaleRead else None)"

definition Verify :: "go_string \<Rightarrow> go_string \<Rightarrow> int \<Rightarrow> go_string \<Rightarrow> ledger \<Rightarrow> ledger_error option" where
  "Verify sid path size' hash l = VerifyWrite sid path size' hash True l"

definition Forget :: "go_string \<Rightarrow> go_string \<Rightarrow> ledger \<Rightarrow> ledger" where
  "Forget sid path l = AList.delete (sid, normalizeLedgerPath path) l"

definition ForgetSession :: "go_string \<Rightarrow> ledger \<Rightarrow> ledger" where
  "ForgetSession sid l = filter (\<lambda>(key, _). fst key \<noteq> sid) l"

text \<open>The ledger against the history of calls: what was last read or written under a path, unless forgotten.\<close>

datatype ledger_call =
    CallRead go_string go_string int go_string int
  | CallWrite go_string go_string int go_string int
  | CallForget go_string go_string
  | CallForgetSession go_string

fun ledger_perform :: "ledger_call \<Rightarrow> ledger \<Rightarrow> ledger" where
  "ledger_perform (CallRead sid path size' hash now) l = RecordRead sid path size' hash now l"
| "ledger_perform (CallWrite sid path size' hash now) l = RecordWrite sid path size' hash now l"
| "ledger_perform (CallForget sid path) l = Forget sid path l"
| "ledger_perform (CallForgetSession sid) l = ForgetSession sid l"

text \<open>The newest call comes first.\<close>

fun last_known :: "go_string \<Rightarrow> go_string \<Rightarrow> ledger_call list \<Rightarrow> (int \<times> go_string) option" where
  "last_known sid file [] = None"
| "last_known sid file (CallRead s p size' hash now # calls) =
     (if s = sid \<and> Clean p = file then Some (size', hash) else last_known sid file calls)"
| "last_known sid file (CallWrite s p size' hash now # calls) =
     (if s = sid \<and> Clean p = file then Some (size', hash) else last_known sid file calls)"
| "last_known sid file (CallForget s p # calls) = (if s = sid \<and> Clean p = file then None else last_known sid file calls)"
| "last_known sid file (CallForgetSession s # calls) = (if s = sid then None else last_known sid file calls)"

lemma map_of_drop_session:
  "map_of (filter (\<lambda>(key, _). fst key \<noteq> sid) l) (s, p) = (if s = sid then None else map_of l (s, p))"
  by (induction l) auto

lemma ledger_history:
  "map_option (\<lambda>e. (entry_size e, entry_hash e)) (map_of (foldr ledger_perform calls NewLedger) (sid, file)) = last_known sid file calls"
proof (induction calls)
  case Nil
  then show ?case by (simp add: NewLedger_def)
next
  case (Cons c calls)
  then show ?case
    by (cases c) (auto simp: RecordRead_def RecordWrite_def ledger_record_def normalizeLedgerPath_def Forget_def
      ForgetSession_def map_of_drop_session)
qed

text \<open>C14: Whether a write is let through depends only on the history of the same session and the same cleaned path: a
  new file always is; an existing one is exactly when the last recorded read or write of it that was not forgotten
  since had the size and hash the file has now, otherwise the error says whether it was never read or is stale.\<close>

theorem verify_history:
  "VerifyWrite sid path size' hash exists (foldr ledger_perform calls NewLedger) =
     (if exists
      then (case last_known sid (Clean path) calls of
              None \<Rightarrow> Some ErrNeverRead
            | Some known \<Rightarrow> if known = (size', hash) then None else Some ErrStaleRead)
      else None)"
  using ledger_history [of calls sid "Clean path"]
  by (auto simp: VerifyWrite_def normalizeLedgerPath_def split: option.splits)

section \<open>The mutation queue\<close>

text \<open>
  \<open>Do\<close> of any number of callers. \<open>sem\<close> is the number of values in the channel of capacity one. A caller is
  between its first context check and the first \<open>select\<close> (\<open>Selecting\<close>), in the blocking \<open>select\<close>
  (\<open>Blocked\<close>), past the send (\<open>Holding\<close>), in \<open>fn\<close> (\<open>Running\<close>), in the deferred receive
  (\<open>Releasing\<close>), or has returned.
\<close>

datatype outcome = CtxError | Returned | Panicked

datatype queue_phase = Calling | Selecting | Blocked | Holding | Running | Releasing outcome | Finished outcome

record 'c queue_state =
  sem :: nat
  phase_of :: "'c \<Rightarrow> queue_phase"
  cancelled :: "'c set"

definition NewMutationQueue :: "'c queue_state" where
  "NewMutationQueue = \<lparr>sem = 0, phase_of = (\<lambda>_. Calling), cancelled = {}\<rparr>"

abbreviation move :: "'c \<Rightarrow> queue_phase \<Rightarrow> 'c queue_state \<Rightarrow> 'c queue_state" where
  "move c p s \<equiv> s\<lparr>phase_of := (phase_of s)(c := p)\<rparr>"

inductive Do_step :: "'c queue_state \<Rightarrow> 'c queue_state \<Rightarrow> bool" where
  first_check_fails: "phase_of s c = Calling \<Longrightarrow> c \<in> cancelled s \<Longrightarrow> Do_step s (move c (Finished CtxError) s)"
| first_check_passes: "phase_of s c = Calling \<Longrightarrow> c \<notin> cancelled s \<Longrightarrow> Do_step s (move c Selecting s)"
| send_at_once: "phase_of s c = Selecting \<Longrightarrow> sem s = 0 \<Longrightarrow> Do_step s (move c Holding (s\<lparr>sem := 1\<rparr>))"
| send_would_block: "phase_of s c = Selecting \<Longrightarrow> sem s = 1 \<Longrightarrow> Do_step s (move c Blocked s)"
| send_after_wait: "phase_of s c = Blocked \<Longrightarrow> sem s = 0 \<Longrightarrow> Do_step s (move c Holding (s\<lparr>sem := 1\<rparr>))"
| wait_cancelled: "phase_of s c = Blocked \<Longrightarrow> c \<in> cancelled s \<Longrightarrow> Do_step s (move c (Finished CtxError) s)"
| second_check_fails: "phase_of s c = Holding \<Longrightarrow> c \<in> cancelled s \<Longrightarrow> Do_step s (move c (Releasing CtxError) s)"
| second_check_passes: "phase_of s c = Holding \<Longrightarrow> c \<notin> cancelled s \<Longrightarrow> Do_step s (move c Running s)"
| fn_returns: "phase_of s c = Running \<Longrightarrow> Do_step s (move c (Releasing Returned) s)"
| fn_panics: "phase_of s c = Running \<Longrightarrow> Do_step s (move c (Releasing Panicked) s)"
| release: "phase_of s c = Releasing r \<Longrightarrow> sem s = 1 \<Longrightarrow> Do_step s (move c (Finished r) (s\<lparr>sem := 0\<rparr>))"

text \<open>The environment cancels contexts at any time.\<close>

inductive queue_reachable :: "'c queue_state \<Rightarrow> bool" where
  init: "queue_reachable NewMutationQueue"
| step: "queue_reachable s \<Longrightarrow> Do_step s t \<Longrightarrow> queue_reachable t"
| cancel: "queue_reachable s \<Longrightarrow> queue_reachable (s\<lparr>cancelled := insert c (cancelled s)\<rparr>)"

fun in_slot :: "queue_phase \<Rightarrow> bool" where
  "in_slot Holding = True"
| "in_slot Running = True"
| "in_slot (Releasing _) = True"
| "in_slot _ = False"

fun_cases in_slotE: "in_slot p"

inductive_cases Do_stepE: "Do_step s t"

text \<open>The channel holds a value exactly while one caller is between its send and its receive.\<close>

definition slot_inv :: "'c queue_state \<Rightarrow> bool" where
  "slot_inv s \<longleftrightarrow> (sem s = 0 \<and> (\<forall>c. \<not> in_slot (phase_of s c))) \<or>
     (sem s = 1 \<and> (\<exists>c. in_slot (phase_of s c) \<and> (\<forall>d. in_slot (phase_of s d) \<longrightarrow> d = c)))"

lemma slot_kept: "slot_inv s \<Longrightarrow> in_slot p = in_slot (phase_of s c) \<Longrightarrow> slot_inv (move c p s)"
  unfolding slot_inv_def by (simp add: fun_upd_def) metis

lemma slot_entered: "slot_inv s \<Longrightarrow> sem s = 0 \<Longrightarrow> in_slot p \<Longrightarrow> slot_inv (s\<lparr>sem := Suc 0, phase_of := (phase_of s)(c := p)\<rparr>)"
  unfolding slot_inv_def by auto

lemma slot_left: "slot_inv s \<Longrightarrow> in_slot (phase_of s c) \<Longrightarrow> \<not> in_slot p \<Longrightarrow> slot_inv (s\<lparr>sem := 0, phase_of := (phase_of s)(c := p)\<rparr>)"
  unfolding slot_inv_def by auto

lemma slot_inv_step: "Do_step s t \<Longrightarrow> slot_inv s \<Longrightarrow> slot_inv t"
  by (induction rule: Do_step.induct) (simp_all add: slot_kept slot_entered slot_left)

lemma slot_inv_init: "slot_inv NewMutationQueue"
  by (simp add: slot_inv_def NewMutationQueue_def)

lemma slot_inv_cancel: "slot_inv s \<Longrightarrow> slot_inv (s\<lparr>cancelled := C\<rparr>)"
  by (simp add: slot_inv_def)

lemma reachable_slot: "queue_reachable s \<Longrightarrow> slot_inv s"
  by (induction rule: queue_reachable.induct) (simp_all add: slot_inv_step slot_inv_init slot_inv_cancel)

lemma slot_unique: "slot_inv s \<Longrightarrow> in_slot (phase_of s c) \<Longrightarrow> in_slot (phase_of s d) \<Longrightarrow> c = d"
  by (auto simp: slot_inv_def)

text \<open>A caller inside the slot can always move; one outside can move unless the slot is taken or its wait is over.\<close>

lemma slot_moves:
  assumes "slot_inv s" "in_slot (phase_of s c)"
  shows "\<exists>t. Do_step s t"
proof -
  have one: "sem s = 1" using assms by (auto simp: slot_inv_def)
  from assms(2) show ?thesis
  proof (rule in_slotE)
    assume "phase_of s c = Holding"
    then show ?thesis by (cases "c \<in> cancelled s") (blast intro: Do_step.intros)+
  next
    assume "phase_of s c = Running"
    then show ?thesis by (blast intro: Do_step.intros)
  next
    fix r assume "phase_of s c = Releasing r"
    then show ?thesis using one by (blast intro: Do_step.intros)
  qed
qed

lemma queue_moves:
  assumes "slot_inv s" "\<forall>r. phase_of s c \<noteq> Finished r"
  shows "\<exists>t. Do_step s t"
proof (cases "\<exists>d. in_slot (phase_of s d)")
  case True
  then show ?thesis using slot_moves [OF assms(1)] by blast
next
  case False
  then have zero: "sem s = 0" using assms(1) by (auto simp: slot_inv_def)
  have "\<not> in_slot (phase_of s c)" using False by blast
  then consider "phase_of s c = Calling" | "phase_of s c = Selecting" | "phase_of s c = Blocked"
    using assms(2) by (cases "phase_of s c") auto
  then show ?thesis
  proof cases
    case 1
    then show ?thesis by (cases "c \<in> cancelled s") (blast intro: Do_step.intros)+
  qed (use zero in \<open>blast intro: Do_step.intros\<close>)+
qed

text \<open>C15: However the calls of \<open>Do\<close> interleave and whenever contexts are cancelled, two mutations never run at
  once, the channel never holds more than one value, a value is in it exactly while some caller owes the receive, and
  as long as a call has not returned some caller can move, so the queue neither deadlocks nor loses its slot.\<close>

theorem mutations_serialized:
  assumes "queue_reachable s"
  shows "(phase_of s c = Running \<and> phase_of s d = Running \<longrightarrow> c = d) \<and> sem s \<le> 1 \<and>
    (sem s = 1 \<longleftrightarrow> (\<exists>c. in_slot (phase_of s c))) \<and>
    ((\<exists>c. \<forall>r. phase_of s c \<noteq> Finished r) \<longrightarrow> (\<exists>t. Do_step s t))"
proof (intro conjI)
  note inv = reachable_slot [OF assms]
  show "phase_of s c = Running \<and> phase_of s d = Running \<longrightarrow> c = d" using slot_unique [OF inv, of c d] by simp
  show "sem s \<le> 1" "sem s = 1 \<longleftrightarrow> (\<exists>c. in_slot (phase_of s c))" using inv by (auto simp: slot_inv_def)
  show "(\<exists>c. \<forall>r. phase_of s c \<noteq> Finished r) \<longrightarrow> (\<exists>t. Do_step s t)" using queue_moves [OF inv] by blast
qed

theorem mutations_serialized_witness:
  "\<exists>t. Do_step (move (0::nat) Selecting NewMutationQueue) t"
proof -
  have "Do_step NewMutationQueue (move (0::nat) Selecting NewMutationQueue)"
    by (rule first_check_passes) (simp_all add: NewMutationQueue_def)
  then have reach: "queue_reachable (move (0::nat) Selecting NewMutationQueue)"
    by (rule queue_reachable.step [OF queue_reachable.init])
  have "\<forall>r. phase_of (move (0::nat) Selecting NewMutationQueue) 0 \<noteq> Finished r" by simp
  then have "\<exists>c. \<forall>r. phase_of (move (0::nat) Selecting NewMutationQueue) c \<noteq> Finished r" by (rule exI)
  then show ?thesis by (rule mutations_serialized [OF reach, THEN conjunct2, THEN conjunct2, THEN conjunct2, THEN mp])
qed

section \<open>The touch bus\<close>

definition NormalizeTouchPath :: "go_string \<Rightarrow> go_string" where
  "NormalizeTouchPath path = trim_prefix (map (\<lambda>c. if c = CHR 0x5C then SLASH else c) path) ''./''"

datatype touchKind = TouchRead | TouchWrite | TouchEdit | TouchList | TouchSearch | TouchDelete

record touch =
  t_SessionID :: go_string
  t_InvocationID :: go_string
  t_Path :: go_string
  t_Kind :: touchKind
  t_Content :: "go_string option"
  t_Version :: int
  t_At :: int

text \<open>
  An observer changes some world; a panic of it is recovered, so all that is left of it is the change made before.
  The closure that \<open>Subscribe\<close> returns is the id it captured and the flag of its \<open>sync.Once\<close>, kept in
  \<open>spent\<close>.
\<close>

type_synonym 'w observer = "touch \<Rightarrow> 'w \<Rightarrow> 'w"

record 'w touchBus =
  subscribers :: "(64 word \<times> 'w observer) list"
  nextSubscriber :: "64 word"
  spent :: "64 word set"

definition NewTouchBus :: "'w touchBus" where
  "NewTouchBus = \<lparr>subscribers = [], nextSubscriber = 0, spent = {}\<rparr>"

definition Subscribe :: "'w observer \<Rightarrow> 'w touchBus \<Rightarrow> 64 word \<times> 'w touchBus" where
  "Subscribe observer b =
     (let id' = nextSubscriber b + 1
      in (id', b\<lparr>nextSubscriber := id', subscribers := subscribers b @ [(id', observer)]\<rparr>))"

fun remove_first :: "64 word \<Rightarrow> (64 word \<times> 'w observer) list \<Rightarrow> (64 word \<times> 'w observer) list" where
  "remove_first id' [] = []"
| "remove_first id' (x # xs) = (if fst x = id' then xs else x # remove_first id' xs)"

definition Unsubscribe :: "64 word \<Rightarrow> 'w touchBus \<Rightarrow> 'w touchBus" where
  "Unsubscribe id' b =
     (if id' \<in> spent b then b else b\<lparr>spent := insert id' (spent b), subscribers := remove_first id' (subscribers b)\<rparr>)"

definition Publish :: "touch \<Rightarrow> 'w touchBus \<Rightarrow> 'w \<Rightarrow> 'w" where
  "Publish t b w = foldl (\<lambda>w x. snd x t w) w (subscribers b)"

end
