(* ===== verification/Session_Paths.thy ===== *)
theory Session_Paths
  imports Go_Path Go_Utf8
begin

text \<open>
  File names of the session store, \<open>sessionstore/paths.go\<close>, and the scopes of session state,
  \<open>sessionstore/state.go\<close>: percent-encoding of identifiers, the paths built from them, and splitting and
  merging state by key prefix.
\<close>

section \<open>Encoded segments\<close>

datatype store_error =
    ErrSessionNotFound | ErrSessionExists | ErrCorruptLog | ErrInvalidID | ErrInvalidEvent | ErrClosed
  | ErrRecordConflict | ErrOrderExhausted | ErrJournalMissing | ErrIO | ErrRequest

definition maxSegmentLen :: nat where "maxSegmentLen = 200"

abbreviation PERCENT :: char where "PERCENT \<equiv> CHR ''%''"

definition isUnreserved :: "char \<Rightarrow> bool" where
  "isUnreserved b \<longleftrightarrow> 65 \<le> byte b \<and> byte b \<le> 90 \<or> 97 \<le> byte b \<and> byte b \<le> 122 \<or> 48 \<le> byte b \<and> byte b \<le> 57 \<or>
     b = CHR ''.'' \<or> b = CHR ''_'' \<or> b = CHR ''-''"

definition hexUpper :: "nat \<Rightarrow> char" where
  "hexUpper v = (if v < 10 then byte_char (48 + v) else byte_char (65 + v - 10))"

definition fromUpperHex :: "char \<Rightarrow> nat option" where
  "fromUpperHex c =
     (if 48 \<le> byte c \<and> byte c \<le> 57 then Some (byte c - 48)
      else if 65 \<le> byte c \<and> byte c \<le> 70 then Some (byte c - 65 + 10)
      else None)"

text \<open>The high nibble is \<open>b >> 4\<close>, the low one \<open>b & 0x0f\<close>.\<close>

definition encode_byte :: "go_string \<Rightarrow> char \<Rightarrow> go_string" where
  "encode_byte v b =
     (if isUnreserved b \<and> (length v \<noteq> 1 \<or> b \<noteq> CHR ''.'') \<and> (length v \<noteq> 2 \<or> v \<noteq> ''..'') then [b]
      else [PERCENT, hexUpper (byte b div 16), hexUpper (byte b mod 16)])"

definition encodePathSegment :: "go_string \<Rightarrow> go_string" where
  "encodePathSegment v = concat (map (encode_byte v) v)"

definition encodeSegment :: "go_string \<Rightarrow> store_error + go_string" where
  "encodeSegment v =
     (if v = [] then Inl ErrInvalidID
      else let encoded = encodePathSegment v
      in if length encoded > maxSegmentLen then Inl ErrInvalidID else Inr encoded)"

fun decode_bytes :: "go_string \<Rightarrow> go_string option" where
  "decode_bytes [] = Some []"
| "decode_bytes (b # s) =
     (if isUnreserved b then map_option (\<lambda>d. b # d) (decode_bytes s)
      else if b = PERCENT
      then (case s of
              h # l # s' \<Rightarrow>
                (case (fromUpperHex h, fromUpperHex l) of
                   (Some hi, Some lo) \<Rightarrow> map_option (\<lambda>d. byte_char (hi * 16 + lo) # d) (decode_bytes s')
                 | _ \<Rightarrow> None)
            | _ \<Rightarrow> None)
      else None)"

definition decodeSegment :: "go_string \<Rightarrow> store_error + go_string" where
  "decodeSegment encoded =
     (if encoded = [] \<or> length encoded > maxSegmentLen then Inl ErrInvalidID
      else case decode_bytes encoded of
        None \<Rightarrow> Inl ErrInvalidID
      | Some decoded \<Rightarrow>
          (case encodeSegment decoded of
             Inl _ \<Rightarrow> Inl ErrInvalidID
           | Inr canonical \<Rightarrow> if canonical \<noteq> encoded then Inl ErrInvalidID else Inr decoded))"

definition encodeIdentity :: "go_string \<Rightarrow> go_string \<Rightarrow> store_error + go_string \<times> go_string" where
  "encodeIdentity app user =
     (case encodeSegment app of
        Inl e \<Rightarrow> Inl e
      | Inr a \<Rightarrow> (case encodeSegment user of Inl e \<Rightarrow> Inl e | Inr u \<Rightarrow> Inr (a, u)))"

lemma hex_digit: "v < 16 \<Longrightarrow> fromUpperHex (hexUpper v) = Some v \<and> isUnreserved (hexUpper v) \<and> byte (hexUpper v) < 0x80"
  by (auto simp: fromUpperHex_def hexUpper_def isUnreserved_def)

lemma percent_reserved: "\<not> isUnreserved PERCENT"
  by (simp add: isUnreserved_def byte_def)

lemma nibbles: "byte_char (byte b div 16 * 16 + byte b mod 16) = b"
  using div_mult_mod_eq [of "byte b" 16] by simp

lemma decode_encode_byte: "decode_bytes (encode_byte v b @ s) = map_option (\<lambda>d. b # d) (decode_bytes s)"
proof -
  have "byte b div 16 < 16" using byte_less [of b] by linarith
  then show ?thesis
    using hex_digit [of "byte b div 16"] hex_digit [of "byte b mod 16"] nibbles [of b] percent_reserved
    by (auto simp: encode_byte_def)
qed

lemma decode_encode_bytes: "decode_bytes (concat (map (encode_byte v) bs)) = Some bs"
  by (induction bs) (simp_all add: decode_encode_byte)

lemma encodeSegment_nonempty: "encodeSegment v = Inr e \<Longrightarrow> e \<noteq> [] \<and> length e \<le> maxSegmentLen \<and> e = encodePathSegment v \<and> v \<noteq> []"
  by (cases v) (auto simp: encodeSegment_def Let_def encodePathSegment_def encode_byte_def split: if_splits)

lemma segment_bijection: "decodeSegment e = Inr v \<longleftrightarrow> encodeSegment v = Inr e"
proof
  assume v: "encodeSegment v = Inr e"
  have "e \<noteq> []" "\<not> maxSegmentLen < length e" "e = encodePathSegment v" using encodeSegment_nonempty [OF v] by auto
  moreover from this(3) have "decode_bytes e = Some v" using decode_encode_bytes [of v v] by (simp add: encodePathSegment_def)
  ultimately show "decodeSegment e = Inr v" using v by (simp only: decodeSegment_def if_False simp_thms option.case sum.case)
qed (auto simp: decodeSegment_def split: if_splits option.splits sum.splits)

section \<open>What an encoded segment looks like\<close>

definition segment_char :: "char \<Rightarrow> bool" where
  "segment_char c \<longleftrightarrow> isUnreserved c \<or> c = PERCENT"

lemma encode_byte_chars: "c \<in> set (encode_byte v b) \<Longrightarrow> segment_char c"
proof -
  have "byte b div 16 < 16" using byte_less [of b] by linarith
  then show "c \<in> set (encode_byte v b) \<Longrightarrow> segment_char c"
    using hex_digit [of "byte b div 16"] hex_digit [of "byte b mod 16"]
    by (auto simp: encode_byte_def segment_char_def split: if_splits)
qed

lemma encoded_chars: "c \<in> set (encodePathSegment v) \<Longrightarrow> segment_char c"
  by (auto simp: encodePathSegment_def encode_byte_chars)

lemma encoded_not_dots: "encodePathSegment v \<noteq> ''.'' \<and> encodePathSegment v \<noteq> ''..''"
proof -
  have dec: "decode_bytes (encodePathSegment v) = Some v" using decode_encode_bytes [of v v] by (simp add: encodePathSegment_def)
  have dot: "isUnreserved (CHR ''.'')" by (simp add: isUnreserved_def)
  have "encodePathSegment v \<noteq> ''.''"
  proof
    assume e: "encodePathSegment v = ''.''"
    with dec dot have "v = ''.''" by simp
    then show False using e by (simp add: encodePathSegment_def encode_byte_def)
  qed
  moreover have "encodePathSegment v \<noteq> ''..''"
  proof
    assume e: "encodePathSegment v = ''..''"
    with dec dot have "v = ''..''" by simp
    then show False using e by (simp add: encodePathSegment_def encode_byte_def)
  qed
  ultimately show ?thesis by blast
qed

lemma slash_not_segment: "\<not> segment_char SLASH"
  by (simp add: segment_char_def isUnreserved_def byte_def)

lemma segment_plain: "encodeSegment v = Inr e \<Longrightarrow> plain e"
  using encodeSegment_nonempty [of v e] encoded_not_dots [of v] encoded_chars [of SLASH v] slash_not_segment
  by (auto simp: plain_def)

section \<open>Paths of the store\<close>

record sharedStatePaths =
  appJournal :: go_string
  userJournal :: go_string
  appSnapshot :: go_string
  userSnapshot :: go_string

definition appSequence :: "go_string \<Rightarrow> go_string" where
  "appSequence app = path_join [''apps'', encodePathSegment app, ''shared_sequence'']"

definition userJournal_path :: "go_string \<Rightarrow> go_string \<Rightarrow> go_string" where
  "userJournal_path app user =
     path_join [''apps'', encodePathSegment app, ''users'', encodePathSegment user, ''user_state.jsonl'']"

definition sharedState :: "go_string \<Rightarrow> go_string \<Rightarrow> sharedStatePaths" where
  "sharedState app0 user0 =
     (let app = encodePathSegment app0; user = encodePathSegment user0;
          base = path_join [''apps'', app]; userBase = path_join [base, ''users'', user]
      in \<lparr>appJournal = path_join [base, ''app_state.jsonl''], userJournal = path_join [userBase, ''user_state.jsonl''],
          appSnapshot = path_join [base, ''app_state.json''], userSnapshot = path_join [userBase, ''user_state.json'']\<rparr>)"

definition sessionLog :: "go_string \<Rightarrow> go_string \<Rightarrow> go_string \<Rightarrow> go_string" where
  "sessionLog app user session =
     path_join [''apps'', encodePathSegment app, ''users'', encodePathSegment user, ''sessions'',
       encodePathSegment session @ ''.jsonl'']"

definition sessionDir :: "go_string \<Rightarrow> go_string \<Rightarrow> go_string" where
  "sessionDir app user = path_join [''apps'', encodePathSegment app, ''users'', encodePathSegment user, ''sessions'']"

lemma join_plain:
  assumes "list_all plain cs" "cs \<noteq> []"
  shows "path_join cs = join_on SLASH cs \<and> parts (path_join cs) = cs \<and> \<not> IsAbs (path_join cs)"
proof -
  have ne: "\<And>c. c \<in> set cs \<Longrightarrow> c \<noteq> [] \<and> SLASH \<notin> set c" using assms(1) by (auto simp: plain_def list_all_iff)
  obtain c ds where cs: "cs = c # ds" using assms(2) by (cases cs) auto
  have abs: "\<not> IsAbs (join_on SLASH cs)"
    using ne [of c] cs by (cases c; cases ds) (auto simp: IsAbs_def)
  have parts: "parts (join_on SLASH cs) = cs"
    unfolding parts_def using split_join [of cs SLASH] assms(2) ne by (auto simp: filter_id_conv)
  have "path_join cs = join_on SLASH cs"
    using ne clean_parts_id [OF assms(1), of False "[]"] assms(2) abs parts
    by (simp add: path_join_def Clean_parts filter_id_conv render_path_def clean_parts_def)
  with parts abs show ?thesis by simp
qed

lemma sessionLog_parts:
  assumes "encodeSegment app = Inr a" "encodeSegment user = Inr u" "encodeSegment session = Inr i"
  shows "parts (sessionLog app user session) = [''apps'', a, ''users'', u, ''sessions'', i @ ''.jsonl''] \<and>
    \<not> IsAbs (sessionLog app user session)"
proof -
  have "plain a" "plain u" "plain i" using assms segment_plain by auto
  moreover have "plain (i @ ''.jsonl'')" using \<open>plain i\<close> by (cases i) (auto simp: plain_def)
  ultimately have "list_all plain [''apps'', a, ''users'', u, ''sessions'', i @ ''.jsonl'']" by (simp add: plain_def)
  from join_plain [OF this] show ?thesis
    using assms encodeSegment_nonempty by (simp add: sessionLog_def) metis
qed

text \<open>C16: Decoding a file name gives an identifier exactly when encoding that identifier gives the name, so the
  encoding is injective and only canonical names are read back; and the logs of valid identifiers are distinct files
  whose paths stay inside the storage directory, whatever bytes, slashes and dots the identifiers contain.\<close>

theorem session_files_isolated:
  "(decodeSegment e = Inr v \<longleftrightarrow> encodeSegment v = Inr e) \<and>
   (encodeSegment app = Inr a \<and> encodeSegment user = Inr u \<and> encodeSegment session = Inr i \<longrightarrow>
     parts (sessionLog app user session) = [''apps'', a, ''users'', u, ''sessions'', i @ ''.jsonl''] \<and>
     \<not> IsAbs (sessionLog app user session) \<and> list_all plain (parts (sessionLog app user session)) \<and>
     (encodeSegment app' = Inr a' \<and> encodeSegment user' = Inr u' \<and> encodeSegment session' = Inr i' \<longrightarrow>
       (sessionLog app user session = sessionLog app' user' session' \<longleftrightarrow> app = app' \<and> user = user' \<and> session = session')))"
proof (intro conjI impI; (elim conjE)?)
  show "decodeSegment e = Inr v \<longleftrightarrow> encodeSegment v = Inr e" by (rule segment_bijection)
next
  assume s: "encodeSegment app = Inr a" "encodeSegment user = Inr u" "encodeSegment session = Inr i"
  note p = sessionLog_parts [OF s]
  show "parts (sessionLog app user session) = [''apps'', a, ''users'', u, ''sessions'', i @ ''.jsonl'']"
    "\<not> IsAbs (sessionLog app user session)" using p by simp_all
  have "plain (i @ ''.jsonl'')" using segment_plain [OF s(3)] by (cases i) (auto simp: plain_def)
  then show "list_all plain (parts (sessionLog app user session))"
    using p segment_plain [OF s(1)] segment_plain [OF s(2)] by (simp add: plain_def)
  assume s': "encodeSegment app' = Inr a'" "encodeSegment user' = Inr u'" "encodeSegment session' = Inr i'"
  show "sessionLog app user session = sessionLog app' user' session' \<longleftrightarrow> app = app' \<and> user = user' \<and> session = session'"
  proof
    assume "sessionLog app user session = sessionLog app' user' session'"
    then have "a = a'" "u = u'" "i = i'" using p sessionLog_parts [OF s'] by auto
    then show "app = app' \<and> user = user' \<and> session = session'"
      using s s' segment_bijection by (metis sum.inject(2))
  qed simp
qed

theorem session_files_isolated_witness:
  "sessionLog ''..'' ''a/b'' ''x'' \<noteq> sessionLog ''..'' ''a'' ''b/x''"
proof -
  have e: "encodeSegment ''..'' = Inr ''%2E%2E''" "encodeSegment ''a/b'' = Inr ''a%2Fb''" "encodeSegment ''x'' = Inr ''x''"
    "encodeSegment ''a'' = Inr ''a''" "encodeSegment ''b/x'' = Inr ''b%2Fx''"
    by (simp_all add: encodeSegment_def encodePathSegment_def encode_byte_def isUnreserved_def byte_def maxSegmentLen_def
      hexUpper_def byte_char_def char_of_def bit_iff_odd)
  show ?thesis
    using session_files_isolated [of "''x''" "''x''" "''..''" "''%2E%2E''" "''a/b''" "''a%2Fb''" "''x''" "''x''"
        "''..''" "''%2E%2E''" "''a''" "''a''" "''b/x''" "''b%2Fx''"] e by simp
qed

section \<open>Scopes of state\<close>

text \<open>State values are JSON values of any kind, a type parameter; a nil map and an empty map are both \<open>[]\<close>.\<close>

definition appStatePrefix :: go_string where "appStatePrefix = ''app:''"
definition userStatePrefix :: go_string where "userStatePrefix = ''user:''"
definition tempStatePrefix :: go_string where "tempStatePrefix = ''temp:''"

type_synonym 'v state_map = "(go_string, 'v) gomap"

definition split_entry ::
  "'v state_map \<times> 'v state_map \<times> 'v state_map \<Rightarrow> go_string \<times> 'v \<Rightarrow> 'v state_map \<times> 'v state_map \<times> 'v state_map" where
  "split_entry acc entry =
     (case (acc, entry) of ((session, app, user), (key, value)) \<Rightarrow>
        if prefix tempStatePrefix key then (session, app, user)
        else if prefix appStatePrefix key then (session, AList.update (trim_prefix key appStatePrefix) value app, user)
        else if prefix userStatePrefix key then (session, app, AList.update (trim_prefix key userStatePrefix) value user)
        else (AList.update key value session, app, user))"

definition splitState :: "'v state_map \<Rightarrow> 'v state_map \<times> 'v state_map \<times> 'v state_map" where
  "splitState state = foldl split_entry ([], [], []) state"

definition withoutTemporaryState :: "'v state_map \<Rightarrow> 'v state_map" where
  "withoutTemporaryState state = filter (\<lambda>(key, _). \<not> prefix tempStatePrefix key) state"

text \<open>\<open>maps.Copy\<close>.\<close>

definition maps_copy :: "('k, 'v) gomap \<Rightarrow> ('k, 'v) gomap \<Rightarrow> ('k, 'v) gomap" where
  "maps_copy dst src = foldl (\<lambda>m (k, v). AList.update k v m) dst src"

definition mergeState :: "'v state_map \<Rightarrow> 'v state_map \<Rightarrow> 'v state_map \<Rightarrow> 'v state_map" where
  "mergeState session app user =
     foldl (\<lambda>m (k, v). AList.update (userStatePrefix @ k) v m)
       (foldl (\<lambda>m (k, v). AList.update (appStatePrefix @ k) v m) session app) user"

section \<open>Splitting and merging are inverse\<close>

definition shared_key :: "go_string \<Rightarrow> bool" where
  "shared_key key \<longleftrightarrow> prefix tempStatePrefix key \<or> prefix appStatePrefix key \<or> prefix userStatePrefix key"

lemmas state_prefixes = tempStatePrefix_def appStatePrefix_def userStatePrefix_def

lemma prefix_kinds:
  "\<not> prefix tempStatePrefix (appStatePrefix @ k)" "\<not> prefix tempStatePrefix (userStatePrefix @ k)"
  "\<not> prefix appStatePrefix (userStatePrefix @ k)" "\<not> prefix userStatePrefix (appStatePrefix @ k)"
  "appStatePrefix @ j \<noteq> userStatePrefix @ k" "userStatePrefix @ k \<noteq> appStatePrefix @ j"
  by (simp_all add: state_prefixes)

lemma trim_prefix_append: "prefix p key \<Longrightarrow> key = p @ trim_prefix key p"
  by (auto simp: trim_prefix_def prefix_def)

lemma update_all_hit:
  "distinct_keys xs \<Longrightarrow> inj f \<Longrightarrow>
   map_of (foldl (\<lambda>m (k, v). AList.update (f k) v m) m0 xs) (f k) = (case map_of xs k of Some v \<Rightarrow> Some v | None \<Rightarrow> map_of m0 (f k))"
proof (induction xs arbitrary: m0)
  case (Cons x xs)
  obtain j v where x: "x = (j, v)" by fastforce
  show ?case
  proof (cases "j = k")
    case True
    with Cons.prems x have "map_of xs k = None" by (auto simp: map_of_eq_None_iff)
    then show ?thesis using Cons x True by simp
  next
    case False
    then have "f j \<noteq> f k" using Cons.prems(2) by (auto dest: injD)
    then show ?thesis using Cons x False by (auto split: option.splits)
  qed
qed simp

lemma update_all_miss:
  "key \<notin> range f \<Longrightarrow> map_of (foldl (\<lambda>m (k, v). AList.update (f k) v m) m0 xs) key = map_of m0 key"
  by (induction xs arbitrary: m0) auto

lemma maps_copy_lookup:
  "distinct_keys src \<Longrightarrow> map_of (maps_copy dst src) k = (case map_of src k of Some v \<Rightarrow> Some v | None \<Rightarrow> map_of dst k)"
  using update_all_hit [of src id dst k] by (auto simp: maps_copy_def split: option.splits)

lemma inj_append: "inj ((@) (p :: 'a list))"
  by (simp add: inj_on_def)

lemma merge_lookup:
  assumes "distinct_keys app" "distinct_keys user"
  shows "map_of (mergeState session app user) key =
    (if prefix userStatePrefix key \<and> map_of user (trim_prefix key userStatePrefix) \<noteq> None
     then map_of user (trim_prefix key userStatePrefix)
     else if prefix appStatePrefix key \<and> map_of app (trim_prefix key appStatePrefix) \<noteq> None
     then map_of app (trim_prefix key appStatePrefix)
     else map_of session key)"
proof -
  let ?m = "foldl (\<lambda>m (k, v). AList.update (appStatePrefix @ k) v m) session app"
  have miss: "key \<notin> range ((@) p)" if "\<not> prefix p key" for p using that by auto
  consider (u) k where "key = userStatePrefix @ k" | (a) k where "key = appStatePrefix @ k"
    | (n) "\<not> prefix userStatePrefix key" "\<not> prefix appStatePrefix key"
    by (auto simp: prefix_def)
  then show ?thesis
  proof cases
    case u
    have "map_of ?m key = map_of session key"
      unfolding u by (rule update_all_miss) (metis miss prefix_kinds(3) u)
    then show ?thesis
      using update_all_hit [OF assms(2) inj_append, of userStatePrefix ?m k] u prefix_kinds(3) [of k]
      by (auto simp: mergeState_def trim_prefix_def split: option.splits)
  next
    case a
    have "map_of (mergeState session app user) key = map_of ?m key"
      unfolding mergeState_def a by (rule update_all_miss) (metis miss prefix_kinds(4) a)
    then show ?thesis
      using update_all_hit [OF assms(1) inj_append, of appStatePrefix session k] a prefix_kinds(4) [of k]
      by (auto simp: trim_prefix_def split: option.splits)
  next
    case n
    then show ?thesis
      using update_all_miss [OF miss [OF n(1)], of ?m user] update_all_miss [OF miss [OF n(2)], of session app]
      by (simp add: mergeState_def)
  qed
qed

lemma split_lookup:
  assumes "distinct_keys state"
  shows "map_of (fst (foldl split_entry (s, a, u) state)) k =
      (if shared_key k \<or> map_of state k = None then map_of s k else map_of state k)"
    "map_of (fst (snd (foldl split_entry (s, a, u) state))) k =
      (case map_of state (appStatePrefix @ k) of Some v \<Rightarrow> Some v | None \<Rightarrow> map_of a k)"
    "map_of (snd (snd (foldl split_entry (s, a, u) state))) k =
      (case map_of state (userStatePrefix @ k) of Some v \<Rightarrow> Some v | None \<Rightarrow> map_of u k)"
proof -
  have "map_of (fst (foldl split_entry (s, a, u) state)) k =
      (if shared_key k \<or> map_of state k = None then map_of s k else map_of state k) \<and>
    map_of (fst (snd (foldl split_entry (s, a, u) state))) k =
      (case map_of state (appStatePrefix @ k) of Some v \<Rightarrow> Some v | None \<Rightarrow> map_of a k) \<and>
    map_of (snd (snd (foldl split_entry (s, a, u) state))) k =
      (case map_of state (userStatePrefix @ k) of Some v \<Rightarrow> Some v | None \<Rightarrow> map_of u k)"
    using assms
  proof (induction state arbitrary: s a u)
    case (Cons x state)
    obtain key v where x: "x = (key, v)" by fastforce
    have fresh: "map_of state key = None" using Cons.prems x by (auto simp: map_of_eq_None_iff)
    have d: "distinct_keys state" using Cons.prems by simp
    note IH = Cons.IH [OF d]
    consider (t) "prefix tempStatePrefix key" | (a) j where "key = appStatePrefix @ j" | (u) j where "key = userStatePrefix @ j"
      | (n) "\<not> prefix tempStatePrefix key" "\<not> prefix userStatePrefix key" "\<not> prefix appStatePrefix key"
      by (auto simp: prefix_def)
    then show ?case
    proof cases
      case t
      then have e: "foldl split_entry (s, a, u) (x # state) = foldl split_entry (s, a, u) state"
        and ne: "key \<noteq> appStatePrefix @ k" "key \<noteq> userStatePrefix @ k" and sk: "k = key \<Longrightarrow> shared_key k"
        using x prefix_kinds by (auto simp: split_entry_def shared_key_def)
      show ?thesis unfolding e using IH [of s a u] x ne sk by auto
    next
      case a
      then have e: "foldl split_entry (s, aa, u) (x # state) = foldl split_entry (s, AList.update j v aa, u) state" for aa
        using x prefix_kinds [of j] by (simp add: split_entry_def trim_prefix_def)
      have ne: "key \<noteq> userStatePrefix @ k" and sk: "k = key \<Longrightarrow> shared_key k" using a prefix_kinds(5) by (auto simp: shared_key_def)
      show ?thesis unfolding e using IH x ne sk a fresh by (cases "j = k") (auto split: option.splits)
    next
      case u
      then have e: "foldl split_entry (s, a, uu) (x # state) = foldl split_entry (s, a, AList.update j v uu) state" for uu
        using x prefix_kinds [of j] by (simp add: split_entry_def trim_prefix_def)
      have ne: "key \<noteq> appStatePrefix @ k" and sk: "k = key \<Longrightarrow> shared_key k" using u prefix_kinds(6) by (auto simp: shared_key_def)
      show ?thesis unfolding e using IH x ne sk u fresh by (cases "j = k") (auto split: option.splits)
    next
      case n
      then have e: "foldl split_entry (ss, a, u) (x # state) = foldl split_entry (AList.update key v ss, a, u) state" for ss
        using x by (simp add: split_entry_def)
      have ne: "key \<noteq> appStatePrefix @ k" "key \<noteq> userStatePrefix @ k" "\<not> shared_key key"
        using n by (auto simp: shared_key_def)
      show ?thesis unfolding e using IH x ne fresh by (cases "key = k") auto
    qed
  qed simp
  then show "map_of (fst (foldl split_entry (s, a, u) state)) k =
      (if shared_key k \<or> map_of state k = None then map_of s k else map_of state k)"
    "map_of (fst (snd (foldl split_entry (s, a, u) state))) k =
      (case map_of state (appStatePrefix @ k) of Some v \<Rightarrow> Some v | None \<Rightarrow> map_of a k)"
    "map_of (snd (snd (foldl split_entry (s, a, u) state))) k =
      (case map_of state (userStatePrefix @ k) of Some v \<Rightarrow> Some v | None \<Rightarrow> map_of u k)" by blast+
qed

lemma split_distinct:
  "distinct_keys s \<Longrightarrow> distinct_keys a \<Longrightarrow> distinct_keys u \<Longrightarrow>
   distinct_keys (fst (foldl split_entry (s, a, u) state)) \<and>
   distinct_keys (fst (snd (foldl split_entry (s, a, u) state))) \<and>
   distinct_keys (snd (snd (foldl split_entry (s, a, u) state)))"
  by (induction state arbitrary: s a u) (auto simp: split_entry_def split: prod.splits)

lemma splitState_lookup:
  assumes "distinct_keys state" "splitState state = (s, a, u)"
  shows "map_of s k = (if shared_key k then None else map_of state k)"
    "map_of a k = map_of state (appStatePrefix @ k)" "map_of u k = map_of state (userStatePrefix @ k)"
    "distinct_keys s \<and> distinct_keys a \<and> distinct_keys u"
  using split_lookup [OF assms(1), of "[]" "[]" "[]" k] split_distinct [of "[]" "[]" "[]" state] assms(2)
  by (auto simp: splitState_def split: option.splits)

lemma without_temp_lookup:
  "map_of (withoutTemporaryState state) key = (if prefix tempStatePrefix key then None else map_of state key)"
  unfolding withoutTemporaryState_def by (induction state) auto

lemma merge_distinct: "distinct_keys s \<Longrightarrow> distinct_keys (mergeState s a u)"
proof -
  have "distinct_keys m \<Longrightarrow> distinct_keys (foldl (\<lambda>m (k, v). AList.update (f k) v m) m xs)"
    for f :: "go_string \<Rightarrow> go_string" and m :: "(go_string, 'v) gomap" and xs
    by (induction xs arbitrary: m) auto
  then show "distinct_keys s \<Longrightarrow> distinct_keys (mergeState s a u)" unfolding mergeState_def by blast
qed

lemma merge_split:
  assumes "distinct_keys state" "splitState state = (s, a, u)"
  shows "map_of (mergeState s a u) key = map_of (withoutTemporaryState state) key"
proof -
  note look = splitState_lookup [OF assms]
  consider (t) "prefix tempStatePrefix key" | (a) j where "key = appStatePrefix @ j" | (u) j where "key = userStatePrefix @ j"
    | (n) "\<not> shared_key key"
    by (auto simp: prefix_def shared_key_def)
  then show ?thesis
  proof cases
    case t
    then have "\<not> prefix userStatePrefix key" "\<not> prefix appStatePrefix key" by (auto simp: state_prefixes prefix_def)
    then show ?thesis using t look by (simp add: merge_lookup without_temp_lookup shared_key_def)
  next
    case a
    then show ?thesis using look prefix_kinds
      by (auto simp: merge_lookup without_temp_lookup shared_key_def trim_prefix_def)
  next
    case u
    then show ?thesis using look prefix_kinds
      by (auto simp: merge_lookup without_temp_lookup shared_key_def trim_prefix_def)
  next
    case n
    then show ?thesis using look by (auto simp: merge_lookup without_temp_lookup shared_key_def)
  qed
qed

text \<open>Splitting a state by scope and merging the parts gives the state back without its temporary keys; no part
  holds a temporary value, the session part holds no key of a shared scope, and splitting the merged state gives the
  same parts again.\<close>

theorem state_split_merge:
  assumes "distinct_keys state" and "splitState state = (s, a, u)"
    and "splitState (mergeState s a u) = (s', a', u')"
  shows "map_of (mergeState s a u) = map_of (withoutTemporaryState state)
    \<and> map_of s' = map_of s \<and> map_of a' = map_of a \<and> map_of u' = map_of u
    \<and> (shared_key k \<longrightarrow> map_of s k = None) \<and> map_of (mergeState s a u) (tempStatePrefix @ k) = None"
proof -
  note look = splitState_lookup [OF assms(1,2)]
  have d: "distinct_keys (mergeState s a u)" using look(4) by (simp add: merge_distinct)
  note look' = splitState_lookup [OF d assms(3)]
  have m: "map_of (mergeState s a u) key = map_of (withoutTemporaryState state) key" for key
    by (rule merge_split [OF assms(1,2)])
  have "map_of s' j = map_of s j" "map_of a' j = map_of a j" "map_of u' j = map_of u j" for j
    using look(1-3) [of j] look'(1-3) [of j] prefix_kinds by (auto simp: m without_temp_lookup shared_key_def)
  then show ?thesis using look by (auto simp: m without_temp_lookup fun_eq_iff)
qed

theorem state_split_merge_witness:
  "map_of (mergeState [(''x'', 1::int)] [(''y'', 2)] []) = map_of [(''x'', 1), (''app:y'', 2)]"
proof -
  let ?state = "[(''x'', 1::int), (''app:y'', 2), (''temp:z'', 3)]"
  have split: "splitState ?state = ([(''x'', 1)], [(''y'', 2)], [])"
    by (simp add: splitState_def split_entry_def state_prefixes trim_prefix_def)
  have "mergeState [(''x'', 1::int)] [(''y'', 2)] [] = [(''x'', 1), (''app:y'', 2)]"
    by (simp add: mergeState_def state_prefixes)
  moreover from this have "splitState (mergeState [(''x'', 1::int)] [(''y'', 2)] []) = ([(''x'', 1)], [(''y'', 2)], [])"
    by (simp add: splitState_def split_entry_def state_prefixes trim_prefix_def)
  moreover have "distinct_keys ?state" by simp
  ultimately have "map_of (mergeState [(''x'', 1::int)] [(''y'', 2)] []) = map_of (withoutTemporaryState ?state)"
    using state_split_merge [OF _ split] by blast
  then show ?thesis by (simp add: withoutTemporaryState_def state_prefixes)
qed

end
