(* ===== verification/Session_Journal.thy ===== *)
theory Session_Journal
  imports Session_Paths "HOL-Library.Char_ord" "HOL-Library.List_Lexorder" "HOL-Library.Product_Lexorder" "HOL-Library.Word"
begin

text \<open>
  Shared state of the session store, the part of \<open>sessionstore/store.go\<close> between the journals and the
  projections: logical records with their identity checks, journal repair, the merge of pending records, the
  last-writer-wins projection and its incremental form.
\<close>

section \<open>Records\<close>

text \<open>A \<open>map[string]any\<close> that may be nil; \<open>reflect.DeepEqual\<close> tells nil from empty.\<close>

type_synonym 'v delta = "'v state_map option"

definition entries :: "'v delta \<Rightarrow> 'v state_map" where
  "entries d = (case d of None \<Rightarrow> [] | Some m \<Rightarrow> m)"

definition same_map :: "'v state_map \<Rightarrow> 'v state_map \<Rightarrow> bool" where
  "same_map a b \<longleftrightarrow> list_all (\<lambda>(k, v). map_of b k = Some v) a \<and> list_all (\<lambda>(k, v). map_of a k = Some v) b"

fun deep_equal :: "'v delta \<Rightarrow> 'v delta \<Rightarrow> bool" where
  "deep_equal None None = True"
| "deep_equal (Some a) (Some b) = same_map a b"
| "deep_equal _ _ = False"

record 'v stateJournalRecord =
  jr_ID :: go_string
  jr_Order :: "64 word"
  jr_Delta :: "'v delta"

record 'v stateRecord =
  sr_ID :: go_string
  sr_Order :: "64 word"
  sr_Path :: go_string
  sr_Line :: int
  sr_UserID :: go_string
  sr_AppDelta :: "'v delta"
  sr_UserDelta :: "'v delta"

record keyVersion =
  kv_Order :: "64 word"
  kv_RecordID :: go_string

record 'v sharedProjection =
  sp_App :: "'v state_map"
  sp_User :: "'v state_map"
  sp_AppVersions :: "(go_string, keyVersion) gomap"
  sp_UserVersions :: "(go_string, keyVersion) gomap"
  sp_Records :: "'v stateJournalRecord list"

section \<open>Identity of logical records\<close>

type_synonym orders = "(64 word, go_string) gomap"

definition claimLogicalOrder :: "orders \<Rightarrow> go_string \<Rightarrow> 64 word \<Rightarrow> store_error + orders" where
  "claimLogicalOrder byOrder rid order =
     (case map_of byOrder order of
        Some existing \<Rightarrow> if existing \<noteq> rid then Inl ErrRecordConflict else Inr (AList.update order rid byOrder)
      | None \<Rightarrow> Inr (AList.update order rid byOrder))"

record 'v journalIndex =
  ji_records :: "'v stateJournalRecord list"
  ji_byID :: "(go_string, 'v stateJournalRecord) gomap"
  ji_byOrder :: orders

definition newJournalIndex :: "'v stateJournalRecord list \<Rightarrow> 'v journalIndex" where
  "newJournalIndex records =
     \<lparr>ji_records = records, ji_byID = foldl (\<lambda>m r. AList.update (jr_ID r) r m) [] records,
      ji_byOrder = foldl (\<lambda>m r. AList.update (jr_Order r) (jr_ID r) m) [] records\<rparr>"

text \<open>\<open>addJournalRecord\<close> on the two maps: whether the record was there, and the maps after.\<close>

definition addJournalRecord ::
  "(go_string, 'v stateJournalRecord) gomap \<Rightarrow> orders \<Rightarrow> 'v stateJournalRecord \<Rightarrow>
   store_error + bool \<times> (go_string, 'v stateJournalRecord) gomap \<times> orders" where
  "addJournalRecord byID byOrder r =
     (case map_of byID (jr_ID r) of
        Some existing \<Rightarrow>
          if jr_Order existing \<noteq> jr_Order r \<or> \<not> deep_equal (jr_Delta existing) (jr_Delta r) then Inl ErrRecordConflict
          else Inr (True, byID, byOrder)
      | None \<Rightarrow>
          (case claimLogicalOrder byOrder (jr_ID r) (jr_Order r) of
             Inl e \<Rightarrow> Inl e
           | Inr byOrder' \<Rightarrow> Inr (False, AList.update (jr_ID r) r byID, byOrder')))"

definition index_add :: "'v journalIndex \<Rightarrow> 'v stateJournalRecord \<Rightarrow> store_error + 'v journalIndex" where
  "index_add i r =
     (case addJournalRecord (ji_byID i) (ji_byOrder i) r of
        Inl e \<Rightarrow> Inl e
      | Inr (exists, byID, byOrder) \<Rightarrow>
          Inr \<lparr>ji_records = (if exists then ji_records i else ji_records i @ [r]), ji_byID = byID, ji_byOrder = byOrder\<rparr>)"

definition app_entry :: "'v stateRecord \<Rightarrow> 'v stateJournalRecord" where
  "app_entry r = \<lparr>jr_ID = sr_ID r, jr_Order = sr_Order r, jr_Delta = sr_AppDelta r\<rparr>"

definition user_entry :: "'v stateRecord \<Rightarrow> 'v stateJournalRecord" where
  "user_entry r = \<lparr>jr_ID = sr_ID r, jr_Order = sr_Order r, jr_Delta = sr_UserDelta r\<rparr>"

fun merge_pending ::
  "go_string \<Rightarrow> 'v journalIndex \<Rightarrow> 'v journalIndex \<Rightarrow> 'v stateRecord list \<Rightarrow>
   store_error + 'v stateJournalRecord list \<times> 'v stateJournalRecord list" where
  "merge_pending user app userState [] = Inr (ji_records app, ji_records userState)"
| "merge_pending user app userState (r # rs) =
     (case index_add app (app_entry r) of
        Inl e \<Rightarrow> Inl e
      | Inr app' \<Rightarrow>
          if sr_UserID r \<noteq> user then merge_pending user app' userState rs
          else (case index_add userState (user_entry r) of
                  Inl e \<Rightarrow> Inl e
                | Inr userState' \<Rightarrow> merge_pending user app' userState' rs))"

definition mergePendingJournals ::
  "'v stateJournalRecord list \<Rightarrow> 'v stateJournalRecord list \<Rightarrow> 'v stateRecord list \<Rightarrow> go_string \<Rightarrow>
   store_error + 'v stateJournalRecord list \<times> 'v stateJournalRecord list" where
  "mergePendingJournals appJ userJ pending user =
     merge_pending user (newJournalIndex appJ) (newJournalIndex userJ) pending"

section \<open>Repairing a journal\<close>

fun additions_loop ::
  "('v stateRecord \<Rightarrow> 'v delta) \<Rightarrow> ('v stateRecord \<Rightarrow> bool) \<Rightarrow> bool \<Rightarrow> 'v journalIndex \<Rightarrow> 'v stateJournalRecord list \<Rightarrow>
   'v stateRecord list \<Rightarrow> store_error + 'v stateJournalRecord list" where
  "additions_loop delta include' keepEmpty index additions [] = Inr additions"
| "additions_loop delta include' keepEmpty index additions (r # rs) =
     (if \<not> include' r \<or> (entries (delta r) = [] \<and> \<not> keepEmpty)
      then additions_loop delta include' keepEmpty index additions rs
      else let entry = \<lparr>jr_ID = sr_ID r, jr_Order = sr_Order r, jr_Delta = delta r\<rparr>
      in case index_add index entry of
           Inl e \<Rightarrow> Inl e
         | Inr index' \<Rightarrow>
             additions_loop delta include' keepEmpty index'
               (if length (ji_records index') > length (ji_records index) then additions @ [entry] else additions) rs)"

definition journalAdditions ::
  "'v stateJournalRecord list \<Rightarrow> 'v stateRecord list \<Rightarrow> ('v stateRecord \<Rightarrow> 'v delta) \<Rightarrow> ('v stateRecord \<Rightarrow> bool) \<Rightarrow> bool \<Rightarrow>
   store_error + 'v stateJournalRecord list" where
  "journalAdditions journal records delta include' keepEmpty =
     additions_loop delta include' keepEmpty (newJournalIndex journal) [] records"

definition sort_journal :: "'v stateJournalRecord list \<Rightarrow> 'v stateJournalRecord list" where
  "sort_journal records = sort_key jr_Order records"

text \<open>
  The pure part of \<open>repairJournal\<close>: from the journal read to the entries appended to the file, the journal
  returned and the changed flag.
\<close>

definition repaired_journal ::
  "'v stateJournalRecord list \<Rightarrow> 'v stateRecord list \<Rightarrow> ('v stateRecord \<Rightarrow> 'v delta) \<Rightarrow> ('v stateRecord \<Rightarrow> bool) \<Rightarrow> bool \<Rightarrow>
   store_error + 'v stateJournalRecord list \<times> 'v stateJournalRecord list \<times> bool" where
  "repaired_journal journal records delta include' keepEmpty =
     (case journalAdditions journal records delta include' keepEmpty of
        Inl e \<Rightarrow> Inl e
      | Inr additions \<Rightarrow> Inr (additions, sort_journal (journal @ additions), additions \<noteq> []))"

definition maxJournalOrder :: "'v stateJournalRecord list list \<Rightarrow> 64 word" where
  "maxJournalOrder journals = foldl (\<lambda>m r. max m (jr_Order r)) 0 (concat journals)"

definition sortStateRecords :: "'v stateRecord list \<Rightarrow> 'v stateRecord list" where
  "sortStateRecords records = sort_key (\<lambda>r. (sr_Order r, sr_Path r, sr_Line r)) records"

fun duplicateStateRecord :: "'v stateRecord list \<Rightarrow> 'v stateRecord option" where
  "duplicateStateRecord (r # s # rs) = (if sr_Order s = sr_Order r then Some s else duplicateStateRecord (s # rs))"
| "duplicateStateRecord _ = None"

section \<open>Projection\<close>

type_synonym 'v projected = "'v state_map \<times> (go_string, keyVersion) gomap"

definition apply_entry :: "go_string \<Rightarrow> 64 word \<Rightarrow> 'v projected \<Rightarrow> go_string \<times> 'v \<Rightarrow> 'v projected" where
  "apply_entry rid order sv entry =
     (case (sv, entry) of ((state, versions), (key, value)) \<Rightarrow>
        (case map_of versions key of
           Some current \<Rightarrow>
             if order < kv_Order current then (state, versions)
             else (AList.update key value state, AList.update key \<lparr>kv_Order = order, kv_RecordID = rid\<rparr> versions)
         | None \<Rightarrow> (AList.update key value state, AList.update key \<lparr>kv_Order = order, kv_RecordID = rid\<rparr> versions)))"

definition applyOrderedDelta :: "'v projected \<Rightarrow> go_string \<Rightarrow> 64 word \<Rightarrow> 'v delta \<Rightarrow> 'v projected" where
  "applyOrderedDelta sv rid order delta = foldl (apply_entry rid order) sv (entries delta)"

definition apply_record :: "'v projected \<Rightarrow> 'v stateJournalRecord \<Rightarrow> 'v projected" where
  "apply_record sv r = applyOrderedDelta sv (jr_ID r) (jr_Order r) (jr_Delta r)"

definition projectJournal :: "'v stateJournalRecord list \<Rightarrow> 'v projected" where
  "projectJournal records = foldl apply_record ([], []) (sort_journal records)"

text \<open>The loop of \<open>mergeKnownSharedRecords\<close> over the sorted records.\<close>

fun merge_known ::
  "go_string \<Rightarrow> 'v sharedProjection \<Rightarrow> (go_string, 'v stateJournalRecord) gomap \<Rightarrow> orders \<Rightarrow> 'v stateRecord list \<Rightarrow>
   store_error + 'v sharedProjection" where
  "merge_known user result byID byOrder [] = Inr result"
| "merge_known user result byID byOrder (r # rs) =
     (case addJournalRecord byID byOrder (app_entry r) of
        Inl e \<Rightarrow> Inl e
      | Inr (exists, byID', byOrder') \<Rightarrow>
          if exists then merge_known user result byID' byOrder' rs
          else
            let (app, appVersions) = applyOrderedDelta (sp_App result, sp_AppVersions result) (sr_ID r) (sr_Order r) (sr_AppDelta r);
                (userState, userVersions) =
                  (if sr_UserID r = user
                   then applyOrderedDelta (sp_User result, sp_UserVersions result) (sr_ID r) (sr_Order r) (sr_UserDelta r)
                   else (sp_User result, sp_UserVersions result))
            in merge_known user
                 \<lparr>sp_App = app, sp_User = userState, sp_AppVersions = appVersions, sp_UserVersions = userVersions,
                  sp_Records = sp_Records result @ [app_entry r]\<rparr> byID' byOrder' rs)"

definition mergeKnownSharedRecords ::
  "'v sharedProjection \<Rightarrow> 'v stateRecord list \<Rightarrow> go_string \<Rightarrow> store_error + 'v sharedProjection" where
  "mergeKnownSharedRecords known records user =
     (let i = newJournalIndex (sp_Records known)
      in merge_known user known (ji_byID i) (ji_byOrder i) (sortStateRecords records))"

definition projection_of :: "'v stateJournalRecord list \<Rightarrow> 'v stateJournalRecord list \<Rightarrow> 'v sharedProjection" where
  "projection_of appJ userJ =
     (let (app, appVersions) = projectJournal appJ; (user, userVersions) = projectJournal userJ
      in \<lparr>sp_App = app, sp_User = user, sp_AppVersions = appVersions, sp_UserVersions = userVersions,
          sp_Records = appJ\<rparr>)"

section \<open>A projection tracks a set of records\<close>

lemma same_map_sub: "list_all (\<lambda>(k, v). map_of b k = Some v) a \<Longrightarrow> map_of a k = Some v \<Longrightarrow> map_of b k = Some v"
  by (auto simp: list_all_iff dest!: map_of_SomeD)

lemma same_map_lookup: "same_map a b \<Longrightarrow> map_of a = map_of b"
proof
  fix k assume s: "same_map a b"
  have "map_of a k = Some v \<longleftrightarrow> map_of b k = Some v" for v
    using same_map_sub [of b a k v] same_map_sub [of a b k v] s by (auto simp: same_map_def)
  then show "map_of a k = map_of b k" by (metis not_None_eq)
qed

lemma deep_equal_lookup: "deep_equal d d' \<Longrightarrow> map_of (entries d) = map_of (entries d')"
  by (cases d; cases d') (auto simp: entries_def dest: same_map_lookup)

text \<open>What a record says, whatever the order its delta is listed in.\<close>

definition content :: "'v stateJournalRecord \<Rightarrow> go_string \<times> 64 word \<times> (go_string \<Rightarrow> 'v option)" where
  "content r = (jr_ID r, jr_Order r, map_of (entries (jr_Delta r)))"

abbreviation writes :: "'v stateJournalRecord \<Rightarrow> go_string \<Rightarrow> 'v option" where
  "writes r k \<equiv> map_of (entries (jr_Delta r)) k"

abbreviation version_of :: "'v stateJournalRecord \<Rightarrow> keyVersion" where
  "version_of r \<equiv> \<lparr>kv_Order = jr_Order r, kv_RecordID = jr_ID r\<rparr>"

definition tracks :: "'v projected \<Rightarrow> 'v stateJournalRecord set \<Rightarrow> bool" where
  "tracks sv R \<longleftrightarrow> (\<forall>k.
     (map_of (fst sv) k = None \<and> map_of (snd sv) k = None \<and> (\<forall>r \<in> R. writes r k = None)) \<or>
     (\<exists>r \<in> R. writes r k \<noteq> None \<and> map_of (fst sv) k = writes r k \<and> map_of (snd sv) k = Some (version_of r) \<and>
        (\<forall>r' \<in> R. writes r' k \<noteq> None \<longrightarrow> jr_Order r' \<le> jr_Order r)))"

lemma tracksE:
  fixes R :: "'v stateJournalRecord set"
  assumes "tracks sv R"
  obtains (none) "map_of (fst sv) k = None" "map_of (snd sv) k = None" "\<forall>r \<in> R. writes r k = None"
  | (some) w :: "'v stateJournalRecord" where "w \<in> R" "writes w k \<noteq> None" "map_of (fst sv) k = writes w k" "map_of (snd sv) k = Some (version_of w)"
      "\<forall>r' \<in> R. writes r' k \<noteq> None \<longrightarrow> jr_Order r' \<le> jr_Order w"
  using spec [OF assms [unfolded tracks_def], of k] by (elim disjE bexE conjE) simp_all

lemma apply_entries_lookup:
  "distinct_keys es \<Longrightarrow>
   (let sv' = foldl (apply_entry rid order) sv es
    in (map_of (fst sv') k, map_of (snd sv') k) =
       (case map_of es k of
          None \<Rightarrow> (map_of (fst sv) k, map_of (snd sv) k)
        | Some v \<Rightarrow>
            (case map_of (snd sv) k of
               Some current \<Rightarrow>
                 if order < kv_Order current then (map_of (fst sv) k, map_of (snd sv) k)
                 else (Some v, Some \<lparr>kv_Order = order, kv_RecordID = rid\<rparr>)
             | None \<Rightarrow> (Some v, Some \<lparr>kv_Order = order, kv_RecordID = rid\<rparr>))))"
proof (induction es arbitrary: sv)
  case Nil
  then show ?case by simp
next
  case (Cons e es)
  obtain j v where e: "e = (j, v)" by fastforce
  obtain st vs where sv: "sv = (st, vs)" by fastforce
  have d: "distinct_keys es" and fresh: "map_of es j = None" using Cons.prems e by (auto simp: map_of_eq_None_iff)
  note IH = Cons.IH [OF d, of "apply_entry rid order (st, vs) (j, v)", unfolded Let_def]
  show ?case
  proof (cases "j = k")
    case True
    have "map_of (fst (apply_entry rid order (st, vs) (k, v))) k =
        (if \<exists>c. map_of vs k = Some c \<and> order < kv_Order c then map_of st k else Some v)"
      "map_of (snd (apply_entry rid order (st, vs) (k, v))) k =
        (if \<exists>c. map_of vs k = Some c \<and> order < kv_Order c then map_of vs k else Some \<lparr>kv_Order = order, kv_RecordID = rid\<rparr>)"
      by (auto simp: apply_entry_def split: option.splits)
    then show ?thesis using IH True fresh unfolding e sv Let_def foldl_Cons by (auto split: option.splits)
  next
    case False
    then have "map_of (fst (apply_entry rid order (st, vs) (j, v))) k = map_of st k"
      "map_of (snd (apply_entry rid order (st, vs) (j, v))) k = map_of vs k"
      by (auto simp: apply_entry_def split: option.splits)
    then show ?thesis using IH False unfolding e sv Let_def foldl_Cons by (auto split: option.splits)
  qed
qed

lemma apply_record_lookup:
  assumes "distinct_keys (entries (jr_Delta r))"
  shows "map_of (fst (apply_record sv r)) k =
      (if writes r k = None \<or> (\<exists>c. map_of (snd sv) k = Some c \<and> jr_Order r < kv_Order c) then map_of (fst sv) k else writes r k)"
    "map_of (snd (apply_record sv r)) k =
      (if writes r k = None \<or> (\<exists>c. map_of (snd sv) k = Some c \<and> jr_Order r < kv_Order c) then map_of (snd sv) k
       else Some (version_of r))"
  using apply_entries_lookup [OF assms, of "jr_ID r" "jr_Order r" sv k]
  by (auto simp: apply_record_def applyOrderedDelta_def Let_def split: option.splits if_splits)

lemma tracks_step:
  assumes "tracks sv R" "distinct_keys (entries (jr_Delta r))"
  shows "tracks (apply_record sv r) (insert r R)"
  unfolding tracks_def
proof
  fix k
  note look = apply_record_lookup [OF assms(2), of sv k]
  from assms(1) show "(map_of (fst (apply_record sv r)) k = None \<and> map_of (snd (apply_record sv r)) k = None \<and>
      (\<forall>r \<in> insert r R. writes r k = None)) \<or>
     (\<exists>w \<in> insert r R. writes w k \<noteq> None \<and> map_of (fst (apply_record sv r)) k = writes w k \<and>
        map_of (snd (apply_record sv r)) k = Some (version_of w) \<and>
        (\<forall>r' \<in> insert r R. writes r' k \<noteq> None \<longrightarrow> jr_Order r' \<le> jr_Order w))"
  proof (cases rule: tracksE [of _ _ k])
    case none
    then show ?thesis using look by (cases "writes r k") auto
  next
    case (some w)
    show ?thesis
    proof (cases "writes r k = None \<or> jr_Order r < jr_Order w")
      case True
      then have "map_of (fst (apply_record sv r)) k = writes w k" "map_of (snd (apply_record sv r)) k = Some (version_of w)"
        using look some by auto
      then show ?thesis using some True by (intro disjI2 bexI [of _ w]) auto
    next
      case False
      then have "map_of (fst (apply_record sv r)) k = writes r k" "map_of (snd (apply_record sv r)) k = Some (version_of r)"
        using look some by auto
      moreover have "\<forall>r' \<in> R. writes r' k \<noteq> None \<longrightarrow> jr_Order r' \<le> jr_Order r"
      proof (intro ballI impI)
        fix r' assume "r' \<in> R" "writes r' k \<noteq> None"
        with some(5) have "jr_Order r' \<le> jr_Order w" by blast
        also have "jr_Order w \<le> jr_Order r" using False by (simp only: de_Morgan_disj linorder_not_less)
        finally show "jr_Order r' \<le> jr_Order r" .
      qed
      ultimately show ?thesis using False by (intro disjI2 bexI [of _ r]) simp_all
    qed
  qed
qed

lemma tracks_fold:
  "tracks sv R \<Longrightarrow> (\<And>r. r \<in> set rs \<Longrightarrow> distinct_keys (entries (jr_Delta r))) \<Longrightarrow> tracks (foldl apply_record sv rs) (R \<union> set rs)"
proof (induction rs arbitrary: sv R)
  case (Cons r rs)
  have "tracks (apply_record sv r) (insert r R)" using Cons.prems by (simp add: tracks_step)
  from Cons.IH [OF this] Cons.prems show ?case by simp
qed simp

lemma tracks_empty: "tracks ([], []) {}"
  by (simp add: tracks_def)

lemma tracks_projection:
  "(\<And>r. r \<in> set rs \<Longrightarrow> distinct_keys (entries (jr_Delta r))) \<Longrightarrow> tracks (projectJournal rs) (set rs)"
  using tracks_fold [OF tracks_empty, of "sort_journal rs"] by (simp add: projectJournal_def sort_journal_def)

lemma tracks_unique:
  assumes "tracks sv R" "tracks sv' R'" "content ` R = content ` R'" "inj_on jr_Order R"
  shows "map_of (fst sv) = map_of (fst sv') \<and> map_of (snd sv) = map_of (snd sv')"
proof -
  have eq: "map_of (fst sv) k = map_of (fst sv') k \<and> map_of (snd sv) k = map_of (snd sv') k" for k
  proof -
    from assms(1) show ?thesis
    proof (cases rule: tracksE [of _ _ k])
      case none
      have "\<forall>r \<in> R'. writes r k = None"
      proof
        fix r assume "r \<in> R'"
        then obtain q where "q \<in> R" "content r = content q" using assms(3) by (metis imageE imageI)
        then show "writes r k = None" using none(3) by (simp add: content_def)
      qed
      then show ?thesis using none(1,2) by (cases rule: tracksE [OF assms(2), of k]) auto
    next
      case (some w)
      obtain w' where w': "w' \<in> R'" "content w' = content w" using some(1) assms(3) by (metis imageE imageI)
      then have "writes w' k \<noteq> None" using some(2) by (simp add: content_def)
      then obtain x where x: "x \<in> R'" "writes x k \<noteq> None" "map_of (fst sv') k = writes x k" "map_of (snd sv') k = Some (version_of x)"
        "\<forall>r' \<in> R'. writes r' k \<noteq> None \<longrightarrow> jr_Order r' \<le> jr_Order x"
        using w'(1) by (cases rule: tracksE [OF assms(2), of k]) (simp, blast)
      obtain y where y: "y \<in> R" "content y = content x" using x(1) assms(3) by (metis imageE imageI)
      have "jr_Order w \<le> jr_Order x" using x(5) w' \<open>writes w' k \<noteq> None\<close> by (auto simp: content_def)
      moreover have "jr_Order x \<le> jr_Order w" using some(5) y x(2) by (auto simp: content_def)
      ultimately have "jr_Order y = jr_Order w" using y(2) by (simp add: content_def)
      then have "y = w" using assms(4) y(1) some(1) by (simp add: inj_on_def)
      then show ?thesis using y(2) some(3,4) x(3,4) by (simp add: content_def)
    qed
  qed
  then show ?thesis by (simp add: fun_eq_iff)
qed

section \<open>An index holds its records\<close>

definition maps_ok :: "'v stateJournalRecord set \<Rightarrow> (go_string, 'v stateJournalRecord) gomap \<Rightarrow> orders \<Rightarrow> bool" where
  "maps_ok R byID byOrder \<longleftrightarrow>
     (\<forall>i r. map_of byID i = Some r \<longrightarrow> r \<in> R \<and> jr_ID r = i) \<and>
     (\<forall>r \<in> R. map_of byID (jr_ID r) = Some r \<and> map_of byOrder (jr_Order r) = Some (jr_ID r))"

lemma maps_okD:
  assumes "maps_ok R byID byOrder"
  shows "map_of byID i = Some r \<Longrightarrow> r \<in> R \<and> jr_ID r = i"
    "r \<in> R \<Longrightarrow> map_of byID (jr_ID r) = Some r" "r \<in> R \<Longrightarrow> map_of byOrder (jr_Order r) = Some (jr_ID r)"
  using assms by (simp_all add: maps_ok_def)

lemma maps_ok_inj: "maps_ok R byID byOrder \<Longrightarrow> inj_on jr_Order R"
proof (rule inj_onI)
  fix x y assume ok: "maps_ok R byID byOrder" and xy: "x \<in> R" "y \<in> R" "jr_Order x = jr_Order y"
  have "Some (jr_ID x) = Some (jr_ID y)"
    using maps_okD(3) [OF ok xy(1)] maps_okD(3) [OF ok xy(2)] unfolding xy(3) by (rule trans [OF sym])
  then have "jr_ID x = jr_ID y" by (rule option.inject [THEN iffD1])
  then have "Some x = Some y"
    using maps_okD(2) [OF ok xy(1)] maps_okD(2) [OF ok xy(2)] by (metis (no_types))
  then show "x = y" by (rule option.inject [THEN iffD1])
qed

lemma fold_update_fresh: "f q \<notin> f ` set qs \<Longrightarrow> map_of (foldl (\<lambda>m r. AList.update (f r) (g r) m) m qs) (f q) = map_of m (f q)"
  by (induction qs arbitrary: m) auto

lemma fold_update_hit:
  "inj_on f (set rs) \<Longrightarrow> r \<in> set rs \<Longrightarrow> map_of (foldl (\<lambda>m r. AList.update (f r) (g r) m) m rs) (f r) = Some (g r)"
proof (induction rs arbitrary: m)
  case (Cons q rs)
  have inj: "inj_on f (set rs)" using Cons.prems(1) by (auto intro: inj_on_subset)
  show ?case
  proof (cases "r \<in> set rs")
    case True
    then show ?thesis using Cons.IH [OF inj True] by simp
  next
    case False
    then have "r = q" using Cons.prems(2) by simp
    moreover from this False have "f q \<notin> f ` set rs" using Cons.prems(1) by (auto dest: inj_onD)
    ultimately show ?thesis using fold_update_fresh [of f q rs g "AList.update (f q) (g q) m"] by simp
  qed
qed simp

lemma fold_update_some:
  "map_of (foldl (\<lambda>m r. AList.update (f r) (g r) m) m rs) i = Some x \<Longrightarrow> map_of m i = Some x \<or> (\<exists>r \<in> set rs. f r = i \<and> g r = x)"
proof (induction rs arbitrary: m)
  case (Cons q rs)
  have "map_of (foldl (\<lambda>m r. AList.update (f r) (g r) m) (AList.update (f q) (g q) m) rs) i = Some x"
    using Cons.prems by simp
  from Cons.IH [OF this] have "map_of (AList.update (f q) (g q) m) i = Some x \<or> (\<exists>r \<in> set rs. f r = i \<and> g r = x)" .
  then show ?case by (cases "f q = i") auto
qed simp

definition wf_journal :: "'v stateJournalRecord list \<Rightarrow> bool" where
  "wf_journal rs \<longleftrightarrow> inj_on jr_ID (set rs) \<and> inj_on jr_Order (set rs) \<and> (\<forall>r \<in> set rs. distinct_keys (entries (jr_Delta r)))"

lemma newJournalIndex_ok:
  assumes "wf_journal rs"
  shows "maps_ok (set rs) (ji_byID (newJournalIndex rs)) (ji_byOrder (newJournalIndex rs))"
proof -
  have inj: "inj_on jr_ID (set rs)" "inj_on jr_Order (set rs)" using assms by (simp_all add: wf_journal_def)
  have "r \<in> set rs \<and> jr_ID r = i" if "map_of (ji_byID (newJournalIndex rs)) i = Some r" for i r
    using fold_update_some [of jr_ID "\<lambda>r. r" "[]" rs i r] that by (auto simp: newJournalIndex_def)
  moreover have "map_of (ji_byID (newJournalIndex rs)) (jr_ID r) = Some r" "map_of (ji_byOrder (newJournalIndex rs)) (jr_Order r) = Some (jr_ID r)"
    if "r \<in> set rs" for r
    using fold_update_hit [OF inj(1) that, of "\<lambda>r. r" "[]"] fold_update_hit [OF inj(2) that, of jr_ID "[]"]
    by (simp_all add: newJournalIndex_def)
  ultimately show ?thesis unfolding maps_ok_def by blast
qed

text \<open>Adding a record either finds one that says the same or extends the set.\<close>

lemma addJournalRecord_ok:
  assumes "maps_ok R byID byOrder" "addJournalRecord byID byOrder r = Inr (found, byID', byOrder')"
  shows "if found then byID' = byID \<and> byOrder' = byOrder \<and> (\<exists>q \<in> R. content q = content r)
    else maps_ok (insert r R) byID' byOrder' \<and> jr_ID r \<notin> jr_ID ` R"
proof (cases "map_of byID (jr_ID r)")
  case (Some q)
  then have "q \<in> R" "jr_ID q = jr_ID r" using assms(1) by (auto simp: maps_ok_def)
  with Some assms(2) show ?thesis
    by (auto simp: addJournalRecord_def content_def split: if_splits dest!: deep_equal_lookup intro!: bexI [of _ q])
next
  case None
  have new: "jr_ID q \<noteq> jr_ID r" if "q \<in> R" for q using None maps_okD(2) [OF assms(1) that] by auto
  obtain claim: "claimLogicalOrder byOrder (jr_ID r) (jr_Order r) = Inr byOrder'" and f: "\<not> found" "byID' = AList.update (jr_ID r) r byID"
    using None assms(2) by (auto simp: addJournalRecord_def split: sum.splits)
  have o: "byOrder' = AList.update (jr_Order r) (jr_ID r) byOrder"
    "map_of byOrder (jr_Order r) = None \<or> map_of byOrder (jr_Order r) = Some (jr_ID r)"
    using claim by (auto simp: claimLogicalOrder_def split: option.splits if_splits)
  have ord: "jr_Order q \<noteq> jr_Order r" if "q \<in> R" for q
    using maps_okD(3) [OF assms(1) that] new [OF that] o(2) by auto
  have "maps_ok (insert r R) byID' byOrder'"
    unfolding maps_ok_def
  proof (intro conjI allI impI ballI)
    fix i q assume q: "map_of byID' i = Some q"
    show "q \<in> insert r R" "jr_ID q = i"
      using q maps_okD(1) [OF assms(1), of i q] unfolding f(2) by (auto split: if_splits)
  next
    fix q assume "q \<in> insert r R"
    then show "map_of byID' (jr_ID q) = Some q" "map_of byOrder' (jr_Order q) = Some (jr_ID q)"
      using maps_okD(2,3) [OF assms(1), of q] new [of q] ord [of q] unfolding f(2) o(1) by auto
  qed
  moreover have "jr_ID r \<notin> jr_ID ` R" using new by (metis imageE)
  ultimately show ?thesis using f(1) by simp
qed

section \<open>Merging\<close>

lemma index_add_ok:
  assumes "maps_ok (set (ji_records i)) (ji_byID i) (ji_byOrder i)" "index_add i r = Inr i'"
  shows "maps_ok (set (ji_records i')) (ji_byID i') (ji_byOrder i')"
    "content ` set (ji_records i') = insert (content r) (content ` set (ji_records i))"
    "set (ji_records i') \<subseteq> insert r (set (ji_records i))"
proof -
  obtain found byID byOrder where a: "addJournalRecord (ji_byID i) (ji_byOrder i) r = Inr (found, byID, byOrder)"
    and i': "i' = \<lparr>ji_records = (if found then ji_records i else ji_records i @ [r]), ji_byID = byID, ji_byOrder = byOrder\<rparr>"
    using assms(2) by (auto simp: index_add_def split: sum.splits)
  note add = addJournalRecord_ok [OF assms(1) a]
  show "maps_ok (set (ji_records i')) (ji_byID i') (ji_byOrder i')"
    using add assms(1) by (cases found) (simp_all add: i')
  show "content ` set (ji_records i') = insert (content r) (content ` set (ji_records i))"
  proof (cases found)
    case True
    then obtain q where "q \<in> set (ji_records i)" "content q = content r" using add by auto
    then have "content r \<in> content ` set (ji_records i)" by (metis imageI)
    then show ?thesis using True by (simp add: i' insert_absorb)
  qed (simp add: i')
  show "set (ji_records i') \<subseteq> insert r (set (ji_records i))" by (auto simp: i')
qed

lemma merge_pending_ok:
  assumes "maps_ok (set (ji_records app)) (ji_byID app) (ji_byOrder app)"
    and "merge_pending user app userState rs = Inr (app', user')"
  shows "content ` set app' = content ` set (ji_records app) \<union> content ` app_entry ` set rs \<and>
    set app' \<subseteq> set (ji_records app) \<union> app_entry ` set rs"
  using assms
proof (induction user app userState rs rule: merge_pending.induct)
  case (2 user app userState r rs)
  obtain app1 where a: "index_add app (app_entry r) = Inr app1" using "2.prems"(2) by (auto split: sum.splits)
  note add = index_add_ok [OF "2.prems"(1) a]
  have "content ` set app' = content ` set (ji_records app1) \<union> content ` app_entry ` set rs \<and>
      set app' \<subseteq> set (ji_records app1) \<union> app_entry ` set rs"
  proof (cases "sr_UserID r \<noteq> user")
    case True
    then show ?thesis using "2.IH"(1) [OF a True add(1)] "2.prems"(2) a by simp
  next
    case False
    then obtain u where u: "index_add userState (user_entry r) = Inr u" "merge_pending user app1 u rs = Inr (app', user')"
      using "2.prems"(2) a by (auto split: sum.splits)
    then show ?thesis using "2.IH"(2) [OF a False u(1) add(1)] by simp
  qed
  then show ?case using add(2,3) by auto
qed simp

lemma merge_known_ok:
  assumes "tracks (sp_App known, sp_AppVersions known) (set (sp_Records known))"
    and "maps_ok (set (sp_Records known)) byID byOrder"
    and "\<And>r. r \<in> set rs \<Longrightarrow> distinct_keys (entries (sr_AppDelta r))"
    and "merge_known user known byID byOrder rs = Inr result"
  shows "tracks (sp_App result, sp_AppVersions result) (set (sp_Records result)) \<and> inj_on jr_Order (set (sp_Records result)) \<and>
    content ` set (sp_Records result) = content ` set (sp_Records known) \<union> content ` app_entry ` set rs"
  using assms
proof (induction rs arbitrary: known byID byOrder)
  case Nil
  then show ?case by (auto intro: maps_ok_inj)
next
  case (Cons r rs)
  obtain found byID' byOrder' where a: "addJournalRecord byID byOrder (app_entry r) = Inr (found, byID', byOrder')"
    using Cons.prems(4) by (auto split: sum.splits)
  note add = addJournalRecord_ok [OF Cons.prems(2) a]
  show ?case
  proof (cases found)
    case True
    then obtain q where q: "q \<in> set (sp_Records known)" "content q = content (app_entry r)" and m: "byID' = byID" "byOrder' = byOrder"
      using add by auto
    have "merge_known user known byID byOrder rs = Inr result" using Cons.prems(4) a True m by simp
    from Cons.IH [OF Cons.prems(1,2) _ this] Cons.prems(3)
    have "tracks (sp_App result, sp_AppVersions result) (set (sp_Records result)) \<and> inj_on jr_Order (set (sp_Records result)) \<and>
      content ` set (sp_Records result) = content ` set (sp_Records known) \<union> content ` app_entry ` set rs" by simp
    moreover have "content (app_entry r) \<in> content ` set (sp_Records known)" using q by (metis imageI)
    ultimately show ?thesis by auto
  next
    case False
    define sv where "sv = applyOrderedDelta (sp_App known, sp_AppVersions known) (sr_ID r) (sr_Order r) (sr_AppDelta r)"
    define uv where "uv = (if sr_UserID r = user
        then applyOrderedDelta (sp_User known, sp_UserVersions known) (sr_ID r) (sr_Order r) (sr_UserDelta r)
        else (sp_User known, sp_UserVersions known))"
    define next' where "next' = \<lparr>sp_App = fst sv, sp_User = fst uv, sp_AppVersions = snd sv, sp_UserVersions = snd uv,
        sp_Records = sp_Records known @ [app_entry r]\<rparr>"
    have step: "merge_known user next' byID' byOrder' rs = Inr result"
      using Cons.prems(4) a False by (simp add: next'_def sv_def uv_def Let_def case_prod_unfold)
    have "sv = apply_record (sp_App known, sp_AppVersions known) (app_entry r)"
      by (simp add: sv_def apply_record_def app_entry_def)
    then have "tracks sv (insert (app_entry r) (set (sp_Records known)))"
      using tracks_step [OF Cons.prems(1), of "app_entry r"] Cons.prems(3) [of r] by (simp add: app_entry_def)
    then have t: "tracks (sp_App next', sp_AppVersions next') (set (sp_Records next'))" by (simp add: next'_def)
    have "maps_ok (set (sp_Records next')) byID' byOrder'" using add False by (simp add: next'_def)
    from Cons.IH [OF t this _ step] Cons.prems(3) show ?thesis by (simp add: next'_def)
  qed
qed

lemma sorted_set [simp]: "set (sortStateRecords rs) = set rs"
  by (simp add: sortStateRecords_def)


text \<open>The projection of a journal is last-writer-wins by logical order: a key has the value of the record of the
  highest order among those that write it, its version names that record, and a key no record writes is absent.
  Neither the order of the lines nor the order of keys in a delta matters.\<close>

theorem projection_last_writer:
  assumes "wf_journal rs" and "r \<in> set rs" and "writes r k = Some v"
    and "list_all (\<lambda>q. writes q k = None \<or> jr_Order q \<le> jr_Order r) rs"
  shows "map_of (fst (projectJournal rs)) k = Some v \<and>
    map_of (snd (projectJournal rs)) k = Some \<lparr>kv_Order = jr_Order r, kv_RecordID = jr_ID r\<rparr> \<and>
    (map_of (fst (projectJournal rs)) j = None \<longleftrightarrow> list_all (\<lambda>q. writes q j = None) rs)"
proof -
  have t: "tracks (projectJournal rs) (set rs)" using assms(1) by (intro tracks_projection) (simp add: wf_journal_def)
  have "map_of (fst (projectJournal rs)) k = Some v \<and> map_of (snd (projectJournal rs)) k = Some (version_of r)"
    using t
  proof (cases rule: tracksE [of _ _ k])
    case none
    then show ?thesis using assms(2,3) by simp
  next
    case (some w)
    then have "jr_Order r \<le> jr_Order w" using assms(2,3) by simp
    moreover have "jr_Order w \<le> jr_Order r" using some(1,2) assms(4) by (auto simp: list_all_iff)
    ultimately have "jr_Order w = jr_Order r" by (rule order_antisym [rotated])
    then have "w = r" using assms(1,2) some(1) by (auto simp: wf_journal_def dest: inj_onD)
    then show ?thesis using some assms(3) by simp
  qed
  moreover have "map_of (fst (projectJournal rs)) j = None \<longleftrightarrow> list_all (\<lambda>q. writes q j = None) rs"
    by (cases rule: tracksE [OF t, of j]) (auto simp: list_all_iff)
  ultimately show ?thesis by simp
qed

theorem projection_last_writer_witness:
  "let r = \<lparr>jr_ID = ''b'', jr_Order = 2, jr_Delta = Some [(''x'', 7::int)]\<rparr>;
       q = \<lparr>jr_ID = ''a'', jr_Order = 1, jr_Delta = Some [(''x'', 3)]\<rparr>
   in map_of (fst (projectJournal [r, q])) ''x'' = Some 7"
proof -
  define r where "r = \<lparr>jr_ID = ''b'', jr_Order = 2, jr_Delta = Some [(''x'', 7::int)]\<rparr>"
  define q where "q = \<lparr>jr_ID = ''a'', jr_Order = 1, jr_Delta = Some [(''x'', 3::int)]\<rparr>"
  have "wf_journal [r, q]" by (simp add: wf_journal_def r_def q_def entries_def)
  moreover have "writes r ''x'' = Some 7" "list_all (\<lambda>p. writes p ''x'' = None \<or> jr_Order p \<le> jr_Order r) [r, q]"
    by (simp_all add: r_def q_def entries_def)
  ultimately have "map_of (fst (projectJournal [r, q])) ''x'' = Some 7"
    using projection_last_writer [of "[r, q]" r "''x''" 7] by simp
  then show ?thesis by (simp add: r_def q_def)
qed


section \<open>A created session and the nil map\<close>

text \<open>
  \<open>json:",omitempty"\<close> of a map: an empty map is not written, so the field is nil when the line is read back.
  \<open>startCreate\<close> keeps the maps of \<open>splitState\<close>, which are never nil, in the pending record.
\<close>

definition omitempty :: "'v delta \<Rightarrow> 'v delta" where
  "omitempty d = (if entries d = [] then None else d)"

definition reread :: "'v stateRecord \<Rightarrow> 'v stateRecord" where
  "reread r = r\<lparr>sr_AppDelta := omitempty (sr_AppDelta r), sr_UserDelta := omitempty (sr_UserDelta r)\<rparr>"

lemma addJournalRecord_error: "addJournalRecord byID byOrder r = Inl e \<Longrightarrow> e = ErrRecordConflict"
  by (auto simp: addJournalRecord_def claimLogicalOrder_def split: option.splits sum.splits if_splits)

lemma index_add_error: "index_add i r = Inl e \<Longrightarrow> e = ErrRecordConflict"
  by (auto simp: index_add_def split: sum.splits dest: addJournalRecord_error)

text \<open>The index holds a nil delta under an identity.\<close>

definition holds_nil :: "go_string \<Rightarrow> 'v journalIndex \<Rightarrow> bool" where
  "holds_nil rid i \<longleftrightarrow> (\<exists>q. map_of (ji_byID i) rid = Some q \<and> jr_Delta q = None)"

lemma index_add_nil: "index_add i r = Inr i' \<Longrightarrow> jr_Delta r = None \<Longrightarrow> holds_nil (jr_ID r) i'"
proof (cases "map_of (ji_byID i) (jr_ID r)")
  case (Some q)
  assume "index_add i r = Inr i'" "jr_Delta r = None"
  then show ?thesis using Some by (cases "jr_Delta q") (auto simp: holds_nil_def index_add_def addJournalRecord_def split: if_splits)
next
  case None
  assume "index_add i r = Inr i'" "jr_Delta r = None"
  then show ?thesis using None by (auto simp: holds_nil_def index_add_def addJournalRecord_def split: sum.splits)
qed

lemma holds_nil_keeps: "holds_nil rid i \<Longrightarrow> index_add i r = Inr i' \<Longrightarrow> holds_nil rid i'"
  by (auto simp: holds_nil_def index_add_def addJournalRecord_def split: sum.splits option.splits if_splits)

lemma holds_nil_conflict: "holds_nil (jr_ID r) i \<Longrightarrow> jr_Delta r \<noteq> None \<Longrightarrow> index_add i r = Inl ErrRecordConflict"
  by (auto simp: holds_nil_def index_add_def addJournalRecord_def)

lemma merge_step_cases:
  "merge_pending user app us (r # rs) = Inl ErrRecordConflict \<or>
   (\<exists>app' us'. index_add app (app_entry r) = Inr app' \<and> merge_pending user app us (r # rs) = merge_pending user app' us' rs)"
  by (cases "index_add app (app_entry r)"; cases "index_add us (user_entry r)") (auto dest: index_add_error)

lemma merge_after_nil:
  assumes "sr_AppDelta p \<noteq> None"
  shows "holds_nil (sr_ID p) app \<Longrightarrow> merge_pending user app us (xs @ p # rest) = Inl ErrRecordConflict"
proof (induction xs arbitrary: app us)
  case Nil
  then show ?case using holds_nil_conflict [of "app_entry p" app] assms by (simp add: app_entry_def)
next
  case (Cons x xs)
  from merge_step_cases [of user app us x "xs @ p # rest"] show ?case
  proof (elim disjE exE conjE)
    fix app' us'
    assume a: "index_add app (app_entry x) = Inr app'"
      and eq: "merge_pending user app us (x # xs @ p # rest) = merge_pending user app' us' (xs @ p # rest)"
    show ?thesis using Cons.IH [OF holds_nil_keeps [OF Cons.prems a], of us'] eq by simp
  qed simp
qed

lemma merge_reread:
  assumes "sr_AppDelta p \<noteq> None" "entries (sr_AppDelta p) = []"
  shows "reread p \<in> set scanned \<Longrightarrow> merge_pending user app us (scanned @ p # rest) = Inl ErrRecordConflict"
proof (induction scanned arbitrary: app us)
  case (Cons x xs)
  from merge_step_cases [of user app us x "xs @ p # rest"] show ?case
  proof (elim disjE exE conjE)
    fix app' us'
    assume a: "index_add app (app_entry x) = Inr app'"
      and eq: "merge_pending user app us (x # xs @ p # rest) = merge_pending user app' us' (xs @ p # rest)"
    show ?thesis
    proof (cases "x = reread p")
      case True
      then have "holds_nil (sr_ID p) app'"
        using index_add_nil [OF a] assms(2) by (simp add: app_entry_def reread_def omitempty_def)
      from merge_after_nil [OF assms(1) this, of user us' xs rest] eq show ?thesis by simp
    next
      case False
      then show ?thesis using Cons.IH [of app' us'] Cons.prems eq by simp
    qed
  qed simp
qed simp



end
