(* ===== verification/Session_Log.thy ===== *)
theory Session_Log
  imports Session_Journal
begin

text \<open>
  The transcript of a session, \<open>sessionstore/log.go\<close> and \<open>record.go\<close>: recovery of a torn tail, decoding
  and checking of the lines, the log they make up, and the session view \<open>store.go\<close> builds from it. Events are
  values of the ADK library: the fields the store reads are fields here, the rest is the payload. \<open>encoding/json\<close>
  on these types is the record \<open>codec\<close> of its functions.
\<close>

section \<open>Records\<close>

record ('v, 'p) event =
  ev_ID :: go_string
  ev_Timestamp :: int
  ev_Partial :: bool
  ev_StateDelta :: "'v delta"
  ev_Payload :: 'p

record 'v header =
  h_ID :: go_string
  h_AppName :: go_string
  h_UserID :: go_string
  h_State :: "'v delta"
  h_AppDelta :: "'v delta"
  h_UserDelta :: "'v delta"
  h_CreatedAt :: int
  h_Incarnation :: "64 word"

record sidecar =
  sc_Kind :: go_string
  sc_Data :: go_string

record ('v, 'p) log_record =
  rec_Type :: go_string
  rec_Order :: "64 word"
  rec_Session :: "'v header option"
  rec_Event :: "('v, 'p) event option"
  rec_Sidecar :: "sidecar option"

text \<open>
  What the store asks of \<open>encoding/json\<close>: the envelope of a line (version, type, order), the whole record,
  \<open>json.Valid\<close>, and the copy of an event by encoding and decoding it.
\<close>

record ('v, 'p) codec =
  cd_envelope :: "go_string \<Rightarrow> (int \<times> go_string \<times> 64 word) option"
  cd_record :: "go_string \<Rightarrow> ('v, 'p) log_record option"
  cd_valid :: "go_string \<Rightarrow> bool"
  cd_clone :: "('v, 'p) event \<Rightarrow> ('v, 'p) event"

definition recordVersion :: int where "recordVersion = 2"
definition recordSession :: go_string where "recordSession = ''session''"
definition recordEvent :: go_string where "recordEvent = ''event''"
definition recordSidecar :: go_string where "recordSidecar = ''sidecar''"

lemmas record_types = recordSession_def recordEvent_def recordSidecar_def

datatype record_warning = WarnUnsupportedVersion | WarnUnknownRecord

definition forward_record :: "64 word \<Rightarrow> ('v, 'p) log_record" where
  "forward_record order = \<lparr>rec_Type = [], rec_Order = order, rec_Session = None, rec_Event = None, rec_Sidecar = None\<rparr>"

text \<open>\<open>None\<close> is an error.\<close>

definition decodeRecord :: "('v, 'p) codec \<Rightarrow> go_string \<Rightarrow> (('v, 'p) log_record \<times> record_warning option) option" where
  "decodeRecord cd data =
     (case cd_envelope cd data of
        None \<Rightarrow> None
      | Some (v, type', order) \<Rightarrow>
          if v \<noteq> recordVersion then Some (forward_record order, Some WarnUnsupportedVersion)
          else if type' \<noteq> recordSession \<and> type' \<noteq> recordEvent \<and> type' \<noteq> recordSidecar
          then Some (forward_record order, Some WarnUnknownRecord)
          else case cd_record cd data of
            None \<Rightarrow> None
          | Some r \<Rightarrow>
              if rec_Type r = recordSession then (if rec_Session r = None then None else Some (r, None))
              else if rec_Type r = recordEvent then (if rec_Event r = None then None else Some (r, None))
              else if rec_Type r = recordSidecar then (if rec_Sidecar r = None then None else Some (r, None))
              else Some (r, None))"

text \<open>
  \<open>sharedRecordID\<close>: the bytes that are hashed, each value with its length before it, and the identifier with
  \<open>sha\<close> for the hexadecimal SHA-256.
\<close>

definition be64 :: "nat \<Rightarrow> go_string" where
  "be64 n = map (\<lambda>i. byte_char (n div 256 ^ i mod 256)) [7, 6, 5, 4, 3, 2, 1, 0]"

definition record_preimage :: "go_string list \<Rightarrow> go_string" where
  "record_preimage values' = concat (map (\<lambda>v. be64 (length v) @ v) values')"

definition sharedRecordID ::
  "(go_string \<Rightarrow> go_string) \<Rightarrow> go_string \<Rightarrow> go_string \<Rightarrow> go_string \<Rightarrow> 64 word \<Rightarrow> go_string \<Rightarrow> go_string" where
  "sharedRecordID sha kind userID sessionID incarnation eventID =
     kind @ '':'' @ sha (record_preimage [kind, userID, sessionID, decimal (uint incarnation), eventID])"

section \<open>Recovering the file\<close>

text \<open>\<open>bytes.LastIndexByte(data, '\n') + 1\<close>.\<close>

definition torn_cut :: "go_string \<Rightarrow> nat" where
  "torn_cut data = length data - length (takeWhile (\<lambda>c. c \<noteq> LF) (rev data))"

text \<open>\<open>readSessionLog\<close> on the bytes of the file: what is left, in memory and in the file, and whether it warns.\<close>

definition recover_log :: "go_string \<Rightarrow> go_string \<times> bool" where
  "recover_log data = (if data = [] \<or> last data = LF then (data, False) else (take (torn_cut data) data, True))"

section \<open>Parsing\<close>

record ('v, 'p) session_log =
  l_name :: go_string
  l_header :: "'v header option"
  l_events :: "('v, 'p) event list"
  l_sidecars :: "(go_string, go_string) gomap"
  l_stateRecords :: "'v stateRecord list"
  l_updated :: int
  l_warnings :: "(record_warning \<times> nat) list"
  l_seen :: "go_string list"

text \<open>
  The log while it is parsed: a header that was not read yet is \<open>None\<close>, and \<open>l_seen\<close> is the
  \<open>seenEvents\<close> of the parser. The identity is what the parser is given.
\<close>

record identity =
  id_app :: go_string
  id_user :: go_string
  id_session :: go_string

text \<open>
  The line of the corruption; \<open>SlicePanic\<close> is the slice expression on data without a newline,
  \<open>NilPanic\<close> a record that is read through a nil pointer.
\<close>

datatype parse_error = Corrupt nat | SlicePanic | NilPanic

definition incarnation_of :: "('v, 'p) session_log \<Rightarrow> 64 word" where
  "incarnation_of l = (case l_header l of None \<Rightarrow> 0 | Some h \<Rightarrow> h_Incarnation h)"

definition acceptForwardRecord ::
  "(go_string \<Rightarrow> go_string) \<Rightarrow> identity \<Rightarrow> ('v, 'p) log_record \<Rightarrow> record_warning \<Rightarrow> nat \<Rightarrow>
   ('v, 'p) session_log \<Rightarrow> ('v, 'p) session_log" where
  "acceptForwardRecord sha i r w line l0 =
     (let l = l0\<lparr>l_warnings := l_warnings l0 @ [(w, line)]\<rparr>
      in if rec_Order r = 0 then l
         else l\<lparr>l_stateRecords := l_stateRecords l @
           [\<lparr>sr_ID = sharedRecordID sha ''forward'' (id_user i) (id_session i) (incarnation_of l)
                (decimal (int line) @ '':'' @ decimal (uint (rec_Order r))),
             sr_Order = rec_Order r, sr_Path = l_name l, sr_Line = int line, sr_UserID = id_user i,
             sr_AppDelta = None, sr_UserDelta = None\<rparr>]\<rparr>)"

definition validHeader :: "identity \<Rightarrow> ('v, 'p) log_record \<Rightarrow> bool" where
  "validHeader i r =
     (case rec_Session r of
        None \<Rightarrow> False
      | Some h \<Rightarrow> rec_Type r = recordSession \<and> h_ID h = id_session i \<and> h_AppName h = id_app i \<and> h_UserID h = id_user i \<and>
          rec_Order r > 0 \<and> h_Incarnation h = rec_Order r \<and> h_CreatedAt h \<noteq> 0)"

definition acceptHeader ::
  "(go_string \<Rightarrow> go_string) \<Rightarrow> identity \<Rightarrow> ('v, 'p) log_record \<Rightarrow> nat \<Rightarrow> ('v, 'p) session_log \<Rightarrow>
   parse_error + ('v, 'p) session_log" where
  "acceptHeader sha i r line l =
     (if \<not> validHeader i r then Inl (Corrupt line)
      else case rec_Session r of
        None \<Rightarrow> Inl (Corrupt line)
      | Some h \<Rightarrow>
          Inr (l\<lparr>l_header := Some h, l_updated := h_CreatedAt h,
            l_stateRecords := l_stateRecords l @
              [\<lparr>sr_ID = sharedRecordID sha ''create'' (id_user i) (id_session i) (h_Incarnation h) [],
                sr_Order = rec_Order r, sr_Path = l_name l, sr_Line = int line, sr_UserID = id_user i,
                sr_AppDelta = h_AppDelta h, sr_UserDelta = h_UserDelta h\<rparr>]\<rparr>))"

definition state_deltas :: "'v delta \<Rightarrow> 'v delta \<times> 'v delta" where
  "state_deltas d = (let (_, app, user) = splitState (entries d) in (Some app, Some user))"

definition acceptEvent ::
  "(go_string \<Rightarrow> go_string) \<Rightarrow> ('v, 'p) codec \<Rightarrow> identity \<Rightarrow> ('v, 'p) log_record \<Rightarrow> nat \<Rightarrow> ('v, 'p) session_log \<Rightarrow>
   parse_error + ('v, 'p) session_log" where
  "acceptEvent sha cd i r line l =
     (case rec_Event r of
        None \<Rightarrow> Inl NilPanic
      | Some e \<Rightarrow>
          if ev_ID e = [] \<or> rec_Order r = 0 then Inl (Corrupt line)
          else if ev_ID e \<in> set (l_seen l) then Inl (Corrupt line)
          else
            let event = cd_clone cd e; (appDelta, userDelta) = state_deltas (ev_StateDelta event)
            in Inr (l\<lparr>l_seen := ev_ID e # l_seen l, l_events := l_events l @ [event], l_updated := ev_Timestamp event,
                 l_stateRecords := l_stateRecords l @
                   [\<lparr>sr_ID = sharedRecordID sha ''event'' (id_user i) (id_session i) (incarnation_of l) (ev_ID event),
                     sr_Order = rec_Order r, sr_Path = l_name l, sr_Line = int line, sr_UserID = id_user i,
                     sr_AppDelta = appDelta, sr_UserDelta = userDelta\<rparr>]\<rparr>))"

definition jsonValue :: "('v, 'p) codec \<Rightarrow> go_string \<Rightarrow> bool" where
  "jsonValue cd data \<longleftrightarrow> data \<noteq> [] \<and> trim_space data \<noteq> [] \<and> cd_valid cd data"

definition acceptSidecar ::
  "('v, 'p) codec \<Rightarrow> ('v, 'p) log_record \<Rightarrow> nat \<Rightarrow> ('v, 'p) session_log \<Rightarrow> parse_error + ('v, 'p) session_log" where
  "acceptSidecar cd r line l =
     (case rec_Sidecar r of
        None \<Rightarrow> Inl NilPanic
      | Some s \<Rightarrow>
          if sc_Kind s = [] \<or> \<not> jsonValue cd (sc_Data s) then Inl (Corrupt line)
          else Inr (l\<lparr>l_sidecars := AList.update (sc_Kind s) (sc_Data s) (l_sidecars l)\<rparr>))"

definition acceptBodyRecord ::
  "(go_string \<Rightarrow> go_string) \<Rightarrow> ('v, 'p) codec \<Rightarrow> identity \<Rightarrow> ('v, 'p) log_record \<Rightarrow> nat \<Rightarrow> ('v, 'p) session_log \<Rightarrow>
   parse_error + ('v, 'p) session_log" where
  "acceptBodyRecord sha cd i r line l =
     (if rec_Type r = recordSession then Inl (Corrupt line)
      else if rec_Type r = recordSidecar then acceptSidecar cd r line l
      else acceptEvent sha cd i r line l)"

definition parseLine ::
  "(go_string \<Rightarrow> go_string) \<Rightarrow> ('v, 'p) codec \<Rightarrow> identity \<Rightarrow> go_string \<Rightarrow> nat \<Rightarrow> ('v, 'p) session_log \<Rightarrow>
   parse_error + ('v, 'p) session_log" where
  "parseLine sha cd i rawLine line l =
     (if trim_space rawLine = [] then Inl (Corrupt line)
      else case decodeRecord cd rawLine of
        None \<Rightarrow> Inl (Corrupt line)
      | Some (r, Some w) \<Rightarrow> Inr (acceptForwardRecord sha i r w line l)
      | Some (r, None) \<Rightarrow> if line = 1 then acceptHeader sha i r line l else acceptBodyRecord sha cd i r line l)"

function parse_lines ::
  "(go_string \<Rightarrow> go_string) \<Rightarrow> ('v, 'p) codec \<Rightarrow> identity \<Rightarrow> go_string \<Rightarrow> nat \<Rightarrow> ('v, 'p) session_log \<Rightarrow>
   parse_error + nat \<times> ('v, 'p) session_log" where
  "parse_lines sha cd i data line l =
     (if data = [] then Inr (line, l)
      else case index_byte data LF of
        None \<Rightarrow> Inl SlicePanic
      | Some end' \<Rightarrow>
          (case parseLine sha cd i (take end' data) (line + 1) l of
             Inl e \<Rightarrow> Inl e
           | Inr l' \<Rightarrow> parse_lines sha cd i (drop (end' + 1) data) (line + 1) l'))"
  by pat_completeness auto
termination
  by (relation "measure (\<lambda>(_, _, _, data, _). length data)") auto

declare parse_lines.simps [simp del]

definition empty_log :: "go_string \<Rightarrow> ('v, 'p) session_log" where
  "empty_log name = \<lparr>l_name = name, l_header = None, l_events = [], l_sidecars = [], l_stateRecords = [], l_updated = 0,
     l_warnings = [], l_seen = []\<rparr>"

definition parse ::
  "(go_string \<Rightarrow> go_string) \<Rightarrow> ('v, 'p) codec \<Rightarrow> identity \<Rightarrow> go_string \<Rightarrow> go_string \<Rightarrow> parse_error + ('v, 'p) session_log" where
  "parse sha cd i name data =
     (case parse_lines sha cd i data 0 (empty_log name) of
        Inl e \<Rightarrow> Inl e
      | Inr (line, l) \<Rightarrow>
          if line = 0 \<or> (case l_header l of None \<Rightarrow> True | Some h \<Rightarrow> h_ID h = []) then Inl (Corrupt 1) else Inr l)"

lemma parse_iff:
  "parse sha cd i name data =
     (case parse_lines sha cd i data 0 (empty_log name) of
        Inl e \<Rightarrow> Inl e
      | Inr (line, l) \<Rightarrow>
          if line = 0 \<or> l_header l = None \<or> (\<exists>h. l_header l = Some h \<and> h_ID h = []) then Inl (Corrupt 1) else Inr l)"
  by (auto simp: parse_def split: sum.split option.split)

text \<open>\<open>loadSessionLog\<close> on the content of the file.\<close>

definition loadSessionLog ::
  "(go_string \<Rightarrow> go_string) \<Rightarrow> ('v, 'p) codec \<Rightarrow> identity \<Rightarrow> go_string \<Rightarrow> go_string \<Rightarrow> parse_error + ('v, 'p) session_log" where
  "loadSessionLog sha cd i name data = parse sha cd i name (fst (recover_log data))"

section \<open>A crash during an append\<close>

definition complete :: "go_string \<Rightarrow> bool" where
  "complete data \<longleftrightarrow> data = [] \<or> last data = LF"

lemma recover_complete: "complete data \<Longrightarrow> recover_log data = (data, False)"
  by (auto simp: complete_def recover_log_def)

lemma torn_cut_append: "LF \<notin> set t \<Longrightarrow> complete data \<Longrightarrow> torn_cut (data @ t) = length data"
proof -
  assume t: "LF \<notin> set t" and c: "complete data"
  have "takeWhile (\<lambda>c. c \<noteq> LF) (rev t @ rev data) = rev t @ takeWhile (\<lambda>c. c \<noteq> LF) (rev data)"
    using t by (subst takeWhile_append2) auto
  moreover have "takeWhile (\<lambda>c. c \<noteq> LF) (rev data) = []"
    using c by (cases data rule: rev_cases) (auto simp: complete_def)
  ultimately show ?thesis by (simp add: torn_cut_def)
qed

lemma recover_torn: "LF \<notin> set t \<Longrightarrow> complete data \<Longrightarrow> recover_log (data @ t) = (data, t \<noteq> [])"
proof (cases "t = []")
  case False
  assume t: "LF \<notin> set t" and c: "complete data"
  with False have "last (data @ t) \<noteq> LF" by (metis last_appendR last_in_set)
  then show ?thesis using torn_cut_append [OF t c] False by (simp add: recover_log_def)
qed (simp add: recover_complete)

lemma recover_is_complete: "complete (fst (recover_log data))"
proof (cases "data = [] \<or> last data = LF")
  case True
  then show ?thesis by (simp add: recover_log_def complete_def)
next
  case False
  let ?t = "rev (takeWhile (\<lambda>c. c \<noteq> LF) (rev data))" and ?d = "rev (dropWhile (\<lambda>c. c \<noteq> LF) (rev data))"
  have d: "data = ?d @ ?t" by (metis rev_append rev_rev_ident takeWhile_dropWhile_id)
  have "complete ?d"
    using hd_dropWhile [of "\<lambda>c. c \<noteq> LF" "rev data"] by (auto simp: complete_def last_rev)
  moreover have "LF \<notin> set ?t" by (auto dest: set_takeWhileD)
  ultimately show ?thesis using recover_torn [of ?t ?d] d by (metis fst_conv)
qed

lemma torn_append_loads:
  assumes "data = [] \<or> last data = LF" and "LF \<notin> set line" and "k \<le> length line + 1"
  shows "recover_log (data @ take k (line @ [LF])) =
      (if k = length line + 1 then (data @ line @ [LF], False) else (data, k \<noteq> 0 \<and> line \<noteq> [])) \<and>
    loadSessionLog sha cd i name (data @ take k (line @ [LF])) \<in>
      {loadSessionLog sha cd i name data, loadSessionLog sha cd i name (data @ line @ [LF])}"
proof -
  have c: "complete data" using assms(1) by (simp add: complete_def)
  have "recover_log (data @ take k (line @ [LF])) =
      (if k = length line + 1 then (data @ line @ [LF], False) else (data, k \<noteq> 0 \<and> line \<noteq> []))"
  proof (cases "k = length line + 1")
    case True
    then show ?thesis by (simp add: recover_complete complete_def)
  next
    case False
    then have "take k (line @ [LF]) = take k line" "LF \<notin> set (take k line)"
      using assms(2,3) by (auto dest: in_set_takeD)
    then show ?thesis using recover_torn [OF _ c, of "take k line"] False by (cases k) simp_all
  qed
  moreover have "recover_log data = (data, False)" "recover_log (data @ line @ [LF]) = (data @ line @ [LF], False)"
    using c by (simp_all add: recover_complete complete_def)
  ultimately show ?thesis by (simp add: loadSessionLog_def)
qed

text \<open>If the process dies while a line is appended to a transcript, at whatever byte, loading the transcript
  afterwards gives exactly the log before the append or, once every byte was written, the log after it; the torn
  bytes are cut off and reported.\<close>

theorem append_crash_atomic:
  assumes "data = [] \<or> last data = LF" and "LF \<notin> set line" and "k \<le> length line + 1"
  shows "recover_log (data @ take k (line @ [LF])) =
      (if k = length line + 1 then (data @ line @ [LF], False) else (data, k \<noteq> 0 \<and> line \<noteq> [])) \<and>
    loadSessionLog sha cd i name (data @ take k (line @ [LF])) \<in>
      {loadSessionLog sha cd i name data, loadSessionLog sha cd i name (data @ line @ [LF])}"
  by (rule torn_append_loads [OF assms(1) assms(2) assms(3)])

theorem append_crash_atomic_witness: "recover_log (''a'' @ [LF] @ ''bc'') = (''a'' @ [LF], True)"
proof -
  have "''a'' @ [LF] = [] \<or> last (''a'' @ [LF]) = LF" "LF \<notin> set ''bcd''" "2 \<le> length ''bcd'' + 1" by simp_all
  from append_crash_atomic [OF this, THEN conjunct1]
  have "recover_log ((''a'' @ [LF]) @ take 2 (''bcd'' @ [LF])) = (''a'' @ [LF], True)" by simp
  moreover have "(''a'' @ [LF]) @ take 2 (''bcd'' @ [LF]) = ''a'' @ [LF] @ ''bc''" by simp
  ultimately show ?thesis by (simp only:)
qed

section \<open>What a loaded log satisfies\<close>

definition log_ok :: "identity \<Rightarrow> nat \<Rightarrow> ('v, 'p) session_log \<Rightarrow> bool" where
  "log_ok i line l \<longleftrightarrow>
     (\<forall>h. l_header l = Some h \<longrightarrow> h_ID h = id_session i \<and> h_AppName h = id_app i \<and> h_UserID h = id_user i \<and>
        h_Incarnation h \<noteq> 0 \<and> h_CreatedAt h \<noteq> 0) \<and>
     set (map ev_ID (l_events l)) = set (l_seen l) \<and> length (l_events l) = length (l_seen l) \<and>
     distinct (l_seen l) \<and> [] \<notin> set (l_seen l) \<and>
     (\<forall>r \<in> set (l_stateRecords l). sr_Order r \<noteq> 0 \<and> sr_UserID r = id_user i \<and> sr_Path r = l_name l \<and> sr_Line r \<le> int line) \<and>
     sorted_wrt (\<lambda>r r'. sr_Line r < sr_Line r') (l_stateRecords l)"

definition clone_keeps_id :: "('v, 'p) codec \<Rightarrow> bool" where
  "clone_keeps_id cd \<longleftrightarrow> (\<forall>e. ev_ID (cd_clone cd e) = ev_ID e)"

text \<open>The envelope and the record are decoded from the same \<open>type\<close> member.\<close>

definition types_agree :: "('v, 'p) codec \<Rightarrow> bool" where
  "types_agree cd \<longleftrightarrow> (\<forall>data v t order r. cd_envelope cd data = Some (v, t, order) \<longrightarrow> cd_record cd data = Some r \<longrightarrow> rec_Type r = t)"

lemma decoded_record_has_body:
  "types_agree cd \<Longrightarrow> decodeRecord cd data = Some (r, None) \<Longrightarrow>
    (rec_Type r = recordSidecar \<longrightarrow> rec_Sidecar r \<noteq> None) \<and>
    (rec_Type r \<noteq> recordSession \<longrightarrow> rec_Type r \<noteq> recordSidecar \<longrightarrow> rec_Event r \<noteq> None)"
proof -
  assume "types_agree cd" and dec: "decodeRecord cd data = Some (r, None)"
  then have agree: "cd_envelope cd data = Some (v, t, order) \<Longrightarrow> cd_record cd data = Some r' \<Longrightarrow> t = rec_Type r'" for v t order r'
    by (auto simp: types_agree_def)
  show ?thesis using dec unfolding decodeRecord_def
    by (auto simp: record_types split: option.splits if_splits dest: agree)
qed

lemma parseLine_no_panic: "types_agree cd \<Longrightarrow> parseLine sha cd i raw line l = Inl err \<Longrightarrow> err = Corrupt line"
  using decoded_record_has_body [of cd raw]
  by (auto simp: parseLine_def acceptBodyRecord_def acceptHeader_def acceptSidecar_def acceptEvent_def Let_def
      split: if_splits option.splits prod.splits)

lemma log_ok_step:
  assumes "clone_keeps_id cd" "log_ok i line l" "parseLine sha cd i raw (line + 1) l = Inr l'"
  shows "log_ok i (line + 1) l'"
proof -
  have nz: "(0::64 word) < x \<Longrightarrow> x \<noteq> 0" for x by auto
  consider r w where "l' = acceptForwardRecord sha i r w (line + 1) l"
    | r where "acceptHeader sha i r (line + 1) l = Inr l'"
    | r where "acceptSidecar cd r (line + 1) l = Inr l'"
    | r where "acceptEvent sha cd i r (line + 1) l = Inr l'"
    using assms(3) by (auto simp: parseLine_def acceptBodyRecord_def split: if_splits option.splits)
  then show ?thesis
  proof cases
    case 1
    then show ?thesis using assms(2) by (fastforce simp: log_ok_def acceptForwardRecord_def Let_def sorted_wrt_append)
  next
    case 2
    then show ?thesis using assms(2)
      by (fastforce simp: log_ok_def acceptHeader_def validHeader_def sorted_wrt_append dest: nz split: if_splits option.splits)
  next
    case 3
    then show ?thesis using assms(2)
      by (fastforce simp: log_ok_def acceptSidecar_def split: if_splits option.splits)
  next
    case 4
    then show ?thesis using assms(1,2)
      by (fastforce simp: log_ok_def acceptEvent_def clone_keeps_id_def Let_def sorted_wrt_append split: if_splits option.splits prod.splits)
  qed
qed

lemma parse_lines_ok:
  "clone_keeps_id cd \<Longrightarrow> log_ok i line l \<Longrightarrow> parse_lines sha cd i data line l = Inr (line', l') \<Longrightarrow> log_ok i line' l'"
proof (induction sha cd i data line l rule: parse_lines.induct)
  case (1 sha cd i data line l)
  show ?case
  proof (cases "data = []")
    case True
    then show ?thesis using "1.prems" by (subst (asm) parse_lines.simps) simp
  next
    case False
    then obtain e l1 where e: "index_byte data LF = Some e" "parseLine sha cd i (take e data) (line + 1) l = Inr l1"
      "parse_lines sha cd i (drop (e + 1) data) (line + 1) l1 = Inr (line', l')"
      using "1.prems"(3) by (auto simp: parse_lines.simps [of _ _ _ data] split: option.splits sum.splits)
    show ?thesis
      by (rule "1.IH" [OF False e(1,2) "1.prems"(1) log_ok_step [OF "1.prems"(1,2) e(2)] e(3)])
  qed
qed

lemma parse_lines_no_panic:
  "types_agree cd \<Longrightarrow> complete data \<Longrightarrow> parse_lines sha cd i data line l = Inl err \<Longrightarrow> \<exists>n. err = Corrupt n"
proof (induction sha cd i data line l rule: parse_lines.induct)
  case (1 sha cd i data line l)
  have ne: "data \<noteq> []" using "1.prems"(3) by (auto simp: parse_lines.simps [of _ _ _ "[]"])
  then have "LF \<in> set data" using "1.prems"(2) by (metis complete_def last_in_set)
  then obtain e where e: "index_byte data LF = Some e" using index_byte_None [of data LF] by auto
  show ?case
  proof (cases "parseLine sha cd i (take e data) (line + 1) l")
    case (Inl err')
    then have "err = err'" using "1.prems"(3) e ne by (simp add: parse_lines.simps [of _ _ _ data])
    then show ?thesis using parseLine_no_panic [OF "1.prems"(1)] Inl by blast
  next
    case (Inr l1)
    have "complete (drop (e + 1) data)"
      using "1.prems"(2) by (cases "drop (e + 1) data = []") (auto simp: complete_def)
    moreover have "parse_lines sha cd i (drop (e + 1) data) (line + 1) l1 = Inl err"
      using "1.prems"(3) e ne Inr by (simp add: parse_lines.simps [of _ _ _ data])
    ultimately show ?thesis using "1.IH" [OF ne e Inr "1.prems"(1)] by blast
  qed
qed

text \<open>C19: Loading a transcript never panics, whatever bytes the file holds: it reports the line that is corrupt, or
  the log is well formed: its header carries the identity asked for, a creation time and an incarnation; its events
  have distinct non-empty identifiers; its state records have positive orders, belong to the user and the file and
  come in line order.\<close>

theorem loaded_log_wellformed:
  assumes "clone_keeps_id cd" and "types_agree cd"
  shows "case loadSessionLog sha cd i name data of
      Inl e \<Rightarrow> \<exists>line. e = Corrupt line
    | Inr l \<Rightarrow>
        (\<exists>h. l_header l = Some h \<and> h_ID h = id_session i \<and> h_AppName h = id_app i \<and> h_UserID h = id_user i \<and>
          h_Incarnation h \<noteq> 0 \<and> h_CreatedAt h \<noteq> 0) \<and>
        distinct (map ev_ID (l_events l)) \<and> [] \<notin> set (map ev_ID (l_events l)) \<and>
        list_all (\<lambda>r. sr_Order r \<noteq> 0 \<and> sr_UserID r = id_user i \<and> sr_Path r = l_name l) (l_stateRecords l) \<and>
        sorted_wrt (\<lambda>r r'. sr_Line r < sr_Line r') (l_stateRecords l)"
proof (cases "loadSessionLog sha cd i name data")
  case (Inl e)
  then have "\<exists>line. e = Corrupt line"
    using parse_lines_no_panic [OF assms(2) recover_is_complete, of sha i data 0 "empty_log name"]
    by (auto simp: loadSessionLog_def parse_iff split: sum.splits if_splits)
  then show ?thesis using Inl by simp
next
  case (Inr l)
  have "log_ok i 0 (empty_log name)" by (simp add: log_ok_def empty_log_def)
  moreover obtain line where "parse_lines sha cd i (fst (recover_log data)) 0 (empty_log name) = Inr (line, l)"
    and h: "l_header l \<noteq> None"
    using Inr by (auto simp: loadSessionLog_def parse_iff split: sum.splits if_splits)
  ultimately have ok: "log_ok i line l" using parse_lines_ok [OF assms(1)] by blast
  then have "distinct (map ev_ID (l_events l))"
    by (intro card_distinct) (simp add: log_ok_def distinct_card)
  then show ?thesis using Inr ok h by (auto simp: log_ok_def list_all_iff)
qed

section \<open>A written transcript is read back\<close>

text \<open>What is relied on from encoding a record to a line and decoding it again.\<close>

definition line_decodes :: "('v, 'p) codec \<Rightarrow> go_string \<Rightarrow> ('v, 'p) log_record \<Rightarrow> bool" where
  "line_decodes cd line r \<longleftrightarrow> decodeRecord cd line = Some (r, None) \<and> LF \<notin> set line \<and> trim_space line \<noteq> []"

definition event_record :: "64 word \<Rightarrow> ('v, 'p) event \<Rightarrow> ('v, 'p) log_record" where
  "event_record order e = \<lparr>rec_Type = recordEvent, rec_Order = order, rec_Session = None, rec_Event = Some e, rec_Sidecar = None\<rparr>"

definition header_record :: "'v header \<Rightarrow> ('v, 'p) log_record" where
  "header_record h = \<lparr>rec_Type = recordSession, rec_Order = h_Incarnation h, rec_Session = Some h, rec_Event = None, rec_Sidecar = None\<rparr>"

definition join_lines :: "go_string list \<Rightarrow> go_string" where
  "join_lines ls = concat (map (\<lambda>l. l @ [LF]) ls)"

lemma join_lines_complete: "complete (join_lines ls)"
  by (cases ls rule: rev_cases) (simp_all add: join_lines_def complete_def)

lemma parse_line_cons:
  "LF \<notin> set line \<Longrightarrow>
   parse_lines sha cd i (line @ LF # rest) n l =
     (case parseLine sha cd i line (n + 1) l of Inl e \<Rightarrow> Inl e | Inr l' \<Rightarrow> parse_lines sha cd i rest (n + 1) l')"
proof -
  assume "LF \<notin> set line"
  then have "index_byte (line @ LF # rest) LF = Some (length line)" by (induction line) auto
  moreover have "drop (length line + 1) (line @ LF # rest) = rest" by simp
  ultimately show ?thesis
    by (cases "parseLine sha cd i line (n + 1) l") (simp_all add: parse_lines.simps [of _ _ _ "line @ LF # rest"])
qed

lemma replay_events:
  assumes "list_all2 (\<lambda>line (order, e). line_decodes cd line (event_record order e)) ls es"
    and "distinct (map (ev_ID \<circ> snd) es)" "list_all (\<lambda>(order, e). order \<noteq> 0 \<and> ev_ID e \<noteq> []) es"
    and "set (l_seen l) \<inter> set (map (ev_ID \<circ> snd) es) = {}" "0 < n" "l_header l = Some h"
  shows "\<exists>l'. parse_lines sha cd i (join_lines ls) n l = Inr (n + length ls, l') \<and> l_header l' = Some h \<and>
    l_events l' = l_events l @ map (cd_clone cd \<circ> snd) es \<and>
    map sr_Order (l_stateRecords l') = map sr_Order (l_stateRecords l) @ map fst es \<and>
    l_sidecars l' = l_sidecars l \<and> l_warnings l' = l_warnings l"
  using assms
proof (induction ls es arbitrary: l n rule: list_all2_induct)
  case Nil
  then show ?case by (subst parse_lines.simps) (simp add: join_lines_def)
next
  case (Cons line ls x es)
  obtain order e where x: "x = (order, e)" by fastforce
  have dec: "decodeRecord cd line = Some (event_record order e, None)" "LF \<notin> set line" "trim_space line \<noteq> []"
    using Cons.hyps(1) x by (simp_all add: line_decodes_def)
  have ne: "ev_ID e \<noteq> []" "order \<noteq> 0" "ev_ID e \<notin> set (l_seen l)" using Cons.prems x by auto
  define l1 where "l1 = (case acceptEvent sha cd i (event_record order e) (n + 1) l of Inr l1 \<Rightarrow> l1 | Inl _ \<Rightarrow> l)"
  have acc: "acceptEvent sha cd i (event_record order e) (n + 1) l = Inr l1"
    using ne by (simp add: l1_def acceptEvent_def event_record_def Let_def case_prod_unfold)
  then have l1: "l_header l1 = Some h" "l_events l1 = l_events l @ [cd_clone cd e]" "l_seen l1 = ev_ID e # l_seen l"
    "map sr_Order (l_stateRecords l1) = map sr_Order (l_stateRecords l) @ [order]"
    "l_sidecars l1 = l_sidecars l" "l_warnings l1 = l_warnings l"
    using ne Cons.prems(5) by (auto simp: acceptEvent_def event_record_def Let_def case_prod_unfold)
  have "parseLine sha cd i line (n + 1) l = Inr l1"
    using dec acc Cons.prems(4) by (simp add: parseLine_def acceptBodyRecord_def event_record_def record_types)
  then have step: "parse_lines sha cd i (join_lines (line # ls)) n l = parse_lines sha cd i (join_lines ls) (n + 1) l1"
    using parse_line_cons [OF dec(2), of sha cd i "join_lines ls" n l] by (simp add: join_lines_def)
  have "set (l_seen l1) \<inter> set (map (ev_ID \<circ> snd) es) = {}" using Cons.prems(1,3) l1(3) x by auto
  from Cons.IH [OF _ _ this _ l1(1), of "n + 1"] Cons.prems(1,2) show ?case
    using l1 x by (auto simp: step)
qed

lemma transcript_loads:
  assumes "line_decodes cd first (header_record h)" and "validHeader i (header_record h :: ('v, 'p) log_record)"
    and "h_ID h \<noteq> []"
    and "list_all2 (\<lambda>line (order, e). line_decodes cd line (event_record order e)) ls es"
    and "distinct (map (ev_ID \<circ> snd) es)" and "list_all (\<lambda>(order, e). order \<noteq> 0 \<and> ev_ID e \<noteq> []) es"
  shows "\<exists>l. loadSessionLog sha (cd :: ('v, 'p) codec) i name (join_lines (first # ls)) = Inr l \<and> l_header l = Some h \<and>
    l_events l = map (cd_clone cd \<circ> snd) es \<and> map sr_Order (l_stateRecords l) = h_Incarnation h # map fst es"
proof -
  define l1 where "l1 = (case acceptHeader sha i (header_record h :: ('v, 'p) log_record) 1 (empty_log name) of Inr l1 \<Rightarrow> l1 | Inl _ \<Rightarrow> empty_log name)"
  have acc: "acceptHeader sha i (header_record h :: ('v, 'p) log_record) 1 (empty_log name) = Inr l1"
    using assms(2) by (simp add: l1_def acceptHeader_def header_record_def)
  then have l1: "l_header l1 = Some h" "l_events l1 = []" "l_seen l1 = []" "map sr_Order (l_stateRecords l1) = [h_Incarnation h]"
    using assms(2) by (auto simp: acceptHeader_def header_record_def empty_log_def)
  have dec: "decodeRecord cd first = Some (header_record h, None)" "LF \<notin> set first" "trim_space first \<noteq> []"
    using assms(1) by (simp_all add: line_decodes_def)
  then have "parseLine sha cd i first 1 (empty_log name) = Inr l1" using acc by (simp add: parseLine_def)
  then have "parse_lines sha cd i (join_lines (first # ls)) 0 (empty_log name) = parse_lines sha cd i (join_lines ls) 1 l1"
    using parse_line_cons [OF dec(2), of sha cd i "join_lines ls" 0 "empty_log name"] by (simp add: join_lines_def)
  moreover obtain l' where "parse_lines sha cd i (join_lines ls) 1 l1 = Inr (1 + length ls, l')" "l_header l' = Some h"
    "l_events l' = map (cd_clone cd \<circ> snd) es" "map sr_Order (l_stateRecords l') = h_Incarnation h # map fst es"
    using replay_events [OF assms(4,5,6), of l1 1 h sha i] l1 by auto
  moreover have "recover_log (join_lines (first # ls)) = (join_lines (first # ls), False)"
    by (rule recover_complete) (rule join_lines_complete)
  ultimately show ?thesis using assms(3) by (simp add: loadSessionLog_def parse_iff)
qed

text \<open>A transcript written line by line, the header of the session and then its events with distinct identifiers
  and positive orders, loads to the log with that header, exactly those events in that order, and one state record
  for each line with the order it was written with.\<close>

theorem transcript_replays:
  assumes "line_decodes cd first (header_record h)" and "validHeader i (header_record h :: ('v, 'p) log_record)"
    and "h_ID h \<noteq> []"
    and "list_all2 (\<lambda>line (order, e). line_decodes cd line (event_record order e)) ls es"
    and "distinct (map (ev_ID \<circ> snd) es)" and "list_all (\<lambda>(order, e). order \<noteq> 0 \<and> ev_ID e \<noteq> []) es"
  shows "\<exists>l. loadSessionLog sha (cd :: ('v, 'p) codec) i name (join_lines (first # ls)) = Inr l \<and> l_header l = Some h \<and>
    l_events l = map (cd_clone cd \<circ> snd) es \<and> map sr_Order (l_stateRecords l) = h_Incarnation h # map fst es"
  by (rule transcript_loads [OF assms(1) assms(2) assms(3) assms(4) assms(5) assms(6)])

text \<open>A codec of two lines: \<open>h\<close> is the header of session \<open>s\<close>, \<open>e\<close> an event.\<close>

definition sample_header :: "unit header" where
  "sample_header = \<lparr>h_ID = ''s'', h_AppName = ''a'', h_UserID = ''u'', h_State = None, h_AppDelta = None, h_UserDelta = None,
     h_CreatedAt = 5, h_Incarnation = 1\<rparr>"

definition sample_event :: "(unit, unit) event" where
  "sample_event = \<lparr>ev_ID = ''1'', ev_Timestamp = 6, ev_Partial = False, ev_StateDelta = None, ev_Payload = ()\<rparr>"

definition sample_codec :: "(unit, unit) codec" where
  "sample_codec = \<lparr>
     cd_envelope = (\<lambda>d. if d = ''h'' then Some (2, recordSession, 1) else if d = ''e'' then Some (2, recordEvent, 2) else None),
     cd_record = (\<lambda>d. if d = ''h'' then Some (header_record sample_header)
                      else if d = ''e'' then Some (event_record 2 sample_event) else None),
     cd_valid = (\<lambda>_. True), cd_clone = (\<lambda>e. e)\<rparr>"

definition sample_identity :: identity where
  "sample_identity = \<lparr>id_app = ''a'', id_user = ''u'', id_session = ''s''\<rparr>"

lemmas sample_defs = sample_header_def sample_event_def sample_codec_def sample_identity_def header_record_def event_record_def

lemma sample_valid: "validHeader sample_identity (header_record sample_header :: (unit, unit) log_record)"
  by (simp add: validHeader_def sample_defs)

lemma sample_not_blank: "trim_space ''h'' \<noteq> []" "trim_space ''e'' \<noteq> []"
proof -
  have "trim_space ''h'' = ''h''" "trim_space ''e'' = ''e''" by (rule trim_space_id; simp add: is_space_def byte_def)+
  then show "trim_space ''h'' \<noteq> []" "trim_space ''e'' \<noteq> []" by simp_all
qed

lemma sample_lines:
  "line_decodes sample_codec ''h'' (header_record sample_header)" "line_decodes sample_codec ''e'' (event_record 2 sample_event)"
  by (simp_all add: line_decodes_def decodeRecord_def sample_defs record_types recordVersion_def sample_not_blank)

theorem transcript_replays_witness:
  "\<exists>l. loadSessionLog (\<lambda>s. s) sample_codec sample_identity ''f'' (join_lines [''h'', ''e'']) = Inr l \<and> l_events l = [sample_event]"
proof -
  have ne: "h_ID sample_header \<noteq> []" "distinct (map (ev_ID \<circ> snd) [(2 :: 64 word, sample_event)])"
    "list_all (\<lambda>(order, e). order \<noteq> 0 \<and> ev_ID e \<noteq> []) [(2 :: 64 word, sample_event)]"
    "list_all2 (\<lambda>line (order, e). line_decodes sample_codec line (event_record order e)) [''e''] [(2, sample_event)]"
    using sample_lines by (simp_all add: sample_header_def sample_event_def)
  have "cd_clone sample_codec = (\<lambda>e. e)" by (simp add: sample_codec_def)
  then show ?thesis
    using transcript_replays [OF sample_lines(1) sample_valid ne(1,4,2,3), of "\<lambda>s. s" "''f''"] by auto
qed

lemma sample_load:
  obtains l where "loadSessionLog (\<lambda>s. s) sample_codec sample_identity ''f'' (join_lines [''h'']) = Inr l" "l_header l = Some sample_header"
proof -
  have "decodeRecord sample_codec ''h'' = Some (header_record sample_header, None)" "trim_space ''h'' \<noteq> []"
    using sample_lines(1) by (simp_all add: line_decodes_def)
  then obtain l where p: "parseLine (\<lambda>s. s) sample_codec sample_identity ''h'' 1 (empty_log ''f'') = Inr l"
    "l_header l = Some sample_header"
    using sample_valid by (auto simp: parseLine_def acceptHeader_def header_record_def)
  have "LF \<notin> set ''h''" using sample_lines(1) by (simp add: line_decodes_def)
  from parse_line_cons [OF this, of "\<lambda>s. s" sample_codec sample_identity "[]" 0 "empty_log ''f''"] p
  have "parse_lines (\<lambda>s. s) sample_codec sample_identity (join_lines [''h'']) 0 (empty_log ''f'') = Inr (1, l)"
    by (simp add: join_lines_def parse_lines.simps [of _ _ _ "[]"])
  then have "loadSessionLog (\<lambda>s. s) sample_codec sample_identity ''f'' (join_lines [''h'']) = Inr l"
    using p(2) by (simp add: loadSessionLog_def parse_iff recover_complete [OF join_lines_complete] sample_header_def)
  then show ?thesis using p(2) by (rule that)
qed

theorem loaded_log_wellformed_witness:
  "\<exists>l. loadSessionLog (\<lambda>s. s) sample_codec sample_identity ''f'' (join_lines [''h'']) = Inr l \<and>
    l_header l \<noteq> None \<and> distinct (map ev_ID (l_events l))"
proof -
  obtain l where load: "loadSessionLog (\<lambda>s. s) sample_codec sample_identity ''f'' (join_lines [''h'']) = Inr l"
    by (rule sample_load)
  have "clone_keeps_id sample_codec" "types_agree sample_codec"
    by (simp_all add: clone_keeps_id_def types_agree_def sample_codec_def header_record_def event_record_def)
  from loaded_log_wellformed [OF this, of sample_identity "\<lambda>s. s" "''f''" "join_lines [''h'']"] load
  show ?thesis by auto
qed

end
