(* ===== verification/Session_Inventory.thy ===== *)
theory Session_Inventory
  imports Session_Log
begin

text \<open>
  The order numbers of the session store, \<open>sessionstore/store.go\<close>: the inventory of logical records, how it is
  rebuilt from journals, transcripts and markers, the scan of a transcript for it, and the reservation of the next
  order against the sequence file of \<open>sessionstore/state.go\<close>. The lock \<open>order\<close> is held by each operation for
  its whole body. \<open>json.Marshal\<close> of a fingerprint is the parameter \<open>enc\<close>, \<open>None\<close> for its error.
\<close>

section \<open>The inventory\<close>

record reservedRecord =
  rr_ID :: go_string
  rr_Order :: "64 word"
  rr_Fingerprint :: go_string
  rr_Complete :: bool

record recordInventory =
  ri_byID :: "(go_string, reservedRecord) gomap"
  ri_byOrder :: orders
  ri_maximum :: "64 word"

definition newRecordInventory :: recordInventory where
  "newRecordInventory = \<lparr>ri_byID = [], ri_byOrder = [], ri_maximum = 0\<rparr>"

type_synonym 'v encoder = "go_string \<Rightarrow> 'v state_map \<Rightarrow> 'v state_map \<Rightarrow> go_string option"

definition recordFingerprint :: "'v encoder \<Rightarrow> 'v stateRecord \<Rightarrow> go_string option" where
  "recordFingerprint enc r = enc (sr_UserID r) (entries (sr_AppDelta r)) (entries (sr_UserDelta r))"

definition inventory_add :: "'v encoder \<Rightarrow> recordInventory \<Rightarrow> 'v stateRecord \<Rightarrow> store_error + recordInventory" where
  "inventory_add enc iv r =
     (case recordFingerprint enc r of
        None \<Rightarrow> Inl ErrRequest
      | Some fingerprint \<Rightarrow>
          let reserved = \<lparr>rr_ID = sr_ID r, rr_Order = sr_Order r, rr_Fingerprint = fingerprint, rr_Complete = True\<rparr>
          in case map_of (ri_byID iv) (sr_ID r) of
               Some existing \<Rightarrow> if \<not> rr_Complete existing \<or> existing \<noteq> reserved then Inl ErrRecordConflict else Inr iv
             | None \<Rightarrow>
                 (case claimLogicalOrder (ri_byOrder iv) (sr_ID r) (sr_Order r) of
                    Inl e \<Rightarrow> Inl e
                  | Inr byOrder \<Rightarrow>
                      Inr \<lparr>ri_byID = AList.update (sr_ID r) reserved (ri_byID iv), ri_byOrder = byOrder,
                        ri_maximum = max (ri_maximum iv) (sr_Order r)\<rparr>))"

definition inventory_remove :: "'v encoder \<Rightarrow> recordInventory \<Rightarrow> 'v stateRecord \<Rightarrow> recordInventory" where
  "inventory_remove enc iv r =
     (let fingerprint = (case recordFingerprint enc r of None \<Rightarrow> [] | Some f \<Rightarrow> f)
      in case map_of (ri_byID iv) (sr_ID r) of
           None \<Rightarrow> iv
         | Some existing \<Rightarrow>
             if \<not> rr_Complete existing \<or> rr_Order existing \<noteq> sr_Order r \<or> rr_Fingerprint existing \<noteq> fingerprint then iv
             else iv\<lparr>ri_byID := AList.delete (sr_ID r) (ri_byID iv), ri_byOrder := AList.delete (sr_Order r) (ri_byOrder iv)\<rparr>)"

section \<open>Building it\<close>

record 'v inventoryPart =
  ip_record :: "'v stateRecord"
  ip_appSet :: bool
  ip_userSet :: bool

record 'v inventoryBuilder =
  ib_byID :: "(go_string, 'v inventoryPart) gomap"
  ib_byOrder :: orders

definition newInventoryBuilder :: "'v inventoryBuilder" where
  "newInventoryBuilder = \<lparr>ib_byID = [], ib_byOrder = []\<rparr>"

definition blank_part :: "go_string \<Rightarrow> 64 word \<Rightarrow> 'v inventoryPart" where
  "blank_part rid order =
     \<lparr>ip_record = \<lparr>sr_ID = rid, sr_Order = order, sr_Path = [], sr_Line = 0, sr_UserID = [], sr_AppDelta = None, sr_UserDelta = None\<rparr>,
      ip_appSet = False, ip_userSet = False\<rparr>"

text \<open>
  \<open>claim\<close> also returns the builder: the order is claimed in its map even when the identifier turns out to have
  another one.
\<close>

definition claim ::
  "'v inventoryBuilder \<Rightarrow> go_string \<Rightarrow> 64 word \<Rightarrow> (store_error + 'v inventoryPart) \<times> 'v inventoryBuilder" where
  "claim b rid order =
     (case claimLogicalOrder (ib_byOrder b) rid order of
        Inl e \<Rightarrow> (Inl e, b)
      | Inr byOrder \<Rightarrow>
          let b' = b\<lparr>ib_byOrder := byOrder\<rparr>
          in case map_of (ib_byID b') rid of
               None \<Rightarrow> (Inr (blank_part rid order), b'\<lparr>ib_byID := AList.update rid (blank_part rid order) (ib_byID b')\<rparr>)
             | Some part \<Rightarrow> if sr_Order (ip_record part) \<noteq> order then (Inl ErrRecordConflict, b') else (Inr part, b'))"

text \<open>Writing through the pointer \<open>part\<close>.\<close>

definition set_part :: "'v inventoryBuilder \<Rightarrow> go_string \<Rightarrow> 'v inventoryPart \<Rightarrow> 'v inventoryBuilder" where
  "set_part b rid part = b\<lparr>ib_byID := AList.update rid part (ib_byID b)\<rparr>"

definition sameRecordDelta :: "'v delta \<Rightarrow> 'v delta \<Rightarrow> bool" where
  "sameRecordDelta l r \<longleftrightarrow> entries l = [] \<and> entries r = [] \<or> deep_equal l r"

definition addApp :: "'v inventoryBuilder \<Rightarrow> 'v stateJournalRecord \<Rightarrow> store_error option \<times> 'v inventoryBuilder" where
  "addApp b r =
     (case claim b (jr_ID r) (jr_Order r) of
        (Inl e, b') \<Rightarrow> (Some e, b')
      | (Inr part, b') \<Rightarrow>
          if ip_appSet part
          then (if \<not> sameRecordDelta (sr_AppDelta (ip_record part)) (jr_Delta r) then (Some ErrRecordConflict, b') else (None, b'))
          else (None, set_part b' (jr_ID r) (part\<lparr>ip_record := (ip_record part)\<lparr>sr_AppDelta := jr_Delta r\<rparr>, ip_appSet := True\<rparr>)))"

definition addUser ::
  "'v inventoryBuilder \<Rightarrow> go_string \<Rightarrow> 'v stateJournalRecord \<Rightarrow> store_error option \<times> 'v inventoryBuilder" where
  "addUser b user r =
     (case claim b (jr_ID r) (jr_Order r) of
        (Inl e, b') \<Rightarrow> (Some e, b')
      | (Inr part, b') \<Rightarrow>
          if ip_userSet part
          then (if sr_UserID (ip_record part) \<noteq> user \<or> \<not> sameRecordDelta (sr_UserDelta (ip_record part)) (jr_Delta r)
                then (Some ErrRecordConflict, b') else (None, b'))
          else (None, set_part b' (jr_ID r)
            (part\<lparr>ip_record := (ip_record part)\<lparr>sr_UserID := user, sr_UserDelta := jr_Delta r\<rparr>, ip_userSet := True\<rparr>)))"

definition set_position :: "'v stateRecord \<Rightarrow> 'v inventoryPart \<Rightarrow> 'v inventoryPart" where
  "set_position r part = part\<lparr>ip_record := (ip_record part)\<lparr>sr_Path := sr_Path r, sr_Line := sr_Line r\<rparr>\<rparr>"

definition addFull :: "'v inventoryBuilder \<Rightarrow> 'v stateRecord \<Rightarrow> store_error option \<times> 'v inventoryBuilder" where
  "addFull b r =
     (case claim b (sr_ID r) (sr_Order r) of
        (Inl e, b') \<Rightarrow> (Some e, b')
      | (Inr _, b') \<Rightarrow>
          (case addApp b' (app_entry r) of
             (Some e, b2) \<Rightarrow> (Some e, b2)
           | (None, b2) \<Rightarrow>
               (case addUser b2 (sr_UserID r) (user_entry r) of
                  (Some e, b3) \<Rightarrow> (Some e, b3)
                | (None, b3) \<Rightarrow>
                    (None,
                     (case map_of (ib_byID b3) (sr_ID r) of
                        None \<Rightarrow> b3
                      | Some part \<Rightarrow> set_part b3 (sr_ID r) (set_position r part))))))"

definition inventory_entry :: "'v encoder \<Rightarrow> recordInventory \<Rightarrow> 'v inventoryPart \<Rightarrow> recordInventory" where
  "inventory_entry enc iv part =
     (let r = ip_record part;
          reserved = \<lparr>rr_ID = sr_ID r, rr_Order = sr_Order r, rr_Fingerprint = [], rr_Complete = False\<rparr>;
          reserved' = (if \<not> ip_appSet part \<or> \<not> ip_userSet part then reserved
            else reserved\<lparr>rr_Fingerprint := (case recordFingerprint enc r of None \<Rightarrow> [] | Some f \<Rightarrow> f), rr_Complete := True\<rparr>)
      in \<lparr>ri_byID = AList.update (sr_ID r) reserved' (ri_byID iv),
          ri_byOrder = AList.update (sr_Order r) (sr_ID r) (ri_byOrder iv),
          ri_maximum = max (ri_maximum iv) (sr_Order r)\<rparr>)"

definition builder_inventory :: "'v encoder \<Rightarrow> 'v inventoryBuilder \<Rightarrow> recordInventory" where
  "builder_inventory enc b = foldl (inventory_entry enc) newRecordInventory (map snd (ib_byID b))"

text \<open>
  \<open>buildRecordInventory\<close> on what it reads: the retained application records, whose errors are dropped, the user
  journals in the order the directory lists them, and the full records: transcripts, pending records, markers.
\<close>

fun add_users ::
  "'v inventoryBuilder \<Rightarrow> (go_string \<times> 'v stateJournalRecord) list \<Rightarrow> store_error + 'v inventoryBuilder" where
  "add_users b [] = Inr b"
| "add_users b ((user, r) # rs) = (case addUser b user r of (Some e, _) \<Rightarrow> Inl e | (None, b') \<Rightarrow> add_users b' rs)"

fun add_fulls :: "'v inventoryBuilder \<Rightarrow> 'v stateRecord list \<Rightarrow> store_error + 'v inventoryBuilder" where
  "add_fulls b [] = Inr b"
| "add_fulls b (r # rs) = (case addFull b r of (Some e, _) \<Rightarrow> Inl e | (None, b') \<Rightarrow> add_fulls b' rs)"

definition buildRecordInventory ::
  "'v encoder \<Rightarrow> 'v stateJournalRecord list \<Rightarrow> (go_string \<times> 'v stateJournalRecord list) list \<Rightarrow> 'v stateRecord list \<Rightarrow>
   store_error + recordInventory" where
  "buildRecordInventory enc retained userJournals fullRecords =
     (case add_users (foldl (\<lambda>b r. snd (addApp b r)) newInventoryBuilder retained)
             (concat (map (\<lambda>(user, journal). map (Pair user) journal) userJournals)) of
        Inl e \<Rightarrow> Inl e
      | Inr b \<Rightarrow>
          (case add_fulls b fullRecords of
             Inl e \<Rightarrow> Inl e
           | Inr b' \<Rightarrow> Inr (builder_inventory enc b')))"

section \<open>Scanning a transcript for it\<close>

definition scan_event :: "'v delta \<Rightarrow> 'v stateRecord \<Rightarrow> 'v stateRecord" where
  "scan_event d r = r\<lparr>sr_AppDelta := fst (state_deltas d), sr_UserDelta := snd (state_deltas d)\<rparr>"

text \<open>One line of \<open>transcriptRecordInventory\<close> (numbered from 0): the record it yields and the incarnation after it.\<close>

definition scan_line ::
  "(go_string \<Rightarrow> go_string) \<Rightarrow> ('v, 'p) codec \<Rightarrow> go_string \<Rightarrow> identity \<Rightarrow> nat \<Rightarrow> 64 word \<Rightarrow> go_string \<Rightarrow>
   'v stateRecord option \<times> 64 word" where
  "scan_line sha cd name i line incarnation raw =
     (if raw = [] then (None, incarnation)
      else case decodeRecord cd raw of
        None \<Rightarrow> (None, incarnation)
      | Some (rec, _) \<Rightarrow>
          if rec_Order rec = 0 then (None, incarnation)
          else
            let user = id_user i; sid = id_session i;
                state = \<lparr>sr_ID = [], sr_Order = rec_Order rec, sr_Path = name, sr_Line = int line + 1, sr_UserID = user,
                  sr_AppDelta = None, sr_UserDelta = None\<rparr>;
                unresolved = state\<lparr>sr_ID := sharedRecordID sha ''unresolved'' user sid 0
                  (name @ '':'' @ decimal (int line + 1) @ '':'' @ decimal (uint (rec_Order rec)))\<rparr>
            in case (line = 0 \<and> rec_Type rec = recordSession, rec_Session rec, rec_Type rec = recordEvent, rec_Event rec) of
                 (True, Some h, _, _) \<Rightarrow>
                   if h_ID h = sid \<and> h_AppName h = id_app i \<and> h_UserID h = user \<and> h_Incarnation h = rec_Order rec
                   then (Some (state\<lparr>sr_ID := sharedRecordID sha ''create'' user sid (h_Incarnation h) [],
                           sr_AppDelta := h_AppDelta h, sr_UserDelta := h_UserDelta h\<rparr>), h_Incarnation h)
                   else (Some unresolved, incarnation)
               | (False, _, True, Some e) \<Rightarrow>
                   if ev_ID e \<noteq> [] \<and> incarnation \<noteq> 0
                   then (Some (scan_event (ev_StateDelta e)
                           (state\<lparr>sr_ID := sharedRecordID sha ''event'' user sid incarnation (ev_ID e)\<rparr>)), incarnation)
                   else (Some unresolved, incarnation)
               | _ \<Rightarrow>
                   if rec_Type rec = [] \<and> incarnation \<noteq> 0
                   then (Some (state\<lparr>sr_ID := sharedRecordID sha ''forward'' user sid incarnation
                           (decimal (int line + 1) @ '':'' @ decimal (uint (rec_Order rec)))\<rparr>), incarnation)
                   else (Some unresolved, incarnation))"

fun scan_lines ::
  "(go_string \<Rightarrow> go_string) \<Rightarrow> ('v, 'p) codec \<Rightarrow> go_string \<Rightarrow> identity \<Rightarrow> nat \<Rightarrow> 64 word \<Rightarrow> go_string list \<Rightarrow>
   'v stateRecord list" where
  "scan_lines sha cd name i line incarnation [] = []"
| "scan_lines sha cd name i line incarnation (raw # rest) =
     (case scan_line sha cd name i line incarnation raw of
        (r, incarnation') \<Rightarrow> (case r of None \<Rightarrow> [] | Some s \<Rightarrow> [s]) @ scan_lines sha cd name i (line + 1) incarnation' rest)"

text \<open>\<open>bytes.Split\<close> at newlines.\<close>

function split_lf :: "go_string \<Rightarrow> go_string list" where
  "split_lf s = (case index_byte s LF of None \<Rightarrow> [s] | Some e \<Rightarrow> take e s # split_lf (drop (e + 1) s))"
  by pat_completeness auto
termination
  by (relation "measure length") (auto dest: index_byte_Some)

declare split_lf.simps [simp del]

definition transcriptRecordInventory ::
  "(go_string \<Rightarrow> go_string) \<Rightarrow> ('v, 'p) codec \<Rightarrow> go_string \<Rightarrow> go_string \<Rightarrow> identity \<Rightarrow> 'v stateRecord list" where
  "transcriptRecordInventory sha cd data0 name i =
     (let data = (if data0 \<noteq> [] \<and> last data0 \<noteq> LF then take (torn_cut data0) data0 else data0)
      in scan_lines sha cd name i 0 0 (split_lf (trim_suffix data [LF])))"

section \<open>The sequence file\<close>

definition digit_value :: "char \<Rightarrow> nat" where
  "digit_value c = of_char c - 48"

definition ascii_digit :: "char \<Rightarrow> bool" where
  "ascii_digit c \<longleftrightarrow> CHR ''0'' \<le> c \<and> c \<le> CHR ''9''"

text \<open>\<open>strconv.ParseUint(s, 10, 64)\<close>.\<close>

definition parse_uint64 :: "go_string \<Rightarrow> 64 word option" where
  "parse_uint64 s =
     (if s = [] \<or> \<not> list_all ascii_digit s then None
      else let n = foldl (\<lambda>a c. a * 10 + digit_value c) 0 s
      in if n < 2 ^ 64 then Some (of_nat n) else None)"

text \<open>What reading the file gives.\<close>

datatype file_read = Absent | Contents go_string | Unreadable

text \<open>The value, whether it exists, and whether there is an error.\<close>

fun readUint64File :: "file_read \<Rightarrow> 64 word \<times> bool \<times> bool" where
  "readUint64File Absent = (0, False, False)"
| "readUint64File Unreadable = (0, False, True)"
| "readUint64File (Contents data) =
     (case parse_uint64 (trim_space data) of None \<Rightarrow> (0, False, True) | Some v \<Rightarrow> (v, True, False))"

definition uint64_line :: "64 word \<Rightarrow> go_string" where
  "uint64_line v = decimal (uint v) @ [LF]"

text \<open>
  How an attempt to write the file ends: an error before the new file is in place, an error after (a directory that
  does not sync), or success. \<open>parent\<close> is the outcome of \<open>ensureParent\<close> before it.
\<close>

datatype write_outcome = NotReplaced | ReplacedWithError | Replaced

fun writeSequence :: "write_outcome \<Rightarrow> file_read \<Rightarrow> 64 word \<Rightarrow> store_error option \<times> file_read" where
  "writeSequence NotReplaced file v = (Some ErrIO, file)"
| "writeSequence ReplacedWithError file v = (Some ErrIO, Contents (uint64_line v))"
| "writeSequence Replaced file v = (None, Contents (uint64_line v))"

record app_orders =
  ao_inventory :: "recordInventory option"
  ao_sequence :: file_read

text \<open>\<open>ensureRecordInventory\<close>; \<open>build\<close> is what \<open>buildRecordInventory\<close> gives if it runs.\<close>

definition ensureRecordInventory ::
  "(store_error + recordInventory) \<Rightarrow> app_orders \<Rightarrow> store_error + recordInventory \<times> app_orders" where
  "ensureRecordInventory build s =
     (case ao_inventory s of
        Some iv \<Rightarrow> Inr (iv, s)
      | None \<Rightarrow> (case build of Inl e \<Rightarrow> Inl e | Inr iv \<Rightarrow> Inr (iv, s\<lparr>ao_inventory := Some iv\<rparr>)))"

definition releaseRecordReservation :: "'v encoder \<Rightarrow> 'v stateRecord \<Rightarrow> app_orders \<Rightarrow> app_orders" where
  "releaseRecordReservation enc r s =
     (case ao_inventory s of None \<Rightarrow> s | Some iv \<Rightarrow> s\<lparr>ao_inventory := Some (inventory_remove enc iv r)\<rparr>)"

definition reserveRecord ::
  "'v encoder \<Rightarrow> (store_error + recordInventory) \<Rightarrow> bool \<Rightarrow> write_outcome \<Rightarrow> (64 word \<Rightarrow> 'v stateRecord) \<Rightarrow> app_orders \<Rightarrow>
   (store_error + 'v stateRecord) \<times> app_orders" where
  "reserveRecord enc build parent outcome candidate s0 =
     (case ensureRecordInventory build s0 of
        Inl e \<Rightarrow> (Inl e, s0)
      | Inr (iv, s) \<Rightarrow>
          if \<not> parent then (Inl ErrIO, s)
          else
            let current = max (fst (readUint64File (ao_sequence s))) (ri_maximum iv)
            in if current = 0xFFFFFFFFFFFFFFFF then (Inl ErrOrderExhausted, s)
               else
                 let order = current + 1; r = candidate order
                 in case inventory_add enc iv r of
                      Inl e \<Rightarrow> (Inl e, s)
                    | Inr iv' \<Rightarrow>
                        (case writeSequence outcome (ao_sequence s) order of
                           (Some e, file) \<Rightarrow>
                             (Inl e, \<lparr>ao_inventory = Some (inventory_remove enc iv' r), ao_sequence = file\<rparr>)
                         | (None, file) \<Rightarrow> (Inr r, \<lparr>ao_inventory = Some iv', ao_sequence = file\<rparr>)))"

definition validateReservedRecord ::
  "'v encoder \<Rightarrow> (store_error + recordInventory) \<Rightarrow> write_outcome \<Rightarrow> 'v stateRecord \<Rightarrow> app_orders \<Rightarrow>
   store_error option \<times> app_orders" where
  "validateReservedRecord enc build outcome r s0 =
     (case ensureRecordInventory build s0 of
        Inl e \<Rightarrow> (Some e, s0)
      | Inr (iv, s) \<Rightarrow>
          (case inventory_add enc iv r of
             Inl e \<Rightarrow> (Some e, s)
           | Inr iv' \<Rightarrow>
               (case readUint64File (ao_sequence s) of
                  (current, exists, err) \<Rightarrow>
                    let needsWrite = (\<not> exists \<or> err \<or> current < ri_maximum iv');
                        s' = s\<lparr>ao_inventory := Some iv'\<rparr>
                    in if needsWrite
                       then (case writeSequence outcome (ao_sequence s) (max current (ri_maximum iv')) of
                               (e, file) \<Rightarrow> (e, s'\<lparr>ao_sequence := file\<rparr>))
                       else (None, s'))))"

section \<open>Owners of orders\<close>

text \<open>
  The inventory, its builder and the journal index share a contract: what a successful addition claims stays
  claimed, and an order has one owner. A run of additions that succeeds therefore has no two records with the same
  order and different identifiers.
\<close>

fun add_all :: "('s \<Rightarrow> 'r \<Rightarrow> store_error + 's) \<Rightarrow> 's \<Rightarrow> 'r list \<Rightarrow> store_error + 's" where
  "add_all add s [] = Inr s"
| "add_all add s (r # rs) = (case add s r of Inl e \<Rightarrow> Inl e | Inr s' \<Rightarrow> add_all add s' rs)"

locale order_ledger =
  fixes ok :: "'s \<Rightarrow> bool" and owner :: "'s \<Rightarrow> 64 word \<Rightarrow> go_string \<Rightarrow> bool"
    and add :: "'s \<Rightarrow> 'r \<Rightarrow> store_error + 's" and rid :: "'r \<Rightarrow> go_string" and order :: "'r \<Rightarrow> 64 word"
  assumes add_ok: "ok s \<Longrightarrow> add s r = Inr s' \<Longrightarrow> ok s'"
    and add_owner: "ok s \<Longrightarrow> add s r = Inr s' \<Longrightarrow> owner s' (order r) (rid r)"
    and add_keeps: "ok s \<Longrightarrow> add s r = Inr s' \<Longrightarrow> owner s n i \<Longrightarrow> owner s' n i"
    and one_owner: "ok s \<Longrightarrow> owner s n i \<Longrightarrow> owner s n j \<Longrightarrow> i = j"
begin

lemma all_ok: "ok s \<Longrightarrow> add_all add s rs = Inr s' \<Longrightarrow> ok s'"
  by (induction rs arbitrary: s) (auto split: sum.splits dest: add_ok)

lemma all_keeps: "ok s \<Longrightarrow> add_all add s rs = Inr s' \<Longrightarrow> owner s n i \<Longrightarrow> owner s' n i"
  by (induction rs arbitrary: s) (auto split: sum.splits dest: add_ok add_keeps)

lemma all_owned: "ok s \<Longrightarrow> add_all add s rs = Inr s' \<Longrightarrow> r \<in> set rs \<Longrightarrow> owner s' (order r) (rid r)"
proof (induction rs arbitrary: s)
  case (Cons x rs)
  then obtain s1 where s1: "add s x = Inr s1" "add_all add s1 rs = Inr s'" by (auto split: sum.splits)
  then have "ok s1" using Cons.prems(1) by (blast dest: add_ok)
  then show ?case
    using Cons.IH [OF _ s1(2)] Cons.prems(1,3) all_keeps [OF _ s1(2)] add_owner [OF Cons.prems(1) s1(1)] by auto
qed simp

lemma no_clash:
  assumes "ok s" "add_all add s rs = Inr s'" "r \<in> set rs" "r' \<in> set rs" "order r = order r'"
  shows "rid r = rid r'"
  using one_owner [OF all_ok [OF assms(1,2)]] all_owned [OF assms(1,2)] assms(3-5) by metis

end

subsection \<open>The inventory\<close>

definition inventory_ok :: "recordInventory \<Rightarrow> bool" where
  "inventory_ok iv \<longleftrightarrow>
     (\<forall>i rr. map_of (ri_byID iv) i = Some rr \<longrightarrow>
        rr_ID rr = i \<and> map_of (ri_byOrder iv) (rr_Order rr) = Some i \<and> rr_Order rr \<le> ri_maximum iv) \<and>
     (\<forall>n i. map_of (ri_byOrder iv) n = Some i \<longrightarrow> (\<exists>rr. map_of (ri_byID iv) i = Some rr \<and> rr_Order rr = n))"

definition inventory_owner :: "recordInventory \<Rightarrow> 64 word \<Rightarrow> go_string \<Rightarrow> bool" where
  "inventory_owner iv n i \<longleftrightarrow> (\<exists>rr. map_of (ri_byID iv) i = Some rr \<and> rr_Order rr = n)"

lemma inventory_owner_claims: "inventory_ok iv \<Longrightarrow> inventory_owner iv n i \<Longrightarrow> map_of (ri_byOrder iv) n = Some i"
  by (auto simp: inventory_ok_def inventory_owner_def)

lemma inventory_owner_le: "inventory_ok iv \<Longrightarrow> inventory_owner iv n i \<Longrightarrow> n \<le> ri_maximum iv"
  by (auto simp: inventory_ok_def inventory_owner_def)

lemma claimLogicalOrder_Inr:
  "claimLogicalOrder m i n = Inr m' \<Longrightarrow> (map_of m n = None \<or> map_of m n = Some i) \<and> m' = AList.update n i m"
  by (auto simp: claimLogicalOrder_def split: option.splits if_splits)

lemma inventory_add_cases:
  assumes "inventory_add enc iv r = Inr iv'"
  obtains (known) fp where "recordFingerprint enc r = Some fp" "iv' = iv"
      "map_of (ri_byID iv) (sr_ID r) = Some \<lparr>rr_ID = sr_ID r, rr_Order = sr_Order r, rr_Fingerprint = fp, rr_Complete = True\<rparr>"
  | (new) fp where "recordFingerprint enc r = Some fp" "map_of (ri_byID iv) (sr_ID r) = None"
      "map_of (ri_byOrder iv) (sr_Order r) = None \<or> map_of (ri_byOrder iv) (sr_Order r) = Some (sr_ID r)"
      "iv' = \<lparr>ri_byID = AList.update (sr_ID r)
                \<lparr>rr_ID = sr_ID r, rr_Order = sr_Order r, rr_Fingerprint = fp, rr_Complete = True\<rparr> (ri_byID iv),
              ri_byOrder = AList.update (sr_Order r) (sr_ID r) (ri_byOrder iv), ri_maximum = max (ri_maximum iv) (sr_Order r)\<rparr>"
  using assms unfolding inventory_add_def Let_def
  by (auto split: option.splits if_splits sum.splits dest!: claimLogicalOrder_Inr)

lemma inventory_add_ok:
  assumes "inventory_ok iv" "inventory_add enc iv r = Inr iv'"
  shows "inventory_ok iv'"
  using assms(2)
proof (cases rule: inventory_add_cases)
  case known
  then show ?thesis using assms(1) by simp
next
  case (new fp)
  have "map_of (ri_byOrder iv) n \<noteq> Some (sr_ID r)" for n
    using assms(1) new(2) by (force simp: inventory_ok_def)
  then show ?thesis using new assms(1) by (auto simp: inventory_ok_def le_max_iff_disj)
qed

lemma inventory_remove_ok: "inventory_ok iv \<Longrightarrow> inventory_ok (inventory_remove enc iv r)"
proof -
  assume ok: "inventory_ok iv"
  have "inventory_remove enc iv r = iv \<or> (\<exists>rr. map_of (ri_byID iv) (sr_ID r) = Some rr \<and> rr_Order rr = sr_Order r \<and>
      inventory_remove enc iv r =
        iv\<lparr>ri_byID := AList.delete (sr_ID r) (ri_byID iv), ri_byOrder := AList.delete (sr_Order r) (ri_byOrder iv)\<rparr>)"
    by (simp add: inventory_remove_def Let_def split: option.split)
  then consider "inventory_remove enc iv r = iv"
    | rr where "map_of (ri_byID iv) (sr_ID r) = Some rr" "rr_Order rr = sr_Order r"
      "inventory_remove enc iv r =
        iv\<lparr>ri_byID := AList.delete (sr_ID r) (ri_byID iv), ri_byOrder := AList.delete (sr_Order r) (ri_byOrder iv)\<rparr>"
    by blast
  then show ?thesis
  proof cases
    case (2 rr)
    have mine: "map_of (ri_byOrder iv) (sr_Order r) = Some (sr_ID r)"
      using inventory_owner_claims [OF ok] 2(1,2) by (simp add: inventory_owner_def)
    have byID: "rr_ID x = i \<and> map_of (ri_byOrder iv) (rr_Order x) = Some i \<and> rr_Order x \<le> ri_maximum iv"
      if "map_of (ri_byID iv) i = Some x" for i x
      using ok that unfolding inventory_ok_def by blast
    have byOrder: "\<exists>x. map_of (ri_byID iv) i = Some x \<and> rr_Order x = n" if "map_of (ri_byOrder iv) n = Some i" for n i
      using ok that unfolding inventory_ok_def by blast
    have "map_of (ri_byOrder iv) n = Some i \<Longrightarrow> n \<noteq> sr_Order r \<Longrightarrow> i \<noteq> sr_ID r" for n i
      using byOrder [of n i] 2(1,2) by auto
    moreover have "map_of (ri_byID iv) i = Some x \<Longrightarrow> i \<noteq> sr_ID r \<Longrightarrow> rr_Order x \<noteq> sr_Order r" for i x
      using byID [of i x] mine by auto
    ultimately show ?thesis
      unfolding 2(3) inventory_ok_def using byID byOrder by (simp add: delete_conv' del: map_of_AList_delete)
  qed (use ok in simp)
qed

interpretation inventory: order_ledger inventory_ok inventory_owner "inventory_add enc" sr_ID sr_Order
  for enc :: "'v encoder"
proof
  fix iv iv' :: recordInventory and r :: "'v stateRecord" and n i j
  show "inventory_ok iv \<Longrightarrow> inventory_add enc iv r = Inr iv' \<Longrightarrow> inventory_ok iv'"
    by (rule inventory_add_ok)
  show "inventory_add enc iv r = Inr iv' \<Longrightarrow> inventory_owner iv' (sr_Order r) (sr_ID r)"
    by (erule inventory_add_cases) (auto simp: inventory_owner_def)
  show "inventory_add enc iv r = Inr iv' \<Longrightarrow> inventory_owner iv n i \<Longrightarrow> inventory_owner iv' n i"
    by (erule inventory_add_cases) (auto simp: inventory_owner_def)
  show "inventory_ok iv \<Longrightarrow> inventory_owner iv n i \<Longrightarrow> inventory_owner iv n j \<Longrightarrow> i = j"
    using inventory_owner_claims [of iv n i] inventory_owner_claims [of iv n j] by simp
qed


subsection \<open>The journal index\<close>

definition index_ok :: "'v journalIndex \<Rightarrow> bool" where
  "index_ok x \<longleftrightarrow> (\<forall>i r. map_of (ji_byID x) i = Some r \<longrightarrow> map_of (ji_byOrder x) (jr_Order r) = Some i)"

definition index_owner :: "'v journalIndex \<Rightarrow> 64 word \<Rightarrow> go_string \<Rightarrow> bool" where
  "index_owner x n i \<longleftrightarrow> (\<exists>r. map_of (ji_byID x) i = Some r \<and> jr_Order r = n)"

lemma index_owner_claims: "index_ok x \<Longrightarrow> index_owner x n i \<Longrightarrow> map_of (ji_byOrder x) n = Some i"
  by (auto simp: index_ok_def index_owner_def)

interpretation index: order_ledger index_ok index_owner index_add jr_ID jr_Order
proof
  fix x x' :: "'a journalIndex" and r n i j
  show "index_ok x \<Longrightarrow> index_add x r = Inr x' \<Longrightarrow> index_ok x'"
    unfolding index_add_def addJournalRecord_def index_ok_def
    by (auto split: sum.splits option.splits if_splits dest!: claimLogicalOrder_Inr)
  show "index_add x r = Inr x' \<Longrightarrow> index_owner x' (jr_Order r) (jr_ID r)"
    "index_add x r = Inr x' \<Longrightarrow> index_owner x n i \<Longrightarrow> index_owner x' n i"
    unfolding index_add_def addJournalRecord_def index_owner_def
    by (auto split: sum.splits option.splits if_splits)
  show "index_ok x \<Longrightarrow> index_owner x n i \<Longrightarrow> index_owner x n j \<Longrightarrow> i = j"
    using index_owner_claims [of x n i] index_owner_claims [of x n j] by simp
qed

subsection \<open>The builder\<close>

definition builder_ok :: "'v inventoryBuilder \<Rightarrow> bool" where
  "builder_ok b \<longleftrightarrow> distinct_keys (ib_byID b) \<and>
     (\<forall>i p. map_of (ib_byID b) i = Some p \<longrightarrow> sr_ID (ip_record p) = i \<and> map_of (ib_byOrder b) (sr_Order (ip_record p)) = Some i)"

definition builder_owner :: "'v inventoryBuilder \<Rightarrow> 64 word \<Rightarrow> go_string \<Rightarrow> bool" where
  "builder_owner b n i \<longleftrightarrow> (\<exists>p. map_of (ib_byID b) i = Some p \<and> sr_Order (ip_record p) = n)"

text \<open>A later part has everything an earlier one has: what was set stays.\<close>

definition part_le :: "'v inventoryPart \<Rightarrow> 'v inventoryPart \<Rightarrow> bool" where
  "part_le p q \<longleftrightarrow> sr_ID (ip_record q) = sr_ID (ip_record p) \<and> sr_Order (ip_record q) = sr_Order (ip_record p) \<and>
     (ip_appSet p \<longrightarrow> ip_appSet q \<and> sr_AppDelta (ip_record q) = sr_AppDelta (ip_record p)) \<and>
     (ip_userSet p \<longrightarrow> ip_userSet q \<and> sr_UserID (ip_record q) = sr_UserID (ip_record p) \<and>
        sr_UserDelta (ip_record q) = sr_UserDelta (ip_record p))"

definition builder_le :: "'v inventoryBuilder \<Rightarrow> 'v inventoryBuilder \<Rightarrow> bool" where
  "builder_le b c \<longleftrightarrow> (\<forall>i p. map_of (ib_byID b) i = Some p \<longrightarrow> (\<exists>q. map_of (ib_byID c) i = Some q \<and> part_le p q))"

lemma part_le_refl [simp]: "part_le p p"
  by (simp add: part_le_def)

lemma part_le_trans: "part_le p q \<Longrightarrow> part_le q r \<Longrightarrow> part_le p r"
  by (auto simp: part_le_def)

lemma builder_le_refl [simp]: "builder_le b b"
  by (auto simp: builder_le_def)

lemma builder_le_trans: "builder_le b c \<Longrightarrow> builder_le c d \<Longrightarrow> builder_le b d"
  unfolding builder_le_def by (meson part_le_trans)

lemma claim_result:
  assumes "builder_ok b" "claim b i n = (x, b')"
  shows "builder_ok b' \<and> builder_le b b' \<and>
    (\<forall>part. x = Inr part \<longrightarrow> map_of (ib_byID b') i = Some part \<and> sr_ID (ip_record part) = i \<and> sr_Order (ip_record part) = n)"
proof (cases "claimLogicalOrder (ib_byOrder b) i n")
  case (Inl e)
  then show ?thesis using assms by (auto simp: claim_def)
next
  case (Inr m)
  note m = claimLogicalOrder_Inr [OF Inr]
  have ok: "builder_ok (b\<lparr>ib_byOrder := m\<rparr>)" using assms(1) m by (auto simp: builder_ok_def)
  show ?thesis
  proof (cases "map_of (ib_byID b) i")
    case None
    then have "x = Inr (blank_part i n)" "b' = b\<lparr>ib_byOrder := m, ib_byID := AList.update i (blank_part i n) (ib_byID b)\<rparr>"
      using assms(2) Inr by (simp_all add: claim_def)
    then show ?thesis using None ok m by (auto simp: builder_ok_def builder_le_def blank_part_def)
  next
    case (Some p)
    then have "b' = b\<lparr>ib_byOrder := m\<rparr>" "x = (if sr_Order (ip_record p) \<noteq> n then Inl ErrRecordConflict else Inr p)"
      using assms(2) Inr by (auto simp: claim_def Let_def split: if_splits)
    then show ?thesis using Some ok by (auto simp: builder_ok_def builder_le_def)
  qed
qed

lemma set_part_result:
  assumes "builder_ok b" "map_of (ib_byID b) i = Some p" "part_le p q"
  shows "builder_ok (set_part b i q) \<and> builder_le b (set_part b i q)"
  using assms by (auto simp: builder_ok_def builder_le_def set_part_def part_le_def)


definition has_app :: "'v inventoryBuilder \<Rightarrow> go_string \<Rightarrow> 'v delta \<Rightarrow> bool" where
  "has_app b i d \<longleftrightarrow> (\<exists>p. map_of (ib_byID b) i = Some p \<and> ip_appSet p \<and>
     map_of (entries (sr_AppDelta (ip_record p))) = map_of (entries d))"

definition has_user :: "'v inventoryBuilder \<Rightarrow> go_string \<Rightarrow> go_string \<Rightarrow> 'v delta \<Rightarrow> bool" where
  "has_user b i u d \<longleftrightarrow> (\<exists>p. map_of (ib_byID b) i = Some p \<and> ip_userSet p \<and> sr_UserID (ip_record p) = u \<and>
     map_of (entries (sr_UserDelta (ip_record p))) = map_of (entries d))"

lemma builder_le_keeps:
  assumes "builder_le b c"
  shows "has_app b i d \<Longrightarrow> has_app c i d" "has_user b i u d \<Longrightarrow> has_user c i u d" "builder_owner b n i \<Longrightarrow> builder_owner c n i"
  using assms unfolding builder_le_def has_app_def has_user_def builder_owner_def part_le_def by metis+

lemma sameRecordDelta_lookup: "sameRecordDelta d d' \<Longrightarrow> map_of (entries d) = map_of (entries d')"
  by (auto simp: sameRecordDelta_def dest: deep_equal_lookup)

lemma addApp_result:
  assumes "builder_ok b" "addApp b r = (e, b')"
  shows "builder_ok b' \<and> builder_le b b' \<and> (e = None \<longrightarrow> builder_owner b' (jr_Order r) (jr_ID r) \<and> has_app b' (jr_ID r) (jr_Delta r))"
proof -
  obtain x b1 where c: "claim b (jr_ID r) (jr_Order r) = (x, b1)" by fastforce
  note r = claim_result [OF assms(1) c]
  show ?thesis
  proof (cases x)
    case (Inl err)
    then show ?thesis using assms(2) c r by (auto simp: addApp_def)
  next
    case (Inr part)
    then have part: "map_of (ib_byID b1) (jr_ID r) = Some part" "sr_Order (ip_record part) = jr_Order r" using r by simp_all
    show ?thesis
    proof (cases "ip_appSet part")
      case True
      then have "b' = b1" "e = (if \<not> sameRecordDelta (sr_AppDelta (ip_record part)) (jr_Delta r) then Some ErrRecordConflict else None)"
        using assms(2) c Inr by (auto simp: addApp_def split: if_splits)
      then show ?thesis using r part True by (auto simp: builder_owner_def has_app_def dest: sameRecordDelta_lookup split: if_splits)
    next
      case False
      let ?q = "part\<lparr>ip_record := (ip_record part)\<lparr>sr_AppDelta := jr_Delta r\<rparr>, ip_appSet := True\<rparr>"
      have "part_le part ?q" using False by (simp add: part_le_def)
      from set_part_result [OF _ part(1) this] r have "builder_ok (set_part b1 (jr_ID r) ?q)" "builder_le b1 (set_part b1 (jr_ID r) ?q)"
        by simp_all
      moreover have "e = None" "b' = set_part b1 (jr_ID r) ?q" using assms(2) c Inr False by (simp_all add: addApp_def)
      ultimately show ?thesis using r part
        by (auto simp: builder_owner_def has_app_def set_part_def intro: builder_le_trans)
    qed
  qed
qed

lemma addUser_result:
  assumes "builder_ok b" "addUser b u r = (e, b')"
  shows "builder_ok b' \<and> builder_le b b' \<and> (e = None \<longrightarrow> builder_owner b' (jr_Order r) (jr_ID r) \<and> has_user b' (jr_ID r) u (jr_Delta r))"
proof -
  obtain x b1 where c: "claim b (jr_ID r) (jr_Order r) = (x, b1)" by fastforce
  note r = claim_result [OF assms(1) c]
  show ?thesis
  proof (cases x)
    case (Inl err)
    then show ?thesis using assms(2) c r by (auto simp: addUser_def)
  next
    case (Inr part)
    then have part: "map_of (ib_byID b1) (jr_ID r) = Some part" "sr_Order (ip_record part) = jr_Order r" using r by simp_all
    show ?thesis
    proof (cases "ip_userSet part")
      case True
      then have "b' = b1" "e = (if sr_UserID (ip_record part) \<noteq> u \<or> \<not> sameRecordDelta (sr_UserDelta (ip_record part)) (jr_Delta r)
          then Some ErrRecordConflict else None)"
        using assms(2) c Inr by (auto simp: addUser_def split: if_splits)
      then show ?thesis using r part True by (auto simp: builder_owner_def has_user_def dest: sameRecordDelta_lookup split: if_splits)
    next
      case False
      let ?q = "part\<lparr>ip_record := (ip_record part)\<lparr>sr_UserID := u, sr_UserDelta := jr_Delta r\<rparr>, ip_userSet := True\<rparr>"
      have "part_le part ?q" using False by (simp add: part_le_def)
      from set_part_result [OF _ part(1) this] r have "builder_ok (set_part b1 (jr_ID r) ?q)" "builder_le b1 (set_part b1 (jr_ID r) ?q)"
        by simp_all
      moreover have "e = None" "b' = set_part b1 (jr_ID r) ?q" using assms(2) c Inr False by (simp_all add: addUser_def)
      ultimately show ?thesis using r part
        by (auto simp: builder_owner_def has_user_def set_part_def intro: builder_le_trans)
    qed
  qed
qed

definition has_full :: "'v inventoryBuilder \<Rightarrow> 'v stateRecord \<Rightarrow> bool" where
  "has_full b r \<longleftrightarrow> builder_owner b (sr_Order r) (sr_ID r) \<and> has_app b (sr_ID r) (sr_AppDelta r) \<and>
     has_user b (sr_ID r) (sr_UserID r) (sr_UserDelta r)"

lemma addFull_result:
  assumes "builder_ok b" "addFull b r = (None, b')"
  shows "builder_ok b' \<and> builder_le b b' \<and> has_full b' r"
proof -
  obtain part b1 where c: "claim b (sr_ID r) (sr_Order r) = (Inr part, b1)"
    using assms(2) by (auto simp: addFull_def split: prod.splits sum.splits)
  obtain b2 where a: "addApp b1 (app_entry r) = (None, b2)"
    using assms(2) c by (auto simp: addFull_def split: prod.splits option.splits)
  obtain b3 where u: "addUser b2 (sr_UserID r) (user_entry r) = (None, b3)"
    using assms(2) c a by (auto simp: addFull_def split: prod.splits option.splits)
  note r1 = claim_result [OF assms(1) c]
  note r2 = addApp_result [OF conjunct1 [OF r1] a]
  note r3 = addUser_result [OF conjunct1 [OF r2] u]
  then obtain p where p: "map_of (ib_byID b3) (sr_ID r) = Some p" by (auto simp: builder_owner_def user_entry_def)
  have "b' = set_part b3 (sr_ID r) (set_position r p)" using assms(2) c a u p by (simp add: addFull_def)
  moreover have "part_le p (set_position r p)" by (simp add: part_le_def set_position_def)
  note r4 = set_part_result [OF conjunct1 [OF r3] p this]
  ultimately have "builder_ok b'" "builder_le b2 b'" "builder_le b3 b'" "builder_le b b'"
    using r1 r2 r3 by (auto intro: builder_le_trans)
  then show ?thesis using r2 r3 builder_le_keeps [of b2 b'] builder_le_keeps [of b3 b']
    by (auto simp: has_full_def app_entry_def user_entry_def)
qed


text \<open>The two ways of adding, as successes or errors.\<close>

definition as_sum :: "store_error option \<times> 's \<Rightarrow> store_error + 's" where
  "as_sum x = (case x of (Some e, _) \<Rightarrow> Inl e | (None, s) \<Rightarrow> Inr s)"

lemma as_sum_Inr: "as_sum x = Inr s \<longleftrightarrow> x = (None, s)"
  by (auto simp: as_sum_def split: prod.splits option.splits)

lemma add_users_all: "add_users b rs = add_all (\<lambda>b (u, r). as_sum (addUser b u r)) b rs"
  by (induction b rs rule: add_users.induct) (auto simp: as_sum_def split: option.splits prod.splits)

lemma add_fulls_all: "add_fulls b rs = add_all (\<lambda>b r. as_sum (addFull b r)) b rs"
  by (induction b rs rule: add_fulls.induct) (auto simp: as_sum_def split: option.splits prod.splits)

lemma builder_one_owner: "builder_ok b \<Longrightarrow> builder_owner b n i \<Longrightarrow> builder_owner b n j \<Longrightarrow> i = j"
  unfolding builder_ok_def builder_owner_def by (metis option.inject)

interpretation users: order_ledger builder_ok builder_owner "\<lambda>b (u, r). as_sum (addUser b u r)" "\<lambda>(u, r). jr_ID r" "\<lambda>(u, r). jr_Order r"
  by unfold_locales (auto simp: as_sum_Inr dest: addUser_result builder_le_keeps(3) builder_one_owner)

interpretation fulls: order_ledger builder_ok builder_owner "\<lambda>b r. as_sum (addFull b r)" sr_ID sr_Order
  by unfold_locales (auto simp: as_sum_Inr has_full_def dest: addFull_result builder_le_keeps(3) builder_one_owner)

lemma full_keeps:
  "builder_ok b \<Longrightarrow> add_fulls b rs = Inr b' \<Longrightarrow> builder_le b b' \<and> (\<forall>r \<in> set rs. has_full b' r)"
proof (induction rs arbitrary: b)
  case (Cons r rs)
  then obtain b1 where b1: "addFull b r = (None, b1)" "add_fulls b1 rs = Inr b'" by (auto split: prod.splits option.splits)
  note f = addFull_result [OF Cons.prems(1) b1(1)]
  note IH = Cons.IH [OF conjunct1 [OF f] b1(2)]
  then have "has_full b' r" using f builder_le_keeps [of b1 b'] by (auto simp: has_full_def)
  then show ?case using IH f by (auto intro: builder_le_trans)
qed simp

text \<open>The inventory the builder gives.\<close>

definition part_entry :: "'v encoder \<Rightarrow> 'v inventoryPart \<Rightarrow> reservedRecord" where
  "part_entry enc p =
     (if ip_appSet p \<and> ip_userSet p
      then \<lparr>rr_ID = sr_ID (ip_record p), rr_Order = sr_Order (ip_record p),
        rr_Fingerprint = (case recordFingerprint enc (ip_record p) of None \<Rightarrow> [] | Some f \<Rightarrow> f), rr_Complete = True\<rparr>
      else \<lparr>rr_ID = sr_ID (ip_record p), rr_Order = sr_Order (ip_record p), rr_Fingerprint = [], rr_Complete = False\<rparr>)"

lemma part_entry_order: "rr_Order (part_entry enc p) = sr_Order (ip_record p)"
  by (simp add: part_entry_def)

lemma inventory_entry_alt:
  "inventory_entry enc iv p = \<lparr>ri_byID = AList.update (sr_ID (ip_record p)) (part_entry enc p) (ri_byID iv),
     ri_byOrder = AList.update (sr_Order (ip_record p)) (sr_ID (ip_record p)) (ri_byOrder iv),
     ri_maximum = max (ri_maximum iv) (sr_Order (ip_record p))\<rparr>"
  by (simp add: inventory_entry_def part_entry_def Let_def)

lemma inventory_fold:
  assumes "distinct_keys m" "\<forall>i p. map_of m i = Some p \<longrightarrow> sr_ID (ip_record p) = i \<and> g (sr_Order (ip_record p)) = Some i"
    and "inventory_ok iv" "\<forall>i \<in> fst ` set m. map_of (ri_byID iv) i = None" "\<forall>i n. inventory_owner iv n i \<longrightarrow> g n = Some i"
  shows "inventory_ok (foldl (inventory_entry enc) iv (map snd m)) \<and> (\<forall>i. map_of (ri_byID (foldl (inventory_entry enc) iv (map snd m))) i =
      (case map_of m i of Some p \<Rightarrow> Some (part_entry enc p) | None \<Rightarrow> map_of (ri_byID iv) i))"
  using assms
proof (induction m arbitrary: iv)
  case (Cons e m)
  obtain i p where e: "e = (i, p)" by fastforce
  have p: "sr_ID (ip_record p) = i" "g (sr_Order (ip_record p)) = Some i" using Cons.prems(2) e by auto
  have m: "distinct_keys m" "map_of m i = None" using Cons.prems(1) e by (auto simp: map_of_eq_None_iff)
  let ?iv = "inventory_entry enc iv p"
  have entry: "rr_ID (part_entry enc p) = i" "rr_Order (part_entry enc p) = sr_Order (ip_record p)"
    using p by (simp_all add: part_entry_def)
  have fresh: "map_of (ri_byID iv) i = None" using Cons.prems(4) e by simp
  have noorder: "map_of (ri_byOrder iv) n \<noteq> Some i" for n
    using Cons.prems(3) fresh by (force simp: inventory_ok_def)
  have unowned: "map_of (ri_byOrder iv) (sr_Order (ip_record p)) = None"
  proof (rule ccontr)
    assume "map_of (ri_byOrder iv) (sr_Order (ip_record p)) \<noteq> None"
    then obtain j where j: "map_of (ri_byOrder iv) (sr_Order (ip_record p)) = Some j" by auto
    then have "inventory_owner iv (sr_Order (ip_record p)) j" using Cons.prems(3) by (auto simp: inventory_ok_def inventory_owner_def)
    then have "j = i" using Cons.prems(5) p(2) by auto
    then show False using j noorder by simp
  qed
  have "inventory_ok ?iv"
    using Cons.prems(3) fresh noorder unowned entry p by (auto simp: inventory_entry_alt inventory_ok_def le_max_iff_disj)
  moreover have "\<forall>j \<in> fst ` set m. map_of (ri_byID ?iv) j = None"
    using Cons.prems(4) e m p by (auto simp: inventory_entry_alt map_of_eq_None_iff)
  moreover have "\<forall>j n. inventory_owner ?iv n j \<longrightarrow> g n = Some j"
    using Cons.prems(5) p entry by (auto simp: inventory_entry_alt inventory_owner_def)
  moreover have "\<forall>j q. map_of m j = Some q \<longrightarrow> sr_ID (ip_record q) = j \<and> g (sr_Order (ip_record q)) = Some j"
    using Cons.prems(2) e m(2) by (metis map_of_Cons_code(2) option.distinct(1))
  ultimately have IH: "inventory_ok (foldl (inventory_entry enc) ?iv (map snd m))"
    "\<forall>j. map_of (ri_byID (foldl (inventory_entry enc) ?iv (map snd m))) j =
      (case map_of m j of Some p \<Rightarrow> Some (part_entry enc p) | None \<Rightarrow> map_of (ri_byID ?iv) j)"
    using Cons.IH m(1) by blast+
  have upd: "map_of (ri_byID ?iv) j = (if i = j then Some (part_entry enc p) else map_of (ri_byID iv) j)" for j
    using p by (simp add: inventory_entry_alt)
  show ?case using IH m(2) unfolding e by (auto simp: upd split: option.splits)
qed simp

lemma builder_inventory_ok:
  assumes "builder_ok b"
  shows "inventory_ok (builder_inventory enc b)"
    "map_of (ri_byID (builder_inventory enc b)) i = map_option (part_entry enc) (map_of (ib_byID b) i)"
proof -
  have "inventory_ok newRecordInventory" by (simp add: newRecordInventory_def inventory_ok_def)
  moreover have "\<not> inventory_owner newRecordInventory n i" for n i by (simp add: newRecordInventory_def inventory_owner_def)
  ultimately show "inventory_ok (builder_inventory enc b)"
    "map_of (ri_byID (builder_inventory enc b)) i = map_option (part_entry enc) (map_of (ib_byID b) i)"
    using inventory_fold [of "ib_byID b" "map_of (ib_byOrder b)" newRecordInventory enc] assms
    by (auto simp: builder_inventory_def builder_ok_def newRecordInventory_def split: option.splits)
qed


lemma build_result:
  assumes "buildRecordInventory enc retained journals fulls = Inr iv"
  shows "inventory_ok iv \<and>
    (\<forall>u j r. (u, j) \<in> set journals \<longrightarrow> r \<in> set j \<longrightarrow> inventory_owner iv (jr_Order r) (jr_ID r)) \<and>
    (\<forall>r \<in> set fulls. inventory_owner iv (sr_Order r) (sr_ID r) \<and>
      (\<exists>q. map_of (ri_byID iv) (sr_ID r) = Some (part_entry enc q) \<and> ip_appSet q \<and> ip_userSet q \<and>
        sr_ID (ip_record q) = sr_ID r \<and> sr_Order (ip_record q) = sr_Order r \<and> sr_UserID (ip_record q) = sr_UserID r \<and>
        map_of (entries (sr_AppDelta (ip_record q))) = map_of (entries (sr_AppDelta r)) \<and>
        map_of (entries (sr_UserDelta (ip_record q))) = map_of (entries (sr_UserDelta r))))"
proof -
  let ?b0 = "foldl (\<lambda>b r. snd (addApp b r)) newInventoryBuilder retained"
  let ?us = "concat (map (\<lambda>(user, journal). map (Pair user) journal) journals)"
  have retained: "builder_ok (foldl (\<lambda>b r. snd (addApp b r)) b rs)" if "builder_ok b" for b :: "'a inventoryBuilder" and rs
    using that
  proof (induction rs arbitrary: b)
    case (Cons r rs)
    have "builder_ok (snd (addApp b r))" using addApp_result [OF Cons.prems, of r] by (cases "addApp b r") auto
    then show ?case using Cons.IH by simp
  qed simp
  have b0: "builder_ok ?b0" by (rule retained) (simp add: newInventoryBuilder_def builder_ok_def)
  obtain b1 where b1: "add_users ?b0 ?us = Inr b1"
    using assms by (auto simp: buildRecordInventory_def split: sum.splits)
  obtain b2 where b2: "add_fulls b1 fulls = Inr b2" "iv = builder_inventory enc b2"
    using assms b1 by (auto simp: buildRecordInventory_def split: sum.splits)
  have ok1: "builder_ok b1" using users.all_ok [OF b0] b1 by (simp add: add_users_all)
  have full: "builder_ok b2" "builder_le b1 b2" "\<forall>r \<in> set fulls. has_full b2 r"
    using fulls.all_ok [OF ok1] full_keeps [OF ok1 b2(1)] b2(1) by (simp_all add: add_fulls_all)
  note inv = builder_inventory_ok [OF full(1), of enc, folded b2(2)]
  have owner: "builder_owner b2 n i \<Longrightarrow> inventory_owner iv n i" for n i
    unfolding builder_owner_def inventory_owner_def using inv(2) by (auto simp: part_entry_order)
  have "inventory_owner iv (jr_Order r) (jr_ID r)" if "(u, j) \<in> set journals" "r \<in> set j" for u j r
  proof -
    have "(u, r) \<in> set ?us" using that by auto
    from users.all_owned [OF b0 b1 [unfolded add_users_all] this] show ?thesis
      using builder_le_keeps(3) [OF full(2)] owner by simp
  qed
  moreover have "\<exists>q. map_of (ri_byID iv) (sr_ID r) = Some (part_entry enc q) \<and> ip_appSet q \<and> ip_userSet q \<and>
      sr_ID (ip_record q) = sr_ID r \<and> sr_Order (ip_record q) = sr_Order r \<and> sr_UserID (ip_record q) = sr_UserID r \<and>
      map_of (entries (sr_AppDelta (ip_record q))) = map_of (entries (sr_AppDelta r)) \<and>
      map_of (entries (sr_UserDelta (ip_record q))) = map_of (entries (sr_UserDelta r))" if "r \<in> set fulls" for r
  proof -
    have f: "has_full b2 r" using full(3) that by blast
    then obtain q where q: "map_of (ib_byID b2) (sr_ID r) = Some q" by (auto simp: has_full_def has_app_def)
    then have "sr_ID (ip_record q) = sr_ID r" using full(1) by (simp add: builder_ok_def)
    then show ?thesis using f q inv(2) by (auto simp: has_full_def has_app_def has_user_def builder_owner_def)
  qed
  ultimately show ?thesis using inv(1) full(3) owner by (auto simp: has_full_def)
qed

section \<open>Reservations\<close>

definition sequence_value :: "app_orders \<Rightarrow> 64 word" where
  "sequence_value s = fst (readUint64File (ao_sequence s))"

lemma max_word_less: "x \<noteq> 0xFFFFFFFFFFFFFFFF \<Longrightarrow> x < x + 1" for x :: "64 word"
proof -
  assume "x \<noteq> 0xFFFFFFFFFFFFFFFF"
  moreover have "x = 0xFFFFFFFFFFFFFFFF" if "1 + x = 0"
  proof -
    have "x = - 1" using that by (simp add: eq_neg_iff_add_eq_0 add.commute)
    then show ?thesis by simp
  qed
  ultimately have "1 + x \<noteq> 0" by blast
  then show ?thesis by (simp add: word_less_nat_alt unatSuc add.commute)
qed




lemma inventory_remove_maximum [simp]: "ri_maximum (inventory_remove enc iv r) = ri_maximum iv"
  by (simp add: inventory_remove_def Let_def split: option.split)

lemma inventory_add_maximum: "inventory_add enc iv r = Inr iv' \<Longrightarrow> ri_maximum iv \<le> ri_maximum iv'"
  by (erule inventory_add_cases) auto


lemma decimal_digits:
  "0 \<le> n \<Longrightarrow> decimal n \<noteq> [] \<and> list_all ascii_digit (decimal n) \<and>
    foldl (\<lambda>a c. a * 10 + digit_value c) 0 (decimal n) = nat n"
proof (induction n rule: decimal.induct)
  case (1 n)
  have digit: "ascii_digit (''0123456789'' ! nat k) \<and> digit_value (''0123456789'' ! nat k) = nat k" if "0 \<le> k" "k < 10" for k
  proof -
    have "nat k < 10" using that by linarith
    then have "nat k \<in> {0, 1, 2, 3, 4, 5, 6, 7, 8, 9}" by (simp add: numeral_eq_Suc less_Suc_eq)
    then show ?thesis by (auto simp: ascii_digit_def digit_value_def less_eq_char_def)
  qed
  show ?case
  proof (cases "n < 10")
    case True
    then show ?thesis using digit [of n] "1.prems" by (simp add: decimal.simps [of n])
  next
    case False
    then have "0 \<le> n div 10" by simp
    from "1.IH" [OF False this] digit [of "n mod 10"] show ?thesis
      using False by (simp add: decimal.simps [of n] nat_div_distrib nat_mod_distrib)
  qed
qed

lemma digit_plain: "ascii_digit c \<Longrightarrow> byte c < 0x80 \<and> \<not> is_space (byte c)"
  by (auto simp: ascii_digit_def less_eq_char_def byte_def is_space_def)

lemma read_written [simp]: "readUint64File (Contents (uint64_line v)) = (v, True, False)"
proof -
  define s where "s = decimal (uint v)"
  have d: "s \<noteq> []" "list_all ascii_digit s" "foldl (\<lambda>a c. a * 10 + digit_value c) 0 s = nat (uint v)"
    using decimal_digits [of "uint v"] by (simp_all add: s_def)
  have h: "byte (hd s) < 0x80" "\<not> is_space (byte (hd s))" "byte (last s) < 0x80" "\<not> is_space (byte (last s))"
    using d(1,2) by (auto simp: list_all_iff digit_plain)
  have "trim_space (s @ [LF]) = trim_space s"
  proof -
    have "decode_rune (s @ [LF]) = (byte (hd s), 1)" "decode_rune s = (byte (hd s), 1)"
      using d(1) h(1) by (cases s; simp add: decode_ascii)+
    then have "trim_space_left (s @ [LF]) = s @ [LF]" "trim_space_left s = s"
      using d(1) h(2) by (subst trim_space_left.simps; simp)+
    moreover have "decode_last_rune (s @ [LF]) = (10, 1)" by (simp add: decode_last_rune_def byte_def)
    then have "trim_space_right (s @ [LF]) = trim_space_right s"
      by (subst trim_space_right.simps) (simp add: is_space_def)
    ultimately show ?thesis by (simp add: trim_space_def)
  qed
  then have "trim_space (uint64_line v) = s" using trim_space_id [OF d(1) h] by (simp add: uint64_line_def s_def)
  moreover have "nat (uint v) < 2 ^ 64" using uint_bounded [of v] by (simp add: nat_less_iff del: nat_uint_eq)
  ultimately show ?thesis using d by (simp add: parse_uint64_def nat_uint_eq)
qed


lemma uint64_line_inject [simp]: "uint64_line v = uint64_line w \<longleftrightarrow> v = w"
  by (metis fst_conv read_written)

declare readUint64File.simps(3) [simp del]

lemma ensure_sequence: "ensureRecordInventory build s = Inr (iv, t) \<Longrightarrow> ao_sequence t = ao_sequence s \<and> ao_inventory t = Some iv"
  by (auto simp: ensureRecordInventory_def split: option.splits sum.splits)

lemma reserve_unfold:
  assumes "ensureRecordInventory build s = Inr (iv, t)"
  defines "next' \<equiv> max (sequence_value s) (ri_maximum iv) + 1"
  shows "reserveRecord enc build parent outcome candidate s =
    (if \<not> parent then (Inl ErrIO, t)
     else if max (sequence_value s) (ri_maximum iv) = 0xFFFFFFFFFFFFFFFF then (Inl ErrOrderExhausted, t)
     else case inventory_add enc iv (candidate next') of
       Inl e \<Rightarrow> (Inl e, t)
     | Inr iv' \<Rightarrow>
         (case writeSequence outcome (ao_sequence s) next' of
            (Some e, file) \<Rightarrow> (Inl e, \<lparr>ao_inventory = Some (inventory_remove enc iv' (candidate next')), ao_sequence = file\<rparr>)
          | (None, file) \<Rightarrow> (Inr (candidate next'), \<lparr>ao_inventory = Some iv', ao_sequence = file\<rparr>)))"
proof -
  have seq: "ao_sequence t = ao_sequence s" using ensure_sequence [OF assms(1)] by simp
  show ?thesis
    unfolding reserveRecord_def assms(1) sum.case prod.case Let_def seq sequence_value_def next'_def by (rule refl)
qed

lemma reserve_success:
  assumes "reserveRecord enc build parent outcome candidate s = (Inr r, s')"
  obtains iv t iv' where "ensureRecordInventory build s = Inr (iv, t)"
    "max (sequence_value s) (ri_maximum iv) \<noteq> 0xFFFFFFFFFFFFFFFF"
    "r = candidate (max (sequence_value s) (ri_maximum iv) + 1)" "inventory_add enc iv r = Inr iv'"
    "s' = \<lparr>ao_inventory = Some iv', ao_sequence = Contents (uint64_line (max (sequence_value s) (ri_maximum iv) + 1))\<rparr>"
proof -
  obtain iv t where t: "ensureRecordInventory build s = Inr (iv, t)"
    using assms by (auto simp: reserveRecord_def split: sum.splits)
  note d = assms [unfolded reserve_unfold [OF t]]
  obtain iv' where a: "inventory_add enc iv (candidate (max (sequence_value s) (ri_maximum iv) + 1)) = Inr iv'"
    using d by (auto split: sum.splits if_splits)
  show ?thesis
    by (rule that [OF t]) (use d a in \<open>cases outcome; auto split: if_splits\<close>)+
qed

lemma reserve_sequence_grows:
  assumes "reserveRecord enc build parent outcome candidate s = (x, s')"
  shows "sequence_value s \<le> sequence_value s'"
proof (cases "ensureRecordInventory build s")
  case (Inl e)
  then show ?thesis using assms by (simp add: reserveRecord_def)
next
  case (Inr it)
  obtain iv t where t: "ensureRecordInventory build s = Inr (iv, t)" using Inr by (cases it) simp
  have seq: "sequence_value t = sequence_value s" using ensure_sequence [OF t] by (simp add: sequence_value_def)
  let ?n = "max (sequence_value s) (ri_maximum iv) + 1"
  note d = assms [unfolded reserve_unfold [OF t]]
  show ?thesis
  proof (cases "s' = t")
    case False
    then have up: "sequence_value s \<le> ?n"
      using d max_word_less [of "max (sequence_value s) (ri_maximum iv)"] by (auto split: if_splits)
    have "ao_sequence s' \<in> {ao_sequence s, Contents (uint64_line ?n)}"
      using d False by (cases outcome) (auto split: if_splits sum.splits)
    then show ?thesis using up by (auto simp: sequence_value_def)
  qed (simp add: seq)
qed

lemma validate_sequence_grows:
  "validateReservedRecord enc build outcome r s = (x, s') \<Longrightarrow> sequence_value s \<le> sequence_value s'"
proof -
  assume a: "validateReservedRecord enc build outcome r s = (x, s')"
  have "s' = s \<or> ao_sequence s' = ao_sequence s \<or> (\<exists>v. ao_sequence s' = Contents (uint64_line v) \<and> sequence_value s \<le> v)"
    using a ensure_sequence [of build s]
    by (cases outcome) (auto simp: validateReservedRecord_def Let_def sequence_value_def split: sum.splits if_splits prod.splits)
  then show ?thesis by (auto simp: sequence_value_def)
qed


text \<open>What happens to the orders of an application over time; a restart loses the inventory in memory.\<close>

datatype 'v order_op =
    OpReserve "store_error + recordInventory" bool write_outcome "64 word \<Rightarrow> 'v stateRecord"
  | OpValidate "store_error + recordInventory" write_outcome "'v stateRecord"
  | OpRelease "'v stateRecord"
  | OpRestart

text \<open>The orders handed out by a step, and the state after it.\<close>

fun order_step :: "'v encoder \<Rightarrow> 'v order_op \<Rightarrow> app_orders \<Rightarrow> 64 word list \<times> app_orders" where
  "order_step enc (OpReserve build parent outcome candidate) s =
     (case reserveRecord enc build parent outcome candidate s of
        (Inl _, s') \<Rightarrow> ([], s') | (Inr r, s') \<Rightarrow> ([sr_Order r], s'))"
| "order_step enc (OpValidate build outcome r) s = ([], snd (validateReservedRecord enc build outcome r s))"
| "order_step enc (OpRelease r) s = ([], releaseRecordReservation enc r s)"
| "order_step enc OpRestart s = ([], s\<lparr>ao_inventory := None\<rparr>)"

fun order_run :: "'v encoder \<Rightarrow> 'v order_op list \<Rightarrow> app_orders \<Rightarrow> 64 word list" where
  "order_run enc [] s = []"
| "order_run enc (op # ops) s = (case order_step enc op s of (granted, s') \<Rightarrow> granted @ order_run enc ops s')"

fun keeps_order :: "'v order_op \<Rightarrow> bool" where
  "keeps_order (OpReserve _ _ _ candidate) \<longleftrightarrow> (\<forall>n. sr_Order (candidate n) = n)"
| "keeps_order _ \<longleftrightarrow> True"

lemma order_step_grows:
  assumes "keeps_order op" "order_step enc op s = (granted, s')"
  shows "sequence_value s \<le> sequence_value s' \<and> (granted = [] \<or> granted = [sequence_value s'] \<and> sequence_value s < sequence_value s')"
proof (cases op)
  case (OpReserve build parent outcome candidate)
  obtain x t where r: "reserveRecord enc build parent outcome candidate s = (x, t)" by fastforce
  note up = reserve_sequence_grows [OF r]
  show ?thesis
  proof (cases x)
    case (Inr rec)
    from r Inr have "reserveRecord enc build parent outcome candidate s = (Inr rec, t)" by simp
    then show ?thesis
    proof (cases rule: reserve_success)
      case (1 iv u iv')
      then have "sequence_value t = max (sequence_value s) (ri_maximum iv) + 1" by (simp add: sequence_value_def)
      moreover have "sr_Order rec = max (sequence_value s) (ri_maximum iv) + 1" using 1(3) assms(1) OpReserve by simp
      ultimately show ?thesis using assms(2) OpReserve r Inr max_word_less [OF 1(2)] by (auto intro: le_less_trans [OF max.cobounded1])
    qed
  qed (use assms(2) OpReserve r up in auto)
next
  case (OpValidate build outcome r)
  then show ?thesis using assms(2) validate_sequence_grows [of enc build outcome r s] by (metis order_step.simps(2) prod.collapse prod.inject)
qed (use assms(2) in \<open>auto simp: sequence_value_def releaseRecordReservation_def split: option.splits\<close>)

text \<open>C21: The orders the store hands out strictly increase, over any sequence of reservations, failed or successful
  sequence writes, released and validated reservations and restarts; none is below or at the stored sequence number.\<close>

theorem reserved_orders_increase:
  assumes "list_all keeps_order ops"
  shows "sorted_wrt (<) (sequence_value s # order_run enc ops s)"
  using assms
proof (induction ops arbitrary: s)
  case (Cons op ops)
  obtain granted s' where st: "order_step enc op s = (granted, s')" by fastforce
  have "sorted_wrt (<) (sequence_value s' # order_run enc ops s')" using Cons by simp
  with order_step_grows [OF _ st] Cons.prems st show ?case by (fastforce intro: le_less_trans)
qed simp


text \<open>An order handed out is above the stored sequence and every order the inventory knows, so it has one owner.\<close>

lemma ensure_ok:
  assumes "ensureRecordInventory build s = Inr (iv, t)" "\<forall>iv. ao_inventory s = Some iv \<longrightarrow> inventory_ok iv"
    "\<forall>iv. build = Inr iv \<longrightarrow> inventory_ok iv"
  shows "inventory_ok iv"
  using assms by (auto simp: ensureRecordInventory_def split: option.splits sum.splits)

definition orders_ok :: "app_orders \<Rightarrow> bool" where
  "orders_ok s \<longleftrightarrow> (\<forall>iv. ao_inventory s = Some iv \<longrightarrow> inventory_ok iv)"


definition sample_record :: "go_string \<Rightarrow> 64 word \<Rightarrow> unit stateRecord" where
  "sample_record i n = \<lparr>sr_ID = i, sr_Order = n, sr_Path = [], sr_Line = 1, sr_UserID = ''u'', sr_AppDelta = None, sr_UserDelta = None\<rparr>"

definition sample_encoder :: "unit encoder" where
  "sample_encoder u a d = Some u"

definition sample_journal :: "(go_string \<times> unit stateJournalRecord list) list" where
  "sample_journal = [(''u'', [\<lparr>jr_ID = ''a'', jr_Order = 7, jr_Delta = None\<rparr>])]"


theorem reserved_orders_increase_witness:
  "sequence_value \<lparr>ao_inventory = None, ao_sequence = Contents (uint64_line 3)\<rparr> = 3 \<and>
   sorted_wrt (<) (3 # order_run sample_encoder
    [OpReserve (Inr newRecordInventory) True Replaced (sample_record ''a''), OpRestart,
     OpReserve (Inr newRecordInventory) True Replaced (sample_record ''b'')]
    \<lparr>ao_inventory = None, ao_sequence = Contents (uint64_line 3)\<rparr>)"
proof -
  have v: "sequence_value \<lparr>ao_inventory = None, ao_sequence = Contents (uint64_line 3)\<rparr> = 3" by (simp add: sequence_value_def)
  have k: "list_all keeps_order [OpReserve (Inr newRecordInventory) True Replaced (sample_record ''a''), OpRestart,
     OpReserve (Inr newRecordInventory) True Replaced (sample_record ''b'')]" by (simp add: sample_record_def)
  show ?thesis
    using reserved_orders_increase [OF k, of "\<lparr>ao_inventory = None, ao_sequence = Contents (uint64_line 3)\<rparr>" sample_encoder] v by simp
qed

text \<open>The fingerprint of a record depends on what its maps say.\<close>

definition encodes_content :: "'v encoder \<Rightarrow> bool" where
  "encodes_content enc \<longleftrightarrow>
     (\<forall>u a a' d d'. map_of a = map_of a' \<longrightarrow> map_of d = map_of d' \<longrightarrow> enc u a d = enc u a' d')"

text \<open>A creation that was interrupted can be resumed: after a restart the inventory is rebuilt with the marker of
  the creation among the full records, and validating the reservation of that very record succeeds, leaves the
  inventory as built and the sequence number at or above every order in it.\<close>

theorem resumed_reservation_accepted:
  assumes "encodes_content enc" and "recordFingerprint enc r \<noteq> None"
    and "buildRecordInventory enc retained journals fulls = Inr iv" and "r \<in> set fulls"
  shows "\<exists>s'. validateReservedRecord enc (Inr iv) Replaced r \<lparr>ao_inventory = None, ao_sequence = file\<rparr> = (None, s') \<and>
    ao_inventory s' = Some iv \<and> ri_maximum iv \<le> sequence_value s' \<and> sr_Order r \<le> sequence_value s'"
proof -
  note br = build_result [OF assms(3)]
  then obtain q where q: "map_of (ri_byID iv) (sr_ID r) = Some (part_entry enc q)" "ip_appSet q" "ip_userSet q"
    "sr_ID (ip_record q) = sr_ID r" "sr_Order (ip_record q) = sr_Order r" "sr_UserID (ip_record q) = sr_UserID r"
    "map_of (entries (sr_AppDelta (ip_record q))) = map_of (entries (sr_AppDelta r))"
    "map_of (entries (sr_UserDelta (ip_record q))) = map_of (entries (sr_UserDelta r))"
    using assms(4) by blast
  obtain fp where fp: "recordFingerprint enc r = Some fp" using assms(2) by auto
  have "recordFingerprint enc (ip_record q) = Some fp"
    using fp assms(1) q(6-8) unfolding recordFingerprint_def encodes_content_def by metis
  then have "part_entry enc q = \<lparr>rr_ID = sr_ID r, rr_Order = sr_Order r, rr_Fingerprint = fp, rr_Complete = True\<rparr>"
    using q by (simp add: part_entry_def)
  then have add: "inventory_add enc iv r = Inr iv" using q(1) fp by (simp add: inventory_add_def)
  have "sr_Order r \<le> ri_maximum iv" using br assms(4) inventory_owner_le by blast
  moreover obtain c e x where rd: "readUint64File file = (c, e, x)" by (cases "readUint64File file")
  ultimately show ?thesis
    using add by (auto simp: validateReservedRecord_def ensureRecordInventory_def Let_def sequence_value_def
        le_max_iff_disj intro: order_trans split: prod.split)
qed


theorem resumed_reservation_accepted_witness:
  "\<exists>s'. validateReservedRecord sample_encoder (buildRecordInventory sample_encoder [] sample_journal [sample_record ''b'' 9]) Replaced
      (sample_record ''b'' 9) \<lparr>ao_inventory = None, ao_sequence = Unreadable\<rparr> = (None, s') \<and> 9 \<le> sequence_value s'"
proof -
  obtain iv where iv: "buildRecordInventory sample_encoder [] sample_journal [sample_record ''b'' 9] = Inr iv"
    by (simp add: buildRecordInventory_def newInventoryBuilder_def addUser_def addApp_def addFull_def claim_def claimLogicalOrder_def
      set_part_def blank_part_def Let_def sample_journal_def sample_record_def app_entry_def user_entry_def)
  have "encodes_content sample_encoder" "recordFingerprint sample_encoder (sample_record ''b'' 9) \<noteq> None"
    by (simp_all add: encodes_content_def recordFingerprint_def sample_encoder_def)
  from resumed_reservation_accepted [OF this iv, of Unreadable] have
    "\<exists>s'. validateReservedRecord sample_encoder (Inr iv) Replaced (sample_record ''b'' 9) \<lparr>ao_inventory = None, ao_sequence = Unreadable\<rparr> =
      (None, s') \<and> sr_Order (sample_record ''b'' 9) \<le> sequence_value s'" by auto
  moreover have "sr_Order (sample_record ''b'' 9) = 9" by (simp add: sample_record_def)
  ultimately show ?thesis unfolding iv by simp
qed

section \<open>The scan of a transcript agrees with loading it\<close>

definition resolved :: "'v stateRecord \<Rightarrow> bool" where
  "resolved r \<longleftrightarrow> \<not> prefix ''unresolved:'' (sr_ID r)"

text \<open>Copying an event keeps what the store reads of it.\<close>

definition clone_faithful :: "('v, 'p) codec \<Rightarrow> bool" where
  "clone_faithful cd \<longleftrightarrow> (\<forall>e. ev_ID (cd_clone cd e) = ev_ID e \<and> ev_StateDelta (cd_clone cd e) = ev_StateDelta e)"

lemma shared_ids_resolved [simp]:
  "\<not> prefix ''unresolved:'' (sharedRecordID sha ''create'' u s n e)"
  "\<not> prefix ''unresolved:'' (sharedRecordID sha ''event'' u s n e)"
  "\<not> prefix ''unresolved:'' (sharedRecordID sha ''forward'' u s n e)"
  "prefix ''unresolved:'' (sharedRecordID sha ''unresolved'' u s n e)"
  by (simp_all add: sharedRecordID_def)

lemma decodeRecord_cases:
  assumes "types_agree cd" "decodeRecord cd data = Some (r, w)"
  obtains (warned) v where "w = Some v" "rec_Type r = []" "r = forward_record (rec_Order r)"
    | (session) h where "w = None" "rec_Type r = recordSession" "rec_Session r = Some h"
    | (event) e where "w = None" "rec_Type r = recordEvent" "rec_Event r = Some e"
    | (sidecar) s where "w = None" "rec_Type r = recordSidecar" "rec_Sidecar r = Some s"
proof -
  obtain v t order where env: "cd_envelope cd data = Some (v, t, order)"
    using assms(2) by (cases "cd_envelope cd data") (auto simp: decodeRecord_def)
  note d = assms(2) [unfolded decodeRecord_def env option.case prod.case]
  show ?thesis
  proof (cases "v \<noteq> recordVersion \<or> t \<noteq> recordSession \<and> t \<noteq> recordEvent \<and> t \<noteq> recordSidecar")
    case True
    then have "r = forward_record order \<and> (\<exists>x. w = Some x)" using d by (cases "v = recordVersion") auto
    then obtain x where x: "r = forward_record order" "w = Some x" by blast
    then show ?thesis by (intro warned) (simp_all add: forward_record_def)
  next
    case False
    then obtain r' where r': "cd_record cd data = Some r'" using d by (cases "cd_record cd data") auto
    have t: "rec_Type r' = t" using assms(1) env r' by (auto simp: types_agree_def)
    consider "t = recordSession" | "t = recordEvent" | "t = recordSidecar" using False by blast
    then show ?thesis
    proof cases
      case 1
      then show ?thesis using d False r' t session by (cases "rec_Session r'") auto
    next
      case 2
      then show ?thesis using d False r' t event by (cases "rec_Event r'") (auto simp: record_types)
    next
      case 3
      then show ?thesis using d False r' t sidecar by (cases "rec_Sidecar r'") (auto simp: record_types)
    qed
  qed
qed

lemma trim_space_Nil [simp]: "trim_space [] = []"
  by (simp add: trim_space_def trim_space_left.simps [of "[]"] trim_space_right.simps [of "[]"])

abbreviation option_list :: "'a option \<Rightarrow> 'a list" where
  "option_list x \<equiv> (case x of None \<Rightarrow> [] | Some y \<Rightarrow> [y])"

lemma scan_body_line:
  assumes "types_agree cd" "clone_faithful cd" "parseLine sha cd i raw (n + 1) l = Inr l'" "0 < n"
    "l_header l = Some h" "h_Incarnation h \<noteq> 0"
  shows "\<exists>ro. scan_line sha cd (l_name l) i n (h_Incarnation h) raw = (ro, h_Incarnation h) \<and> l_name l' = l_name l \<and>
    l_header l' = Some h \<and> l_stateRecords l' = l_stateRecords l @ filter resolved (option_list ro)"
proof -
  have raw: "raw \<noteq> []" using assms(3) by (auto simp: parseLine_def)
  obtain r w where d: "decodeRecord cd raw = Some (r, w)"
    using assms(3) by (auto simp: parseLine_def split: if_splits option.splits)
  have inc: "incarnation_of l = h_Incarnation h" using assms(5) by (simp add: incarnation_of_def)
  have c: "ev_ID (cd_clone cd e) = ev_ID e" "ev_StateDelta (cd_clone cd e) = ev_StateDelta e" for e
    using assms(2) by (simp_all add: clone_faithful_def)
  from assms(1) d show ?thesis
  proof (cases rule: decodeRecord_cases)
    case (warned v)
    then have "l' = acceptForwardRecord sha i r v (n + 1) l"
      using assms(3,4) d by (auto simp: parseLine_def split: if_splits)
    then show ?thesis using warned(2) raw d assms(4-6) inc
      by (simp add: acceptForwardRecord_def Let_def incarnation_of_def scan_line_def resolved_def record_types algebra_simps)
  next
    case (session h')
    then show ?thesis using assms(3,4) d by (auto simp: parseLine_def acceptBodyRecord_def split: if_splits)
  next
    case (event e)
    then have a: "acceptEvent sha cd i r (n + 1) l = Inr l'"
      using assms(3,4) d by (auto simp: parseLine_def acceptBodyRecord_def record_types split: if_splits)
    then have "ev_ID e \<noteq> []" "rec_Order r \<noteq> 0" using event by (auto simp: acceptEvent_def split: if_splits)
    then show ?thesis using a event raw d assms(4-6) inc
      by (auto simp: acceptEvent_def Let_def scan_line_def scan_event_def resolved_def record_types c case_prod_unfold split: if_splits)
  next
    case (sidecar s)
    then have a: "acceptSidecar cd r (n + 1) l = Inr l'"
      using assms(3,4) d by (auto simp: parseLine_def acceptBodyRecord_def record_types split: if_splits)
    then show ?thesis using sidecar raw d assms(4-6)
      by (auto simp: acceptSidecar_def scan_line_def Let_def resolved_def record_types split: if_splits option.splits)
  qed
qed

lemma split_lf_complete:
  assumes "complete data" "data \<noteq> []" "index_byte data LF = Some e"
  shows "split_lf (butlast data) = take e data # (if drop (e + 1) data = [] then [] else split_lf (butlast (drop (e + 1) data)))"
proof -
  note ix = index_byte_Some [OF assms(3)]
  show ?thesis
  proof (cases "drop (e + 1) data = []")
    case True
    then have "length data = e + 1" using ix by simp
    then have "butlast data = take e data" by (simp add: butlast_conv_take)
    moreover have "index_byte (take e data) LF = None" using ix by (simp add: index_byte_None)
    ultimately show ?thesis using True by (simp add: split_lf.simps [of "take e data"])
  next
    case False
    then have len: "e < length (butlast data)" by simp
    have "index_byte (butlast data) LF = Some e"
    proof -
      have "data = butlast data @ [LF]" using assms(1,2) by (metis append_butlast_last_id complete_def)
      moreover have "index_byte (xs @ ys) LF = Some e \<Longrightarrow> e < length xs \<Longrightarrow> index_byte xs LF = Some e" for xs ys
        by (induction xs arbitrary: e) (auto split: if_splits)
      ultimately show ?thesis using assms(3) len by metis
    qed
    moreover have "take e (butlast data) = take e data" using len by (simp add: butlast_conv_take)
    moreover have "drop (e + 1) (butlast data) = butlast (drop (e + 1) data)" by (simp add: butlast_drop)
    ultimately show ?thesis using False by (simp add: split_lf.simps [of "butlast data"])
  qed
qed

lemma scan_body:
  assumes "types_agree cd" "clone_faithful cd"
  shows "parse_lines sha cd i data n l = Inr (n', l') \<Longrightarrow> complete data \<Longrightarrow> 0 < n \<Longrightarrow> l_header l = Some h \<Longrightarrow>
    h_Incarnation h \<noteq> 0 \<Longrightarrow>
    l_stateRecords l' = l_stateRecords l @
      (if data = [] then [] else filter resolved (scan_lines sha cd (l_name l) i n (h_Incarnation h) (split_lf (butlast data))))"
proof (induction sha cd\<equiv>cd i data n l rule: parse_lines.induct)
  case (1 sha i data n l)
  show ?case
  proof (cases "data = []")
    case True
    then show ?thesis using "1.prems"(1) by (subst (asm) parse_lines.simps) simp
  next
    case False
    then obtain e l1 where e: "index_byte data LF = Some e" "parseLine sha cd i (take e data) (n + 1) l = Inr l1"
      "parse_lines sha cd i (drop (e + 1) data) (n + 1) l1 = Inr (n', l')"
      using "1.prems"(1) by (auto simp: parse_lines.simps [of _ _ _ data] split: option.splits sum.splits)
    obtain ro where ro: "scan_line sha cd (l_name l) i n (h_Incarnation h) (take e data) = (ro, h_Incarnation h)" "l_name l1 = l_name l"
      "l_header l1 = Some h" "l_stateRecords l1 = l_stateRecords l @ filter resolved (option_list ro)"
      using scan_body_line [OF assms e(2) "1.prems"(3-5)] by blast
    have "complete (drop (e + 1) data)"
      using "1.prems"(2) by (cases "drop (e + 1) data = []") (auto simp: complete_def)
    from "1.hyps" [OF False e(1,2) e(3) this _ ro(3) "1.prems"(5)] ro
    show ?thesis unfolding split_lf_complete [OF "1.prems"(2) False e(1)] using False
      by (cases ro) auto
  qed
qed


lemma header_on_first_line:
  "parse_lines sha cd i data n l = Inr (n', l') \<Longrightarrow> 0 < n \<Longrightarrow> l_header l' = l_header l"
proof (induction sha cd i data n l rule: parse_lines.induct)
  case (1 sha cd i data n l)
  show ?case
  proof (cases "data = []")
    case True
    then show ?thesis using "1.prems"(1) by (subst (asm) parse_lines.simps) simp
  next
    case False
    then obtain e l1 where e: "index_byte data LF = Some e" "parseLine sha cd i (take e data) (n + 1) l = Inr l1"
      "parse_lines sha cd i (drop (e + 1) data) (n + 1) l1 = Inr (n', l')"
      using "1.prems"(1) by (auto simp: parse_lines.simps [of _ _ _ data] split: option.splits sum.splits)
    have "l_header l1 = l_header l"
      using e(2) "1.prems"(2) unfolding parseLine_def acceptBodyRecord_def
      by (auto simp: acceptForwardRecord_def acceptSidecar_def acceptEvent_def Let_def split: if_splits option.splits prod.splits)
    then show ?thesis using "1.IH" [OF False e(1,2,3)] by simp
  qed
qed

text \<open>C22: The scan that reserves order numbers reads a transcript exactly as loading it does: for a transcript that
  loads, it yields the state records of the log, in order, with the same identifiers, lines and deltas, and beside
  them only unresolved records, which stand for sidecar lines that carry an order.\<close>

theorem inventory_scan_agrees:
  assumes "types_agree cd" and "clone_faithful cd" and "loadSessionLog sha cd i name data = Inr l"
  shows "filter resolved (transcriptRecordInventory sha cd data name i) = l_stateRecords l"
proof -
  define d where "d = fst (recover_log data)"
  have comp: "complete d" unfolding d_def by (rule recover_is_complete)
  have scan: "transcriptRecordInventory sha cd data name i = scan_lines sha cd name i 0 0 (split_lf (trim_suffix d [LF]))"
    by (simp add: transcriptRecordInventory_def d_def recover_log_def)
  obtain n where p: "parse_lines sha cd i d 0 (empty_log name) = Inr (n, l)" and hn: "l_header l \<noteq> None"
    using assms(3) by (auto simp: loadSessionLog_def parse_iff d_def split: sum.splits if_splits)
  have ne: "d \<noteq> []" using p hn by (auto simp: parse_lines.simps [of _ _ _ "[]"] empty_log_def)
  then obtain e l1 where e: "index_byte d LF = Some e" "parseLine sha cd i (take e d) 1 (empty_log name) = Inr l1"
    "parse_lines sha cd i (drop (e + 1) d) 1 l1 = Inr (n, l)"
    using p by (auto simp: parse_lines.simps [of _ _ _ d] split: option.splits sum.splits)
  have hl: "l_header l1 \<noteq> None" using header_on_first_line [OF e(3)] hn by simp
  have raw: "take e d \<noteq> []"
  proof
    assume t: "take e d = []"
    from e(2) [unfolded t] show False by (simp add: parseLine_def)
  qed
  obtain r w where dec: "decodeRecord cd (take e d) = Some (r, w)"
    using e(2) by (auto simp: parseLine_def split: if_splits option.splits)
  have acc: "w = None" "acceptHeader sha i r 1 (empty_log name) = Inr l1"
    using e(2) dec hl by (auto simp: parseLine_def acceptForwardRecord_def empty_log_def Let_def split: if_splits option.splits)
  then obtain h where h: "rec_Session r = Some h" "validHeader i r" by (auto simp: acceptHeader_def split: if_splits option.splits)
  then obtain r0 where l1: "l_header l1 = Some h" "l_name l1 = name" "h_Incarnation h \<noteq> 0"
    "scan_line sha cd name i 0 0 (take e d) = (Some r0, h_Incarnation h)" "l_stateRecords l1 = [r0]" "resolved r0"
    using acc dec raw
    by (auto simp: acceptHeader_def validHeader_def empty_log_def scan_line_def Let_def resolved_def record_types)
  have comp': "complete (drop (e + 1) d)"
    using comp by (cases "drop (e + 1) d = []") (auto simp: complete_def)
  have trim: "trim_suffix d [LF] = butlast d"
    using comp ne by (cases d rule: rev_cases) (auto simp: trim_suffix_def complete_def suffix_def)
  note rest = scan_body [OF assms(1,2) e(3) comp' _ l1(1,3), unfolded l1(2,5)]
  show ?thesis
    unfolding scan trim split_lf_complete [OF comp ne e(1)] using rest l1(4,6) by (cases "drop (e + 1) d = []") simp_all
qed

theorem inventory_scan_agrees_witness:
  "\<exists>l. loadSessionLog (\<lambda>s. s) sample_codec sample_identity ''f'' (join_lines [''h'']) = Inr l \<and>
    filter resolved (transcriptRecordInventory (\<lambda>s. s) sample_codec (join_lines [''h'']) ''f'' sample_identity) = l_stateRecords l"
proof -
  obtain l where load: "loadSessionLog (\<lambda>s. s) sample_codec sample_identity ''f'' (join_lines [''h'']) = Inr l"
    by (rule sample_load)
  have "types_agree sample_codec" "clone_faithful sample_codec"
    by (simp_all add: clone_faithful_def types_agree_def sample_codec_def header_record_def event_record_def)
  from inventory_scan_agrees [OF this load] load show ?thesis by blast
qed

end
