(* ===== verification/Compaction_Estimate.thy ===== *)
theory Compaction_Estimate
  imports Go_Prelude
begin

text \<open>
  Token estimates of model requests, \<open>compaction/estimate.go\<close>. The request types belong to the packages
  \<open>genai\<close> and \<open>adk\<close>: the fields that the compaction reads or writes are fields here, the rest of each
  value is its payload. \<open>canonicalJSON\<close> of these values is the parameter \<open>canon\<close> on the datatype of what
  the code passes to it; \<open>None\<close> is its error.
\<close>

section \<open>Requests\<close>

datatype 'v any = AString go_string | AOther 'v

text \<open>A \<open>map[string]any\<close> that may be nil.\<close>

type_synonym 'v body = "(go_string, 'v any) gomap option"

record 'x call =
  call_ID :: go_string
  call_Name :: go_string
  call_Payload :: 'x

text \<open>A part of a function response: whether it has inline data, and the rest.\<close>

type_synonym 'x response_part = "(bool \<times> 'x) option"

record ('v, 'x) function_response =
  fr_ID :: go_string
  fr_Name :: go_string
  fr_Response :: "'v body"
  fr_Parts :: "'x response_part list"
  fr_Payload :: 'x

record ('v, 'x) tool_response =
  tr_ID :: go_string
  tr_ToolType :: go_string
  tr_Response :: "'v body"
  tr_Payload :: 'x

record ('v, 'x) part =
  p_FunctionCall :: "'x call option"
  p_FunctionResponse :: "('v, 'x) function_response option"
  p_ToolCall :: "'x call option"
  p_ToolResponse :: "('v, 'x) tool_response option"
  p_InlineData :: bool
  p_ThoughtSignature :: go_string
  p_Payload :: 'x

record ('v, 'x) content =
  ct_Role :: go_string
  ct_Parts :: "('v, 'x) part option list"
  ct_Payload :: 'x

type_synonym ('v, 'x) contents = "('v, 'x) content option list"

text \<open>The configured tools by the number of their function declarations; a nil tool is \<open>None\<close>.\<close>

record ('v, 'x) generate_config =
  gc_SystemInstruction :: "('v, 'x) content option"
  gc_Tools :: "nat option list"
  gc_Payload :: 'x

record ('v, 'x) llm_request =
  rq_Model :: go_string
  rq_Contents :: "('v, 'x) contents"
  rq_Config :: "('v, 'x) generate_config option"

datatype ('v, 'x) wire =
    WRequest go_string "('v, 'x) contents" "('v, 'x) generate_config option"
  | WFunctionBody "'v body" "'x response_part list"
  | WToolBody "'v body"
  | WKeyed go_string "('v, 'x) wire"
  | WContents "('v, 'x) contents"

type_synonym ('v, 'x) canonical = "('v, 'x) wire \<Rightarrow> go_string option"

section \<open>Estimates\<close>

definition BytesPerToken :: int where "BytesPerToken = 4"
definition ContentOverheadTokens :: int where "ContentOverheadTokens = 4"
definition PartOverheadTokens :: int where "PartOverheadTokens = 1"
definition FunctionOverheadTokens :: int where "FunctionOverheadTokens = 8"
definition BinaryOverheadTokens :: int where "BinaryOverheadTokens = 16"
definition ToolDeclarationOverheadTokens :: int where "ToolDeclarationOverheadTokens = 12"
definition ElisionMarker :: go_string where "ElisionMarker = ''[elided]''"

record estimate =
  es_CanonicalBytes :: int
  es_RawTokens :: int
  es_Contents :: int
  es_Parts :: int
  es_Functions :: int
  es_Binaries :: int
  es_ToolDeclarations :: int
  es_OverheadTokens :: int
  es_Tokens :: int

definition no_estimate :: estimate where
  "no_estimate = \<lparr>es_CanonicalBytes = 0, es_RawTokens = 0, es_Contents = 0, es_Parts = 0, es_Functions = 0, es_Binaries = 0,
     es_ToolDeclarations = 0, es_OverheadTokens = 0, es_Tokens = 0\<rparr>"

definition ceilDiv :: "int \<Rightarrow> int \<Rightarrow> int" where
  "ceilDiv value divisor = (if value \<le> 0 then 0 else 1 + (value - 1) div divisor)"

definition countResponseBinaries :: "'x response_part list \<Rightarrow> estimate \<Rightarrow> estimate" where
  "countResponseBinaries parts e =
     foldl (\<lambda>e p. case p of Some (True, _) \<Rightarrow> e\<lparr>es_Binaries := es_Binaries e + 1\<rparr> | _ \<Rightarrow> e) e parts"

definition count_function :: "bool \<Rightarrow> estimate \<Rightarrow> estimate" where
  "count_function present e = (if present then e\<lparr>es_Functions := es_Functions e + 1\<rparr> else e)"

definition countPart :: "('v, 'x) part option \<Rightarrow> estimate \<Rightarrow> estimate" where
  "countPart part e0 =
     (case part of
        None \<Rightarrow> e0
      | Some p \<Rightarrow>
          let e1 = e0\<lparr>es_Parts := es_Parts e0 + 1\<rparr>;
              e2 = count_function (p_FunctionCall p \<noteq> None) e1;
              e3 = (case p_FunctionResponse p of
                      None \<Rightarrow> e2
                    | Some r \<Rightarrow> countResponseBinaries (fr_Parts r) (count_function True e2));
              e4 = count_function (p_ToolCall p \<noteq> None) e3;
              e5 = count_function (p_ToolResponse p \<noteq> None) e4
          in if p_InlineData p \<or> p_ThoughtSignature p \<noteq> [] then e5\<lparr>es_Binaries := es_Binaries e5 + 1\<rparr> else e5)"

definition countContent :: "('v, 'x) content option \<Rightarrow> estimate \<Rightarrow> estimate" where
  "countContent content e =
     (case content of
        None \<Rightarrow> e
      | Some c \<Rightarrow> foldl (\<lambda>e p. countPart p e) (e\<lparr>es_Contents := es_Contents e + 1\<rparr>) (ct_Parts c))"

definition count_tool :: "estimate \<Rightarrow> nat option \<Rightarrow> estimate" where
  "count_tool e t = (case t of None \<Rightarrow> e | Some n \<Rightarrow> e\<lparr>es_ToolDeclarations := es_ToolDeclarations e + int n\<rparr>)"

definition finish_estimate :: "estimate \<Rightarrow> estimate" where
  "finish_estimate e =
     (let overhead = es_Contents e * ContentOverheadTokens + es_Parts e * PartOverheadTokens +
            es_Functions e * FunctionOverheadTokens + es_Binaries e * BinaryOverheadTokens +
            es_ToolDeclarations e * ToolDeclarationOverheadTokens
      in e\<lparr>es_OverheadTokens := overhead, es_Tokens := es_RawTokens e + overhead\<rparr>)"

definition EstimateRequest :: "('v, 'x) canonical \<Rightarrow> ('v, 'x) llm_request \<Rightarrow> estimate option" where
  "EstimateRequest canon rq =
     (case canon (WRequest (rq_Model rq) (rq_Contents rq) (rq_Config rq)) of
        None \<Rightarrow> None
      | Some canonical \<Rightarrow>
          let bytes = slen canonical;
              e1 = no_estimate\<lparr>es_CanonicalBytes := bytes, es_RawTokens := ceilDiv bytes BytesPerToken\<rparr>;
              e2 = foldl (\<lambda>e c. countContent c e) e1 (rq_Contents rq);
              e3 = (case rq_Config rq of
                      None \<Rightarrow> e2
                    | Some g \<Rightarrow> foldl count_tool (countContent (gc_SystemInstruction g) e2) (gc_Tools g))
          in Some (finish_estimate e3))"

end
