(* ===== verification/Compaction_Turns.thy ===== *)
theory Compaction_Turns
  imports Compaction_Estimate
begin

text \<open>
  The turns of a conversation and what may be dropped or elided, \<open>compaction/policy.go\<close> up to the policy itself:
  response candidates, complete turns, preserved tools and the pairing of calls with responses. A candidate's
  closures \<open>elide\<close> and \<open>restore\<close> write through a pointer into the copied request; here a candidate names
  the position of its response, and the contents before the write are kept for \<open>restore\<close>.
\<close>

section \<open>Responses\<close>

definition elided_body :: "'v body" where
  "elided_body = Some [(''output'', AString ElisionMarker)]"

definition is_elided_body :: "'v body \<Rightarrow> bool" where
  "is_elided_body b \<longleftrightarrow>
     (case b of None \<Rightarrow> False
      | Some m \<Rightarrow> length m = 1 \<and> (case map_of m ''output'' of Some (AString s) \<Rightarrow> s = ElisionMarker | _ \<Rightarrow> False))"

definition functionResponseElided :: "('v, 'x) function_response \<Rightarrow> bool" where
  "functionResponseElided r \<longleftrightarrow> fr_Parts r = [] \<and> is_elided_body (fr_Response r)"

definition toolResponseElided :: "('v, 'x) tool_response \<Rightarrow> bool" where
  "toolResponseElided r \<longleftrightarrow> is_elided_body (tr_Response r)"

datatype response_kind = RFunction | RTool

record responseCandidate =
  ca_key :: go_string
  ca_name :: go_string
  ca_bodyTokens :: int
  ca_content :: nat
  ca_part :: nat
  ca_kind :: response_kind

definition elide_function :: "('v, 'x) function_response \<Rightarrow> ('v, 'x) function_response" where
  "elide_function r = r\<lparr>fr_Response := elided_body, fr_Parts := []\<rparr>"

definition elide_tool :: "('v, 'x) tool_response \<Rightarrow> ('v, 'x) tool_response" where
  "elide_tool r = r\<lparr>tr_Response := elided_body\<rparr>"

definition elide_part :: "response_kind \<Rightarrow> ('v, 'x) part \<Rightarrow> ('v, 'x) part" where
  "elide_part k p =
     (case k of
        RFunction \<Rightarrow> p\<lparr>p_FunctionResponse := map_option elide_function (p_FunctionResponse p)\<rparr>
      | RTool \<Rightarrow> p\<lparr>p_ToolResponse := map_option elide_tool (p_ToolResponse p)\<rparr>)"

definition elide_content :: "nat \<Rightarrow> response_kind \<Rightarrow> ('v, 'x) content \<Rightarrow> ('v, 'x) content" where
  "elide_content j k c = c\<lparr>ct_Parts := (ct_Parts c)[j := map_option (elide_part k) (ct_Parts c ! j)]\<rparr>"

definition elide_at :: "responseCandidate \<Rightarrow> ('v, 'x) contents \<Rightarrow> ('v, 'x) contents" where
  "elide_at ca cs = cs[ca_content ca := map_option (elide_content (ca_part ca) (ca_kind ca)) (cs ! ca_content ca)]"

text \<open>\<open>sha\<close> is the hexadecimal SHA-256 of \<open>digest\<close>.\<close>

definition responseKey ::
  "(go_string \<Rightarrow> go_string) \<Rightarrow> ('v, 'x) canonical \<Rightarrow> go_string \<Rightarrow> go_string \<Rightarrow> ('v, 'x) wire \<Rightarrow> go_string option" where
  "responseKey sha canon rid name body =
     (if rid \<noteq> [] then Some (''id:'' @ rid)
      else map_option (\<lambda>data. ''sha256:'' @ sha data) (canon (WKeyed name body)))"

text \<open>The outer option is the error, the inner one whether there is a candidate.\<close>

definition response_candidate ::
  "(go_string \<Rightarrow> go_string) \<Rightarrow> ('v, 'x) canonical \<Rightarrow> nat \<Rightarrow> nat \<Rightarrow> response_kind \<Rightarrow> go_string \<Rightarrow> go_string \<Rightarrow> ('v, 'x) wire \<Rightarrow>
   responseCandidate option" where
  "response_candidate sha canon i j k rid name body =
     (case canon body of
        None \<Rightarrow> None
      | Some data \<Rightarrow>
          (case responseKey sha canon rid name body of
             None \<Rightarrow> None
           | Some key \<Rightarrow>
               Some \<lparr>ca_key = key, ca_name = name, ca_bodyTokens = ceilDiv (slen data) BytesPerToken,
                 ca_content = i, ca_part = j, ca_kind = k\<rparr>))"

definition functionResponseCandidate ::
  "(go_string \<Rightarrow> go_string) \<Rightarrow> ('v, 'x) canonical \<Rightarrow> nat \<Rightarrow> nat \<Rightarrow> ('v, 'x) function_response option \<Rightarrow> responseCandidate list option" where
  "functionResponseCandidate sha canon i j response =
     (case response of
        None \<Rightarrow> Some []
      | Some r \<Rightarrow>
          if functionResponseElided r then Some []
          else map_option (\<lambda>c. [c])
            (response_candidate sha canon i j RFunction (fr_ID r) (fr_Name r) (WFunctionBody (fr_Response r) (fr_Parts r))))"

definition toolResponseCandidate ::
  "(go_string \<Rightarrow> go_string) \<Rightarrow> ('v, 'x) canonical \<Rightarrow> nat \<Rightarrow> nat \<Rightarrow> ('v, 'x) tool_response option \<Rightarrow> responseCandidate list option" where
  "toolResponseCandidate sha canon i j response =
     (case response of
        None \<Rightarrow> Some []
      | Some r \<Rightarrow>
          if toolResponseElided r then Some []
          else map_option (\<lambda>c. [c])
            (response_candidate sha canon i j RTool (tr_ID r) (tr_ToolType r) (WToolBody (tr_Response r))))"

definition append_candidates :: "responseCandidate list option \<Rightarrow> responseCandidate list option \<Rightarrow> responseCandidate list option" where
  "append_candidates a b = (case a of None \<Rightarrow> None | Some xs \<Rightarrow> map_option (\<lambda>ys. xs @ ys) b)"

fun part_candidates ::
  "(go_string \<Rightarrow> go_string) \<Rightarrow> ('v, 'x) canonical \<Rightarrow> nat \<Rightarrow> nat \<Rightarrow> ('v, 'x) part option list \<Rightarrow> responseCandidate list option" where
  "part_candidates sha canon i j [] = Some []"
| "part_candidates sha canon i j (None # ps) = part_candidates sha canon i (j + 1) ps"
| "part_candidates sha canon i j (Some p # ps) =
     append_candidates
       (append_candidates (functionResponseCandidate sha canon i j (p_FunctionResponse p))
         (toolResponseCandidate sha canon i j (p_ToolResponse p)))
       (part_candidates sha canon i (j + 1) ps)"

definition contentResponseCandidates ::
  "(go_string \<Rightarrow> go_string) \<Rightarrow> ('v, 'x) canonical \<Rightarrow> nat \<Rightarrow> ('v, 'x) content \<Rightarrow> responseCandidate list option" where
  "contentResponseCandidates sha canon i c = part_candidates sha canon i 0 (ct_Parts c)"

fun range_candidates ::
  "(go_string \<Rightarrow> go_string) \<Rightarrow> ('v, 'x) canonical \<Rightarrow> nat \<Rightarrow> ('v, 'x) contents \<Rightarrow> responseCandidate list option" where
  "range_candidates sha canon i [] = Some []"
| "range_candidates sha canon i (None # cs) = range_candidates sha canon (i + 1) cs"
| "range_candidates sha canon i (Some c # cs) =
     append_candidates (contentResponseCandidates sha canon i c) (range_candidates sha canon (i + 1) cs)"

definition boundedRange :: "int \<Rightarrow> int \<Rightarrow> int \<Rightarrow> int \<times> int" where
  "boundedRange start end' length' =
     (let s = max 0 (min start length') in (s, max s (min end' length')))"

definition responseCandidatesInRange ::
  "(go_string \<Rightarrow> go_string) \<Rightarrow> ('v, 'x) canonical \<Rightarrow> ('v, 'x) contents \<Rightarrow> int \<Rightarrow> int \<Rightarrow> responseCandidate list option" where
  "responseCandidatesInRange sha canon cs start0 end0 =
     (let (start, end') = boundedRange start0 end0 (slen cs)
      in range_candidates sha canon (nat start) (from_int start (upto_int end' cs)))"

definition eligibleResponseCandidates ::
  "(go_string \<Rightarrow> go_string) \<Rightarrow> ('v, 'x) canonical \<Rightarrow> ('v, 'x) contents \<Rightarrow> int \<Rightarrow> responseCandidate list option" where
  "eligibleResponseCandidates sha canon cs keepRecent =
     (let end' = slen cs - keepRecent
      in responseCandidatesInRange sha canon cs 1 (if end' < 1 then 1 else end'))"

section \<open>Turns\<close>

definition RoleUser :: go_string where "RoleUser = ''user''"

definition startsPromptTurn :: "('v, 'x) content option \<Rightarrow> bool" where
  "startsPromptTurn content \<longleftrightarrow>
     (case content of
        None \<Rightarrow> False
      | Some c \<Rightarrow> ct_Role c = RoleUser \<and>
          list_all (\<lambda>p. case p of None \<Rightarrow> True | Some q \<Rightarrow> p_FunctionResponse q = None \<and> p_ToolResponse q = None) (ct_Parts c))"

definition prompt_starts :: "('v, 'x) contents \<Rightarrow> nat list" where
  "prompt_starts cs = filter (\<lambda>i. startsPromptTurn (cs ! i)) [0..<length cs]"

record turn =
  tn_start :: nat
  tn_end :: nat
  tn_key :: go_string

definition blank_response_part :: "('v, 'x) part \<Rightarrow> ('v, 'x) part" where
  "blank_response_part p = p\<lparr>
     p_FunctionResponse := map_option (\<lambda>r. r\<lparr>fr_Response := None, fr_Parts := []\<rparr>) (p_FunctionResponse p),
     p_ToolResponse := map_option (\<lambda>r. r\<lparr>tr_Response := None\<rparr>) (p_ToolResponse p)\<rparr>"

definition blank_content :: "('v, 'x) content \<Rightarrow> ('v, 'x) content" where
  "blank_content c = c\<lparr>ct_Parts := map (map_option blank_response_part) (ct_Parts c)\<rparr>"

definition turnKey :: "(go_string \<Rightarrow> go_string) \<Rightarrow> ('v, 'x) canonical \<Rightarrow> ('v, 'x) contents \<Rightarrow> go_string option" where
  "turnKey sha canon cs =
     map_option (\<lambda>data. ''sha256:'' @ sha data) (canon (WContents (map (map_option blank_content) cs)))"

fun turns_between ::
  "(go_string \<Rightarrow> go_string) \<Rightarrow> ('v, 'x) canonical \<Rightarrow> ('v, 'x) contents \<Rightarrow> nat list \<Rightarrow> turn list option" where
  "turns_between sha canon cs (s # e # rest) =
     (case turnKey sha canon (drop s (take e cs)) of
        None \<Rightarrow> None
      | Some key \<Rightarrow>
          map_option (\<lambda>ts. \<lparr>tn_start = s, tn_end = e, tn_key = key\<rparr> # ts) (turns_between sha canon cs (e # rest)))"
| "turns_between sha canon cs _ = Some []"

definition completeTurns ::
  "(go_string \<Rightarrow> go_string) \<Rightarrow> ('v, 'x) canonical \<Rightarrow> ('v, 'x) contents \<Rightarrow> turn list option" where
  "completeTurns sha canon cs = turns_between sha canon cs (prompt_starts cs)"

definition partContainsPreservedTool :: "go_string set \<Rightarrow> ('v, 'x) part option \<Rightarrow> bool" where
  "partContainsPreservedTool preserved part \<longleftrightarrow>
     (case part of
        None \<Rightarrow> False
      | Some p \<Rightarrow>
          (case p_FunctionCall p of Some c \<Rightarrow> call_Name c \<in> preserved
           | None \<Rightarrow>
             (case p_FunctionResponse p of Some r \<Rightarrow> fr_Name r \<in> preserved
              | None \<Rightarrow>
                (case p_ToolCall p of Some c \<Rightarrow> call_Name c \<in> preserved
                 | None \<Rightarrow>
                   (case p_ToolResponse p of Some r \<Rightarrow> tr_ToolType r \<in> preserved | None \<Rightarrow> False)))))"

definition content_parts :: "('v, 'x) content option \<Rightarrow> ('v, 'x) part option list" where
  "content_parts c = (case c of None \<Rightarrow> [] | Some x \<Rightarrow> ct_Parts x)"

definition turnContainsPreservedTool :: "go_string set \<Rightarrow> ('v, 'x) contents \<Rightarrow> bool" where
  "turnContainsPreservedTool preserved cs \<longleftrightarrow>
     list_ex (\<lambda>c. list_ex (partContainsPreservedTool preserved) (content_parts c)) cs"

section \<open>Pairs of calls and responses\<close>

record pairLocations =
  pl_calls :: "nat list"
  pl_responses :: "nat list"

datatype pairSide = PairCall | PairResponse

type_synonym pair_map = "(go_string, pairLocations) gomap"

definition recordPairLocation :: "pair_map \<Rightarrow> go_string \<Rightarrow> nat \<Rightarrow> pairSide \<Rightarrow> pair_map" where
  "recordPairLocation all key i side =
     (let l = (case map_of all key of None \<Rightarrow> \<lparr>pl_calls = [], pl_responses = []\<rparr> | Some l \<Rightarrow> l)
      in AList.update key
           (case side of PairCall \<Rightarrow> l\<lparr>pl_calls := pl_calls l @ [i]\<rparr> | PairResponse \<Rightarrow> l\<lparr>pl_responses := pl_responses l @ [i]\<rparr>) all)"

definition occurrencePairKey ::
  "go_string \<Rightarrow> go_string \<Rightarrow> (go_string, int) gomap \<Rightarrow> go_string \<times> (go_string, int) gomap" where
  "occurrencePairKey rid qualified occurrences =
     (if rid \<noteq> [] then (''id:'' @ rid, occurrences)
      else
        let occurrence = zget occurrences qualified
        in (''name:'' @ qualified @ ''#'' @ itoa occurrence, AList.update qualified (occurrence + 1) occurrences))"

record pair_state =
  ps_all :: pair_map
  ps_calls :: "(go_string, int) gomap"
  ps_responses :: "(go_string, int) gomap"

text \<open>One of the four calls and responses a part may have.\<close>

datatype pair_item = PairItem pairSide go_string go_string

definition part_items :: "('v, 'x) part option \<Rightarrow> pair_item list" where
  "part_items part =
     (case part of
        None \<Rightarrow> []
      | Some p \<Rightarrow>
          (case p_FunctionCall p of None \<Rightarrow> [] | Some c \<Rightarrow> [PairItem PairCall (call_ID c) (''function:'' @ call_Name c)]) @
          (case p_FunctionResponse p of None \<Rightarrow> [] | Some r \<Rightarrow> [PairItem PairResponse (fr_ID r) (''function:'' @ fr_Name r)]) @
          (case p_ToolCall p of None \<Rightarrow> [] | Some c \<Rightarrow> [PairItem PairCall (call_ID c) (''tool:'' @ call_Name c)]) @
          (case p_ToolResponse p of None \<Rightarrow> [] | Some r \<Rightarrow> [PairItem PairResponse (tr_ID r) (''tool:'' @ tr_ToolType r)]))"

fun record_item :: "nat \<Rightarrow> pair_state \<Rightarrow> pair_item \<Rightarrow> pair_state" where
  "record_item i s (PairItem PairCall rid qualified) =
     (let (key, occ) = occurrencePairKey rid qualified (ps_calls s)
      in s\<lparr>ps_all := recordPairLocation (ps_all s) key i PairCall, ps_calls := occ\<rparr>)"
| "record_item i s (PairItem PairResponse rid qualified) =
     (let (key, occ) = occurrencePairKey rid qualified (ps_responses s)
      in s\<lparr>ps_all := recordPairLocation (ps_all s) key i PairResponse, ps_responses := occ\<rparr>)"

definition recordPartLocations :: "nat \<Rightarrow> pair_state \<Rightarrow> ('v, 'x) part option \<Rightarrow> pair_state" where
  "recordPartLocations i s part = foldl (record_item i) s (part_items part)"

fun pair_locations_from :: "nat \<Rightarrow> pair_state \<Rightarrow> ('v, 'x) contents \<Rightarrow> pair_state" where
  "pair_locations_from i s [] = s"
| "pair_locations_from i s (c # cs) =
     pair_locations_from (i + 1) (foldl (recordPartLocations i) s (content_parts c)) cs"

definition collectPairLocations :: "('v, 'x) contents \<Rightarrow> pair_map" where
  "collectPairLocations cs = ps_all (pair_locations_from 0 \<lparr>ps_all = [], ps_calls = [], ps_responses = []\<rparr> cs)"

definition anyInside :: "nat list \<Rightarrow> nat \<Rightarrow> nat \<Rightarrow> bool" where
  "anyInside values' start end' \<longleftrightarrow> list_ex (\<lambda>v. start \<le> v \<and> v < end') values'"

definition allInside :: "nat list \<Rightarrow> nat \<Rightarrow> nat \<Rightarrow> bool" where
  "allInside values' start end' \<longleftrightarrow> list_all (\<lambda>v. start \<le> v \<and> v < end') values'"

definition pairContainedInRange :: "pairLocations \<Rightarrow> nat \<Rightarrow> nat \<Rightarrow> bool" where
  "pairContainedInRange pair start end' \<longleftrightarrow>
     \<not> (anyInside (pl_calls pair) start end' \<or> anyInside (pl_responses pair) start end') \<or>
     (length (pl_calls pair) = length (pl_responses pair) \<and> allInside (pl_calls pair) start end' \<and>
      allInside (pl_responses pair) start end')"

definition pairsContained :: "('v, 'x) contents \<Rightarrow> nat \<Rightarrow> nat \<Rightarrow> bool" where
  "pairsContained cs start end' \<longleftrightarrow>
     list_all (\<lambda>(_, pair). pairContainedInRange pair start end') (collectPairLocations cs)"

definition droppable :: "('v, 'x) contents \<Rightarrow> int \<Rightarrow> nat \<Rightarrow> go_string set \<Rightarrow> turn \<Rightarrow> bool" where
  "droppable cs keepRecent after preserved g \<longleftrightarrow>
     \<not> (tn_start g < after \<or> tn_start g = 0 \<or> int (tn_end g) > max 0 (slen cs - keepRecent)) \<and>
     \<not> turnContainsPreservedTool preserved (drop (tn_start g) (take (tn_end g) cs)) \<and>
     pairsContained cs (tn_start g) (tn_end g)"

definition nextDroppableTurn ::
  "('v, 'x) contents \<Rightarrow> turn list \<Rightarrow> int \<Rightarrow> nat \<Rightarrow> go_string set \<Rightarrow> turn option" where
  "nextDroppableTurn cs groups keepRecent after preserved = List.find (droppable cs keepRecent after preserved) groups"

definition firstDroppableTurn :: "('v, 'x) contents \<Rightarrow> turn list \<Rightarrow> int \<Rightarrow> go_string set \<Rightarrow> turn option" where
  "firstDroppableTurn cs groups keepRecent preserved = nextDroppableTurn cs groups keepRecent 0 preserved"

definition drop_turn :: "turn \<Rightarrow> ('v, 'x) contents \<Rightarrow> ('v, 'x) contents" where
  "drop_turn g cs = take (tn_start g) cs @ drop (tn_end g) cs"

end
