(* ===== verification/Compaction_Policy.thy ===== *)
theory Compaction_Policy
  imports Compaction_Turns Go_Float
begin

text \<open>
  The compaction of a request, \<open>applyPolicy\<close> and what it calls in \<open>compaction/policy.go\<close>: the replay of
  recorded drops and elisions, elision of responses, dropping of complete turns, and the durable state they record.
  Converting a \<open>float64\<close> out of range to \<open>int\<close> is left to the platform by Go: the parameter \<open>plat\<close>.
\<close>

record compaction_policy =
  cp_ContextTokens :: int
  cp_TriggerFraction :: float64
  cp_TargetFraction :: float64
  cp_KeepRecentContents :: int
  cp_MinimumElisionTokens :: int
  cp_PreserveToolNames :: "go_string list"
  cp_Calibration :: bool

definition sidecarVersion :: int where "sidecarVersion = 1"

record durableState =
  du_Version :: int
  du_ElidedResponses :: "go_string list"
  du_DroppedTurns :: "go_string list"
  du_Calibration :: float64
  du_ExhaustedWarned :: bool

record policyResult =
  pr_Estimate :: estimate
  pr_Triggered :: bool
  pr_Exhausted :: bool
  pr_StateChanged :: bool

definition preservedToolNames :: "go_string list \<Rightarrow> go_string set" where
  "preservedToolNames names = set names"

definition valid_calibration :: "float64 \<Rightarrow> bool" where
  "valid_calibration x \<longleftrightarrow> \<not> fle x f_zero \<and> x \<noteq> FNaN \<and> x \<noteq> FPosInf \<and> x \<noteq> FNegInf"

definition normalizeDurableState :: "durableState \<Rightarrow> durableState" where
  "normalizeDurableState s =
     s\<lparr>du_Version := (if du_Version s = 0 then sidecarVersion else du_Version s),
       du_Calibration := (if valid_calibration (du_Calibration s) then du_Calibration s else f_one)\<rparr>"

definition calibrationFactor :: "bool \<Rightarrow> float64 \<Rightarrow> float64" where
  "calibrationFactor enabled stored = (if enabled then stored else f_one)"

definition float_to_int :: "(float64 \<Rightarrow> int) \<Rightarrow> float64 \<Rightarrow> int option \<Rightarrow> int" where
  "float_to_int plat x rounded =
     (case rounded of None \<Rightarrow> plat x | Some n \<Rightarrow> if - (2 ^ 63) \<le> n \<and> n < 2 ^ 63 then n else plat x)"

definition calibratedTokens :: "(float64 \<Rightarrow> int) \<Rightarrow> int \<Rightarrow> float64 \<Rightarrow> int" where
  "calibratedTokens plat raw factor =
     (let x = fmul (float_of_int raw) factor in float_to_int plat x (ceil_int x))"

definition fraction_tokens :: "(float64 \<Rightarrow> int) \<Rightarrow> int \<Rightarrow> float64 \<Rightarrow> int" where
  "fraction_tokens plat tokens fraction =
     (let x = fmul (float_of_int tokens) fraction in float_to_int plat x (floor_int x))"

definition stringCounts :: "go_string list \<Rightarrow> (go_string, int) gomap" where
  "stringCounts values' = foldl (\<lambda>m v. AList.update v (zget m v + 1) m) [] values'"

abbreviation with_contents :: "('v, 'x) llm_request \<Rightarrow> ('v, 'x) contents \<Rightarrow> ('v, 'x) llm_request" where
  "with_contents rq cs \<equiv> rq\<lparr>rq_Contents := cs\<rparr>"

section \<open>The bounds of turns\<close>

lemma turns_between_bounds:
  "turns_between sha canon cs starts = Some ts \<Longrightarrow> sorted_wrt (<) starts \<Longrightarrow> \<forall>s \<in> set starts. s < n \<Longrightarrow>
    g \<in> set ts \<Longrightarrow> tn_start g < tn_end g \<and> tn_end g < n \<and> tn_start g \<in> set starts \<and> tn_end g \<in> set starts"
proof (induction sha canon cs starts arbitrary: ts rule: turns_between.induct)
  case (1 sha canon cs s e rest)
  then obtain key ts' where k: "turnKey sha canon (drop s (take e cs)) = Some key"
    "turns_between sha canon cs (e # rest) = Some ts'" "ts = \<lparr>tn_start = s, tn_end = e, tn_key = key\<rparr> # ts'"
    by (auto split: option.splits)
  show ?case
  proof (cases "g \<in> set ts'")
    case True
    then show ?thesis using "1.IH" [OF k(1,2)] "1.prems"(2,3) by simp
  next
    case False
    then show ?thesis using "1.prems"(2-4) k(3) by simp
  qed
qed simp_all

lemma completeTurns_bounds:
  assumes "completeTurns sha canon cs = Some ts" "g \<in> set ts"
  shows "tn_start g < tn_end g \<and> tn_end g < length cs"
proof -
  have "sorted_wrt (<) (prompt_starts cs)" "\<forall>s \<in> set (prompt_starts cs). s < length cs"
    by (auto simp: prompt_starts_def sorted_wrt_filter)
  from turns_between_bounds [OF assms(1) [unfolded completeTurns_def] this assms(2)] show ?thesis by simp
qed

lemma nextDroppableTurn_in:
  "nextDroppableTurn cs groups keep after preserved = Some g \<Longrightarrow> g \<in> set groups \<and> droppable cs keep after preserved g"
  by (auto simp: nextDroppableTurn_def find_Some_iff)

lemma drop_turn_shorter: "tn_start g < tn_end g \<Longrightarrow> tn_end g < length cs \<Longrightarrow> length (drop_turn g cs) < length cs"
  by (simp add: drop_turn_def)

lemma length_filter_le_filter:
  "\<forall>x \<in> set xs. Q x \<longrightarrow> P x \<Longrightarrow> length (filter Q xs) \<le> length (filter P xs)"
  by (induction xs) auto

lemma length_filter_strict:
  "x \<in> set xs \<Longrightarrow> P x \<Longrightarrow> \<not> Q x \<Longrightarrow> \<forall>y \<in> set xs. Q y \<longrightarrow> P y \<Longrightarrow> length (filter Q xs) < length (filter P xs)"
proof (induction xs)
  case (Cons y ys)
  then show ?case using length_filter_le_filter [of ys Q P] by (cases "x = y") auto
qed simp

section \<open>Replaying the recorded state\<close>

text \<open>
  The inner loop of \<open>applyStickyDrops\<close>: the first droppable turn whose key is still to be dropped. The guard on the
  bounds of a turn, which those of \<open>completeTurns\<close> always pass, makes the recursion end whatever the groups are.
\<close>

function find_sticky ::
  "('v, 'x) contents \<Rightarrow> turn list \<Rightarrow> int \<Rightarrow> nat \<Rightarrow> go_string set \<Rightarrow> (go_string, int) gomap \<Rightarrow> turn option" where
  "find_sticky cs groups keep after preserved remaining =
     (case nextDroppableTurn cs groups keep after preserved of
        None \<Rightarrow> None
      | Some g \<Rightarrow>
          if zget remaining (tn_key g) > 0 then Some g
          else if tn_start g < tn_end g then find_sticky cs groups keep (tn_end g) preserved remaining
          else None)"
  by pat_completeness auto
termination
proof (relation "measure (\<lambda>(_, groups, _, after, _). length (filter (\<lambda>g. after \<le> tn_start g) groups))", simp, clarsimp)
  fix cs :: "('v, 'x) contents" and groups keep after preserved g
  assume n: "nextDroppableTurn cs groups keep after preserved = Some g" and b: "tn_start g < tn_end g"
  then have g: "g \<in> set groups" "after \<le> tn_start g"
    using nextDroppableTurn_in [OF n] by (auto simp: droppable_def)
  show "length (filter (\<lambda>h. tn_end g \<le> tn_start h) groups) < length (filter (\<lambda>g. after \<le> tn_start g) groups)"
    by (rule length_filter_strict [OF g(1)]) (use g b in auto)
qed

declare find_sticky.simps [simp del]

lemma find_sticky_in:
  "find_sticky cs groups keep after preserved remaining = Some g \<Longrightarrow>
    g \<in> set groups \<and> droppable cs keep 0 preserved g \<and> zget remaining (tn_key g) > 0"
proof (induction cs groups keep after preserved remaining rule: find_sticky.induct)
  case (1 cs groups keep after preserved remaining)
  obtain h where h: "nextDroppableTurn cs groups keep after preserved = Some h"
    using "1.prems" by (cases "nextDroppableTurn cs groups keep after preserved") (simp_all add: find_sticky.simps [of cs])
  have in': "h \<in> set groups" "droppable cs keep 0 preserved h"
    using nextDroppableTurn_in [OF h] by (auto simp: droppable_def)
  show ?case
  proof (cases "zget remaining (tn_key h) > 0")
    case True
    then show ?thesis using "1.prems" h in' by (simp add: find_sticky.simps [of cs _ _ after])
  next
    case False
    then have "tn_start h < tn_end h" "find_sticky cs groups keep (tn_end h) preserved remaining = Some g"
      using "1.prems" h by (simp_all add: find_sticky.simps [of cs _ _ after] split: if_splits)
    then show ?thesis using "1.IH" [OF h False] by simp
  qed
qed

function sticky_drops ::
  "(go_string \<Rightarrow> go_string) \<Rightarrow> ('v, 'x) canonical \<Rightarrow> int \<Rightarrow> go_string set \<Rightarrow> (go_string, int) gomap \<Rightarrow> ('v, 'x) contents \<Rightarrow> bool \<Rightarrow>
   (bool \<times> ('v, 'x) contents) option" where
  "sticky_drops sha canon keep preserved remaining cs changed =
     (if remaining = [] then Some (changed, cs)
      else case completeTurns sha canon cs of
        None \<Rightarrow> None
      | Some groups \<Rightarrow>
          (case find_sticky cs groups keep 0 preserved remaining of
             None \<Rightarrow> Some (changed, cs)
           | Some g \<Rightarrow>
               let n = zget remaining (tn_key g) - 1;
                   remaining' = (if n = 0 then AList.delete (tn_key g) remaining else AList.update (tn_key g) n remaining)
               in sticky_drops sha canon keep preserved remaining' (drop_turn g cs) True))"
  by pat_completeness auto
termination
  by (relation "measure (\<lambda>(_, _, _, _, _, cs, _). length cs)")
    (auto dest!: find_sticky_in completeTurns_bounds intro: drop_turn_shorter)

declare sticky_drops.simps [simp del]

definition applyStickyDrops ::
  "(go_string \<Rightarrow> go_string) \<Rightarrow> ('v, 'x) canonical \<Rightarrow> ('v, 'x) contents \<Rightarrow> go_string list \<Rightarrow> int \<Rightarrow> go_string set \<Rightarrow>
   (bool \<times> ('v, 'x) contents) option" where
  "applyStickyDrops sha canon cs values' keep preserved = sticky_drops sha canon keep preserved (stringCounts values') cs False"

fun sticky_elisions ::
  "('v, 'x) canonical \<Rightarrow> ('v, 'x) llm_request \<Rightarrow> go_string set \<Rightarrow> responseCandidate list \<Rightarrow> (go_string, int) gomap \<Rightarrow> estimate \<Rightarrow>
   ('v, 'x) contents \<Rightarrow> bool \<Rightarrow> (bool \<times> ('v, 'x) contents) option" where
  "sticky_elisions canon rq preserved [] remaining current cs changed = Some (changed, cs)"
| "sticky_elisions canon rq preserved (ca # rest) remaining current cs changed =
     (if ca_name ca \<in> preserved \<or> zget remaining (ca_key ca) = 0
      then sticky_elisions canon rq preserved rest remaining current cs changed
      else
        let cs' = elide_at ca cs
        in case EstimateRequest canon (with_contents rq cs') of
             None \<Rightarrow> None
           | Some next' \<Rightarrow>
               if es_Tokens next' \<ge> es_Tokens current
               then sticky_elisions canon rq preserved rest remaining current cs changed
               else sticky_elisions canon rq preserved rest
                 (AList.update (ca_key ca) (zget remaining (ca_key ca) - 1) remaining) next' cs' True)"

definition applyStickyElisions ::
  "(go_string \<Rightarrow> go_string) \<Rightarrow> ('v, 'x) canonical \<Rightarrow> ('v, 'x) llm_request \<Rightarrow> ('v, 'x) contents \<Rightarrow> go_string list \<Rightarrow> int \<Rightarrow> go_string set \<Rightarrow>
   (bool \<times> ('v, 'x) contents) option" where
  "applyStickyElisions sha canon rq cs values' keep preserved =
     (case eligibleResponseCandidates sha canon cs keep of
        None \<Rightarrow> None
      | Some candidates \<Rightarrow>
          (case EstimateRequest canon (with_contents rq cs) of
             None \<Rightarrow> None
           | Some current \<Rightarrow> sticky_elisions canon rq preserved candidates (stringCounts values') current cs False))"

text \<open>Whether the request changed, the contents and the estimate.\<close>

definition applyStickyState ::
  "(go_string \<Rightarrow> go_string) \<Rightarrow> ('v, 'x) canonical \<Rightarrow> compaction_policy \<Rightarrow> durableState \<Rightarrow> ('v, 'x) llm_request \<Rightarrow> ('v, 'x) contents \<Rightarrow>
   estimate \<Rightarrow> go_string set \<Rightarrow> bool \<Rightarrow> (bool \<times> ('v, 'x) contents \<times> estimate) option" where
  "applyStickyState sha canon policy ds rq cs current preserved sticky =
     (if \<not> sticky then Some (False, cs, current)
      else case applyStickyDrops sha canon cs (du_DroppedTurns ds) (cp_KeepRecentContents policy) preserved of
        None \<Rightarrow> None
      | Some (dropped, cs1) \<Rightarrow>
          (case applyStickyElisions sha canon rq cs1 (du_ElidedResponses ds) (cp_KeepRecentContents policy) preserved of
             None \<Rightarrow> None
           | Some (elided, cs2) \<Rightarrow>
               map_option (\<lambda>e. (dropped \<or> elided, cs2, e)) (EstimateRequest canon (with_contents rq cs2))))"

section \<open>Eliding and dropping\<close>

text \<open>The durable state is returned on an error too: what was recorded before it stays recorded.\<close>

fun elide_loop ::
  "(float64 \<Rightarrow> int) \<Rightarrow> ('v, 'x) canonical \<Rightarrow> compaction_policy \<Rightarrow> ('v, 'x) llm_request \<Rightarrow> float64 \<Rightarrow> int \<Rightarrow> go_string set \<Rightarrow> responseCandidate list \<Rightarrow>
   durableState \<Rightarrow> ('v, 'x) contents \<Rightarrow> estimate \<Rightarrow> bool \<Rightarrow> durableState \<times> (('v, 'x) contents \<times> estimate \<times> bool) option" where
  "elide_loop plat canon policy rq factor target preserved [] ds cs current changed = (ds, Some (cs, current, changed))"
| "elide_loop plat canon policy rq factor target preserved (ca # rest) ds cs current changed =
     (if calibratedTokens plat (es_Tokens current) factor \<le> target then (ds, Some (cs, current, changed))
      else if ca_name ca \<in> preserved \<or> ca_bodyTokens ca < cp_MinimumElisionTokens policy
      then elide_loop plat canon policy rq factor target preserved rest ds cs current changed
      else
        let cs' = elide_at ca cs
        in case EstimateRequest canon (with_contents rq cs') of
             None \<Rightarrow> (ds, None)
           | Some next' \<Rightarrow>
               if es_Tokens next' \<ge> es_Tokens current
               then elide_loop plat canon policy rq factor target preserved rest ds cs current changed
               else elide_loop plat canon policy rq factor target preserved rest
                 (ds\<lparr>du_ElidedResponses := du_ElidedResponses ds @ [ca_key ca]\<rparr>) cs' next' True)"

definition elideResponses ::
  "(float64 \<Rightarrow> int) \<Rightarrow> (go_string \<Rightarrow> go_string) \<Rightarrow> ('v, 'x) canonical \<Rightarrow> compaction_policy \<Rightarrow> durableState \<Rightarrow> ('v, 'x) llm_request \<Rightarrow>
   ('v, 'x) contents \<Rightarrow> estimate \<Rightarrow> float64 \<Rightarrow> int \<Rightarrow> go_string set \<Rightarrow> durableState \<times> (('v, 'x) contents \<times> estimate \<times> bool) option" where
  "elideResponses plat sha canon policy ds rq cs current factor target preserved =
     (case eligibleResponseCandidates sha canon cs (cp_KeepRecentContents policy) of
        None \<Rightarrow> (ds, None)
      | Some candidates \<Rightarrow> elide_loop plat canon policy rq factor target preserved candidates ds cs current False)"

function dropCompleteTurns ::
  "(float64 \<Rightarrow> int) \<Rightarrow> (go_string \<Rightarrow> go_string) \<Rightarrow> ('v, 'x) canonical \<Rightarrow> compaction_policy \<Rightarrow> ('v, 'x) llm_request \<Rightarrow> float64 \<Rightarrow> int \<Rightarrow>
   go_string set \<Rightarrow> durableState \<Rightarrow> ('v, 'x) contents \<Rightarrow> estimate \<Rightarrow> bool \<Rightarrow>
   durableState \<times> (('v, 'x) contents \<times> estimate \<times> bool) option" where
  "dropCompleteTurns plat sha canon policy rq factor target preserved ds cs current changed =
     (if calibratedTokens plat (es_Tokens current) factor \<le> target then (ds, Some (cs, current, changed))
      else case completeTurns sha canon cs of
        None \<Rightarrow> (ds, None)
      | Some groups \<Rightarrow>
          (case firstDroppableTurn cs groups (cp_KeepRecentContents policy) preserved of
             None \<Rightarrow> (ds, Some (cs, current, changed))
           | Some g \<Rightarrow>
               (case EstimateRequest canon (with_contents rq (drop_turn g cs)) of
                  None \<Rightarrow> (ds, None)
                | Some next' \<Rightarrow>
                    dropCompleteTurns plat sha canon policy rq factor target preserved
                      (ds\<lparr>du_DroppedTurns := du_DroppedTurns ds @ [tn_key g]\<rparr>) (drop_turn g cs) next' True)))"
  by pat_completeness auto
termination
  by (relation "measure (\<lambda>(_, _, _, _, _, _, _, _, _, cs, _). length cs)")
    (auto simp: firstDroppableTurn_def dest!: nextDroppableTurn_in completeTurns_bounds intro: drop_turn_shorter)

declare dropCompleteTurns.simps [simp del]

text \<open>\<open>None\<close> is an error, which leaves the request as it is.\<close>

definition applyPolicy ::
  "(float64 \<Rightarrow> int) \<Rightarrow> (go_string \<Rightarrow> go_string) \<Rightarrow> ('v, 'x) canonical \<Rightarrow> compaction_policy \<Rightarrow> durableState \<Rightarrow> ('v, 'x) llm_request \<Rightarrow>
   policyResult option \<times> durableState \<times> ('v, 'x) llm_request" where
  "applyPolicy plat sha canon policy state rq =
     (let ds = normalizeDurableState state; preserved = preservedToolNames (cp_PreserveToolNames policy)
      in case EstimateRequest canon rq of
           None \<Rightarrow> (None, ds, rq)
         | Some estimate \<Rightarrow>
             let factor = calibrationFactor (cp_Calibration policy) (du_Calibration ds);
                 trigger = fraction_tokens plat (cp_ContextTokens policy) (cp_TriggerFraction policy);
                 sticky = (du_DroppedTurns ds \<noteq> [] \<or> du_ElidedResponses ds \<noteq> []);
                 quiet = (\<lambda>e. \<lparr>pr_Estimate = e, pr_Triggered = False, pr_Exhausted = False, pr_StateChanged = False\<rparr>)
             in if \<not> sticky \<and> calibratedTokens plat (es_Tokens estimate) factor < trigger then (Some (quiet estimate), ds, rq)
                else case applyStickyState sha canon policy ds rq (rq_Contents rq) estimate preserved sticky of
                  None \<Rightarrow> (None, ds, rq)
                | Some (changed0, cs0, e0) \<Rightarrow>
                    if calibratedTokens plat (es_Tokens e0) factor < trigger
                    then (Some (quiet e0), ds, if changed0 then with_contents rq cs0 else rq)
                    else
                      let target = fraction_tokens plat (cp_ContextTokens policy) (cp_TargetFraction policy)
                      in case elideResponses plat sha canon policy ds rq cs0 e0 factor target preserved of
                           (ds1, None) \<Rightarrow> (None, ds1, rq)
                         | (ds1, Some (cs1, e1, changed1)) \<Rightarrow>
                             (case dropCompleteTurns plat sha canon policy rq factor target preserved ds1 cs1 e1 False of
                                (ds2, None) \<Rightarrow> (None, ds2, rq)
                              | (ds2, Some (cs2, e2, changed2)) \<Rightarrow>
                                  (Some \<lparr>pr_Estimate = e2, pr_Triggered = True,
                                     pr_Exhausted = (calibratedTokens plat (es_Tokens e2) factor > target),
                                     pr_StateChanged = (changed1 \<or> changed2)\<rparr>,
                                   ds2\<lparr>du_ElidedResponses := sort (du_ElidedResponses ds2), du_DroppedTurns := sort (du_DroppedTurns ds2)\<rparr>,
                                   if changed0 \<or> changed1 \<or> changed2 then with_contents rq cs2 else rq)))"

end
