(* ===== verification/Compaction_Steps.thy ===== *)
theory Compaction_Steps
  imports Compaction_Policy
begin

text \<open>
  What the compaction does to a conversation. Every change the policy makes is one of two steps, the elision of one
  response and the dropping of one turn; the properties are proved for a step and follow for every run.
\<close>

section \<open>The steps\<close>

definition response_name :: "response_kind \<Rightarrow> ('v, 'x) part \<Rightarrow> go_string option" where
  "response_name k p =
     (case k of RFunction \<Rightarrow> map_option fr_Name (p_FunctionResponse p) | RTool \<Rightarrow> map_option tr_ToolType (p_ToolResponse p))"

definition candidate_ok :: "int \<Rightarrow> ('v, 'x) contents \<Rightarrow> responseCandidate \<Rightarrow> bool" where
  "candidate_ok keep cs ca \<longleftrightarrow> 1 \<le> ca_content ca \<and> int (ca_content ca) < slen cs - keep \<and> ca_content ca < length cs \<and>
     (\<exists>c p. cs ! ca_content ca = Some c \<and> ca_part ca < length (ct_Parts c) \<and> ct_Parts c ! ca_part ca = Some p \<and>
        response_name (ca_kind ca) p = Some (ca_name ca))"

inductive compaction_step :: "int \<Rightarrow> go_string set \<Rightarrow> ('v, 'x) contents \<Rightarrow> ('v, 'x) contents \<Rightarrow> bool"
  for keep preserved where
  elide: "candidate_ok keep cs ca \<Longrightarrow> ca_name ca \<notin> preserved \<Longrightarrow> compaction_step keep preserved cs (elide_at ca cs)"
| drop_one: "tn_start g < tn_end g \<Longrightarrow> tn_end g < length cs \<Longrightarrow> droppable cs keep 0 preserved g \<Longrightarrow>
     compaction_step keep preserved cs (drop_turn g cs)"

inductive_cases compaction_stepE: "compaction_step keep preserved cs cs'"

abbreviation compaction_run :: "int \<Rightarrow> go_string set \<Rightarrow> ('v, 'x) contents \<Rightarrow> ('v, 'x) contents \<Rightarrow> bool" where
  "compaction_run keep preserved \<equiv> (compaction_step keep preserved)\<^sup>*\<^sup>*"

subsection \<open>Candidates name responses\<close>

lemma append_candidates_Some:
  "append_candidates a b = Some xs \<longleftrightarrow> (\<exists>ys zs. a = Some ys \<and> b = Some zs \<and> xs = ys @ zs)"
  by (cases a; cases b) (auto simp: append_candidates_def)

lemma response_candidate_Some:
  "response_candidate sha canon i j k rid name body = Some ca \<Longrightarrow>
    ca_content ca = i \<and> ca_part ca = j \<and> ca_kind ca = k \<and> ca_name ca = name"
  by (auto simp: response_candidate_def split: option.splits)

lemma function_candidates:
  "functionResponseCandidate sha canon i j (p_FunctionResponse p) = Some cands \<Longrightarrow> ca \<in> set cands \<Longrightarrow>
    ca_content ca = i \<and> ca_part ca = j \<and> response_name (ca_kind ca) p = Some (ca_name ca)"
  by (auto simp: functionResponseCandidate_def response_name_def dest!: response_candidate_Some split: option.splits if_splits)

lemma tool_candidates:
  "toolResponseCandidate sha canon i j (p_ToolResponse p) = Some cands \<Longrightarrow> ca \<in> set cands \<Longrightarrow>
    ca_content ca = i \<and> ca_part ca = j \<and> response_name (ca_kind ca) p = Some (ca_name ca)"
  by (auto simp: toolResponseCandidate_def response_name_def dest!: response_candidate_Some split: option.splits if_splits)

lemma part_candidates_at:
  "part_candidates sha canon i j ps = Some cands \<Longrightarrow> ca \<in> set cands \<Longrightarrow>
    ca_content ca = i \<and> j \<le> ca_part ca \<and> ca_part ca < j + length ps \<and>
    (\<exists>p. ps ! (ca_part ca - j) = Some p \<and> response_name (ca_kind ca) p = Some (ca_name ca))"
proof (induction sha canon i j ps arbitrary: cands rule: part_candidates.induct)
  case (2 sha canon i j ps)
  then have "ca_content ca = i \<and> j + 1 \<le> ca_part ca \<and> ca_part ca < j + 1 + length ps \<and>
    (\<exists>p. ps ! (ca_part ca - (j + 1)) = Some p \<and> response_name (ca_kind ca) p = Some (ca_name ca))" by simp
  then show ?case by (auto simp: nth_Cons' )
next
  case (3 sha canon i j p ps)
  from "3.prems"(1) obtain xs ys zs where x:
    "functionResponseCandidate sha canon i j (p_FunctionResponse p) = Some xs"
    "toolResponseCandidate sha canon i j (p_ToolResponse p) = Some ys"
    "part_candidates sha canon i (j + 1) ps = Some zs" "cands = xs @ ys @ zs"
    by (auto simp: append_candidates_Some)
  consider "ca \<in> set xs" | "ca \<in> set ys" | "ca \<in> set zs" using "3.prems"(2) x(4) by auto
  then show ?case
  proof cases
    case 1
    then show ?thesis using function_candidates [OF x(1)] by auto
  next
    case 2
    then show ?thesis using tool_candidates [OF x(2)] by auto
  next
    case 3
    with "3.IH" [OF x(3)] have "ca_content ca = i \<and> j + 1 \<le> ca_part ca \<and> ca_part ca < j + 1 + length ps \<and>
      (\<exists>p. ps ! (ca_part ca - (j + 1)) = Some p \<and> response_name (ca_kind ca) p = Some (ca_name ca))" by simp
    then show ?thesis by (auto simp: nth_Cons')
  qed
qed simp

lemma range_candidates_at:
  "range_candidates sha canon i cs = Some cands \<Longrightarrow> ca \<in> set cands \<Longrightarrow>
    i \<le> ca_content ca \<and> ca_content ca < i + length cs \<and>
    (\<exists>c p. cs ! (ca_content ca - i) = Some c \<and> ca_part ca < length (ct_Parts c) \<and> ct_Parts c ! ca_part ca = Some p \<and>
      response_name (ca_kind ca) p = Some (ca_name ca))"
proof (induction sha canon i cs arbitrary: cands rule: range_candidates.induct)
  case (2 sha canon i cs)
  then have "i + 1 \<le> ca_content ca \<and> ca_content ca < i + 1 + length cs \<and>
    (\<exists>c p. cs ! (ca_content ca - (i + 1)) = Some c \<and> ca_part ca < length (ct_Parts c) \<and> ct_Parts c ! ca_part ca = Some p \<and>
      response_name (ca_kind ca) p = Some (ca_name ca))" by simp
  then show ?case by (auto simp: nth_Cons')
next
  case (3 sha canon i c cs)
  from "3.prems"(1) obtain xs ys where x: "contentResponseCandidates sha canon i c = Some xs"
    "range_candidates sha canon (i + 1) cs = Some ys" "cands = xs @ ys"
    by (auto simp: append_candidates_Some)
  show ?case
  proof (cases "ca \<in> set xs")
    case True
    then show ?thesis using part_candidates_at [OF x(1) [unfolded contentResponseCandidates_def]] by auto
  next
    case False
    then have "ca \<in> set ys" using "3.prems"(2) x(3) by simp
    with "3.IH" [OF x(2)] have "i + 1 \<le> ca_content ca \<and> ca_content ca < i + 1 + length cs \<and>
      (\<exists>c p. cs ! (ca_content ca - (i + 1)) = Some c \<and> ca_part ca < length (ct_Parts c) \<and> ct_Parts c ! ca_part ca = Some p \<and>
        response_name (ca_kind ca) p = Some (ca_name ca))" by simp
    then show ?thesis by (auto simp: nth_Cons')
  qed
qed simp

lemma eligible_candidates_ok:
  assumes "eligibleResponseCandidates sha canon cs keep = Some cands" "ca \<in> set cands" 
  shows "candidate_ok keep cs ca"
proof -
  define e where "e = (if slen cs - keep < 1 then 1 else slen cs - keep)"
  define start where "start = max 0 (min 1 (slen cs))"
  define end' where "end' = max start (min e (slen cs))"
  have r: "range_candidates sha canon (nat start) (from_int start (upto_int end' cs)) = Some cands"
    using assms(1) by (simp add: eligibleResponseCandidates_def responseCandidatesInRange_def boundedRange_def Let_def e_def start_def end'_def)
  note at = range_candidates_at [OF r assms(2)]
  have "start = (if slen cs \<le> 0 then 0 else 1)" by (cases cs) (simp_all add: start_def slen_def)
  then have b: "0 \<le> start" "start \<le> end'" "end' \<le> slen cs" "start = (if slen cs \<le> 0 then 0 else 1)"
    "start < end' \<Longrightarrow> end' \<le> e"
    by (auto simp: end'_def start_def)
  have len: "length (from_int start (upto_int end' cs)) = nat (end' - start)"
    using b(1-3) by (simp add: from_int_def upto_int_def slen_def nat_diff_distrib)
  have i: "nat start \<le> ca_content ca" "ca_content ca < nat start + nat (end' - start)" using at len by auto
  then have e: "int (ca_content ca) < end'" "start < end'" using b(1) by linarith+
  then have s: "start = 1" "end' \<le> e" using b by (auto split: if_splits)
  then have "int (ca_content ca) < slen cs - keep" "ca_content ca < length cs" "1 \<le> ca_content ca"
    using i(1) e b(3) by (auto simp: e_def slen_def split: if_splits)
  moreover have "from_int start (upto_int end' cs) ! (ca_content ca - nat start) = cs ! ca_content ca"
  proof -
    have "nat start \<le> length (upto_int end' cs)" "ca_content ca < nat end'" using e b(1,3) i by (auto simp: upto_int_def slen_def)
    then show ?thesis using i(1) by (simp add: from_int_def upto_int_def)
  qed
  ultimately show ?thesis using at by (auto simp: candidate_ok_def)
qed

lemma elide_keeps_name [simp]: "response_name k (elide_part k' p) = response_name k p"
  by (auto simp: response_name_def elide_part_def elide_function_def elide_tool_def option.map_comp comp_def split: response_kind.split)

lemma elide_at_simps:
  assumes "candidate_ok keep cs ca"
  obtains c p where "cs ! ca_content ca = Some c" "ct_Parts c ! ca_part ca = Some p" "ca_part ca < length (ct_Parts c)"
    "response_name (ca_kind ca) p = Some (ca_name ca)" "ca_content ca < length cs"
    "elide_at ca cs = cs[ca_content ca := Some (c\<lparr>ct_Parts := (ct_Parts c)[ca_part ca := Some (elide_part (ca_kind ca) p)]\<rparr>)]"
  using assms by (auto simp: candidate_ok_def elide_at_def elide_content_def)

lemma elide_at_length [simp]: "length (elide_at ca cs) = length cs" "slen (elide_at ca cs) = slen cs"
  by (simp_all add: elide_at_def slen_def)

lemma elide_keeps_candidate: "candidate_ok keep cs ca \<Longrightarrow> candidate_ok keep cs ca' \<Longrightarrow> candidate_ok keep (elide_at ca cs) ca'"
proof -
  assume a: "candidate_ok keep cs ca" and b: "candidate_ok keep cs ca'"
  obtain c p where e: "cs ! ca_content ca = Some c" "ct_Parts c ! ca_part ca = Some p" "ca_part ca < length (ct_Parts c)"
    "ca_content ca < length cs"
    "elide_at ca cs = cs[ca_content ca := Some (c\<lparr>ct_Parts := (ct_Parts c)[ca_part ca := Some (elide_part (ca_kind ca) p)]\<rparr>)]"
    by (rule elide_at_simps [OF a])
  show ?thesis
    using b e by (cases "ca_content ca = ca_content ca'"; cases "ca_part ca = ca_part ca'") (auto simp: candidate_ok_def slen_def)
qed

subsection \<open>The policy runs the steps\<close>

lemma sticky_drops_run:
  "sticky_drops sha canon keep preserved remaining cs changed = Some (changed', cs') \<Longrightarrow> compaction_run keep preserved cs cs'"
proof (induction sha canon keep preserved remaining cs changed rule: sticky_drops.induct)
  case (1 sha canon keep preserved remaining cs changed)
  show ?case
  proof (cases "remaining = [] \<or> cs' = cs")
    case True
    then show ?thesis using "1.prems" by (auto simp: sticky_drops.simps [of _ _ _ _ remaining cs])
  next
    case False
    then obtain groups g where g: "completeTurns sha canon cs = Some groups" "find_sticky cs groups keep 0 preserved remaining = Some g"
      using "1.prems" by (auto simp: sticky_drops.simps [of _ _ _ _ remaining cs] split: option.splits)
    have "compaction_step keep preserved cs (drop_turn g cs)"
      using find_sticky_in [OF g(2)] completeTurns_bounds [OF g(1)] by (auto intro: drop_one)
    moreover have "compaction_run keep preserved (drop_turn g cs) cs'"
      using "1.IH" [OF _ g refl refl] "1.prems" False g by (auto simp: sticky_drops.simps [of _ _ _ _ remaining cs] Let_def)
    ultimately show ?thesis by (rule converse_rtranclp_into_rtranclp)
  qed
qed

lemma sticky_elisions_run:
  "sticky_elisions canon rq preserved cands remaining current cs changed = Some (changed', cs') \<Longrightarrow>
    \<forall>ca \<in> set cands. candidate_ok keep cs ca \<Longrightarrow> compaction_run keep preserved cs cs'"
proof (induction canon rq preserved cands remaining current cs changed rule: sticky_elisions.induct)
  case (2 canon rq preserved ca rest remaining current cs changed)
  consider (skip) "sticky_elisions canon rq preserved rest remaining current cs changed = Some (changed', cs')"
      "ca_name ca \<in> preserved \<or> zget remaining (ca_key ca) = 0"
    | (keep) next' where "\<not> (ca_name ca \<in> preserved \<or> zget remaining (ca_key ca) = 0)"
      "EstimateRequest canon (with_contents rq (elide_at ca cs)) = Some next'" "es_Tokens next' \<ge> es_Tokens current"
      "sticky_elisions canon rq preserved rest remaining current cs changed = Some (changed', cs')"
    | (elide) next' where "\<not> (ca_name ca \<in> preserved \<or> zget remaining (ca_key ca) = 0)"
      "EstimateRequest canon (with_contents rq (elide_at ca cs)) = Some next'" "\<not> es_Tokens next' \<ge> es_Tokens current"
      "sticky_elisions canon rq preserved rest (AList.update (ca_key ca) (zget remaining (ca_key ca) - 1) remaining) next'
        (elide_at ca cs) True = Some (changed', cs')"
    using "2.prems"(1) by (auto simp: Let_def split: if_splits option.splits)
  then show ?case
  proof cases
    case skip
    then show ?thesis using "2.IH"(1) "2.prems"(2) by simp
  next
    case (keep next')
    then show ?thesis using "2.IH"(2) [OF keep(1) refl keep(2,3,4)] "2.prems"(2) by simp
  next
    case (elide next')
    have ok: "\<forall>ca' \<in> set rest. candidate_ok keep (elide_at ca cs) ca'" using "2.prems"(2) by (simp add: elide_keeps_candidate)
    have "compaction_step keep preserved cs (elide_at ca cs)" using "2.prems"(2) elide(1) by (simp add: compaction_step.elide)
    moreover have "compaction_run keep preserved (elide_at ca cs) cs'" using "2.IH"(3) [OF elide(1) refl elide(2,3,4) ok] .
    ultimately show ?thesis by (rule converse_rtranclp_into_rtranclp)
  qed
qed simp

lemma elide_loop_run:
  "elide_loop plat canon policy rq factor target preserved cands ds cs current changed = (ds', Some (cs', e', changed')) \<Longrightarrow>
    \<forall>ca \<in> set cands. candidate_ok keep cs ca \<Longrightarrow> compaction_run keep preserved cs cs'"
proof (induction plat canon policy rq factor target preserved cands ds cs current changed rule: elide_loop.induct)
  case (2 plat canon policy rq factor target preserved ca rest ds cs current changed)
  have ok: "\<forall>ca' \<in> set rest. candidate_ok keep cs ca'" "\<forall>ca' \<in> set rest. candidate_ok keep (elide_at ca cs) ca'" "candidate_ok keep cs ca"
    using "2.prems"(2) by (simp_all add: elide_keeps_candidate)
  show ?case
  proof (cases "calibratedTokens plat (es_Tokens current) factor \<le> target")
    case True
    then show ?thesis using "2.prems"(1) by simp
  next
    case over: False
    show ?thesis
    proof (cases "ca_name ca \<in> preserved \<or> ca_bodyTokens ca < cp_MinimumElisionTokens policy")
      case True
      then show ?thesis using "2.IH"(1) [OF over True _ ok(1)] "2.prems"(1) over by simp
    next
      case False
      then obtain next' where n: "EstimateRequest canon (with_contents rq (elide_at ca cs)) = Some next'"
        using "2.prems"(1) over by (auto simp: Let_def split: option.splits)
      show ?thesis
      proof (cases "es_Tokens next' \<ge> es_Tokens current")
        case True
        then show ?thesis using "2.IH"(2) [OF over False refl n True _ ok(1)] "2.prems"(1) over False n by (simp add: Let_def)
      next
        case less: False
        have "compaction_step keep preserved cs (elide_at ca cs)" using ok(3) False by (simp add: compaction_step.elide)
        moreover have "compaction_run keep preserved (elide_at ca cs) cs'"
          using "2.IH"(3) [OF over False refl n less _ ok(2)] "2.prems"(1) over False n less by (simp add: Let_def)
        ultimately show ?thesis by (rule converse_rtranclp_into_rtranclp)
      qed
    qed
  qed
qed simp

lemma drop_loop_run:
  "dropCompleteTurns plat sha canon policy rq factor target preserved ds cs current changed = (ds', Some (cs', e', changed')) \<Longrightarrow>
    compaction_run (cp_KeepRecentContents policy) preserved cs cs'"
proof (induction plat sha canon policy rq factor target preserved ds cs current changed rule: dropCompleteTurns.induct)
  case (1 plat sha canon policy rq factor target preserved ds cs current changed)
  note d = "1.prems" [unfolded dropCompleteTurns.simps [of plat sha canon policy rq factor target preserved ds cs]]
  show ?case
  proof (cases "cs' = cs")
    case False
    then obtain groups g next' where g: "\<not> calibratedTokens plat (es_Tokens current) factor \<le> target"
      "completeTurns sha canon cs = Some groups" "firstDroppableTurn cs groups (cp_KeepRecentContents policy) preserved = Some g"
      "EstimateRequest canon (with_contents rq (drop_turn g cs)) = Some next'"
      using d by (auto split: if_splits option.splits)
    have "compaction_step (cp_KeepRecentContents policy) preserved cs (drop_turn g cs)"
      using nextDroppableTurn_in [OF g(3) [unfolded firstDroppableTurn_def]] completeTurns_bounds [OF g(2)] by (auto intro: drop_one)
    moreover have "compaction_run (cp_KeepRecentContents policy) preserved (drop_turn g cs) cs'"
      using "1.IH" [OF g] d g by simp
    ultimately show ?thesis by (rule converse_rtranclp_into_rtranclp)
  qed simp
qed


lemma sticky_state_run:
  assumes "applyStickyState sha canon policy ds rq cs current preserved sticky = Some (changed, cs', e)"
  shows "compaction_run (cp_KeepRecentContents policy) preserved cs cs'"
proof (cases sticky)
  case True
  then obtain d cs1 el where a: "applyStickyDrops sha canon cs (du_DroppedTurns ds) (cp_KeepRecentContents policy) preserved = Some (d, cs1)"
    "applyStickyElisions sha canon rq cs1 (du_ElidedResponses ds) (cp_KeepRecentContents policy) preserved = Some (el, cs')"
  proof -
    obtain d cs1 where 1: "applyStickyDrops sha canon cs (du_DroppedTurns ds) (cp_KeepRecentContents policy) preserved = Some (d, cs1)"
      using assms True by (cases "applyStickyDrops sha canon cs (du_DroppedTurns ds) (cp_KeepRecentContents policy) preserved")
        (auto simp: applyStickyState_def)
    then obtain el cs2 where "applyStickyElisions sha canon rq cs1 (du_ElidedResponses ds) (cp_KeepRecentContents policy) preserved = Some (el, cs2)"
      using assms True by (cases "applyStickyElisions sha canon rq cs1 (du_ElidedResponses ds) (cp_KeepRecentContents policy) preserved")
        (auto simp: applyStickyState_def)
    then show ?thesis using assms True 1 by (intro that) (auto simp: applyStickyState_def)
  qed
  obtain cands cur where c: "eligibleResponseCandidates sha canon cs1 (cp_KeepRecentContents policy) = Some cands"
    "sticky_elisions canon rq preserved cands (stringCounts (du_ElidedResponses ds)) cur cs1 False = Some (el, cs')"
    using a(2) by (auto simp: applyStickyElisions_def split: option.splits)
  have "compaction_run (cp_KeepRecentContents policy) preserved cs cs1"
    using a(1) by (simp add: applyStickyDrops_def sticky_drops_run)
  moreover have "compaction_run (cp_KeepRecentContents policy) preserved cs1 cs'"
    using sticky_elisions_run [OF c(2)] eligible_candidates_ok [OF c(1)] by blast
  ultimately show ?thesis by (rule rtranclp_trans)
qed (use assms in \<open>simp add: applyStickyState_def\<close>)

text \<open>How a call of \<open>applyPolicy\<close> ends.\<close>

lemma applyPolicy_cases:
  assumes "applyPolicy plat sha canon policy state rq = (res, state', rq')"
  defines "ds \<equiv> normalizeDurableState state"
  defines "factor \<equiv> calibrationFactor (cp_Calibration policy) (du_Calibration ds)"
  defines "trigger \<equiv> fraction_tokens plat (cp_ContextTokens policy) (cp_TriggerFraction policy)"
  defines "target \<equiv> fraction_tokens plat (cp_ContextTokens policy) (cp_TargetFraction policy)"
  defines "preserved \<equiv> preservedToolNames (cp_PreserveToolNames policy)"
  obtains (failed) "res = None" "rq' = rq"
  | (idle) e where "res = Some \<lparr>pr_Estimate = e, pr_Triggered = False, pr_Exhausted = False, pr_StateChanged = False\<rparr>"
      "state' = ds" "rq' = rq" "EstimateRequest canon rq = Some e" "du_DroppedTurns ds = []" "du_ElidedResponses ds = []"
      "calibratedTokens plat (es_Tokens e) factor < trigger"
  | (replayed) e0 changed0 cs0 e where "res = Some \<lparr>pr_Estimate = e, pr_Triggered = False, pr_Exhausted = False, pr_StateChanged = False\<rparr>"
      "state' = ds" "EstimateRequest canon rq = Some e0"
      "applyStickyState sha canon policy ds rq (rq_Contents rq) e0 preserved (du_DroppedTurns ds \<noteq> [] \<or> du_ElidedResponses ds \<noteq> []) = Some (changed0, cs0, e)"
      "calibratedTokens plat (es_Tokens e) factor < trigger"
      "rq' = (if changed0 then with_contents rq cs0 else rq)"
  | (compacted) e0 changed0 cs0 e1 ds1 cs1 e2 changed1 ds2 cs2 e changed2 where
      "res = Some \<lparr>pr_Estimate = e, pr_Triggered = True, pr_Exhausted = (calibratedTokens plat (es_Tokens e) factor > target),
        pr_StateChanged = (changed1 \<or> changed2)\<rparr>"
      "state' = ds2\<lparr>du_ElidedResponses := sort (du_ElidedResponses ds2), du_DroppedTurns := sort (du_DroppedTurns ds2)\<rparr>"
      "EstimateRequest canon rq = Some e0"
      "applyStickyState sha canon policy ds rq (rq_Contents rq) e0 preserved (du_DroppedTurns ds \<noteq> [] \<or> du_ElidedResponses ds \<noteq> []) = Some (changed0, cs0, e1)"
      "\<not> calibratedTokens plat (es_Tokens e1) factor < trigger"
      "elideResponses plat sha canon policy ds rq cs0 e1 factor target preserved = (ds1, Some (cs1, e2, changed1))"
      "dropCompleteTurns plat sha canon policy rq factor target preserved ds1 cs1 e2 False = (ds2, Some (cs2, e, changed2))"
      "rq' = (if changed0 \<or> changed1 \<or> changed2 then with_contents rq cs2 else rq)"
proof (cases "EstimateRequest canon rq")
  case None
  then show ?thesis using assms(1) failed by (simp add: applyPolicy_def Let_def)
next
  case (Some e0)
  note d = assms(1) [unfolded applyPolicy_def Let_def Some option.case, folded ds_def, folded factor_def trigger_def target_def preserved_def]
  let ?sticky = "du_DroppedTurns ds \<noteq> [] \<or> du_ElidedResponses ds \<noteq> []"
  show ?thesis
  proof (cases "\<not> ?sticky \<and> calibratedTokens plat (es_Tokens e0) factor < trigger")
    case True
    then show ?thesis using d Some by (intro idle [of e0]) auto
  next
    case busy: False
    show ?thesis
    proof (cases "applyStickyState sha canon policy ds rq (rq_Contents rq) e0 preserved ?sticky")
      case None
      then show ?thesis using d busy failed by (simp split: if_splits)
    next
      case st: (Some x)
      obtain changed0 cs0 e1 where x: "x = (changed0, cs0, e1)" by (cases x)
      note st' = st [unfolded x]
      have d1: "(if calibratedTokens plat (es_Tokens e1) factor < trigger
          then (Some \<lparr>pr_Estimate = e1, pr_Triggered = False, pr_Exhausted = False, pr_StateChanged = False\<rparr>, ds, if changed0 then with_contents rq cs0 else rq)
          else case elideResponses plat sha canon policy ds rq cs0 e1 factor target preserved of
            (ds1, None) \<Rightarrow> (None, ds1, rq)
          | (ds1, Some (cs1, e1, changed1)) \<Rightarrow>
              (case dropCompleteTurns plat sha canon policy rq factor target preserved ds1 cs1 e1 False of
                 (ds2, None) \<Rightarrow> (None, ds2, rq)
               | (ds2, Some (cs2, e2, changed2)) \<Rightarrow>
                   (Some \<lparr>pr_Estimate = e2, pr_Triggered = True,
                      pr_Exhausted = (calibratedTokens plat (es_Tokens e2) factor > target), pr_StateChanged = (changed1 \<or> changed2)\<rparr>,
                    ds2\<lparr>du_ElidedResponses := sort (du_ElidedResponses ds2), du_DroppedTurns := sort (du_DroppedTurns ds2)\<rparr>,
                    if changed0 \<or> changed1 \<or> changed2 then with_contents rq cs2 else rq))) = (res, state', rq')"
        using d unfolding if_not_P [OF busy] st' by simp
      show ?thesis
      proof (cases "calibratedTokens plat (es_Tokens e1) factor < trigger")
        case True
        then show ?thesis using d1 Some st' by (intro replayed) auto
      next
        case over: False
        obtain ds1 y where y: "elideResponses plat sha canon policy ds rq cs0 e1 factor target preserved = (ds1, y)" by fastforce
        show ?thesis
        proof (cases y)
          case None
          then show ?thesis using d1 over y failed by simp
        next
          case some1: (Some t)
          obtain cs1 e2 changed1 where t: "t = (cs1, e2, changed1)" by (cases t)
          obtain ds2 z where z: "dropCompleteTurns plat sha canon policy rq factor target preserved ds1 cs1 e2 False = (ds2, z)" by fastforce
          show ?thesis
          proof (cases z)
            case None
            then show ?thesis using d1 over y some1 t z failed by simp
          next
            case some2: (Some u)
            obtain cs2 e changed2 where u: "u = (cs2, e, changed2)" by (cases u)
            show ?thesis
              using d1 over y some1 t z some2 u Some st' by (intro compacted [OF _ _ Some st' over y [unfolded some1 t] z [unfolded some2 u]]) auto
          qed
        qed
      qed
    qed
  qed
qed

end
