(* ===== verification/Compaction_Safety.thy ===== *)
theory Compaction_Safety
  imports Compaction_Steps "HOL-Library.Sublist"
begin

text \<open>
  The properties of the compaction policy: what a compacted conversation looks like, that calls and responses stay
  together, that preserved tools are left alone, what the result says about the target, and the recorded keys.
\<close>

section \<open>The shape of a compacted conversation\<close>

definition part_elided :: "('v, 'x) part \<Rightarrow> ('v, 'x) part \<Rightarrow> bool" where
  "part_elided p p' \<longleftrightarrow> p' \<in> {p, elide_part RFunction p, elide_part RTool p, elide_part RFunction (elide_part RTool p)}"

definition content_elided :: "('v, 'x) content \<Rightarrow> ('v, 'x) content \<Rightarrow> bool" where
  "content_elided c c' \<longleftrightarrow> (\<exists>ps. c' = c\<lparr>ct_Parts := ps\<rparr> \<and> list_all2 (rel_option part_elided) (ct_Parts c) ps)"

text \<open>Some contents were dropped, in those left some responses were elided.\<close>

definition shrunk :: "('v, 'x) contents \<Rightarrow> ('v, 'x) contents \<Rightarrow> bool" where
  "shrunk cs cs' \<longleftrightarrow> list_emb (\<lambda>c' c. rel_option content_elided c c') cs' cs"

lemma elide_idem [simp]: "elide_function (elide_function r) = elide_function r" "elide_tool (elide_tool t) = elide_tool t"
  by (simp_all add: elide_function_def elide_tool_def)

lemma elide_part_idem [simp]: "elide_part k (elide_part k p) = elide_part k p"
  by (cases k) (simp_all add: elide_part_def option.map_comp comp_def)

lemma elide_part_commute: "elide_part RTool (elide_part RFunction p) = elide_part RFunction (elide_part RTool p)"
  by (simp add: elide_part_def)

lemma elide_part_cancel [simp]:
  "elide_part RTool (elide_part RFunction (elide_part RTool p)) = elide_part RFunction (elide_part RTool p)"
  by (simp add: elide_part_commute)

lemma part_elided_refl [simp]: "part_elided p p"
  by (simp add: part_elided_def)

lemma part_elided_trans: "part_elided p q \<Longrightarrow> part_elided q r \<Longrightarrow> part_elided p r"
  by (auto simp: part_elided_def elide_part_commute)

lemma elide_part_elided: "part_elided p (elide_part k p)"
  by (cases k) (simp_all add: part_elided_def)

lemma content_elided_refl [simp]: "content_elided c c"
  by (auto simp: content_elided_def intro!: exI [of _ "ct_Parts c"] list_all2_refl option.rel_refl)

lemma content_elided_trans: "content_elided c d \<Longrightarrow> content_elided d e \<Longrightarrow> content_elided c e"
proof -
  assume "content_elided c d" "content_elided d e"
  then obtain ps qs where d: "d = c\<lparr>ct_Parts := ps\<rparr>" "e = d\<lparr>ct_Parts := qs\<rparr>"
    and l: "list_all2 (rel_option part_elided) (ct_Parts c) ps" "list_all2 (rel_option part_elided) ps qs"
    by (auto simp: content_elided_def)
  have "rel_option part_elided x y \<Longrightarrow> rel_option part_elided y z \<Longrightarrow> rel_option part_elided x z" for x y z :: "('a, 'b) part option"
    by (cases x; cases y; cases z) (auto intro: part_elided_trans)
  from list_all2_trans [OF this l] d show ?thesis by (auto simp: content_elided_def)
qed

lemma rel_content_trans:
  "rel_option content_elided x y \<Longrightarrow> rel_option content_elided y z \<Longrightarrow> rel_option content_elided x z"
  by (cases x; cases y; cases z) (auto intro: content_elided_trans)

lemma shrunk_refl [simp]: "shrunk cs cs"
  unfolding shrunk_def by (rule list_emb_refl) (auto intro: option.rel_refl)

lemma shrunk_trans: "shrunk a b \<Longrightarrow> shrunk b c \<Longrightarrow> shrunk a c"
  unfolding shrunk_def by (rule list_emb_trans [of c b a]) (auto intro: rel_content_trans)

lemma shrunk_Nil [simp]: "shrunk [] cs \<longleftrightarrow> cs = []"
  by (auto simp: shrunk_def)

lemma list_all2_shrunk: "list_all2 (rel_option content_elided) cs cs' \<Longrightarrow> shrunk cs cs'"
  by (induction rule: list_all2_induct) (auto simp: shrunk_def)

text \<open>The first content and the recent ones are untouched.\<close>

definition middle_end :: "int \<Rightarrow> ('v, 'x) contents \<Rightarrow> nat" where
  "middle_end keep cs = max 1 (length cs - nat keep)"

definition framed :: "int \<Rightarrow> ('v, 'x) contents \<Rightarrow> ('v, 'x) contents \<Rightarrow> bool" where
  "framed keep cs cs' \<longleftrightarrow> (\<exists>mid. cs' = take 1 cs @ mid @ drop (middle_end keep cs) cs \<and>
     shrunk (drop 1 (take (middle_end keep cs) cs)) mid)"

lemma frame_split: "cs = take 1 cs @ drop 1 (take (middle_end keep cs) cs) @ drop (middle_end keep cs) cs"
proof -
  have "take (middle_end keep cs) cs = take 1 cs @ drop 1 (take (middle_end keep cs) cs)"
    by (metis append_take_drop_id middle_end_def min.absorb1 max.cobounded1 take_take)
  then show ?thesis by (metis append.assoc append_take_drop_id)
qed

lemma framed_refl: "framed keep cs cs"
  unfolding framed_def using frame_split [of cs keep] by (intro exI [of _ "drop 1 (take (middle_end keep cs) cs)"]) simp

lemma framed_trans:
  assumes "framed keep a b" "framed keep b c"
  shows "framed keep a c"
proof -
  obtain mid where b: "b = take 1 a @ mid @ drop (middle_end keep a) a" and m: "shrunk (drop 1 (take (middle_end keep a) a)) mid"
    using assms(1) by (auto simp: framed_def)
  show ?thesis
  proof (cases "length a \<le> 1 \<or> length a - 1 < nat keep")
    case True
    then have "drop 1 (take (middle_end keep a) a) = []" by (auto simp: middle_end_def)
    then have "b = a" using b m frame_split [of a keep] by simp
    then show ?thesis using assms(2) by simp
  next
    case False
    have me: "middle_end keep a = length a - nat keep" "nat keep < length a" using False by (auto simp: middle_end_def)
    have "length b = 1 + length mid + nat keep" using False me by (simp add: b)
    then have end': "middle_end keep b = 1 + length mid" by (simp add: middle_end_def)
    have "take 1 b = take 1 a" "drop 1 (take (middle_end keep b) b) = mid" "drop (middle_end keep b) b = drop (middle_end keep a) a"
      using False unfolding end' by (auto simp: b)
    then show ?thesis using assms(2) m by (auto simp: framed_def intro: shrunk_trans)
  qed
qed

lemma framed_elide:
  assumes "candidate_ok keep cs ca"
  shows "framed keep cs (elide_at ca cs)"
proof -
  obtain c p where e: "cs ! ca_content ca = Some c" "ct_Parts c ! ca_part ca = Some p" "ca_part ca < length (ct_Parts c)"
    "ca_content ca < length cs"
    "elide_at ca cs = cs[ca_content ca := Some (c\<lparr>ct_Parts := (ct_Parts c)[ca_part ca := Some (elide_part (ca_kind ca) p)]\<rparr>)]"
    by (rule elide_at_simps [OF assms])
  let ?d = "c\<lparr>ct_Parts := (ct_Parts c)[ca_part ca := Some (elide_part (ca_kind ca) p)]\<rparr>"
  let ?i = "ca_content ca" and ?m = "middle_end keep cs"
  have i: "1 \<le> ?i" "?i < ?m" using assms by (auto simp: candidate_ok_def middle_end_def slen_def)
  have "list_all2 (rel_option part_elided) (ct_Parts c) ((ct_Parts c)[ca_part ca := Some (elide_part (ca_kind ca) p)])"
    using e(2,3) by (auto simp: list_all2_conv_all_nth nth_list_update elide_part_elided intro: option.rel_refl)
  then have d: "content_elided c ?d" by (auto simp: content_elided_def)
  have "take 1 (elide_at ca cs) = take 1 cs" "drop ?m (elide_at ca cs) = drop ?m cs"
    using i by (simp_all add: e(5) take_update_cancel drop_update_cancel)
  moreover have "shrunk (drop 1 (take ?m cs)) (drop 1 (take ?m (elide_at ca cs)))"
    using i e(1,4) d by (intro list_all2_shrunk)
      (auto simp: list_all2_conv_all_nth e(5) nth_list_update intro: option.rel_refl)
  moreover have "middle_end keep (elide_at ca cs) = ?m" by (simp add: middle_end_def)
  ultimately show ?thesis using frame_split [of "elide_at ca cs" keep] by (auto simp: framed_def)
qed

lemma framed_drop:
  assumes "tn_start g < tn_end g" "tn_end g < length cs" "droppable cs keep 0 preserved g"
  shows "framed keep cs (drop_turn g cs)"
proof -
  let ?s = "tn_start g" and ?e = "tn_end g" and ?m = "middle_end keep cs"
  have b: "1 \<le> ?s" "?e \<le> ?m" using assms by (auto simp: droppable_def middle_end_def slen_def)
  define A T B R where "A = take ?s cs" and "T = drop ?s (take ?e cs)" and "B = drop ?e (take ?m cs)" and "R = drop ?m cs"
  have te: "take ?e cs = A @ T"
    using assms(1) append_take_drop_id [of ?s "take ?e cs"] by (simp add: A_def T_def min_def)
  have tm: "take ?m cs = A @ T @ B"
    using b(2) append_take_drop_id [of ?e "take ?m cs"] te by (simp add: B_def min_def)
  have cs: "cs = A @ T @ B @ R"
    using append_take_drop_id [of ?m cs] tm by (simp add: R_def)
  have len: "length A = ?s" using assms(1,2) by (simp add: A_def)
  have "length (A @ T) = ?e" unfolding te [symmetric] using assms(2) by simp
  then have len2: "length A + length T = ?e" by simp
  have "drop_turn g cs = A @ B @ R" 
    unfolding drop_turn_def by (subst (1 2) cs) (simp add: len [symmetric] len2 [symmetric])
  moreover have "A = take 1 cs @ drop 1 A"
    using b(1) len append_take_drop_id [of 1 A] by (subst cs) simp
  moreover have "shrunk (drop 1 (take ?m cs)) (drop 1 A @ B)"
  proof -
    have "drop 1 (take ?m cs) = drop 1 A @ T @ B" unfolding tm using b(1) len by simp
    moreover have "shrunk (T @ B) B"
      using shrunk_refl [of B] unfolding shrunk_def by (rule list_emb_append2)
    ultimately show ?thesis
      using shrunk_refl [of "drop 1 A"] unfolding shrunk_def by (simp add: list_emb_append_mono)
  qed
  ultimately show ?thesis unfolding framed_def R_def [symmetric]
    by (intro exI [of _ "drop 1 A @ B"]) (metis append.assoc)
qed

lemma run_framed: "compaction_run keep preserved cs cs' \<Longrightarrow> framed keep cs cs'"
  by (induction rule: rtranclp_induct)
    (auto intro: framed_refl framed_trans framed_elide framed_drop elim!: compaction_stepE)


section \<open>Preserved tools\<close>

definition all_parts :: "('v, 'x) contents \<Rightarrow> ('v, 'x) part option list" where
  "all_parts cs = concat (map content_parts cs)"

definition preserved_parts :: "go_string set \<Rightarrow> ('v, 'x) contents \<Rightarrow> ('v, 'x) part option list" where
  "preserved_parts preserved cs = filter (partContainsPreservedTool preserved) (all_parts cs)"

text \<open>A part is one of a call, a response, or neither.\<close>

definition one_kind :: "('v, 'x) part option \<Rightarrow> bool" where
  "one_kind part \<longleftrightarrow> length (part_items part) \<le> 1"

lemma all_parts_split:
  assumes "i < length cs"
  shows "all_parts (cs[i := x]) = all_parts (take i cs) @ content_parts x @ all_parts (drop (i + 1) cs)"
    "all_parts cs = all_parts (take i cs) @ content_parts (cs ! i) @ all_parts (drop (i + 1) cs)"
  using assms id_take_nth_drop [OF assms] by (simp_all add: all_parts_def upd_conv_take_nth_drop) (metis concat_append list.simps(9) map_append concat.simps(2))

lemma elide_all_parts:
  assumes "candidate_ok keep cs ca"
  obtains us p vs where "all_parts cs = us @ Some p # vs" "response_name (ca_kind ca) p = Some (ca_name ca)"
    "all_parts (elide_at ca cs) = us @ Some (elide_part (ca_kind ca) p) # vs"
proof -
  obtain c p where e: "cs ! ca_content ca = Some c" "ct_Parts c ! ca_part ca = Some p" "ca_part ca < length (ct_Parts c)"
    "response_name (ca_kind ca) p = Some (ca_name ca)" "ca_content ca < length cs"
    "elide_at ca cs = cs[ca_content ca := Some (c\<lparr>ct_Parts := (ct_Parts c)[ca_part ca := Some (elide_part (ca_kind ca) p)]\<rparr>)]"
    by (rule elide_at_simps [OF assms])
  let ?i = "ca_content ca" and ?j = "ca_part ca"
  have "ct_Parts c = take ?j (ct_Parts c) @ Some p # drop (?j + 1) (ct_Parts c)"
    using id_take_nth_drop [OF e(3)] e(2) by simp
  moreover have "(ct_Parts c)[?j := x] = take ?j (ct_Parts c) @ x # drop (?j + 1) (ct_Parts c)" for x
    using e(3) by (simp add: upd_conv_take_nth_drop)
  ultimately show ?thesis
    using all_parts_split [OF e(5)] e
    by (intro that [of "all_parts (take ?i cs) @ take ?j (ct_Parts c)" p "drop (?j + 1) (ct_Parts c) @ all_parts (drop (?i + 1) cs)"])
      (simp_all add: content_parts_def)
qed

lemma drop_all_parts:
  assumes "tn_start g < tn_end g" "tn_end g < length cs"
  shows "all_parts cs = all_parts (take (tn_start g) cs) @ all_parts (drop (tn_start g) (take (tn_end g) cs)) @ all_parts (drop (tn_end g) cs)"
    "all_parts (drop_turn g cs) = all_parts (take (tn_start g) cs) @ all_parts (drop (tn_end g) cs)"
proof -
  let ?s = "tn_start g" and ?e = "tn_end g"
  have "cs = take ?s cs @ drop ?s (take ?e cs) @ drop ?e cs"
  proof -
    have "take ?e cs = take ?s cs @ drop ?s (take ?e cs)" using assms(1) append_take_drop_id [of ?s "take ?e cs"] by (simp add: min_def)
    then show ?thesis using append_take_drop_id [of ?e cs] by (metis append.assoc)
  qed
  then have "map content_parts cs = map content_parts (take ?s cs) @ map content_parts (drop ?s (take ?e cs)) @ map content_parts (drop ?e cs)"
    by (metis map_append)
  then show "all_parts cs = all_parts (take ?s cs) @ all_parts (drop ?s (take ?e cs)) @ all_parts (drop ?e cs)"
    unfolding all_parts_def by simp
qed (simp add: all_parts_def drop_turn_def)

lemma elide_keeps_items [simp]: "part_items (Some (elide_part k p)) = part_items (Some p)"
  by (cases k) (auto simp: part_items_def elide_part_def elide_function_def elide_tool_def split: option.split)

lemma one_kind_preserved:
  assumes "one_kind (Some p)" "response_name k p = Some n" "n \<notin> preserved"
  shows "\<not> partContainsPreservedTool preserved (Some p)"
  using assms by (cases k) (auto simp: one_kind_def part_items_def response_name_def partContainsPreservedTool_def split: option.splits)

lemma compaction_step_cases:
  assumes "compaction_step keep preserved cs cs'"
  obtains (elide) ca where "cs' = elide_at ca cs" "candidate_ok keep cs ca" "ca_name ca \<notin> preserved"
  | (drop_one) g where "cs' = drop_turn g cs" "tn_start g < tn_end g" "tn_end g < length cs" "droppable cs keep 0 preserved g"
  using assms by (rule compaction_stepE)

lemma step_preserves:
  assumes "compaction_step keep preserved cs cs'" "\<forall>p \<in> set (all_parts cs). one_kind p"
  shows "preserved_parts preserved cs' = preserved_parts preserved cs \<and> (\<forall>p \<in> set (all_parts cs'). one_kind p)"
  using assms(1)
proof (cases rule: compaction_step_cases)
  case (elide ca)
  obtain us p vs where e: "all_parts cs = us @ Some p # vs" "response_name (ca_kind ca) p = Some (ca_name ca)"
    "all_parts cs' = us @ Some (elide_part (ca_kind ca) p) # vs"
    unfolding elide(1) by (rule elide_all_parts [OF elide(2)])
  have "one_kind (Some p)" using assms(2) e(1) by simp
  then have "one_kind (Some (elide_part (ca_kind ca) p))" by (simp add: one_kind_def)
  then show ?thesis
    using e assms(2) elide(3) one_kind_preserved [of p "ca_kind ca"] one_kind_preserved [of "elide_part (ca_kind ca) p" "ca_kind ca"]
    by (simp add: preserved_parts_def)
next
  case (drop_one g)
  have "\<not> turnContainsPreservedTool preserved (drop (tn_start g) (take (tn_end g) cs))" using drop_one(4) by (simp add: droppable_def)
  then have "filter (partContainsPreservedTool preserved) (all_parts (drop (tn_start g) (take (tn_end g) cs))) = []"
    by (auto simp: turnContainsPreservedTool_def list_ex_iff all_parts_def filter_empty_conv)
  then show ?thesis
    using drop_all_parts [OF drop_one(2,3)] assms(2) unfolding drop_one(1) preserved_parts_def by auto
qed

lemma run_preserves:
  "compaction_run keep preserved cs cs' \<Longrightarrow> \<forall>p \<in> set (all_parts cs). one_kind p \<Longrightarrow>
    preserved_parts preserved cs' = preserved_parts preserved cs \<and> (\<forall>p \<in> set (all_parts cs'). one_kind p)"
  by (induction rule: rtranclp_induct) (auto dest: step_preserves)

section \<open>Calls stay with their responses\<close>

fun item_id :: "pair_item \<Rightarrow> go_string" where
  "item_id (PairItem side rid qualified) = rid"

fun item_is_call :: "pair_item \<Rightarrow> bool" where
  "item_is_call (PairItem side rid qualified) \<longleftrightarrow> side = PairCall"

definition all_items :: "('v, 'x) contents \<Rightarrow> pair_item list" where
  "all_items cs = concat (map part_items (all_parts cs))"

definition items_of :: "go_string \<Rightarrow> ('v, 'x) contents \<Rightarrow> pair_item list" where
  "items_of rid cs = filter (\<lambda>it. item_id it = rid) (all_items cs)"

text \<open>The items with the index of their content.\<close>

fun indexed_items :: "nat \<Rightarrow> ('v, 'x) contents \<Rightarrow> (nat \<times> pair_item) list" where
  "indexed_items i [] = []"
| "indexed_items i (c # cs) = map (Pair i) (concat (map part_items (content_parts c))) @ indexed_items (i + 1) cs"

lemma fold_parts: "foldl (recordPartLocations i) s ps = foldl (\<lambda>s (i, it). record_item i s it) s (map (Pair i) (concat (map part_items ps)))"
proof (induction ps arbitrary: s)
  case (Cons p ps)
  have "foldl (record_item i) s its = foldl (\<lambda>s (i, it). record_item i s it) s (map (Pair i) its)" for its s
    by (induction its arbitrary: s) simp_all
  then show ?case using Cons by (simp add: recordPartLocations_def)
qed simp

lemma pair_locations_fold: "pair_locations_from i s cs = foldl (\<lambda>s (i, it). record_item i s it) s (indexed_items i cs)"
  by (induction i s cs rule: pair_locations_from.induct) (simp_all add: fold_parts)

definition lookup_pair :: "pair_map \<Rightarrow> go_string \<Rightarrow> pairLocations" where
  "lookup_pair m k = (case map_of m k of None \<Rightarrow> \<lparr>pl_calls = [], pl_responses = []\<rparr> | Some l \<Rightarrow> l)"

lemma lookup_record:
  "lookup_pair (recordPairLocation m key i side) k =
    (let l = lookup_pair m k in if k \<noteq> key then l
     else case side of PairCall \<Rightarrow> l\<lparr>pl_calls := pl_calls l @ [i]\<rparr> | PairResponse \<Rightarrow> l\<lparr>pl_responses := pl_responses l @ [i]\<rparr>)"
  by (cases "k = key"; cases side) (simp_all add: lookup_pair_def recordPairLocation_def Let_def)

definition id_key :: "go_string \<Rightarrow> go_string" where
  "id_key rid = ''id:'' @ rid"

lemma occurrence_key_id: "rid \<noteq> [] \<Longrightarrow> id_key rid = fst (occurrencePairKey r q occ) \<longleftrightarrow> r = rid"
  by (auto simp: occurrencePairKey_def id_key_def Let_def)

lemma lookup_item:
  assumes "rid \<noteq> []"
  shows "lookup_pair (ps_all (record_item i s it)) (id_key rid) =
    (let l = lookup_pair (ps_all s) (id_key rid)
     in if item_id it \<noteq> rid then l
        else if item_is_call it then l\<lparr>pl_calls := pl_calls l @ [i]\<rparr> else l\<lparr>pl_responses := pl_responses l @ [i]\<rparr>)"
proof (cases it)
  case (PairItem side r q)
  show ?thesis unfolding PairItem
    by (cases side) (simp_all add: lookup_record case_prod_unfold Let_def occurrence_key_id [OF assms])
qed

lemma lookup_fold:
  assumes "rid \<noteq> []"
  shows "lookup_pair (ps_all (foldl (\<lambda>s (i, it). record_item i s it) s xs)) (id_key rid) =
    (let l = lookup_pair (ps_all s) (id_key rid); mine = filter (\<lambda>x. item_id (snd x) = rid) xs
     in l\<lparr>pl_calls := pl_calls l @ map fst (filter (\<lambda>x. item_is_call (snd x)) mine),
          pl_responses := pl_responses l @ map fst (filter (\<lambda>x. \<not> item_is_call (snd x)) mine)\<rparr>)"
proof (induction xs arbitrary: s)
  case (Cons x xs)
  obtain i it where x: "x = (i, it)" by fastforce
  show ?case unfolding x foldl_Cons using Cons by (simp add: lookup_item [OF assms] Let_def)
qed simp

lemma pair_contained:
  assumes "rid \<noteq> []" "pairsContained cs s e"
  defines "mine \<equiv> filter (\<lambda>x. item_id (snd x) = rid) (indexed_items 0 cs)"
  shows "(\<forall>x \<in> set mine. \<not> (s \<le> fst x \<and> fst x < e)) \<or>
    ((\<forall>x \<in> set mine. s \<le> fst x \<and> fst x < e) \<and>
     length (filter (\<lambda>x. item_is_call (snd x)) mine) = length (filter (\<lambda>x. \<not> item_is_call (snd x)) mine))"
proof -
  define l where "l = lookup_pair (collectPairLocations cs) (id_key rid)"
  have l: "pl_calls l = map fst (filter (\<lambda>x. item_is_call (snd x)) mine)"
    "pl_responses l = map fst (filter (\<lambda>x. \<not> item_is_call (snd x)) mine)"
    using lookup_fold [OF assms(1), of "\<lparr>ps_all = [], ps_calls = [], ps_responses = []\<rparr>" "indexed_items 0 cs"]
    by (simp_all add: l_def collectPairLocations_def pair_locations_fold mine_def Let_def lookup_pair_def)
  have "pairContainedInRange l s e"
  proof (cases "map_of (collectPairLocations cs) (id_key rid)")
    case None
    then show ?thesis by (simp add: l_def lookup_pair_def pairContainedInRange_def anyInside_def)
  next
    case (Some l')
    then have "(id_key rid, l') \<in> set (collectPairLocations cs)" by (rule map_of_SomeD)
    then show ?thesis using assms(2) Some by (auto simp: pairsContained_def list_all_iff l_def lookup_pair_def)
  qed
  moreover define C R where "C = filter (\<lambda>x. item_is_call (snd x)) mine" and "R = filter (\<lambda>x. \<not> item_is_call (snd x)) mine"
  ultimately have "(\<forall>x \<in> set C. \<not> (s \<le> fst x \<and> fst x < e)) \<and> (\<forall>x \<in> set R. \<not> (s \<le> fst x \<and> fst x < e)) \<or>
      length C = length R \<and> (\<forall>x \<in> set C. s \<le> fst x \<and> fst x < e) \<and> (\<forall>x \<in> set R. s \<le> fst x \<and> fst x < e)"
    using l unfolding pairContainedInRange_def anyInside_def allInside_def list_ex_iff list_all_iff by auto
  moreover have "x \<in> set mine \<longleftrightarrow> x \<in> set C \<or> x \<in> set R" for x by (auto simp: C_def R_def)
  ultimately show ?thesis unfolding C_def [symmetric] R_def [symmetric] by blast
qed

lemma indexed_items_append: "indexed_items i (xs @ ys) = indexed_items i xs @ indexed_items (i + length xs) ys"
  by (induction i xs rule: indexed_items.induct) (simp_all add: add.commute add.left_commute)

lemma indexed_items_range: "x \<in> set (indexed_items i cs) \<Longrightarrow> i \<le> fst x \<and> fst x < i + length cs"
  by (induction i cs rule: indexed_items.induct) auto

lemma indexed_items_all: "map snd (indexed_items i cs) = all_items cs"
  by (induction i cs rule: indexed_items.induct) (simp_all add: all_items_def all_parts_def comp_def)

lemma items_of_indexed: "items_of rid cs = map snd (filter (\<lambda>x. item_id (snd x) = rid) (indexed_items i cs))"
  unfolding items_of_def indexed_items_all [of i cs, symmetric] by (simp add: filter_map comp_def)

lemma no_members: "(\<And>x. x \<in> set xs \<Longrightarrow> P x) \<Longrightarrow> (\<And>x. x \<in> set xs \<Longrightarrow> \<not> P x) \<Longrightarrow> xs = []"
  by (cases xs) auto

lemma items_of_append: "items_of rid (xs @ ys) = items_of rid xs @ items_of rid ys"
  by (simp add: items_of_def all_items_def all_parts_def)

text \<open>The calls and responses with an identifier are all kept, or all dropped together with as many of one as of the other.\<close>

definition together :: "go_string \<Rightarrow> ('v, 'x) contents \<Rightarrow> ('v, 'x) contents \<Rightarrow> bool" where
  "together rid cs cs' \<longleftrightarrow> items_of rid cs' = items_of rid cs \<or>
     items_of rid cs' = [] \<and>
     length (filter item_is_call (items_of rid cs)) = length (filter (\<lambda>it. \<not> item_is_call it) (items_of rid cs))"

lemma step_together:
  assumes "compaction_step keep preserved cs cs'" "rid \<noteq> []"
  shows "together rid cs cs'"
  using assms(1)
proof (cases rule: compaction_step_cases)
  case (elide ca)
  obtain us p vs where e: "all_parts cs = us @ Some p # vs" "all_parts cs' = us @ Some (elide_part (ca_kind ca) p) # vs"
    unfolding elide(1) by (rule elide_all_parts [OF elide(2)])
  then show ?thesis by (simp add: together_def items_of_def all_items_def)
next
  case (drop_one g)
  let ?s = "tn_start g" and ?e = "tn_end g"
  let ?mine = "\<lambda>i cs. filter (\<lambda>x. item_id (snd x) = rid) (indexed_items i cs)"
  define A T B where "A = take ?s cs" and "T = drop ?s (take ?e cs)" and "B = drop ?e cs"
  have len: "length A = ?s" "length T = ?e - ?s" using drop_one(2,3) by (simp_all add: A_def T_def)
  have cs: "cs = A @ T @ B"
  proof -
    have "take ?e cs = A @ T" using drop_one(2) append_take_drop_id [of ?s "take ?e cs"] by (simp add: A_def T_def min_def)
    then show ?thesis using append_take_drop_id [of ?e cs] by (simp add: B_def)
  qed
  have cs': "cs' = A @ B" using drop_one(1) by (simp add: drop_turn_def A_def B_def)
  have mine: "?mine 0 cs = ?mine 0 A @ ?mine ?s T @ ?mine ?e B"
    unfolding cs indexed_items_append using len drop_one(2) by simp
  have inside: "x \<in> set (?mine ?s T) \<Longrightarrow> ?s \<le> fst x \<and> fst x < ?e" for x
    using indexed_items_range [of x ?s T] len(2) drop_one(2) by auto
  have outside: "x \<in> set (?mine 0 A @ ?mine ?e B) \<Longrightarrow> \<not> (?s \<le> fst x \<and> fst x < ?e)" for x
    using indexed_items_range [of x 0 A] indexed_items_range [of x ?e B] len(1) by auto
  have new: "items_of rid cs' = map snd (?mine 0 A @ ?mine ?e B)"
    unfolding cs' items_of_append items_of_indexed [of rid A 0] items_of_indexed [of rid B ?e] by simp
  have old: "items_of rid cs = map snd (?mine 0 cs)" by (rule items_of_indexed)
  have "pairsContained cs ?s ?e" using drop_one(4) by (simp add: droppable_def)
  from pair_contained [OF assms(2) this] show ?thesis
  proof (elim disjE conjE)
    assume "\<forall>x \<in> set (?mine 0 cs). \<not> (?s \<le> fst x \<and> fst x < ?e)"
    then have out: "\<And>x. x \<in> set (?mine ?s T) \<Longrightarrow> \<not> (?s \<le> fst x \<and> fst x < ?e)" unfolding mine by simp
    have "?mine ?s T = []" by (rule no_members [OF inside out])
    then show ?thesis unfolding together_def new old mine by simp
  next
    assume "\<forall>x \<in> set (?mine 0 cs). ?s \<le> fst x \<and> fst x < ?e"
      and bal: "length (filter (\<lambda>x. item_is_call (snd x)) (?mine 0 cs)) = length (filter (\<lambda>x. \<not> item_is_call (snd x)) (?mine 0 cs))"
    then have into: "\<And>x. x \<in> set (?mine 0 A @ ?mine ?e B) \<Longrightarrow> ?s \<le> fst x \<and> fst x < ?e" unfolding mine by auto
    have "?mine 0 A @ ?mine ?e B = []" by (rule no_members [OF into outside])
    then show ?thesis using bal unfolding together_def new old
      by (simp add: filter_map comp_def del: filter_filter)
  qed
qed

lemma together_trans: "together rid a b \<Longrightarrow> together rid b c \<Longrightarrow> together rid a c"
  by (auto simp: together_def)

lemma run_together: "compaction_run keep preserved cs cs' \<Longrightarrow> rid \<noteq> [] \<Longrightarrow> together rid cs cs'"
  by (induction rule: rtranclp_induct) (auto intro: together_trans dest: step_together simp: together_def [of rid cs cs])

end
