(* ===== verification/Compaction_Results.thy ===== *)
theory Compaction_Results
  imports Compaction_Safety
begin

text \<open>
  What one call of the policy does to a request, over the steps of \<open>Compaction_Steps\<close> and the safety
  lemmas of \<open>Compaction_Safety\<close>.
\<close>

section \<open>The whole policy\<close>

lemma elide_responses_run:
  assumes "elideResponses plat sha canon policy ds rq cs current factor target preserved = (ds', Some (cs', e', changed'))"
  shows "compaction_run (cp_KeepRecentContents policy) preserved cs cs'"
proof -
  obtain cands where c: "eligibleResponseCandidates sha canon cs (cp_KeepRecentContents policy) = Some cands"
    "elide_loop plat canon policy rq factor target preserved cands ds cs current False = (ds', Some (cs', e', changed'))"
    using assms by (auto simp: elideResponses_def split: option.splits)
  then show ?thesis using elide_loop_run [OF c(2)] eligible_candidates_ok [OF c(1)] by blast
qed

lemma applyPolicy_run:
  assumes "applyPolicy plat sha canon policy state rq = (res, state', rq')"
  shows "compaction_run (cp_KeepRecentContents policy) (preservedToolNames (cp_PreserveToolNames policy)) (rq_Contents rq) (rq_Contents rq') \<and>
    rq' = with_contents rq (rq_Contents rq')"
  using assms
proof (cases rule: applyPolicy_cases)
  case (replayed e0 changed0 cs0 e)
  then show ?thesis using sticky_state_run [OF replayed(4)] by simp
next
  case (compacted e0 changed0 cs0 e1 ds1 cs1 e2 changed1 ds2 cs2 e changed2)
  have "compaction_run (cp_KeepRecentContents policy) (preservedToolNames (cp_PreserveToolNames policy)) (rq_Contents rq) cs2"
    using sticky_state_run [OF compacted(4)] elide_responses_run [OF compacted(6)] drop_loop_run [OF compacted(7)]
    by (meson rtranclp_trans)
  then show ?thesis using compacted(8) by simp
qed simp_all

lemma sticky_drops_unchanged:
  "sticky_drops sha canon keep preserved remaining cs changed = Some (changed', cs') \<Longrightarrow>
    (changed \<longrightarrow> changed') \<and> (\<not> changed' \<longrightarrow> cs' = cs)"
proof (induction sha canon keep preserved remaining cs changed rule: sticky_drops.induct)
  case (1 sha canon keep preserved remaining cs changed)
  show ?case
  proof (cases "remaining = [] \<or> (\<exists>groups. completeTurns sha canon cs = Some groups \<and> find_sticky cs groups keep 0 preserved remaining = None)")
    case True
    then show ?thesis using "1.prems" by (auto simp: sticky_drops.simps [of _ _ _ _ remaining cs] split: if_splits)
  next
    case False
    then obtain groups g where g: "completeTurns sha canon cs = Some groups" "find_sticky cs groups keep 0 preserved remaining = Some g"
      using "1.prems" by (cases "completeTurns sha canon cs") (auto simp: sticky_drops.simps [of _ _ _ _ remaining cs])
    then show ?thesis using "1.IH" [OF _ g refl refl] "1.prems" False
      by (simp add: sticky_drops.simps [of _ _ _ _ remaining cs] Let_def)
  qed
qed

lemma sticky_elisions_unchanged:
  "sticky_elisions canon rq preserved cands remaining current cs changed = Some (changed', cs') \<Longrightarrow>
    (changed \<longrightarrow> changed') \<and> (\<not> changed' \<longrightarrow> cs' = cs)"
proof (induction canon rq preserved cands remaining current cs changed rule: sticky_elisions.induct)
  case (2 canon rq preserved ca rest remaining current cs changed)
  show ?case
  proof (cases "ca_name ca \<in> preserved \<or> zget remaining (ca_key ca) = 0")
    case True
    then show ?thesis using "2.IH"(1) [OF True] "2.prems" by simp
  next
    case False
    then obtain next' where n: "EstimateRequest canon (with_contents rq (elide_at ca cs)) = Some next'"
      using "2.prems" by (auto simp: Let_def split: option.splits)
    show ?thesis
    proof (cases "es_Tokens next' \<ge> es_Tokens current")
      case True
      then show ?thesis using "2.IH"(2) [OF False refl n True] "2.prems" False n by (simp add: Let_def)
    next
      case less: False
      then show ?thesis using "2.IH"(3) [OF False refl n less] "2.prems" False n by (simp add: Let_def)
    qed
  qed
qed simp

lemma sticky_state_estimate:
  assumes "applyStickyState sha canon policy ds rq cs current preserved sticky = Some (changed, cs', e)"
    and "EstimateRequest canon (with_contents rq cs) = Some current"
  shows "EstimateRequest canon (with_contents rq cs') = Some e \<and> (\<not> changed \<longrightarrow> cs' = cs)"
proof (cases sticky)
  case True
  obtain d cs1 where a: "applyStickyDrops sha canon cs (du_DroppedTurns ds) (cp_KeepRecentContents policy) preserved = Some (d, cs1)"
    using assms(1) True by (cases "applyStickyDrops sha canon cs (du_DroppedTurns ds) (cp_KeepRecentContents policy) preserved")
      (auto simp: applyStickyState_def)
  obtain el cs2 where b: "applyStickyElisions sha canon rq cs1 (du_ElidedResponses ds) (cp_KeepRecentContents policy) preserved = Some (el, cs2)"
    using assms(1) True a by (cases "applyStickyElisions sha canon rq cs1 (du_ElidedResponses ds) (cp_KeepRecentContents policy) preserved")
      (auto simp: applyStickyState_def)
  have "changed = (d \<or> el)" "cs' = cs2" "EstimateRequest canon (with_contents rq cs') = Some e"
    using assms(1) True a b by (auto simp: applyStickyState_def)
  moreover have "\<not> d \<longrightarrow> cs1 = cs" using a by (auto simp: applyStickyDrops_def dest: sticky_drops_unchanged)
  moreover have "\<not> el \<longrightarrow> cs2 = cs1" using b
    by (auto simp: applyStickyElisions_def split: option.splits dest: sticky_elisions_unchanged)
  ultimately show ?thesis by auto
qed (use assms in \<open>simp add: applyStickyState_def\<close>)

lemma elide_loop_estimate:
  "elide_loop plat canon policy rq factor target preserved cands ds cs current changed = (ds', Some (cs', e', changed')) \<Longrightarrow>
    EstimateRequest canon (with_contents rq cs) = Some current \<Longrightarrow>
    EstimateRequest canon (with_contents rq cs') = Some e' \<and> (changed \<longrightarrow> changed') \<and> (\<not> changed' \<longrightarrow> cs' = cs)"
proof (induction plat canon policy rq factor target preserved cands ds cs current changed rule: elide_loop.induct)
  case (2 plat canon policy rq factor target preserved ca rest ds cs current changed)
  show ?case
  proof (cases "calibratedTokens plat (es_Tokens current) factor \<le> target")
    case True
    then show ?thesis using "2.prems" by simp
  next
    case over: False
    show ?thesis
    proof (cases "ca_name ca \<in> preserved \<or> ca_bodyTokens ca < cp_MinimumElisionTokens policy")
      case True
      then show ?thesis using "2.IH"(1) [OF over True] "2.prems" over by simp
    next
      case False
      then obtain next' where n: "EstimateRequest canon (with_contents rq (elide_at ca cs)) = Some next'"
        using "2.prems"(1) over by (auto simp: Let_def split: option.splits)
      show ?thesis
      proof (cases "es_Tokens next' \<ge> es_Tokens current")
        case True
        then show ?thesis using "2.IH"(2) [OF over False refl n True] "2.prems" over False n by (simp add: Let_def)
      next
        case less: False
        then show ?thesis using "2.IH"(3) [OF over False refl n less] "2.prems" over False n by (simp add: Let_def)
      qed
    qed
  qed
qed simp

lemma drop_loop_estimate:
  "dropCompleteTurns plat sha canon policy rq factor target preserved ds cs current changed = (ds', Some (cs', e', changed')) \<Longrightarrow>
    EstimateRequest canon (with_contents rq cs) = Some current \<Longrightarrow>
    EstimateRequest canon (with_contents rq cs') = Some e' \<and> (changed \<longrightarrow> changed') \<and> (\<not> changed' \<longrightarrow> cs' = cs) \<and>
    (calibratedTokens plat (es_Tokens e') factor \<le> target \<or>
     (\<exists>groups. completeTurns sha canon cs' = Some groups \<and> firstDroppableTurn cs' groups (cp_KeepRecentContents policy) preserved = None))"
proof (induction plat sha canon policy rq factor target preserved ds cs current changed rule: dropCompleteTurns.induct)
  case (1 plat sha canon policy rq factor target preserved ds cs current changed)
  note d = "1.prems"(1) [unfolded dropCompleteTurns.simps [of plat sha canon policy rq factor target preserved ds cs]]
  show ?case
  proof (cases "calibratedTokens plat (es_Tokens current) factor \<le> target")
    case True
    then show ?thesis using d "1.prems"(2) by simp
  next
    case over: False
    then obtain groups where gs: "completeTurns sha canon cs = Some groups" using d by (auto split: option.splits)
    show ?thesis
    proof (cases "firstDroppableTurn cs groups (cp_KeepRecentContents policy) preserved")
      case None
      then show ?thesis using d over gs "1.prems"(2) by auto
    next
      case (Some g)
      then obtain next' where n: "EstimateRequest canon (with_contents rq (drop_turn g cs)) = Some next'"
        using d over gs by (auto split: option.splits)
      then show ?thesis using "1.IH" [OF over gs Some n] d over gs Some by simp
    qed
  qed
qed

text \<open>C30: Compacting never touches the ends of a conversation: the first content and the configured number of recent
  contents are returned as they came, and between them contents are only left out or have the bodies of responses
  replaced by the elision marker. Nothing else of the request changes.\<close>

theorem compacted_conversation:
  assumes "applyPolicy plat sha canon policy state rq = (res, state', rq')"
  shows "rq' = rq\<lparr>rq_Contents := rq_Contents rq'\<rparr> \<and>
    (let cs = rq_Contents rq; recent = max 1 (length cs - nat (cp_KeepRecentContents policy))
     in \<exists>mid. rq_Contents rq' = take 1 cs @ mid @ drop recent cs \<and> shrunk (drop 1 (take recent cs)) mid)"
  using applyPolicy_run [OF assms, THEN conjunct2] run_framed [OF applyPolicy_run [OF assms, THEN conjunct1]]
  unfolding framed_def middle_end_def Let_def by (rule conjI)

text \<open>C31: A compacted conversation has no orphans: for every identifier, either all its calls and responses are still
  there in their order, or all were dropped, and then there were as many calls as responses.\<close>

theorem compaction_keeps_pairs:
  assumes "applyPolicy plat sha canon policy state rq = (res, state', rq')" and "rid \<noteq> []"
  shows "items_of rid (rq_Contents rq') = items_of rid (rq_Contents rq) \<or>
    items_of rid (rq_Contents rq') = [] \<and>
    length (filter item_is_call (items_of rid (rq_Contents rq))) = length (filter (\<lambda>it. \<not> item_is_call it) (items_of rid (rq_Contents rq)))"
  using run_together [OF applyPolicy_run [OF assms(1), THEN conjunct1] assms(2)] by (simp add: together_def)


text \<open>C33: The reported estimate is that of the request that is sent. A call that does not trigger leaves it below
  the trigger; one that triggers reaches the target, or reports that it is exhausted, and then no further turn can be
  dropped.\<close>

theorem compaction_reaches_target:
  assumes "applyPolicy plat sha canon policy state rq = (Some res, state', rq')"
  defines "calibrated \<equiv> calibratedTokens plat (es_Tokens (pr_Estimate res))
    (calibrationFactor (cp_Calibration policy) (du_Calibration (normalizeDurableState state)))"
  shows "EstimateRequest canon rq' = Some (pr_Estimate res) \<and>
    (\<not> pr_Triggered res \<longrightarrow> calibrated < fraction_tokens plat (cp_ContextTokens policy) (cp_TriggerFraction policy)) \<and>
    (pr_Triggered res \<longrightarrow> (if pr_Exhausted res
       then (\<exists>groups. completeTurns sha canon (rq_Contents rq') = Some groups \<and>
          firstDroppableTurn (rq_Contents rq') groups (cp_KeepRecentContents policy) (set (cp_PreserveToolNames policy)) = None)
       else calibrated \<le> fraction_tokens plat (cp_ContextTokens policy) (cp_TargetFraction policy)))"
  using assms(1)
proof (cases rule: applyPolicy_cases)
  case (idle e)
  then show ?thesis by (simp add: calibrated_def)
next
  case (replayed e0 changed0 cs0 e)
  then show ?thesis using sticky_state_estimate [OF replayed(4)] by (cases changed0) (auto simp: calibrated_def)
next
  case (compacted e0 changed0 cs0 e1 ds1 cs1 e2 changed1 ds2 cs2 e changed2)
  have 0: "EstimateRequest canon (with_contents rq cs0) = Some e1" "\<not> changed0 \<longrightarrow> cs0 = rq_Contents rq"
    using sticky_state_estimate [OF compacted(4)] compacted(3) by simp_all
  have 1: "EstimateRequest canon (with_contents rq cs1) = Some e2" "\<not> changed1 \<longrightarrow> cs1 = cs0"
    using compacted(6) elide_loop_estimate [OF _ 0(1)] by (auto simp: elideResponses_def split: option.splits)
  note 2 = drop_loop_estimate [OF compacted(7) 1(1)]
  have "rq' = with_contents rq cs2" using compacted(8) 0(2) 1(2) 2 by auto
  then show ?thesis using 2 compacted(1) by (auto simp: calibrated_def preservedToolNames_def)
qed simp

text \<open>An error of the estimation leaves the request as it was. So does a call below the trigger when nothing was
  recorded before, and it leaves the durable state as it was, up to the defaults for unset fields.\<close>

theorem compaction_failure_and_idle:
  assumes "applyPolicy plat sha canon policy state rq = (res, state', rq')"
  defines "ds \<equiv> normalizeDurableState state"
  shows "(res = None \<longrightarrow> rq' = rq) \<and>
    (EstimateRequest canon rq = Some e \<longrightarrow> du_DroppedTurns state = [] \<longrightarrow> du_ElidedResponses state = [] \<longrightarrow>
      calibratedTokens plat (es_Tokens e) (calibrationFactor (cp_Calibration policy) (du_Calibration ds)) <
        fraction_tokens plat (cp_ContextTokens policy) (cp_TriggerFraction policy) \<longrightarrow>
      res = Some \<lparr>pr_Estimate = e, pr_Triggered = False, pr_Exhausted = False, pr_StateChanged = False\<rparr> \<and> state' = ds \<and> rq' = rq)"
proof -
  have "res = None \<Longrightarrow> rq' = rq" using assms(1) by (cases rule: applyPolicy_cases) simp_all
  moreover have "du_DroppedTurns ds = du_DroppedTurns state" "du_ElidedResponses ds = du_ElidedResponses state"
    by (simp_all add: ds_def normalizeDurableState_def)
  ultimately show ?thesis using assms(1) by (auto simp: applyPolicy_def Let_def ds_def)
qed

lemma blank_elide [simp]: "blank_response_part (elide_part k p) = blank_response_part p"
  by (cases k) (simp_all add: blank_response_part_def elide_part_def elide_function_def elide_tool_def option.map_comp comp_def)

lemma no_response_elide [simp]:
  "p_FunctionResponse (elide_part k p) = None \<longleftrightarrow> p_FunctionResponse p = None"
  "p_ToolResponse (elide_part k p) = None \<longleftrightarrow> p_ToolResponse p = None"
  by (cases k; simp add: elide_part_def)+

lemma elided_parts_same:
  assumes "rel_option part_elided p q"
  shows "map_option blank_response_part q = map_option blank_response_part p"
    "(case q of None \<Rightarrow> True | Some x \<Rightarrow> p_FunctionResponse x = None \<and> p_ToolResponse x = None) =
     (case p of None \<Rightarrow> True | Some x \<Rightarrow> p_FunctionResponse x = None \<and> p_ToolResponse x = None)"
proof -
  have "map_option blank_response_part q = map_option blank_response_part p \<and>
    (case q of None \<Rightarrow> True | Some x \<Rightarrow> p_FunctionResponse x = None \<and> p_ToolResponse x = None) =
    (case p of None \<Rightarrow> True | Some x \<Rightarrow> p_FunctionResponse x = None \<and> p_ToolResponse x = None)"
  proof (cases p)
    case None
    then show ?thesis using assms by simp
  next
    case (Some x)
    then obtain y where "q = Some y" "part_elided x y" using assms by (cases q) simp_all
    then show ?thesis using Some unfolding part_elided_def by (elim insertE emptyE) simp_all
  qed
  then show "map_option blank_response_part q = map_option blank_response_part p"
    "(case q of None \<Rightarrow> True | Some x \<Rightarrow> p_FunctionResponse x = None \<and> p_ToolResponse x = None) =
     (case p of None \<Rightarrow> True | Some x \<Rightarrow> p_FunctionResponse x = None \<and> p_ToolResponse x = None)" by simp_all
qed

lemma elided_content_same:
  assumes "rel_option content_elided c d"
  shows "map_option blank_content d = map_option blank_content c" "startsPromptTurn d = startsPromptTurn c"
proof -
  have parts: "list_all2 (rel_option part_elided) ps qs \<Longrightarrow>
      map (map_option blank_response_part) qs = map (map_option blank_response_part) ps \<and>
      list_all (\<lambda>p. case p of None \<Rightarrow> True | Some x \<Rightarrow> p_FunctionResponse x = None \<and> p_ToolResponse x = None) qs =
      list_all (\<lambda>p. case p of None \<Rightarrow> True | Some x \<Rightarrow> p_FunctionResponse x = None \<and> p_ToolResponse x = None) ps"
    for ps qs :: "('a, 'b) part option list"
    by (induction rule: list_all2_induct) (simp_all add: elided_parts_same)
  have "map_option blank_content d = map_option blank_content c \<and> startsPromptTurn d = startsPromptTurn c"
  proof (cases c)
    case None
    then show ?thesis using assms by simp
  next
    case (Some x)
    then obtain ps where "d = Some (x\<lparr>ct_Parts := ps\<rparr>)" "list_all2 (rel_option part_elided) (ct_Parts x) ps"
      using assms by (cases d) (auto simp: content_elided_def)
    then show ?thesis using Some parts by (simp add: blank_content_def startsPromptTurn_def)
  qed
  then show "map_option blank_content d = map_option blank_content c" "startsPromptTurn d = startsPromptTurn c" by simp_all
qed

text \<open>Turns do not depend on elision: a conversation with some responses elided has the same complete turns, with
  the same keys, as the raw conversation, so the drops recorded on the one are found again in the other.\<close>

theorem turns_ignore_elision:
  assumes "list_all2 (rel_option content_elided) cs cs'"
  shows "completeTurns sha canon cs' = completeTurns sha canon cs"
proof -
  have len: "length cs' = length cs" using assms by (simp add: list_all2_lengthD)
  have nth: "i < length cs \<Longrightarrow> rel_option content_elided (cs ! i) (cs' ! i)" for i
    using assms by (simp add: list_all2_conv_all_nth)
  have "prompt_starts cs' = prompt_starts cs"
    unfolding prompt_starts_def len by (rule filter_cong) (simp_all add: elided_content_same(2) [OF nth])
  moreover have map_blank: "map (map_option blank_content) cs' = map (map_option blank_content) cs"
    by (rule nth_equalityI) (simp_all add: len elided_content_same(1) [OF nth])
  have "map (map_option blank_content) (drop s (take e cs')) = map (map_option blank_content) (drop s (take e cs))" for s e
    using map_blank by (simp add: drop_map [symmetric] take_map [symmetric])
  then have key: "turnKey sha canon (drop s (take e cs')) = turnKey sha canon (drop s (take e cs))" for s e
    by (simp add: turnKey_def)
  have "turns_between sha canon cs' starts = turns_between sha canon cs starts" for starts
    by (induction starts rule: induct_list012) (simp_all add: key cong: option.case_cong)
  ultimately show ?thesis by (simp add: completeTurns_def)
qed

lemma prompt_count: "length (prompt_starts cs) = length (filter startsPromptTurn cs)"
proof (induction cs rule: rev_induct)
  case (snoc c cs)
  have "filter (\<lambda>i. startsPromptTurn ((cs @ [c]) ! i)) [0..<length cs] = filter (\<lambda>i. startsPromptTurn (cs ! i)) [0..<length cs]"
    by (rule filter_cong) (simp_all add: nth_append)
  then show ?case using snoc by (simp add: prompt_starts_def)
qed (simp add: prompt_starts_def)

lemma completeTurns_start:
  assumes "completeTurns sha canon cs = Some ts" "g \<in> set ts"
  shows "startsPromptTurn (cs ! tn_start g)"
proof -
  have "sorted_wrt (<) (prompt_starts cs)" "\<forall>s \<in> set (prompt_starts cs). s < length cs"
    by (auto simp: prompt_starts_def sorted_wrt_filter)
  from turns_between_bounds [OF assms(1) [unfolded completeTurns_def] this assms(2)] show ?thesis by (simp add: prompt_starts_def)
qed

lemma drop_turn_prompts:
  assumes "tn_start g < tn_end g" "tn_end g < length cs" "startsPromptTurn (cs ! tn_start g)"
  shows "length (prompt_starts (drop_turn g cs)) < length (prompt_starts cs)"
proof -
  have "take (tn_end g) cs = take (tn_start g) cs @ drop (tn_start g) (take (tn_end g) cs)"
    using assms(1) append_take_drop_id [of "tn_start g" "take (tn_end g) cs"] by (simp add: min_def)
  then have cs: "take (tn_start g) cs @ drop (tn_start g) (take (tn_end g) cs) @ drop (tn_end g) cs = cs"
    by (simp only: append.assoc [symmetric] append_take_drop_id)
  have "drop (tn_start g) (take (tn_end g) cs) = cs ! tn_start g # drop (Suc (tn_start g)) (take (tn_end g) cs)"
    using assms(1,2) Cons_nth_drop_Suc [of "tn_start g" "take (tn_end g) cs"] by simp
  then have "length (filter startsPromptTurn (take (tn_start g) cs @ drop (tn_end g) cs)) <
      length (filter startsPromptTurn (take (tn_start g) cs @ drop (tn_start g) (take (tn_end g) cs) @ drop (tn_end g) cs))"
    using assms(3) by simp
  then show ?thesis by (simp only: prompt_count drop_turn_def cs)
qed

text \<open>C34: Dropping turns ends after at most one round for each prompt of the conversation: every round removes a turn
  with its prompt, and records one key.\<close>

theorem drop_rounds_bounded:
  "\<exists>new. du_DroppedTurns (fst (dropCompleteTurns plat sha canon policy rq factor target preserved ds cs current changed)) =
      du_DroppedTurns ds @ new \<and> length new \<le> length (filter startsPromptTurn cs)"
proof (induction plat sha canon policy rq factor target preserved ds cs current changed rule: dropCompleteTurns.induct)
  case (1 plat sha canon policy rq factor target preserved ds cs current changed)
  note simps = dropCompleteTurns.simps [of plat sha canon policy rq factor target preserved ds cs]
  show ?case
  proof (cases "calibratedTokens plat (es_Tokens current) factor \<le> target \<or>
      \<not> (\<exists>groups g next'. completeTurns sha canon cs = Some groups \<and>
        firstDroppableTurn cs groups (cp_KeepRecentContents policy) preserved = Some g \<and>
        EstimateRequest canon (with_contents rq (drop_turn g cs)) = Some next')")
    case True
    then have "fst (dropCompleteTurns plat sha canon policy rq factor target preserved ds cs current changed) = ds"
      by (auto simp: simps split: option.split)
    then show ?thesis by simp
  next
    case False
    then obtain groups g next' where g: "\<not> calibratedTokens plat (es_Tokens current) factor \<le> target"
      "completeTurns sha canon cs = Some groups" "firstDroppableTurn cs groups (cp_KeepRecentContents policy) preserved = Some g"
      "EstimateRequest canon (with_contents rq (drop_turn g cs)) = Some next'" by auto
    have "g \<in> set groups" using nextDroppableTurn_in [OF g(3) [unfolded firstDroppableTurn_def]] by simp
    then have "length (filter startsPromptTurn (drop_turn g cs)) < length (filter startsPromptTurn cs)"
      using drop_turn_prompts [of g cs] completeTurns_bounds [OF g(2)] completeTurns_start [OF g(2)] by (simp add: prompt_count)
    then show ?thesis using "1.IH" [OF g] g by (auto simp: simps)
  qed
qed

section \<open>A sample conversation\<close>

definition sample_part :: "(unit, unit) part" where
  "sample_part = \<lparr>p_FunctionCall = None, p_FunctionResponse = None, p_ToolCall = None, p_ToolResponse = None,
     p_InlineData = False, p_ThoughtSignature = '''', p_Payload = ()\<rparr>"

definition sample_says :: "go_string \<Rightarrow> (unit, unit) part \<Rightarrow> (unit, unit) content option" where
  "sample_says role p = Some \<lparr>ct_Role = role, ct_Parts = [Some p], ct_Payload = ()\<rparr>"

definition sample_conversation :: "(unit, unit) contents" where
  "sample_conversation =
     [sample_says ''user'' sample_part,
      sample_says ''user'' sample_part,
      sample_says ''model'' (sample_part\<lparr>p_FunctionCall := Some \<lparr>call_ID = ''a'', call_Name = ''read'', call_Payload = ()\<rparr>\<rparr>),
      sample_says ''user'' (sample_part\<lparr>p_FunctionResponse :=
        Some \<lparr>fr_ID = ''a'', fr_Name = ''read'', fr_Response = Some [(''output'', AString ''text'')], fr_Parts = [], fr_Payload = ()\<rparr>\<rparr>),
      sample_says ''user'' sample_part]"

definition sample_compacted :: "(unit, unit) llm_request" where
  "sample_compacted = \<lparr>rq_Model = ''m'', rq_Contents = sample_conversation, rq_Config = None\<rparr>"

text \<open>Eight bytes for each content, forty more for a response that is not elided.\<close>

definition sample_canonical :: "(unit, unit) canonical" where
  "sample_canonical w = Some (case w of
      WRequest m cs g \<Rightarrow> replicate (8 * length cs +
        40 * length (filter (\<lambda>c. list_ex (\<lambda>p. case p of None \<Rightarrow> False | Some q \<Rightarrow>
          (case p_FunctionResponse q of None \<Rightarrow> False | Some r \<Rightarrow> \<not> functionResponseElided r)) (content_parts c)) cs)) (CHR ''x'')
    | WContents cs \<Rightarrow> replicate (length cs) (CHR ''x'')
    | _ \<Rightarrow> ''{}'')"

definition sample_compaction_policy :: compaction_policy where
  "sample_compaction_policy = \<lparr>cp_ContextTokens = 64, cp_TriggerFraction = Fin 3 (- 2), cp_TargetFraction = Fin 1 (- 1),
     cp_KeepRecentContents = 1, cp_MinimumElisionTokens = 0, cp_PreserveToolNames = [''task''], cp_Calibration = True\<rparr>"

definition sample_durable :: durableState where
  "sample_durable = \<lparr>du_Version = 0, du_ElidedResponses = [], du_DroppedTurns = [], du_Calibration = f_zero, du_ExhaustedWarned = False\<rparr>"

definition sample_estimate :: estimate where
  "sample_estimate = \<lparr>es_CanonicalBytes = 16, es_RawTokens = 4, es_Contents = 2, es_Parts = 2, es_Functions = 0, es_Binaries = 0,
     es_ToolDeclarations = 0, es_OverheadTokens = 10, es_Tokens = 14\<rparr>"

lemma sample_compaction:
  "applyPolicy (\<lambda>_. 0) (\<lambda>s. s) sample_canonical sample_compaction_policy sample_durable sample_compacted =
    (Some \<lparr>pr_Estimate = sample_estimate, pr_Triggered = True, pr_Exhausted = False, pr_StateChanged = True\<rparr>,
     \<lparr>du_Version = 1, du_ElidedResponses = [''id:a''], du_DroppedTurns = [''sha256:xxx''], du_Calibration = f_one, du_ExhaustedWarned = False\<rparr>,
     sample_compacted\<lparr>rq_Contents := [sample_says ''user'' sample_part, sample_says ''user'' sample_part]\<rparr>)"
  by code_simp


theorem compacted_conversation_witness:
  "\<exists>mid. [sample_says ''user'' sample_part, sample_says ''user'' sample_part] =
      take 1 sample_conversation @ mid @ drop 4 sample_conversation \<and> shrunk (drop 1 (take 4 sample_conversation)) mid"
  using compacted_conversation [OF sample_compaction]
  by (simp add: Let_def sample_compacted_def sample_compaction_policy_def sample_conversation_def)

theorem compaction_keeps_pairs_witness:
  "items_of ''a'' (sample_conversation) \<noteq> [] \<and>
   length (filter item_is_call (items_of ''a'' sample_conversation)) =
   length (filter (\<lambda>it. \<not> item_is_call it) (items_of ''a'' sample_conversation))"
proof -
  have "items_of ''a'' sample_conversation \<noteq> []" "items_of ''a'' [sample_says ''user'' sample_part, sample_says ''user'' sample_part] = []"
    by code_simp+
  then show ?thesis using compaction_keeps_pairs [OF sample_compaction, of "''a''"] by (simp add: sample_compacted_def)
qed


theorem compaction_reaches_target_witness:
  "calibratedTokens (\<lambda>_. 0) (es_Tokens sample_estimate) f_one \<le> fraction_tokens (\<lambda>_. 0) 64 (Fin 1 (- 1))"
proof -
  have "calibrationFactor True (du_Calibration (normalizeDurableState sample_durable)) = f_one" by code_simp
  then show ?thesis using compaction_reaches_target [OF sample_compaction] by (simp add: sample_compaction_policy_def)
qed

theorem compaction_failure_and_idle_witness:
  "applyPolicy (\<lambda>_. 0) (\<lambda>s. s) (\<lambda>_. None) sample_compaction_policy sample_durable sample_compacted =
    (None, normalizeDurableState sample_durable, sample_compacted)"
proof -
  have "applyPolicy (\<lambda>_. 0) (\<lambda>s. s) (\<lambda>_. None) sample_compaction_policy sample_durable sample_compacted =
    (None, normalizeDurableState sample_durable, snd (snd (applyPolicy (\<lambda>_. 0) (\<lambda>s. s) (\<lambda>_. None) sample_compaction_policy sample_durable sample_compacted)))"
    by (simp add: applyPolicy_def Let_def EstimateRequest_def)
  with compaction_failure_and_idle [OF this] show ?thesis by simp
qed

definition sample_elided :: "(unit, unit) contents" where
  "sample_elided = elide_at \<lparr>ca_key = ''id:a'', ca_name = ''read'', ca_bodyTokens = 1, ca_content = 3, ca_part = 0, ca_kind = RFunction\<rparr> sample_conversation"

theorem turns_ignore_elision_witness:
  "sample_elided \<noteq> sample_conversation \<and>
    completeTurns (\<lambda>s. s) sample_canonical sample_elided = completeTurns (\<lambda>s. s) sample_canonical sample_conversation"
proof -
  have "list_all2 (rel_option content_elided) sample_conversation sample_elided"
    by (auto simp: sample_elided_def sample_conversation_def elide_at_def elide_content_def sample_says_def content_elided_def
        list_all2_refl option.rel_refl elide_part_elided)
  moreover have "sample_elided \<noteq> sample_conversation" by code_simp
  ultimately show ?thesis using turns_ignore_elision by blast
qed

end
