(* ===== verification/Session_View.thy ===== *)
theory Session_View
  imports Session_Inventory
begin

text \<open>
  Session handles and what they show, \<open>sessionstore/store.go\<close>: the state rebuilt from a transcript, the handle a
  caller holds and how an appended event changes it, selection of events, the scan of an application and its list of
  sessions. Copying a map through JSON is the parameter \<open>clone\<close>.
\<close>

section \<open>Handles\<close>

definition cloneMap :: "('v state_map \<Rightarrow> 'v state_map) \<Rightarrow> 'v delta \<Rightarrow> 'v delta" where
  "cloneMap clone d = map_option clone d"

definition cloneHeader :: "('v state_map \<Rightarrow> 'v state_map) \<Rightarrow> 'v header \<Rightarrow> 'v header" where
  "cloneHeader clone h = h\<lparr>h_State := cloneMap clone (h_State h), h_AppDelta := cloneMap clone (h_AppDelta h),
     h_UserDelta := cloneMap clone (h_UserDelta h)\<rparr>"

text \<open>The local part of an event's delta is merged into the local state of the header.\<close>

definition event_local :: "('v, 'p) event \<Rightarrow> 'v state_map" where
  "event_local e = fst (splitState (entries (ev_StateDelta e)))"

definition local_state :: "'v state_map \<Rightarrow> ('v, 'p) event list \<Rightarrow> 'v state_map" where
  "local_state local events = foldl (\<lambda>m e. maps_copy m (event_local e)) local events"

definition sessionState ::
  "('v state_map \<Rightarrow> 'v state_map) \<Rightarrow> 'v header \<Rightarrow> ('v, 'p) event list \<Rightarrow> 'v sharedProjection \<Rightarrow> 'v state_map" where
  "sessionState clone h events projection =
     mergeState (local_state (entries (cloneMap clone (h_State h))) events) (sp_App projection) (sp_User projection)"

record ('v, 'p) durableSession =
  ds_header :: "'v header"
  ds_state :: "'v state_map"
  ds_events :: "('v, 'p) event list"
  ds_updated :: int

definition newDurableSession ::
  "('v state_map \<Rightarrow> 'v state_map) \<Rightarrow> ('v, 'p) codec \<Rightarrow> 'v header \<Rightarrow> ('v, 'p) event list \<Rightarrow> 'v state_map \<Rightarrow> int \<Rightarrow>
   ('v, 'p) durableSession" where
  "newDurableSession clone cd h events state updated =
     \<lparr>ds_header = cloneHeader clone h, ds_state = clone state, ds_events = map (cd_clone cd) events, ds_updated = updated\<rparr>"

definition shared_view_key :: "go_string \<Rightarrow> bool" where
  "shared_view_key key \<longleftrightarrow>
     length key > 4 \<and> take 4 key = ''app:'' \<or> length key > 5 \<and> take 5 key = ''user:''"

definition replaceShared :: "'v sharedProjection \<Rightarrow> ('v, 'p) durableSession \<Rightarrow> ('v, 'p) durableSession" where
  "replaceShared projection s = s\<lparr>ds_state :=
     maps_copy (filter (\<lambda>(key, _). \<not> shared_view_key key) (ds_state s)) (mergeState [] (sp_App projection) (sp_User projection))\<rparr>"

definition appendCommitted ::
  "('v, 'p) codec \<Rightarrow> ('v, 'p) event \<Rightarrow> 'v sharedProjection \<Rightarrow> ('v, 'p) durableSession \<Rightarrow> ('v, 'p) durableSession" where
  "appendCommitted cd e projection s =
     (let s1 = replaceShared projection (s\<lparr>ds_state := maps_copy (ds_state s) (event_local e)\<rparr>)
      in s1\<lparr>ds_events := ds_events s1 @ [cd_clone cd e], ds_updated := ev_Timestamp e\<rparr>)"

definition ensureCommitted ::
  "('v, 'p) codec \<Rightarrow> ('v, 'p) event \<Rightarrow> 'v sharedProjection \<Rightarrow> ('v, 'p) durableSession \<Rightarrow> ('v, 'p) durableSession" where
  "ensureCommitted cd e projection s =
     (if list_ex (\<lambda>current. ev_ID current = ev_ID e) (ds_events s) then replaceShared projection s
      else appendCommitted cd e projection s)"

text \<open>The views on a handle: \<open>sessionStateView\<close> and \<open>sessionEventsView\<close>.\<close>

definition view_Get :: "('v, 'p) durableSession \<Rightarrow> go_string \<Rightarrow> 'v option" where
  "view_Get s key = map_of (ds_state s) key"

definition view_Set :: "go_string \<Rightarrow> 'v \<Rightarrow> ('v, 'p) durableSession \<Rightarrow> ('v, 'p) durableSession" where
  "view_Set key v s = s\<lparr>ds_state := AList.update key v (ds_state s)\<rparr>"

definition view_At :: "('v, 'p) durableSession \<Rightarrow> int \<Rightarrow> ('v, 'p) event option" where
  "view_At s index = (if index < 0 \<or> index \<ge> slen (ds_events s) then None else Some (ds_events s ! nat index))"

section \<open>Selecting events\<close>

text \<open>\<open>after\<close> is zero when it is not set.\<close>

definition filterEvents :: "('v, 'p) event list \<Rightarrow> int \<Rightarrow> int \<Rightarrow> ('v, 'p) event list" where
  "filterEvents events recent after =
     (let recents = (if recent > 0 then drop (nat (max (slen events - recent) 0)) events else events)
      in if after = 0 then recents else filter (\<lambda>e. \<not> ev_Timestamp e < after) recents)"

definition eventByID :: "('v, 'p) event list \<Rightarrow> go_string \<Rightarrow> ('v, 'p) event option" where
  "eventByID events eid = List.find (\<lambda>e. ev_ID e = eid) events"

text \<open>\<open>json\<close> is \<open>json.Marshal\<close> of an event.\<close>

definition sameEvent :: "(('v, 'p) event \<Rightarrow> go_string option) \<Rightarrow> ('v, 'p) event \<Rightarrow> ('v, 'p) event \<Rightarrow> bool" where
  "sameEvent json left right \<longleftrightarrow> json left \<noteq> None \<and> json right \<noteq> None \<and> json left = json right"

section \<open>Scanning an application\<close>

text \<open>
  The transcripts of an application in directory order: the name, the user and session its path encodes, and the
  content; \<open>None\<close> is a file that is gone when it is read. The result has the logs and the sorted records.
  Loading does not panic (\<open>loaded_log_wellformed\<close>), so every error of it is a corrupt log.
\<close>

type_synonym transcript = "go_string \<times> identity \<times> go_string option"

record ('v, 'p) appScan =
  as_Logs :: "(go_string \<times> ('v, 'p) session_log) list"
  as_Records :: "'v stateRecord list"

fun scan_transcripts ::
  "(go_string \<Rightarrow> go_string) \<Rightarrow> ('v, 'p) codec \<Rightarrow> transcript list \<Rightarrow> ('v, 'p) appScan \<Rightarrow> store_error + ('v, 'p) appScan" where
  "scan_transcripts sha cd [] out = Inr out"
| "scan_transcripts sha cd ((name, i, file') # rest) out =
     (case file' of
        None \<Rightarrow> scan_transcripts sha cd rest out
      | Some data \<Rightarrow>
          (case loadSessionLog sha cd i name data of
             Inl _ \<Rightarrow> Inl ErrCorruptLog
           | Inr l \<Rightarrow> scan_transcripts sha cd rest
               (out\<lparr>as_Logs := as_Logs out @ [(name, l)], as_Records := as_Records out @ l_stateRecords l\<rparr>)))"

definition scanApp :: "(go_string \<Rightarrow> go_string) \<Rightarrow> ('v, 'p) codec \<Rightarrow> transcript list \<Rightarrow> store_error + ('v, 'p) appScan" where
  "scanApp sha cd files =
     (case scan_transcripts sha cd files \<lparr>as_Logs = [], as_Records = []\<rparr> of
        Inl e \<Rightarrow> Inl e
      | Inr out \<Rightarrow>
          let records = sortStateRecords (as_Records out)
          in case duplicateStateRecord records of
               Some _ \<Rightarrow> Inl ErrCorruptLog
             | None \<Rightarrow> Inr (out\<lparr>as_Records := records\<rparr>))"

text \<open>\<open>listSessions\<close>; \<open>users\<close> are the projections by user. A log without a header does not load.
  Sessions of different users with the same identifier come in the order of the scan; the code leaves it open.\<close>

definition listSessions ::
  "('v state_map \<Rightarrow> 'v state_map) \<Rightarrow> ('v, 'p) codec \<Rightarrow> go_string \<Rightarrow> (go_string \<times> ('v, 'p) session_log) list \<Rightarrow>
   (go_string \<Rightarrow> 'v sharedProjection) \<Rightarrow> ('v, 'p) durableSession list" where
  "listSessions clone cd user logs users =
     sort_key (\<lambda>s. h_ID (ds_header s))
       (List.map_filter (\<lambda>(_, l). case l_header l of
           None \<Rightarrow> None
         | Some h \<Rightarrow>
             if user \<noteq> [] \<and> h_UserID h \<noteq> user then None
             else Some (newDurableSession clone cd h [] (sessionState clone h (l_events l) (users (h_UserID h))) (l_updated l)))
         logs)"

text \<open>\<open>Get\<close> after the scan, with the projection that the repair of the shared state gave.\<close>

definition get_session ::
  "('v state_map \<Rightarrow> 'v state_map) \<Rightarrow> ('v, 'p) codec \<Rightarrow> go_string \<Rightarrow> int \<Rightarrow> int \<Rightarrow> ('v, 'p) appScan \<Rightarrow>
   (store_error + 'v sharedProjection) \<Rightarrow> store_error + ('v, 'p) durableSession" where
  "get_session clone cd name recent after scan repaired =
     (case map_of (as_Logs scan) name of
        None \<Rightarrow> Inl ErrSessionNotFound
      | Some l \<Rightarrow>
          (case repaired of
             Inl e \<Rightarrow> Inl e
           | Inr projection \<Rightarrow>
               (case l_header l of
                  None \<Rightarrow> Inl ErrCorruptLog
                | Some h \<Rightarrow>
                    Inr (newDurableSession clone cd h (filterEvents (l_events l) recent after)
                      (sessionState clone h (l_events l) projection) (l_updated l)))))"

section \<open>A handle shows its transcript\<close>

lemma lookup_filter: "map_of (filter (\<lambda>(key, _). P key) m) k = (if P k then map_of m k else None)"
  by (induction m) auto

definition unshared :: "'v state_map \<Rightarrow> bool" where
  "unshared m \<longleftrightarrow> (\<forall>k. shared_key k \<longrightarrow> map_of m k = None)"

lemma event_local_unshared:
  assumes "distinct_keys (entries (ev_StateDelta e))"
  shows "unshared (event_local e)" "distinct_keys (event_local e)"
proof -
  obtain s a u where split: "splitState (entries (ev_StateDelta e)) = (s, a, u)" by (cases "splitState (entries (ev_StateDelta e))")
  show "unshared (event_local e)" "distinct_keys (event_local e)"
    using splitState_lookup [OF assms split] split by (simp_all add: unshared_def event_local_def)
qed

lemma local_state_snoc: "local_state m (es @ [e]) = maps_copy (local_state m es) (event_local e)"
  by (simp add: local_state_def)

lemma local_state_unshared:
  assumes "unshared m" "\<forall>e \<in> set es. distinct_keys (entries (ev_StateDelta e))"
  shows "unshared (local_state m es)"
  using assms(2)
proof (induction es rule: rev_induct)
  case (snoc e es)
  then show ?case using event_local_unshared [of e]
    by (simp add: local_state_snoc unshared_def maps_copy_lookup)
qed (simp add: local_state_def assms(1))

lemma long_prefix: "length p = n \<Longrightarrow> n < length key \<and> take n key = p \<longleftrightarrow> prefix p key \<and> key \<noteq> p"
proof -
  assume n: "length p = n"
  have "prefix p key \<longleftrightarrow> n \<le> length key \<and> take n key = p"
    using n by (auto simp: prefix_def) (metis append_take_drop_id)
  moreover have "length key = n \<Longrightarrow> take n key = key" by simp
  ultimately show ?thesis using n by (cases "length key = n") auto
qed

lemma shared_view_key_iff: "shared_view_key key \<longleftrightarrow>
    (prefix appStatePrefix key \<and> key \<noteq> appStatePrefix) \<or> (prefix userStatePrefix key \<and> key \<noteq> userStatePrefix)"
  using long_prefix [of "''app:''" 4 key] long_prefix [of "''user:''" 5 key]
  by (simp add: shared_view_key_def appStatePrefix_def userStatePrefix_def)

text \<open>A handle that shows a transcript with the given projection.\<close>

definition shows_log ::
  "('v state_map \<Rightarrow> 'v state_map) \<Rightarrow> ('v, 'p) codec \<Rightarrow> ('v, 'p) durableSession \<Rightarrow> 'v header \<Rightarrow> ('v, 'p) event list \<Rightarrow>
   'v sharedProjection \<Rightarrow> int \<Rightarrow> bool" where
  "shows_log clone cd s h events projection updated \<longleftrightarrow>
     ds_header s = cloneHeader clone h \<and> map_of (ds_state s) = map_of (sessionState clone h events projection) \<and>
     ds_events s = map (cd_clone cd) events \<and> ds_updated s = updated"

definition projection_ok :: "'v sharedProjection \<Rightarrow> bool" where
  "projection_ok p \<longleftrightarrow> distinct_keys (sp_App p) \<and> distinct_keys (sp_User p)"

text \<open>C23: A handle stays what \<open>Get\<close> would build: after an event was appended to the transcript, the handle that
  appended it has the same header, events, update time and state as a handle built from the new transcript with
  the new shared state.\<close>

theorem handle_tracks_transcript:
  assumes "shows_log clone cd s h events projection updated"
    and "projection_ok projection" and "projection_ok projection'"
    and "map_of (sp_App projection') [] = None \<longrightarrow> map_of (sp_App projection) [] = None"
    and "map_of (sp_User projection') [] = None \<longrightarrow> map_of (sp_User projection) [] = None"
    and "unshared (entries (cloneMap clone (h_State h)))"
    and "\<forall>x \<in> set (events @ [e]). distinct_keys (entries (ev_StateDelta x))"
    and "\<forall>m. map_of (clone m) = map_of m"
  shows "shows_log clone cd (appendCommitted cd e projection' s) h (events @ [e]) projection' (ev_Timestamp e) \<and>
    shows_log clone cd (newDurableSession clone cd h (events @ [e]) (sessionState clone h (events @ [e]) projection') (ev_Timestamp e))
      h (events @ [e]) projection' (ev_Timestamp e)"
proof -
  let ?l = "local_state (entries (cloneMap clone (h_State h))) events"
  note p = assms(2,3) [unfolded projection_ok_def]
  have loc: "unshared ?l" using assms(6,7) by (intro local_state_unshared) simp_all
  note ev = event_local_unshared [of e]
  have d: "distinct_keys (mergeState [] (sp_App projection') (sp_User projection'))" by (rule merge_distinct) simp
  have "map_of (ds_state (appendCommitted cd e projection' s)) k = map_of (sessionState clone h (events @ [e]) projection') k" for k
  proof -
    have st: "map_of (ds_state s) k = map_of (mergeState ?l (sp_App projection) (sp_User projection)) k"
      using assms(1) by (simp add: shows_log_def sessionState_def)
    consider (t) "prefix tempStatePrefix k" | (a) j where "k = appStatePrefix @ j" | (u) j where "k = userStatePrefix @ j"
      | (n) "\<not> shared_key k"
      by (auto simp: prefix_def shared_key_def)
    then show ?thesis
    proof cases
      case t
      then have "\<not> prefix userStatePrefix k" "\<not> prefix appStatePrefix k" by (auto simp: state_prefixes prefix_def)
      then show ?thesis using t loc ev assms(7) st p d
        by (simp add: appendCommitted_def replaceShared_def Let_def maps_copy_lookup lookup_filter sessionState_def local_state_snoc
            merge_lookup unshared_def shared_key_def shared_view_key_iff)
    next
      case a
      then show ?thesis using loc ev assms(4,5,7) st p d prefix_kinds
        by (auto simp: appendCommitted_def replaceShared_def Let_def maps_copy_lookup lookup_filter sessionState_def local_state_snoc
            merge_lookup unshared_def shared_key_def shared_view_key_iff trim_prefix_def split: option.splits)
    next
      case u
      then show ?thesis using loc ev assms(4,5,7) st p d prefix_kinds
        by (auto simp: appendCommitted_def replaceShared_def Let_def maps_copy_lookup lookup_filter sessionState_def local_state_snoc
            merge_lookup unshared_def shared_key_def shared_view_key_iff trim_prefix_def split: option.splits)
    next
      case n
      then show ?thesis using ev assms(7) st p d
        by (auto simp: appendCommitted_def replaceShared_def Let_def maps_copy_lookup lookup_filter sessionState_def local_state_snoc
            merge_lookup shared_key_def shared_view_key_iff split: option.splits)
    qed
  qed
  then show ?thesis using assms(1,8)
    by (auto simp: shows_log_def newDurableSession_def appendCommitted_def replaceShared_def Let_def)
qed


definition sample_delta_event :: "(int, unit) event" where
  "sample_delta_event = \<lparr>ev_ID = ''1'', ev_Timestamp = 6, ev_Partial = False,
     ev_StateDelta = Some [(''x'', 2), (''app:y'', 3)], ev_Payload = ()\<rparr>"

definition sample_projection :: "int \<Rightarrow> int sharedProjection" where
  "sample_projection v = \<lparr>sp_App = [(''y'', v)], sp_User = [], sp_AppVersions = [], sp_UserVersions = [], sp_Records = []\<rparr>"

definition sample_handle_header :: "int header" where
  "sample_handle_header = \<lparr>h_ID = ''s'', h_AppName = ''a'', h_UserID = ''u'', h_State = Some [(''x'', 1)], h_AppDelta = None, h_UserDelta = None,
     h_CreatedAt = 5, h_Incarnation = 1\<rparr>"

definition copying_codec :: "(int, unit) codec" where
  "copying_codec = \<lparr>cd_envelope = (\<lambda>_. None), cd_record = (\<lambda>_. None), cd_valid = (\<lambda>_. True), cd_clone = (\<lambda>e. e)\<rparr>"

theorem handle_tracks_transcript_witness:
  "let s = newDurableSession (\<lambda>m. m) copying_codec sample_handle_header [] [(''x'', 1), (''app:y'', 2)] 5
   in shows_log (\<lambda>m. m) copying_codec (appendCommitted copying_codec sample_delta_event (sample_projection 3) s)
        sample_handle_header [sample_delta_event] (sample_projection 3) 6"
proof -
  define s where "s = newDurableSession (\<lambda>m. m) copying_codec sample_handle_header [] [(''x'', 1), (''app:y'', 2)] 5"
  have "sessionState (\<lambda>m. m) sample_handle_header ([] :: (int, unit) event list) (sample_projection 2) = [(''x'', 1), (''app:y'', 2)]"
    by code_simp
  then have handle: "shows_log (\<lambda>m. m) copying_codec s sample_handle_header [] (sample_projection 2) 5"
    by (simp add: shows_log_def s_def newDurableSession_def)
  have ok: "projection_ok (sample_projection v)" "map_of (sp_App (sample_projection v)) [] = None" "map_of (sp_User (sample_projection v)) [] = None" for v
    by (simp_all add: projection_ok_def sample_projection_def)
  have local: "unshared (entries (cloneMap (\<lambda>m. m) (h_State sample_handle_header)))"
    by (auto simp: unshared_def entries_def cloneMap_def sample_handle_header_def shared_key_def state_prefixes prefix_def)
  have keys: "\<forall>x \<in> set ([] @ [sample_delta_event]). distinct_keys (entries (ev_StateDelta x))"
    by (simp add: sample_delta_event_def entries_def)
  have "shows_log (\<lambda>m. m) copying_codec (appendCommitted copying_codec sample_delta_event (sample_projection 3) s)
      sample_handle_header ([] @ [sample_delta_event]) (sample_projection 3) (ev_Timestamp sample_delta_event)"
    using handle_tracks_transcript [OF handle ok(1) ok(1) _ _ local keys] ok(2,3) by blast
  then show ?thesis by (simp add: s_def sample_delta_event_def)
qed

end
