(* ===== verification/Go_Io.thy ===== *)
theory Go_Io
  imports Go_Prelude
begin

text \<open>
  Code that works on files while calls may fail and the process may die. A computation takes the state and the answers
  of the environment, one for each call that touches the outside; it returns a value, returns an error, or is cut off
  by the death of the process, and leaves a state. \<open>io_post\<close> is the weakest precondition over all answers.
\<close>

section \<open>Computations\<close>

text \<open>
  How the environment answers a call: it is done, it is refused with an error and no effect, it has its effect but
  reports an error, it fails after so many bytes of a write, or the process dies before it, after it, or within a write.
\<close>

datatype answer = Done | Refused | DoneWithError | RefusedWithin nat | DiesBefore | DiesAfter | DiesWithin nat

datatype ('e, 'a) io_outcome = Value 'a | Error 'e | Died

type_synonym ('s, 'e, 'a) io = "'s \<Rightarrow> answer list \<Rightarrow> ('e, 'a) io_outcome \<times> 's \<times> answer list"

text \<open>Calls beyond the given answers are done.\<close>

fun next_answer :: "answer list \<Rightarrow> answer \<times> answer list" where
  "next_answer [] = (Done, [])"
| "next_answer (a # as) = (a, as)"

definition io_return :: "'a \<Rightarrow> ('s, 'e, 'a) io" where
  "io_return x = (\<lambda>s as. (Value x, s, as))"

definition io_fail :: "'e \<Rightarrow> ('s, 'e, 'a) io" where
  "io_fail e = (\<lambda>s as. (Error e, s, as))"

definition io_panic :: "('s, 'e, 'a) io" where
  "io_panic = (\<lambda>s as. (Died, s, as))"

definition io_result :: "'e + 'a \<Rightarrow> ('s, 'e, 'a) io" where
  "io_result r = (case r of Inl e \<Rightarrow> io_fail e | Inr x \<Rightarrow> io_return x)"

definition io_bind :: "('s, 'e, 'a) io \<Rightarrow> ('a \<Rightarrow> ('s, 'e, 'b) io) \<Rightarrow> ('s, 'e, 'b) io" where
  "io_bind m f = (\<lambda>s as.
     case m s as of
       (Value x, s', as') \<Rightarrow> f x s' as'
     | (Error e, s', as') \<Rightarrow> (Error e, s', as')
     | (Died, s', as') \<Rightarrow> (Died, s', as'))"

definition io_then :: "('s, 'e, 'a) io \<Rightarrow> ('s, 'e, 'b) io \<Rightarrow> ('s, 'e, 'b) io" where
  "io_then m n = io_bind m (\<lambda>_. n)"

text \<open>The error as a value, for code that looks at it.\<close>

definition io_attempt :: "('s, 'e, 'a) io \<Rightarrow> ('s, 'e, 'e + 'a) io" where
  "io_attempt m = (\<lambda>s as.
     case m s as of
       (Value x, s', as') \<Rightarrow> (Value (Inr x), s', as')
     | (Error e, s', as') \<Rightarrow> (Value (Inl e), s', as')
     | (Died, s', as') \<Rightarrow> (Died, s', as'))"

definition io_state :: "('s \<Rightarrow> 'a) \<Rightarrow> ('s, 'e, 'a) io" where
  "io_state f = (\<lambda>s as. (Value (f s), s, as))"

text \<open>A call with the given effect. A call that stops within has the effect \<open>part n\<close>.\<close>

definition io_write :: "'e \<Rightarrow> (nat \<Rightarrow> 's \<Rightarrow> 's) \<Rightarrow> ('s \<Rightarrow> 's) \<Rightarrow> ('s, 'e, unit) io" where
  "io_write e part f = (\<lambda>s as.
     case next_answer as of (a, as') \<Rightarrow>
       (case a of
          Done \<Rightarrow> (Value (), f s, as')
        | Refused \<Rightarrow> (Error e, s, as')
        | DoneWithError \<Rightarrow> (Error e, f s, as')
        | RefusedWithin n \<Rightarrow> (Error e, part n s, as')
        | DiesBefore \<Rightarrow> (Died, s, as')
        | DiesAfter \<Rightarrow> (Died, f s, as')
        | DiesWithin n \<Rightarrow> (Died, part n s, as')))"

text \<open>An atomic effect, and a call that changes nothing.\<close>

definition io_effect :: "'e \<Rightarrow> ('s \<Rightarrow> 's) \<Rightarrow> ('s, 'e, unit) io" where
  "io_effect e f = io_write e (\<lambda>_ s. s) f"

definition io_check :: "'e \<Rightarrow> ('s, 'e, unit) io" where
  "io_check e = io_effect e (\<lambda>s. s)"

text \<open>A call whose error means that nothing happened, and a change of memory, which is no call.\<close>

definition io_strict :: "'e \<Rightarrow> ('s \<Rightarrow> 's) \<Rightarrow> ('s, 'e, unit) io" where
  "io_strict e f = (\<lambda>s as.
     case next_answer as of (a, as') \<Rightarrow>
       (case a of
          Done \<Rightarrow> (Value (), f s, as')
        | Refused \<Rightarrow> (Error e, s, as')
        | DoneWithError \<Rightarrow> (Error e, s, as')
        | RefusedWithin n \<Rightarrow> (Error e, s, as')
        | DiesBefore \<Rightarrow> (Died, s, as')
        | DiesAfter \<Rightarrow> (Died, f s, as')
        | DiesWithin n \<Rightarrow> (Died, s, as')))"

definition io_update :: "('s \<Rightarrow> 's) \<Rightarrow> ('s, 'e, unit) io" where
  "io_update f = (\<lambda>s as. (Value (), f s, as))"

definition io_when :: "bool \<Rightarrow> ('s, 'e, unit) io \<Rightarrow> ('s, 'e, unit) io" where
  "io_when b m = (if b then m else io_return ())"

section \<open>Weakest preconditions\<close>

text \<open>With answers that satisfy \<open>ok\<close>: what holds when a value is returned, an error is returned, or the process died.\<close>

definition io_post ::
  "(answer \<Rightarrow> bool) \<Rightarrow> ('s, 'e, 'a) io \<Rightarrow> ('a \<Rightarrow> 's \<Rightarrow> bool) \<Rightarrow> ('e \<Rightarrow> 's \<Rightarrow> bool) \<Rightarrow> ('s \<Rightarrow> bool) \<Rightarrow> 's \<Rightarrow> bool" where
  "io_post ok m Q E C s \<longleftrightarrow>
     (\<forall>as. list_all ok as \<longrightarrow>
        (case m s as of (x, s', as') \<Rightarrow> list_all ok as' \<and>
           (case x of Value a \<Rightarrow> Q a s' | Error e \<Rightarrow> E e s' | Died \<Rightarrow> C s')))"

named_theorems io_rules

lemma io_postI:
  assumes "\<And>as x s' as'. list_all ok as \<Longrightarrow> m s as = (x, s', as') \<Longrightarrow>
    list_all ok as' \<and> (case x of Value a \<Rightarrow> Q a s' | Error e \<Rightarrow> E e s' | Died \<Rightarrow> C s')"
  shows "io_post ok m Q E C s"
  unfolding io_post_def using assms by (auto split: prod.split)

lemma io_postD:
  "io_post ok m Q E C s \<Longrightarrow> list_all ok as \<Longrightarrow> m s as = (x, s', as') \<Longrightarrow>
    list_all ok as' \<and> (case x of Value a \<Rightarrow> Q a s' | Error e \<Rightarrow> E e s' | Died \<Rightarrow> C s')"
  unfolding io_post_def by fastforce

lemma io_post_return [io_rules]: "Q x s \<Longrightarrow> io_post ok (io_return x) Q E C s"
  by (simp add: io_post_def io_return_def)

lemma io_post_fail [io_rules]: "E e s \<Longrightarrow> io_post ok (io_fail e) Q E C s"
  by (simp add: io_post_def io_fail_def)

lemma io_post_panic [io_rules]: "C s \<Longrightarrow> io_post ok io_panic Q E C s"
  by (simp add: io_post_def io_panic_def)

lemma io_post_simps [simp]:
  "io_post ok (io_return x) Q E C s = Q x s" "io_post ok (io_fail e) Q E C s = E e s" "io_post ok io_panic Q E C s = C s"
  by (auto simp: io_post_def io_return_def io_fail_def io_panic_def intro: exI [of _ "[]"])

lemma io_post_result [io_rules]:
  "(\<And>e. r = Inl e \<Longrightarrow> E e s) \<Longrightarrow> (\<And>x. r = Inr x \<Longrightarrow> Q x s) \<Longrightarrow> io_post ok (io_result r) Q E C s"
  by (cases r) (simp_all add: io_result_def io_post_fail io_post_return)

lemma io_post_state [io_rules]: "Q (f s) s \<Longrightarrow> io_post ok (io_state f) Q E C s"
  by (simp add: io_post_def io_state_def)

lemma io_post_update [io_rules]: "Q () (f s) \<Longrightarrow> io_post ok (io_update f) Q E C s"
  by (simp add: io_post_def io_update_def)

lemma io_post_bind [io_rules]:
  assumes "io_post ok m (\<lambda>a. io_post ok (f a) Q E C) E C s"
  shows "io_post ok (io_bind m f) Q E C s"
proof (rule io_postI)
  fix as x s' as'
  assume as: "list_all ok as" and r: "io_bind m f s as = (x, s', as')"
  obtain y t bs where m: "m s as = (y, t, bs)" by (cases "m s as")
  note p = io_postD [OF assms as m]
  show "list_all ok as' \<and> (case x of Value a \<Rightarrow> Q a s' | Error e \<Rightarrow> E e s' | Died \<Rightarrow> C s')"
  proof (cases y)
    case (Value a)
    then have "f a t bs = (x, s', as')" using r m by (simp add: io_bind_def)
    then show ?thesis using p Value io_postD [of ok "f a" Q E C t bs x s' as'] by simp
  qed (use r m p in \<open>auto simp: io_bind_def\<close>)
qed

lemma io_post_then [io_rules]:
  "io_post ok m (\<lambda>_. io_post ok n Q E C) E C s \<Longrightarrow> io_post ok (io_then m n) Q E C s"
  unfolding io_then_def by (rule io_post_bind)

lemma io_post_attempt [io_rules]:
  assumes "io_post ok m (\<lambda>a. Q (Inr a)) (\<lambda>e. Q (Inl e)) C s"
  shows "io_post ok (io_attempt m) Q E C s"
proof (rule io_postI)
  fix as x s' as'
  assume as: "list_all ok as" and r: "io_attempt m s as = (x, s', as')"
  obtain y t bs where m: "m s as = (y, t, bs)" by (cases "m s as")
  show "list_all ok as' \<and> (case x of Value a \<Rightarrow> Q a s' | Error e \<Rightarrow> E e s' | Died \<Rightarrow> C s')"
    using io_postD [OF assms as m] r m by (cases y) (auto simp: io_attempt_def)
qed

lemma io_post_write:
  assumes "ok Done \<Longrightarrow> Q () (f s)" and "ok Refused \<Longrightarrow> E e s" and "ok DoneWithError \<Longrightarrow> E e (f s)" and "ok DiesBefore \<Longrightarrow> C s"
    and "ok DiesAfter \<Longrightarrow> C (f s)" and "\<And>n. ok (DiesWithin n) \<Longrightarrow> C (part n s)" and "ok Done"
    and "\<And>n. ok (RefusedWithin n) \<Longrightarrow> E e (part n s)"
  shows "io_post ok (io_write e part f) Q E C s"
proof (rule io_postI)
  fix as x s' as'
  assume as: "list_all ok as" and r: "io_write e part f s as = (x, s', as')"
  obtain a bs where n: "next_answer as = (a, bs)" by fastforce
  then have "ok a" "list_all ok bs" using as assms(7) by (cases as; auto)+
  then show "list_all ok as' \<and> (case x of Value a \<Rightarrow> Q a s' | Error e \<Rightarrow> E e s' | Died \<Rightarrow> C s')"
    using r n assms by (cases a) (auto simp: io_write_def)
qed

lemma io_post_strict:
  assumes "ok Done \<Longrightarrow> Q () (f s)" and "E e s" and "ok DiesBefore \<or> (\<exists>n. ok (DiesWithin n)) \<Longrightarrow> C s"
    and "ok DiesAfter \<Longrightarrow> C (f s)" and "ok Done"
  shows "io_post ok (io_strict e f) Q E C s"
proof (rule io_postI)
  fix as x s' as'
  assume as: "list_all ok as" and r: "io_strict e f s as = (x, s', as')"
  obtain a bs where n: "next_answer as = (a, bs)" by fastforce
  then have "ok a" "list_all ok bs" using as assms(5) by (cases as; auto)+
  then show "list_all ok as' \<and> (case x of Value a \<Rightarrow> Q a s' | Error e \<Rightarrow> E e s' | Died \<Rightarrow> C s')"
    using r n assms by (cases a) (auto simp: io_strict_def)
qed

text \<open>The two kinds of environment: one that answers in any way, and one without faults.\<close>

definition any_answer :: "answer \<Rightarrow> bool" where "any_answer a \<longleftrightarrow> True"

definition no_fault :: "answer \<Rightarrow> bool" where "no_fault a \<longleftrightarrow> a = Done"

lemma any_answer [simp]: "any_answer a" by (simp add: any_answer_def)

lemma no_fault_simps [simp]: "no_fault a \<longleftrightarrow> a = Done" by (simp add: no_fault_def)

lemma io_post_write_any [io_rules]:
  "Q () (f s) \<Longrightarrow> E e s \<Longrightarrow> E e (f s) \<Longrightarrow> C s \<Longrightarrow> C (f s) \<Longrightarrow> (\<And>n. C (part n s)) \<Longrightarrow> (\<And>n. E e (part n s)) \<Longrightarrow> io_post any_answer (io_write e part f) Q E C s"
  by (rule io_post_write) simp_all

lemma io_post_write_done [io_rules]: "Q () (f s) \<Longrightarrow> io_post no_fault (io_write e part f) Q E C s"
  by (rule io_post_write) simp_all

lemma io_post_effect_any [io_rules]:
  "Q () (f s) \<Longrightarrow> E e s \<Longrightarrow> E e (f s) \<Longrightarrow> C s \<Longrightarrow> C (f s) \<Longrightarrow> io_post any_answer (io_effect e f) Q E C s"
  unfolding io_effect_def by (rule io_post_write_any)

lemma io_post_effect_done [io_rules]: "Q () (f s) \<Longrightarrow> io_post no_fault (io_effect e f) Q E C s"
  unfolding io_effect_def by (rule io_post_write_done)

lemma io_post_strict_any [io_rules]:
  "Q () (f s) \<Longrightarrow> E e s \<Longrightarrow> C s \<Longrightarrow> C (f s) \<Longrightarrow> io_post any_answer (io_strict e f) Q E C s"
  by (rule io_post_strict) simp_all

lemma io_post_strict_done [io_rules]:
  assumes "Q () (f s)"
  shows "io_post no_fault (io_strict e f) Q E C s"
proof (rule io_postI)
  fix as x s' as'
  assume "list_all no_fault as" "io_strict e f s as = (x, s', as')"
  then show "list_all no_fault as' \<and> (case x of Value a \<Rightarrow> Q a s' | Error e \<Rightarrow> E e s' | Died \<Rightarrow> C s')"
    using assms by (cases as) (auto simp: io_strict_def)
qed

lemma io_post_check_any [io_rules]: "Q () s \<Longrightarrow> E e s \<Longrightarrow> C s \<Longrightarrow> io_post any_answer (io_check e) Q E C s"
  unfolding io_check_def by (rule io_post_effect_any)

lemma io_post_check_done [io_rules]: "Q () s \<Longrightarrow> io_post no_fault (io_check e) Q E C s"
  unfolding io_check_def by (rule io_post_effect_done)

lemma io_post_when [io_rules]:
  "(b \<Longrightarrow> io_post ok m Q E C s) \<Longrightarrow> (\<not> b \<Longrightarrow> Q () s) \<Longrightarrow> io_post ok (io_when b m) Q E C s"
  by (simp add: io_when_def io_post_return)

lemma io_post_weaken:
  assumes "io_post ok m Q E C s" and "\<And>a t. Q a t \<Longrightarrow> Q' a t" and "\<And>e t. E e t \<Longrightarrow> E' e t" and "\<And>t. C t \<Longrightarrow> C' t"
  shows "io_post ok m Q' E' C' s"
proof (rule io_postI)
  fix as x s' as'
  assume "list_all ok as" and "m s as = (x, s', as')"
  from io_postD [OF assms(1) this] assms(2-4)
  show "list_all ok as' \<and> (case x of Value a \<Rightarrow> Q' a s' | Error e \<Rightarrow> E' e s' | Died \<Rightarrow> C' s')" by (cases x) simp_all
qed

end
