(* ===== verification/Session_Store.thy ===== *)
theory Session_Store
  imports Session_View Go_Io
begin

text \<open>
  Creating, deleting and extending a session on disk, \<open>sessionstore/store.go\<close> with \<open>log.go\<close> and the writes of
  \<open>state.go\<close>: the transcript of a session and the two marker files beside it that make creation and deletion
  survive errors and the death of the process. Every call on the file system is a call that may fail or be cut off.
  The store holds the locks of the session during each operation, so an operation is a sequential program.
\<close>

section \<open>Files and parameters\<close>

record 'v createMarker =
  cm_V :: int
  cm_Generated :: bool
  cm_StateHash :: go_string
  cm_Header :: "'v header"

definition createMarkerVersion :: int where "createMarkerVersion = 1"

text \<open>
  \<open>encoding/json\<close> on the types of the store, SHA-256, and the option \<open>Fsync\<close>. \<open>st_marshal\<close> is
  \<open>json.Marshal\<close> of a record, \<open>st_parse_uint\<close> \<open>json.Unmarshal\<close> into a \<open>uint64\<close>.
\<close>

record ('v, 'p) store_codec =
  st_sha :: "go_string \<Rightarrow> go_string"
  st_records :: "('v, 'p) codec"
  st_marshal :: "('v, 'p) log_record \<Rightarrow> go_string option"
  st_marker :: "'v createMarker \<Rightarrow> go_string"
  st_parse_marker :: "go_string \<Rightarrow> 'v createMarker option"
  st_parse_uint :: "go_string \<Rightarrow> 64 word option"
  st_event_json :: "('v, 'p) event \<Rightarrow> go_string option"
  st_clone :: "'v state_map \<Rightarrow> 'v state_map"
  st_encode :: "'v encoder"
  st_fsync :: bool

record session_files =
  sf_log :: "go_string option"
  sf_create :: "go_string option"
  sf_delete :: "go_string option"

record store_world =
  sw_files :: session_files
  sw_orders :: app_orders

type_synonym 'a store_io = "(store_world, store_error, 'a) io"

definition put_log :: "go_string option \<Rightarrow> store_world \<Rightarrow> store_world" where
  "put_log d w = w\<lparr>sw_files := (sw_files w)\<lparr>sf_log := d\<rparr>\<rparr>"

definition put_create :: "go_string option \<Rightarrow> store_world \<Rightarrow> store_world" where
  "put_create d w = w\<lparr>sw_files := (sw_files w)\<lparr>sf_create := d\<rparr>\<rparr>"

definition put_delete :: "go_string option \<Rightarrow> store_world \<Rightarrow> store_world" where
  "put_delete d w = w\<lparr>sw_files := (sw_files w)\<lparr>sf_delete := d\<rparr>\<rparr>"

text \<open>
  What the calls of an operation on the shared state of the application give: \<open>readSharedProjection\<close>,
  \<open>buildRecordInventory\<close> if it runs, \<open>reconcileCommittedShared\<close>, and the scan and repair before a deletion.
  They read and write other files, the journals and snapshots.
\<close>

record 'v shared_calls =
  sh_read :: "store_error option"
  sh_build :: "store_error + recordInventory"
  sh_reconcile :: "'v stateRecord list \<Rightarrow> 'v sharedProjection \<times> store_error option"
  sh_repair :: "store_error option"

definition fail_if :: "store_error option \<Rightarrow> unit store_io" where
  "fail_if e = (case e of None \<Rightarrow> io_return () | Some x \<Rightarrow> io_fail x)"

section \<open>The transcript\<close>

text \<open>\<open>readSessionLog\<close>: \<open>ensureParent\<close>, \<open>Chmod\<close> and \<open>ReadFile\<close>, then the torn tail is cut off.\<close>

definition truncateTornFile :: "go_string \<Rightarrow> go_string store_io" where
  "truncateTornFile data =
     (let kept = take (torn_cut data) data
      in io_then (io_check ErrIO) (io_then (io_effect ErrIO (put_log (Some kept))) (io_then (io_check ErrIO) (io_return kept))))"

definition readSessionLog :: "go_string store_io" where
  "readSessionLog =
     io_then (io_check ErrIO) (io_then (io_check ErrIO) (io_then (io_check ErrIO)
       (io_bind (io_state (\<lambda>w. sf_log (sw_files w))) (\<lambda>file.
          case file of
            None \<Rightarrow> io_fail ErrSessionNotFound
          | Some data \<Rightarrow> if data = [] \<or> last data = LF then io_return data else truncateTornFile data))))"

definition load_session :: "('v, 'p) store_codec \<Rightarrow> identity \<Rightarrow> go_string \<Rightarrow> (('v, 'p) session_log) store_io" where
  "load_session sc i name =
     io_bind readSessionLog (\<lambda>data.
       case parse (st_sha sc) (st_records sc) i name data of
         Inl (Corrupt _) \<Rightarrow> io_fail ErrCorruptLog
       | Inl _ \<Rightarrow> io_panic
       | Inr l \<Rightarrow> io_return l)"

text \<open>\<open>writeAndClose\<close> on a file that holds \<open>prior\<close>: whether it is committed, and the error.\<close>

definition writeAndClose :: "go_string \<Rightarrow> go_string \<Rightarrow> (bool \<times> store_error option) store_io" where
  "writeAndClose prior data =
     io_bind (io_attempt (io_write ErrIO (\<lambda>n. put_log (Some (prior @ take n data))) (put_log (Some (prior @ data))))) (\<lambda>w.
       case w of
         Inl e \<Rightarrow> io_return (False, Some e)
       | Inr _ \<Rightarrow> io_bind (io_attempt (io_check ErrIO)) (\<lambda>c.
           case c of Inl e \<Rightarrow> io_return (True, Some e) | Inr _ \<Rightarrow> io_return (True, None)))"

definition createLog :: "('v, 'p) store_codec \<Rightarrow> go_string \<Rightarrow> (bool \<times> store_error option) store_io" where
  "createLog sc data =
     io_bind (io_state (\<lambda>w. sf_log (sw_files w))) (\<lambda>file.
       if file \<noteq> None then io_return (False, Some ErrSessionExists)
       else io_bind (io_attempt (io_strict ErrIO (put_log (Some [])))) (\<lambda>opened.
         case opened of
           Inl e \<Rightarrow> io_return (False, Some e)
         | Inr _ \<Rightarrow> io_bind (writeAndClose [] data) (\<lambda>(_, err).
             case err of
               Some e \<Rightarrow> io_then (io_attempt (io_strict ErrIO (put_log None))) (io_return (False, Some e))
             | None \<Rightarrow> io_bind (io_attempt (io_when (st_fsync sc) (io_check ErrIO))) (\<lambda>synced.
                 case synced of Inl e \<Rightarrow> io_return (True, Some e) | Inr _ \<Rightarrow> io_return (True, None)))))"

definition appendBytes :: "go_string \<Rightarrow> (bool \<times> store_error option) store_io" where
  "appendBytes data =
     io_bind (io_attempt (io_check ErrIO)) (\<lambda>opened.
       case opened of
         Inl e \<Rightarrow> io_return (False, Some e)
       | Inr _ \<Rightarrow> io_bind (io_state (\<lambda>w. sf_log (sw_files w))) (\<lambda>file.
           case file of None \<Rightarrow> io_return (False, Some ErrIO) | Some prior \<Rightarrow> writeAndClose prior data))"

section \<open>Markers\<close>

definition valid_marker :: "'v createMarker \<Rightarrow> bool" where
  "valid_marker m \<longleftrightarrow> cm_V m = createMarkerVersion \<and> cm_StateHash m \<noteq> [] \<and> h_ID (cm_Header m) \<noteq> [] \<and>
     h_AppName (cm_Header m) \<noteq> [] \<and> h_UserID (cm_Header m) \<noteq> [] \<and> h_Incarnation (cm_Header m) \<noteq> 0"

definition readCreateMarker :: "('v, 'p) store_codec \<Rightarrow> ('v createMarker option) store_io" where
  "readCreateMarker sc =
     io_then (io_check ErrIO) (io_bind (io_state (\<lambda>w. sf_create (sw_files w))) (\<lambda>file.
       case file of
         None \<Rightarrow> io_return None
       | Some data \<Rightarrow>
           (case st_parse_marker sc data of
              None \<Rightarrow> io_fail ErrCorruptLog
            | Some m \<Rightarrow> if valid_marker m then io_return (Some m) else io_fail ErrCorruptLog)))"

definition readDeleteMarker :: "('v, 'p) store_codec \<Rightarrow> (64 word option) store_io" where
  "readDeleteMarker sc =
     io_then (io_check ErrIO) (io_bind (io_state (\<lambda>w. sf_delete (sw_files w))) (\<lambda>file.
       case file of
         None \<Rightarrow> io_return None
       | Some data \<Rightarrow>
           (case st_parse_uint sc data of
              None \<Rightarrow> io_fail ErrIO
            | Some n \<Rightarrow> if n = 0 then io_fail ErrIO else io_return (Some n))))"

definition ensureNoDeleteMarker :: "unit store_io" where
  "ensureNoDeleteMarker =
     io_then (io_check ErrIO) (io_bind (io_state (\<lambda>w. sf_delete (sw_files w))) (\<lambda>file.
       if file \<noteq> None then io_fail ErrSessionExists else io_return ()))"

definition writeCreateMarker :: "('v, 'p) store_codec \<Rightarrow> 'v createMarker \<Rightarrow> unit store_io" where
  "writeCreateMarker sc m = io_effect ErrIO (put_create (Some (st_marker sc m)))"

definition writeDeleteMarker :: "64 word \<Rightarrow> unit store_io" where
  "writeDeleteMarker n = io_effect ErrIO (put_delete (Some (decimal (uint n))))"

definition removeCreateMarker :: "unit store_io" where
  "removeCreateMarker = io_strict ErrIO (put_create None)"

definition rollbackCreateMarker :: "('v, 'p) store_codec \<Rightarrow> unit store_io" where
  "rollbackCreateMarker sc = io_then removeCreateMarker (io_when (st_fsync sc) (io_check ErrIO))"

text \<open>
  \<open>finishMarker\<close> for the marker that \<open>get\<close> reads and \<open>put\<close> writes. When its removal does not sync, the
  marker is written again so that the operation is retried.
\<close>

definition finishMarker ::
  "('v, 'p) store_codec \<Rightarrow> (session_files \<Rightarrow> go_string option) \<Rightarrow> (go_string option \<Rightarrow> store_world \<Rightarrow> store_world) \<Rightarrow> bool \<Rightarrow>
   unit store_io" where
  "finishMarker sc get put missingOK =
     io_then (io_check ErrIO) (io_bind (io_state (\<lambda>w. get (sw_files w))) (\<lambda>marker.
       if marker = None \<and> \<not> missingOK then io_fail ErrIO
       else io_then (io_strict ErrIO (put None))
         (if \<not> st_fsync sc then io_return ()
          else io_bind (io_attempt (io_check ErrIO)) (\<lambda>synced.
            case synced of
              Inr _ \<Rightarrow> io_return ()
            | Inl e \<Rightarrow> io_then (case marker of None \<Rightarrow> io_return () | Some data \<Rightarrow> io_effect ErrIO (put (Some data))) (io_fail e)))))"

definition finishCreateMarker :: "('v, 'p) store_codec \<Rightarrow> unit store_io" where
  "finishCreateMarker sc = finishMarker sc sf_create put_create False"

definition finishDeleteMarker :: "('v, 'p) store_codec \<Rightarrow> unit store_io" where
  "finishDeleteMarker sc = io_then (io_when (st_fsync sc) (io_check ErrIO)) (finishMarker sc sf_delete put_delete True)"

section \<open>Orders\<close>

definition write_outcome_of :: "answer \<Rightarrow> write_outcome" where
  "write_outcome_of a = (case a of Done \<Rightarrow> Replaced | DoneWithError \<Rightarrow> ReplacedWithError | _ \<Rightarrow> NotReplaced)"

text \<open>The reservation with the answers for \<open>ensureParent\<close> and for the write of the sequence file.\<close>

definition reserve_io ::
  "('v, 'p) store_codec \<Rightarrow> (store_error + recordInventory) \<Rightarrow> (64 word \<Rightarrow> 'v stateRecord) \<Rightarrow> ('v stateRecord) store_io" where
  "reserve_io sc build candidate =
     io_bind (io_attempt (io_check ErrIO)) (\<lambda>parent. \<lambda>w as.
       case next_answer as of (a, as') \<Rightarrow>
         (case reserveRecord (st_encode sc) build (\<not> isl parent) (if a = DiesAfter then Replaced else write_outcome_of a) candidate (sw_orders w) of
            (r, orders) \<Rightarrow>
              ((case a of
                  DiesBefore \<Rightarrow> Died | DiesAfter \<Rightarrow> Died | DiesWithin _ \<Rightarrow> Died
                | _ \<Rightarrow> (case r of Inl e \<Rightarrow> Error e | Inr x \<Rightarrow> Value x)),
               w\<lparr>sw_orders := orders\<rparr>, as')))"

definition validate_io ::
  "('v, 'p) store_codec \<Rightarrow> (store_error + recordInventory) \<Rightarrow> 'v stateRecord \<Rightarrow> unit store_io" where
  "validate_io sc build r = (\<lambda>w as.
     case next_answer as of (a, as') \<Rightarrow>
       (case validateReservedRecord (st_encode sc) build (if a = DiesAfter then Replaced else write_outcome_of a) r (sw_orders w) of
          (e, orders) \<Rightarrow>
            ((case a of
                DiesBefore \<Rightarrow> Died | DiesAfter \<Rightarrow> Died | DiesWithin _ \<Rightarrow> Died
              | _ \<Rightarrow> (case e of Some x \<Rightarrow> Error x | None \<Rightarrow> Value ())),
             w\<lparr>sw_orders := orders\<rparr>, as')))"

definition release_io :: "('v, 'p) store_codec \<Rightarrow> 'v stateRecord \<Rightarrow> unit store_io" where
  "release_io sc r = io_update (\<lambda>w. w\<lparr>sw_orders := releaseRecordReservation (st_encode sc) r (sw_orders w)\<rparr>)"

section \<open>Creating a session\<close>

text \<open>The request once the identifier is resolved and the initial state hashed.\<close>

record 'v create_request =
  rq_identity :: identity
  rq_State :: "'v delta"
  rq_hash :: go_string
  rq_generated :: bool
  rq_now :: int

definition matchingCreateMarker :: "'v createMarker \<Rightarrow> 'v create_request \<Rightarrow> bool" where
  "matchingCreateMarker m rq \<longleftrightarrow> cm_StateHash m = rq_hash rq \<and> h_AppName (cm_Header m) = id_app (rq_identity rq) \<and>
     h_UserID (cm_Header m) = id_user (rq_identity rq) \<and> h_ID (cm_Header m) = id_session (rq_identity rq)"

text \<open>The state record of a creation, from the header.\<close>

definition create_record :: "('v, 'p) store_codec \<Rightarrow> go_string \<Rightarrow> 'v header \<Rightarrow> 'v stateRecord" where
  "create_record sc name h =
     \<lparr>sr_ID = sharedRecordID (st_sha sc) ''create'' (h_UserID h) (h_ID h) (h_Incarnation h) [],
      sr_Order = h_Incarnation h, sr_Path = name, sr_Line = 1, sr_UserID = h_UserID h,
      sr_AppDelta = h_AppDelta h, sr_UserDelta = h_UserDelta h\<rparr>"

definition created_header :: "('v, 'p) store_codec \<Rightarrow> 'v create_request \<Rightarrow> 64 word \<Rightarrow> 'v header" where
  "created_header sc rq order =
     (let (local, app, user) = splitState (entries (cloneMap (st_clone sc) (rq_State rq))); i = rq_identity rq
      in \<lparr>h_ID = id_session i, h_AppName = id_app i, h_UserID = id_user i, h_State = Some local, h_AppDelta = Some app,
          h_UserDelta = Some user, h_CreatedAt = rq_now rq, h_Incarnation = order\<rparr>)"

definition persistCreateStart ::
  "('v, 'p) store_codec \<Rightarrow> 'v createMarker \<Rightarrow> 'v stateRecord \<Rightarrow> unit store_io" where
  "persistCreateStart sc m pending =
     io_bind (io_attempt (io_then (io_check ErrIO) (writeCreateMarker sc m))) (\<lambda>written.
       case written of
         Inl e \<Rightarrow> io_then (release_io sc pending) (io_fail e)
       | Inr _ \<Rightarrow> io_return ())"

text \<open>\<open>normalizedRecordLine\<close> panics when the record does not marshal.\<close>

definition normalizedRecordLine :: "('v, 'p) store_codec \<Rightarrow> ('v, 'p) log_record \<Rightarrow> go_string store_io" where
  "normalizedRecordLine sc r = (case st_marshal sc r of None \<Rightarrow> io_panic | Some data \<Rightarrow> io_return (data @ [LF]))"

definition header_line :: "('v, 'p) store_codec \<Rightarrow> 'v header \<Rightarrow> go_string store_io" where
  "header_line sc h = normalizedRecordLine sc (header_record h)"

definition reconcile_io :: "'v shared_calls \<Rightarrow> 'v stateRecord list \<Rightarrow> ('v sharedProjection) store_io" where
  "reconcile_io sh records =
     (case sh_reconcile sh records of (_, Some e) \<Rightarrow> io_fail e | (projection, None) \<Rightarrow> io_return projection)"

definition commitCreate ::
  "('v, 'p) store_codec \<Rightarrow> 'v shared_calls \<Rightarrow> 'v header \<Rightarrow> 'v stateRecord \<Rightarrow> (('v, 'p) durableSession) store_io" where
  "commitCreate sc sh h pending =
     io_bind (header_line sc h) (\<lambda>data.
     io_bind (createLog sc data) (\<lambda>(committed, createErr).
       case createErr of
         Some e \<Rightarrow>
           if committed then io_fail e
           else io_then (release_io sc pending) (io_then (rollbackCreateMarker sc) (io_fail e))
       | None \<Rightarrow>
           io_bind (reconcile_io sh [pending]) (\<lambda>projection.
             io_then (finishCreateMarker sc)
               (io_return (newDurableSession (st_clone sc) (st_records sc) h []
                 (mergeState (entries (h_State h)) (sp_App projection) (sp_User projection)) (h_CreatedAt h))))))"

definition startCreate ::
  "('v, 'p) store_codec \<Rightarrow> 'v shared_calls \<Rightarrow> go_string \<Rightarrow> 'v create_request \<Rightarrow> (('v, 'p) durableSession) store_io" where
  "startCreate sc sh name rq =
     io_then (io_check ErrIO) (io_bind (io_state (\<lambda>w. sf_log (sw_files w))) (\<lambda>file.
       if file \<noteq> None then io_fail ErrSessionExists
       else io_then (fail_if (sh_read sh))
         (io_bind (reserve_io sc (sh_build sh) (\<lambda>order. create_record sc name (created_header sc rq order))) (\<lambda>pending.
            let h = created_header sc rq (sr_Order pending);
                m = \<lparr>cm_V = createMarkerVersion, cm_Generated = rq_generated rq, cm_StateHash = rq_hash rq, cm_Header = h\<rparr>
            in io_then (persistCreateStart sc m pending) (commitCreate sc sh h pending)))))"

definition resumeCreate ::
  "('v, 'p) store_codec \<Rightarrow> 'v shared_calls \<Rightarrow> identity \<Rightarrow> go_string \<Rightarrow> 'v createMarker \<Rightarrow> (('v, 'p) durableSession) store_io" where
  "resumeCreate sc sh i name m =
     (let h = cm_Header m
      in io_then (fail_if (sh_read sh))
        (io_then (validate_io sc (sh_build sh) (create_record sc name h))
        (io_bind (header_line sc h) (\<lambda>data.
        (io_bind (io_attempt (load_session sc i name)) (\<lambda>loaded.
        (io_bind
          (if loaded = Inl ErrSessionNotFound
           then io_bind (createLog sc data) (\<lambda>(_, err). case err of Some e \<Rightarrow> io_fail e | None \<Rightarrow> load_session sc i name)
           else io_result loaded) (\<lambda>l.
        if l_header l \<noteq> Some h then io_fail ErrCorruptLog
        else io_then (io_when (st_fsync sc) (io_check ErrIO))
          (io_bind (reconcile_io sh (l_stateRecords l)) (\<lambda>projection.
            io_then (finishCreateMarker sc)
              (io_return (newDurableSession (st_clone sc) (st_records sc) h []
                (sessionState (st_clone sc) h (l_events l) projection) (h_CreatedAt h)))))))))))))"

text \<open>\<open>Store.create\<close> for a resolved identifier, under the locks.\<close>

definition create_session ::
  "('v, 'p) store_codec \<Rightarrow> 'v shared_calls \<Rightarrow> go_string \<Rightarrow> 'v create_request \<Rightarrow> (('v, 'p) durableSession) store_io" where
  "create_session sc sh name rq =
     io_then ensureNoDeleteMarker (io_bind (readCreateMarker sc) (\<lambda>marker.
       case marker of
         None \<Rightarrow> startCreate sc sh name rq
       | Some m \<Rightarrow> if matchingCreateMarker m rq then resumeCreate sc sh (rq_identity rq) name m else io_fail ErrSessionExists))"

section \<open>Deleting a session\<close>

definition resumeDelete :: "('v, 'p) store_codec \<Rightarrow> (store_error + ('v, 'p) session_log) \<Rightarrow> 64 word \<Rightarrow> unit store_io" where
  "resumeDelete sc loaded marker =
     (case loaded of
        Inr l \<Rightarrow>
          if incarnation_of l \<noteq> marker then finishDeleteMarker sc
          else io_then (io_strict ErrIO (put_log None)) (io_then removeCreateMarker (finishDeleteMarker sc))
      | Inl e \<Rightarrow>
          if e \<noteq> ErrSessionNotFound then io_fail e else io_then removeCreateMarker (finishDeleteMarker sc))"

definition deletePendingCreate :: "('v, 'p) store_codec \<Rightarrow> 'v createMarker option \<Rightarrow> unit store_io" where
  "deletePendingCreate sc pending =
     (case pending of
        None \<Rightarrow> io_return ()
      | Some m \<Rightarrow>
          io_then (writeDeleteMarker (h_Incarnation (cm_Header m))) (io_then removeCreateMarker (finishDeleteMarker sc)))"

definition deleteExisting :: "('v, 'p) store_codec \<Rightarrow> 'v shared_calls \<Rightarrow> ('v, 'p) session_log \<Rightarrow> unit store_io" where
  "deleteExisting sc sh l =
     io_then (fail_if (sh_repair sh))
       (io_then (writeDeleteMarker (incarnation_of l))
         (io_then (io_strict ErrIO (put_log None)) (io_then removeCreateMarker (finishDeleteMarker sc))))"

definition deleteLocked :: "('v, 'p) store_codec \<Rightarrow> 'v shared_calls \<Rightarrow> identity \<Rightarrow> go_string \<Rightarrow> unit store_io" where
  "deleteLocked sc sh i name =
     io_bind (io_attempt (load_session sc i name)) (\<lambda>loaded.
     io_bind (readDeleteMarker sc) (\<lambda>marker.
     io_bind (readCreateMarker sc) (\<lambda>pending.
       case marker of
         Some m \<Rightarrow> resumeDelete sc loaded m
       | None \<Rightarrow>
           (case loaded of
              Inl e \<Rightarrow> if e = ErrSessionNotFound then deletePendingCreate sc pending else io_fail e
            | Inr l \<Rightarrow> deleteExisting sc sh l))))"

section \<open>Appending an event\<close>

text \<open>\<open>cloneEvent\<close> and the removal of temporary keys.\<close>

definition stored_event :: "('v, 'p) codec \<Rightarrow> ('v, 'p) event \<Rightarrow> ('v, 'p) event" where
  "stored_event cd e =
     (let c = cd_clone cd e in c\<lparr>ev_StateDelta := map_option withoutTemporaryState (ev_StateDelta c)\<rparr>)"

text \<open>An error of the reconciliation after the event is committed fails the call only if it is a conflict.\<close>

definition reconcile_committed :: "'v shared_calls \<Rightarrow> 'v stateRecord list \<Rightarrow> ('v sharedProjection) store_io" where
  "reconcile_committed sh records =
     (case sh_reconcile sh records of
        (projection, Some e) \<Rightarrow> if e = ErrRecordConflict then io_fail e else io_return projection
      | (projection, None) \<Rightarrow> io_return projection)"

definition event_state_record ::
  "('v, 'p) store_codec \<Rightarrow> identity \<Rightarrow> go_string \<Rightarrow> ('v, 'p) session_log \<Rightarrow> ('v, 'p) event \<Rightarrow> 64 word \<Rightarrow> 'v stateRecord" where
  "event_state_record sc i name l e order =
     (let (app, user) = state_deltas (ev_StateDelta e)
      in \<lparr>sr_ID = sharedRecordID (st_sha sc) ''event'' (id_user i) (id_session i) (incarnation_of l) (ev_ID e),
          sr_Order = order, sr_Path = name, sr_Line = slen (l_events l) + 2, sr_UserID = id_user i,
          sr_AppDelta = app, sr_UserDelta = user\<rparr>)"

definition appendNewEvent ::
  "('v, 'p) store_codec \<Rightarrow> 'v shared_calls \<Rightarrow> identity \<Rightarrow> go_string \<Rightarrow> ('v, 'p) session_log \<Rightarrow> ('v, 'p) event \<Rightarrow>
   ('v, 'p) durableSession \<Rightarrow> (('v, 'p) durableSession) store_io" where
  "appendNewEvent sc sh i name l e s =
     io_bind (reserve_io sc (sh_build sh) (event_state_record sc i name l e)) (\<lambda>pending.
     io_bind
       (case st_marshal sc (event_record (sr_Order pending) e) of
          None \<Rightarrow> io_return (False, Some ErrRequest)
        | Some data \<Rightarrow> appendBytes (data @ [LF])) (\<lambda>(committed, err).
       case err of
         Some x \<Rightarrow> io_then (if committed then io_return () else release_io sc pending) (io_fail x)
       | None \<Rightarrow>
           io_bind (reconcile_committed sh (l_stateRecords l @ [pending])) (\<lambda>projection.
             io_return (appendCommitted (st_records sc) e projection s))))"

definition replayCommittedEvent ::
  "('v, 'p) store_codec \<Rightarrow> 'v shared_calls \<Rightarrow> ('v, 'p) event \<Rightarrow> 'v stateRecord list \<Rightarrow> ('v, 'p) event \<Rightarrow>
   ('v, 'p) durableSession \<Rightarrow> (('v, 'p) durableSession) store_io" where
  "replayCommittedEvent sc sh prior records e s =
     (if \<not> sameEvent (st_event_json sc) prior e then io_fail ErrInvalidEvent
      else io_bind (reconcile_committed sh records) (\<lambda>projection.
        io_return (ensureCommitted (st_records sc) prior projection s)))"

text \<open>
  \<open>AppendEvent\<close> of an event with an identifier to a handle of this store; a partial event is skipped.
  The value is the handle afterwards.
\<close>

definition appendEvent ::
  "('v, 'p) store_codec \<Rightarrow> 'v shared_calls \<Rightarrow> bool \<Rightarrow> identity \<Rightarrow> go_string \<Rightarrow> ('v, 'p) event \<Rightarrow> ('v, 'p) durableSession \<Rightarrow>
   (('v, 'p) durableSession) store_io" where
  "appendEvent sc sh cacheKnown i name e s =
     (if ev_Partial e then io_return s
      else if ev_ID e = [] then io_fail ErrInvalidEvent
      else io_then (if cacheKnown then io_return () else fail_if (sh_read sh))
        (io_bind (load_session sc i name) (\<lambda>l.
          if h_Incarnation (ds_header s) \<noteq> incarnation_of l then io_fail ErrInvalidEvent
          else
            let stored = stored_event (st_records sc) e
            in case eventByID (l_events l) (ev_ID e) of
                 Some prior \<Rightarrow> replayCommittedEvent sc sh prior (l_stateRecords l) stored s
               | None \<Rightarrow> appendNewEvent sc sh i name l stored s)))"

end
