(* ===== verification/Session_Lifecycle.thy ===== *)
theory Session_Lifecycle
  imports Session_Store
begin

text \<open>
  Creation, deletion and extension of a session under failing calls and sudden death: what the transcript and the
  two markers may look like between operations, and that every operation of \<open>Session_Store\<close> keeps them so.
\<close>

section \<open>What the files hold\<close>

definition norm_header :: "'v header \<Rightarrow> 'v header" where
  "norm_header h = h\<lparr>h_State := omitempty (h_State h), h_AppDelta := omitempty (h_AppDelta h), h_UserDelta := omitempty (h_UserDelta h)\<rparr>"

lemma norm_header_simps [simp]:
  "norm_header (norm_header h) = norm_header h" "h_ID (norm_header h) = h_ID h" "h_AppName (norm_header h) = h_AppName h"
  "h_UserID (norm_header h) = h_UserID h" "h_CreatedAt (norm_header h) = h_CreatedAt h" "h_Incarnation (norm_header h) = h_Incarnation h"
  by (simp_all add: norm_header_def omitempty_def entries_def)

text \<open>
  What is relied on from \<open>encoding/json\<close>, for the headers in \<open>H\<close>: a header record is one line that decodes to
  the header without its empty maps, and so does a marker; a number is read back, and an event copied keeps its identifier.
\<close>

definition codec_ok :: "('v, 'p) store_codec \<Rightarrow> 'v header set \<Rightarrow> bool" where
  "codec_ok sc H \<longleftrightarrow>
     (\<forall>h \<in> H. norm_header h \<in> H \<and>
       (\<exists>raw. st_marshal sc (header_record h) = Some raw \<and> line_decodes (st_records sc) raw (header_record (norm_header h)))) \<and>
     (\<forall>m. cm_V m = createMarkerVersion \<longrightarrow> cm_Header m \<in> H \<longrightarrow>
       st_parse_marker sc (st_marker sc m) = Some (m\<lparr>cm_Header := norm_header (cm_Header m)\<rparr>)) \<and>
     (\<forall>n. st_parse_uint sc (decimal (uint n)) = Some n) \<and> clone_keeps_id (st_records sc)"

definition logged :: "('v, 'p) store_codec \<Rightarrow> identity \<Rightarrow> go_string \<Rightarrow> session_files \<Rightarrow> ('v, 'p) session_log option" where
  "logged sc i name f =
     (case sf_log f of
        None \<Rightarrow> None
      | Some d \<Rightarrow> (case loadSessionLog (st_sha sc) (st_records sc) i name d of Inl _ \<Rightarrow> None | Inr l \<Rightarrow> Some l))"

definition creating :: "('v, 'p) store_codec \<Rightarrow> session_files \<Rightarrow> 'v createMarker option" where
  "creating sc f = (case sf_create f of None \<Rightarrow> None | Some b \<Rightarrow> st_parse_marker sc b)"

definition deleting :: "('v, 'p) store_codec \<Rightarrow> session_files \<Rightarrow> 64 word option" where
  "deleting sc f = (case sf_delete f of None \<Rightarrow> None | Some b \<Rightarrow> st_parse_uint sc b)"

definition header_for :: "identity \<Rightarrow> 'v header \<Rightarrow> bool" where
  "header_for i h \<longleftrightarrow> h_ID h = id_session i \<and> h_AppName h = id_app i \<and> h_UserID h = id_user i \<and>
     h_ID h \<noteq> [] \<and> h_AppName h \<noteq> [] \<and> h_UserID h \<noteq> [] \<and> h_CreatedAt h \<noteq> 0 \<and> h_Incarnation h \<noteq> 0"

definition marker_ok :: "'v header set \<Rightarrow> identity \<Rightarrow> 'v createMarker \<Rightarrow> bool" where
  "marker_ok H i m \<longleftrightarrow> valid_marker m \<and> header_for i (cm_Header m) \<and> cm_Header m \<in> H \<and> norm_header (cm_Header m) = cm_Header m"

text \<open>Every file present can be read, and they speak of the same incarnation of the session.\<close>

definition markers_ok :: "('v, 'p) store_codec \<Rightarrow> 'v header set \<Rightarrow> identity \<Rightarrow> session_files \<Rightarrow> bool" where
  "markers_ok sc H i f \<longleftrightarrow>
     (sf_create f \<noteq> None \<longrightarrow> (\<exists>m. creating sc f = Some m \<and> marker_ok H i m)) \<and>
     (sf_delete f \<noteq> None \<longrightarrow> (\<exists>n. deleting sc f = Some n \<and> n \<noteq> 0)) \<and>
     (\<forall>m n. creating sc f = Some m \<longrightarrow> deleting sc f = Some n \<longrightarrow> h_Incarnation (cm_Header m) = n)"

definition coherent :: "('v, 'p) store_codec \<Rightarrow> 'v header set \<Rightarrow> identity \<Rightarrow> go_string \<Rightarrow> session_files \<Rightarrow> bool" where
  "coherent sc H i name f \<longleftrightarrow> markers_ok sc H i f \<and>
     (sf_log f \<noteq> None \<longrightarrow> logged sc i name f \<noteq> None) \<and>
     (\<forall>l m. logged sc i name f = Some l \<longrightarrow> creating sc f = Some m \<longrightarrow> l_header l = Some (cm_Header m)) \<and>
     (\<forall>l n. logged sc i name f = Some l \<longrightarrow> deleting sc f = Some n \<longrightarrow> incarnation_of l = n)"

text \<open>A transcript that was created but whose header line was not written in full.\<close>

definition headless :: "('v, 'p) store_codec \<Rightarrow> 'v header set \<Rightarrow> identity \<Rightarrow> session_files \<Rightarrow> bool" where
  "headless sc H i f \<longleftrightarrow> markers_ok sc H i f \<and> sf_delete f = None \<and> (\<exists>d. sf_log f = Some d \<and> LF \<notin> set d)"

lemma load_headless: "LF \<notin> set d \<Longrightarrow> loadSessionLog sha cd i name d = Inl (Corrupt 1)"
proof -
  assume "LF \<notin> set d"
  then have "fst (recover_log ([] @ d)) = []" by (subst recover_torn) (simp_all add: complete_def)
  then show ?thesis by (simp add: loadSessionLog_def parse_iff parse_lines.simps [of _ _ _ "[]"] empty_log_def)
qed

lemma load_header_line:
  assumes "line_decodes cd raw (header_record h)" "header_for i h"
  obtains l where "loadSessionLog sha cd i name (raw @ [LF]) = Inr l" "l_header l = Some h" "l_events l = []"
proof -
  have "validHeader i (header_record h)" "h_ID h \<noteq> []"
    using assms(2) by (auto simp: validHeader_def header_record_def header_for_def word_gt_0)
  from transcript_loads [OF assms(1) this, where ls = "[]" and es = "[]"] obtain l where
    "loadSessionLog sha cd i name (join_lines [raw]) = Inr l" "l_header l = Some h" "l_events l = []" by auto
  then show ?thesis by (intro that) (simp_all add: join_lines_def)
qed

section \<open>Recovery\<close>

text \<open>Reading a transcript changes at most its torn tail.\<close>

definition settled :: "store_world \<Rightarrow> store_world \<Rightarrow> bool" where
  "settled w w' \<longleftrightarrow> w' = w \<or> (\<exists>d. sf_log (sw_files w) = Some d \<and> w' = put_log (Some (fst (recover_log d))) w)"

lemma settled_refl [simp]: "settled w w" by (simp add: settled_def)

lemma put_simps [simp]:
  "sf_log (sw_files (put_log d w)) = d" "sf_create (sw_files (put_log d w)) = sf_create (sw_files w)"
  "sf_delete (sw_files (put_log d w)) = sf_delete (sw_files w)" "sw_orders (put_log d w) = sw_orders w"
  "sf_log (sw_files (put_create d w)) = sf_log (sw_files w)" "sf_create (sw_files (put_create d w)) = d"
  "sf_delete (sw_files (put_create d w)) = sf_delete (sw_files w)" "sw_orders (put_create d w) = sw_orders w"
  "sf_log (sw_files (put_delete d w)) = sf_log (sw_files w)" "sf_create (sw_files (put_delete d w)) = sf_create (sw_files w)"
  "sf_delete (sw_files (put_delete d w)) = d" "sw_orders (put_delete d w) = sw_orders w"
  by (simp_all add: put_log_def put_create_def put_delete_def)

lemma recover_twice: "recover_log (fst (recover_log d)) = (fst (recover_log d), False)"
  by (rule recover_complete) (rule recover_is_complete)

lemma settled_views:
  assumes "settled w w'"
  shows "logged sc i name (sw_files w') = logged sc i name (sw_files w)" "creating sc (sw_files w') = creating sc (sw_files w)"
    "deleting sc (sw_files w') = deleting sc (sw_files w)" "sf_create (sw_files w') = sf_create (sw_files w)"
    "sf_delete (sw_files w') = sf_delete (sw_files w)" "sf_log (sw_files w') = None \<longleftrightarrow> sf_log (sw_files w) = None"
  using assms by (auto simp: settled_def logged_def creating_def deleting_def loadSessionLog_def recover_twice)

lemma headless_recover: "LF \<notin> set d \<Longrightarrow> LF \<notin> set (fst (recover_log d))"
  by (auto simp: recover_log_def dest: in_set_takeD)

lemma settled_invariants:
  assumes "settled w w'"
  shows "markers_ok sc H i (sw_files w') = markers_ok sc H i (sw_files w)"
    "coherent sc H i name (sw_files w') = coherent sc H i name (sw_files w)"
    "headless sc H i (sw_files w) \<Longrightarrow> headless sc H i (sw_files w')"
proof -
  show m: "markers_ok sc H i (sw_files w') = markers_ok sc H i (sw_files w)"
    unfolding markers_ok_def settled_views [OF assms] by (rule refl)
  show "coherent sc H i name (sw_files w') = coherent sc H i name (sw_files w)"
    unfolding coherent_def m settled_views [OF assms] by (rule refl)
  assume h: "headless sc H i (sw_files w)"
  then show "headless sc H i (sw_files w')"
    using assms m settled_views(5) [OF assms] headless_recover by (auto simp: headless_def settled_def)
qed

lemma truncated_settled:
  assumes "sf_log (sw_files w) = Some d" "d \<noteq> []" "last d \<noteq> LF"
  shows "settled w (put_log (Some (take (torn_cut d) d)) w)"
  using assms by (auto simp: settled_def recover_log_def)

lemma load_session_post:
  assumes "sf_log (sw_files w) = None \<Longrightarrow> E ErrSessionNotFound w"
    and "\<And>w'. settled w w' \<Longrightarrow> E ErrIO w'"
    and "\<And>w'. settled w w' \<Longrightarrow> C w'"
    and "\<And>w'. settled w w' \<Longrightarrow> sf_log (sw_files w) \<noteq> None \<Longrightarrow> logged sc i name (sw_files w) = None \<Longrightarrow> E ErrCorruptLog w'"
    and "\<And>w' l. settled w w' \<Longrightarrow> logged sc i name (sw_files w) = Some l \<Longrightarrow> Q l w'"
  shows "io_post any_answer (load_session sc i name) Q E C w"
proof (cases "sf_log (sw_files w)")
  case None
  then show ?thesis using assms(1-3) unfolding load_session_def readSessionLog_def
    by (auto intro!: io_rules)
next
  case (Some d)
  have parsed: "io_post any_answer
      (case parse (st_sha sc) (st_records sc) i name (fst (recover_log d)) of
         Inl (Corrupt _) \<Rightarrow> io_fail ErrCorruptLog | Inl _ \<Rightarrow> io_panic | Inr l \<Rightarrow> io_return l) Q E C w'"
    if "settled w w'" for w'
    using assms(3-5) [OF that] Some
    by (auto simp: logged_def loadSessionLog_def split: sum.split parse_error.split intro!: io_rules)
  show ?thesis
  proof (cases "d = [] \<or> last d = LF")
    case True
    then have "fst (recover_log d) = d" by (simp add: recover_log_def)
    then show ?thesis using Some True assms(2,3) parsed [OF settled_refl] unfolding load_session_def readSessionLog_def
      by (auto intro!: io_rules)
  next
    case False
    then have "fst (recover_log d) = take (torn_cut d) d" by (simp add: recover_log_def)
    then show ?thesis using Some False assms(2,3) parsed truncated_settled [OF Some]
      unfolding load_session_def readSessionLog_def truncateTornFile_def Let_def
      by (auto intro!: io_rules)
  qed
qed


section \<open>Markers\<close>

text \<open>A marker file of the session: what \<open>get\<close> reads is what \<open>put\<close> wrote, and nothing else changes.\<close>

locale marker_file =
  fixes get :: "session_files \<Rightarrow> go_string option" and put :: "go_string option \<Rightarrow> store_world \<Rightarrow> store_world"
  assumes put_back: "put (get (sw_files w)) (put d w) = w" and put_put: "put d (put e w) = put d w"
begin

lemma put_same: "get (sw_files w) = None \<Longrightarrow> put None w = w"
  using put_back [of w None] by (simp add: put_put)

lemma finish_post:
  assumes "Q () (put None w)" and "E ErrIO w" and "E ErrIO (put None w)" and "C w" and "C (put None w)"
  shows "io_post any_answer (finishMarker sc get put missingOK) Q E C w"
proof (cases "get (sw_files w)")
  case None
  then show ?thesis using assms by (auto simp: finishMarker_def put_same intro!: io_rules split: sum.split)
next
  case (Some d)
  then have "put (Some d) (put None w) = w" using put_back [of w None] by simp
  then show ?thesis using assms Some by (auto simp: finishMarker_def intro!: io_rules split: sum.split)
qed

lemma finish_done:
  assumes "Q () (put None w)" and "get (sw_files w) \<noteq> None \<or> missingOK"
  shows "io_post no_fault (finishMarker sc get put missingOK) Q E C w"
  using assms by (auto simp: finishMarker_def intro!: io_rules split: sum.split)

end

interpretation create_file: marker_file sf_create put_create
  by unfold_locales (simp_all add: put_create_def)

interpretation delete_file: marker_file sf_delete put_delete
  by unfold_locales (simp_all add: put_delete_def)

interpretation log_file: marker_file sf_log put_log
  by unfold_locales (simp_all add: put_log_def)

lemma readCreateMarker_post:
  assumes "markers_ok sc H i (sw_files w)" and "E ErrIO w" and "C w"
    and "sf_create (sw_files w) = None \<Longrightarrow> Q None w"
    and "\<And>m. creating sc (sw_files w) = Some m \<Longrightarrow> marker_ok H i m \<Longrightarrow> Q (Some m) w"
  shows "io_post any_answer (readCreateMarker sc) Q E C w"
  using assms by (auto simp: readCreateMarker_def markers_ok_def creating_def marker_ok_def intro!: io_rules split: option.split)

lemma readDeleteMarker_post:
  assumes "markers_ok sc H i (sw_files w)" and "E ErrIO w" and "C w"
    and "sf_delete (sw_files w) = None \<Longrightarrow> Q None w"
    and "\<And>n. deleting sc (sw_files w) = Some n \<Longrightarrow> Q (Some n) w"
  shows "io_post any_answer (readDeleteMarker sc) Q E C w"
  using assms by (auto simp: readDeleteMarker_def markers_ok_def deleting_def intro!: io_rules split: option.split)

section \<open>Steps that keep the files coherent\<close>

definition intact :: "('v, 'p) store_codec \<Rightarrow> 'v header set \<Rightarrow> identity \<Rightarrow> go_string \<Rightarrow> store_world \<Rightarrow> bool" where
  "intact sc H i name w \<longleftrightarrow> coherent sc H i name (sw_files w) \<or> headless sc H i (sw_files w)"

lemma views_put [simp]:
  "logged sc i name (sw_files (put_create b w)) = logged sc i name (sw_files w)"
  "logged sc i name (sw_files (put_delete b w)) = logged sc i name (sw_files w)"
  "creating sc (sw_files (put_log b w)) = creating sc (sw_files w)"
  "creating sc (sw_files (put_delete b w)) = creating sc (sw_files w)"
  "deleting sc (sw_files (put_log b w)) = deleting sc (sw_files w)"
  "deleting sc (sw_files (put_create b w)) = deleting sc (sw_files w)"
  "creating sc (sw_files (put_create None w)) = None" "deleting sc (sw_files (put_delete None w)) = None"
  "logged sc i name (sw_files (put_log None w)) = None"
  by (simp_all add: logged_def creating_def deleting_def)

lemma coherent_drop:
  assumes "coherent sc H i name (sw_files w)"
  shows "coherent sc H i name (sw_files (put_create None w))" "coherent sc H i name (sw_files (put_delete None w))"
    "coherent sc H i name (sw_files (put_log None w))"
  using assms by (simp_all add: coherent_def markers_ok_def)

lemma headless_drop_create: "headless sc H i (sw_files w) \<Longrightarrow> headless sc H i (sw_files (put_create None w))"
  by (simp add: headless_def markers_ok_def)

lemma intact_drop_create: "intact sc H i name w \<Longrightarrow> intact sc H i name (put_create None w)"
  using coherent_drop(1) headless_drop_create unfolding intact_def by blast

lemma coherent_mark_create:
  assumes "coherent sc H i name (sw_files w)" "sf_log (sw_files w) = None" "sf_delete (sw_files w) = None"
    and "st_parse_marker sc b = Some m" "marker_ok H i m"
  shows "coherent sc H i name (sw_files (put_create (Some b) w))"
  using assms by (simp add: coherent_def markers_ok_def creating_def deleting_def logged_def)

lemma coherent_mark_delete:
  assumes "coherent sc H i name (sw_files w)" "st_parse_uint sc b = Some n" "n \<noteq> 0"
    and "\<And>l. logged sc i name (sw_files w) = Some l \<Longrightarrow> incarnation_of l = n"
    and "\<And>m. creating sc (sw_files w) = Some m \<Longrightarrow> h_Incarnation (cm_Header m) = n"
  shows "coherent sc H i name (sw_files (put_delete (Some b) w))"
  using assms by (simp add: coherent_def markers_ok_def deleting_def)

lemma coherent_header:
  assumes "coherent sc H i name (sw_files w)" "sf_delete (sw_files w) = None" "creating sc (sw_files w) = Some m"
    and "line_decodes (st_records sc) raw (header_record (cm_Header m))" "marker_ok H i m"
  shows "coherent sc H i name (sw_files (put_log (Some (raw @ [LF])) w))"
proof -
  obtain l where "loadSessionLog (st_sha sc) (st_records sc) i name (raw @ [LF]) = Inr l" "l_header l = Some (cm_Header m)"
    using load_header_line [OF assms(4)] assms(5) by (metis marker_ok_def)
  then show ?thesis using assms(1-3) by (simp add: coherent_def markers_ok_def logged_def deleting_def)
qed

lemma headless_header:
  assumes "coherent sc H i name (sw_files w)" "sf_delete (sw_files w) = None" "LF \<notin> set raw" "n \<le> length raw"
  shows "headless sc H i (sw_files (put_log (Some (take n (raw @ [LF]))) w))"
  using assms by (auto simp: headless_def coherent_def markers_ok_def dest: in_set_takeD)


section \<open>Creating\<close>

lemma writeAndClose_post:
  assumes "\<And>n. Q (False, Some ErrIO) (put_log (Some (prior @ take n data)) w)"
    and "Q (False, Some ErrIO) w" "C w" "\<And>n. C (put_log (Some (prior @ take n data)) w)"
    and "Q (True, Some ErrIO) (put_log (Some (prior @ data)) w)" "Q (True, None) (put_log (Some (prior @ data)) w)"
  shows "io_post any_answer (writeAndClose prior data) Q E C w"
  using assms(2,3) assms(1) [of "length data"] assms(1,4) assms(4) [of "length data"] assms(5,6)
  by (auto simp: writeAndClose_def intro!: io_rules)

lemma createLog_post:
  assumes "sf_log (sw_files w) = None"
    and "Q (False, Some ErrIO) w" "C w"
    and "\<And>n. Q (False, Some ErrIO) (put_log (Some (take n data)) w)" "\<And>n. C (put_log (Some (take n data)) w)"
    and "Q (True, Some ErrIO) (put_log (Some data) w)" "Q (True, None) (put_log (Some data) w)"
  shows "io_post any_answer (createLog sc data) Q E C w"
proof -
  have 0: "put_log None w = w" using assms(1) by (rule log_file.put_same)
  have C0: "C (put_log (Some []) w)" "C (put_log (Some data) w)" "Q (False, Some ErrIO) (put_log (Some []) w)"
    "Q (False, Some ErrIO) (put_log (Some data) w)"
    using assms(5) [of 0] assms(5) [of "length data"] assms(4) [of 0] assms(4) [of "length data"] by simp_all
  show ?thesis unfolding createLog_def
    using assms C0 by (auto intro!: io_rules writeAndClose_post simp: log_file.put_put 0)
qed

lemma reserve_io_post:
  assumes "\<And>n w'. sw_files w' = sw_files w \<Longrightarrow> n \<noteq> 0 \<Longrightarrow> Q (candidate n) w'"
    and "\<And>e w'. sw_files w' = sw_files w \<Longrightarrow> E e w'" "\<And>w'. sw_files w' = sw_files w \<Longrightarrow> C w'"
  shows "io_post any_answer (reserve_io sc build candidate) Q E C w"
proof -
  have "io_post any_answer (\<lambda>w as. case next_answer as of (a, as') \<Rightarrow>
      (case reserveRecord (st_encode sc) build p (if a = DiesAfter then Replaced else write_outcome_of a) candidate (sw_orders w) of
            (r, orders) \<Rightarrow>
              ((case a of
                  DiesBefore \<Rightarrow> Died | DiesAfter \<Rightarrow> Died | DiesWithin _ \<Rightarrow> Died
                | _ \<Rightarrow> (case r of Inl e \<Rightarrow> Error e | Inr x \<Rightarrow> Value x)),
               w\<lparr>sw_orders := orders\<rparr>, as'))) Q E C w" for p
  proof (rule io_postI)
    fix as x s' as'
    assume run: "(case next_answer as of (a, as') \<Rightarrow>
      (case reserveRecord (st_encode sc) build p (if a = DiesAfter then Replaced else write_outcome_of a) candidate (sw_orders w) of
            (r, orders) \<Rightarrow>
              ((case a of
                  DiesBefore \<Rightarrow> Died | DiesAfter \<Rightarrow> Died | DiesWithin _ \<Rightarrow> Died
                | _ \<Rightarrow> (case r of Inl e \<Rightarrow> Error e | Inr x \<Rightarrow> Value x)),
               w\<lparr>sw_orders := orders\<rparr>, as'))) = (x, s', as')"
    obtain a bs where a: "next_answer as = (a, bs)" by fastforce
    obtain r orders where r: "reserveRecord (st_encode sc) build p (if a = DiesAfter then Replaced else write_outcome_of a) candidate (sw_orders w) = (r, orders)"
      by fastforce
    have s': "sw_files s' = sw_files w" "x = (case a of DiesBefore \<Rightarrow> Died | DiesAfter \<Rightarrow> Died | DiesWithin _ \<Rightarrow> Died
                | _ \<Rightarrow> (case r of Inl e \<Rightarrow> Error e | Inr x \<Rightarrow> Value x))" using run a r by auto
    have fresh: "\<exists>n. n \<noteq> 0 \<and> y = candidate n" if y: "r = Inr y" for y
    proof -
      from r y have "reserveRecord (st_encode sc) build p (if a = DiesAfter then Replaced else write_outcome_of a) candidate (sw_orders w) = (Inr y, orders)"
        by simp
      then show ?thesis
      proof (cases rule: reserve_success)
        case (1 iv t iv')
        then have "max (sequence_value (sw_orders w)) (ri_maximum iv) + 1 \<noteq> 0" using max_word_less by fastforce
        with 1(3) show ?thesis by blast
      qed
    qed
    show "list_all any_answer as' \<and> (case x of Value a \<Rightarrow> Q a s' | Error e \<Rightarrow> E e s' | Died \<Rightarrow> C s')"
      using s' assms fresh by (cases a; cases r) (auto simp: list_all_iff)
  qed
  then show ?thesis unfolding reserve_io_def using assms(2,3) by (auto intro!: io_rules)
qed

lemma validate_io_post:
  assumes "\<And>w'. sw_files w' = sw_files w \<Longrightarrow> Q () w'"
    and "\<And>e w'. sw_files w' = sw_files w \<Longrightarrow> E e w'" "\<And>w'. sw_files w' = sw_files w \<Longrightarrow> C w'"
  shows "io_post any_answer (validate_io sc build r) Q E C w"
proof (rule io_postI)
  fix as x s' as'
  assume run: "validate_io sc build r w as = (x, s', as')"
  have "sw_files s' = sw_files w" using run by (auto simp: validate_io_def split: prod.splits)
  then show "list_all any_answer as' \<and> (case x of Value a \<Rightarrow> Q a s' | Error e \<Rightarrow> E e s' | Died \<Rightarrow> C s')"
    using assms by (cases x) (auto simp: list_all_iff)
qed

lemma release_io_post [io_rules]:
  "Q () (w\<lparr>sw_orders := releaseRecordReservation (st_encode sc) r (sw_orders w)\<rparr>) \<Longrightarrow> io_post ok (release_io sc r) Q E C w"
  unfolding release_io_def by (rule io_post_update)

lemma fail_if_post [io_rules]: "Q () w \<Longrightarrow> (\<And>e. E e w) \<Longrightarrow> io_post ok (fail_if e) Q E C w"
  by (cases e) (auto simp: fail_if_def intro!: io_rules)

lemma reconcile_post [io_rules]: "(\<And>p. Q p w) \<Longrightarrow> (\<And>e. E e w) \<Longrightarrow> io_post ok (reconcile_io sh records) Q E C w"
  by (cases "sh_reconcile sh records"; cases "snd (sh_reconcile sh records)") (auto simp: reconcile_io_def intro!: io_rules)


definition session_created ::
  "('v, 'p) store_codec \<Rightarrow> identity \<Rightarrow> go_string \<Rightarrow> 'v header \<Rightarrow> ('v, 'p) durableSession \<Rightarrow> store_world \<Rightarrow> bool" where
  "session_created sc i name h s w \<longleftrightarrow> ds_header s = cloneHeader (st_clone sc) h \<and>
     sf_create (sw_files w) = None \<and> sf_delete (sw_files w) = None \<and>
     (\<exists>l. logged sc i name (sw_files w) = Some l \<and> l_header l = Some (norm_header h))"

definition created_ok ::
  "('v, 'p) store_codec \<Rightarrow> 'v header set \<Rightarrow> identity \<Rightarrow> go_string \<Rightarrow> 'v header \<Rightarrow> ('v, 'p) durableSession \<Rightarrow> store_world \<Rightarrow> bool" where
  "created_ok sc H i name h s w \<longleftrightarrow> coherent sc H i name (sw_files w) \<and> session_created sc i name h s w"

lemma header_line_post:
  assumes "codec_ok sc H" "h \<in> H"
    and "\<And>raw. line_decodes (st_records sc) raw (header_record (norm_header h)) \<Longrightarrow> io_post ok (f (raw @ [LF])) Q E C w"
  shows "io_post ok (io_bind (header_line sc h) f) Q E C w"
proof -
  obtain raw where "st_marshal sc (header_record h) = Some raw" "line_decodes (st_records sc) raw (header_record (norm_header h))"
    using assms(1,2) unfolding codec_ok_def by blast
  then show ?thesis using assms(3) by (auto simp: header_line_def normalizedRecordLine_def intro!: io_rules)
qed

lemma headed_intact:
  assumes "coherent sc H i name (sw_files w)" "sf_delete (sw_files w) = None" "creating sc (sw_files w) = Some m" "marker_ok H i m"
    "line_decodes (st_records sc) raw (header_record (cm_Header m))"
  shows "intact sc H i name (put_log (Some (take n (raw @ [LF]))) w)"
proof (cases "n \<le> length raw")
  case True
  have "LF \<notin> set raw" using assms(5) by (simp add: line_decodes_def)
  then show ?thesis using headless_header [OF assms(1,2) _ True] by (simp add: intact_def)
next
  case False
  then have "take n (raw @ [LF]) = raw @ [LF]" by simp
  then show ?thesis using coherent_header [OF assms(1-3,5,4)] by (simp add: intact_def)
qed

lemma intact_orders [simp]: "intact sc H i name (w\<lparr>sw_orders := x\<rparr>) = intact sc H i name w"
  by (simp add: intact_def)

lemma put_orders [simp]:
  "put_create b (w\<lparr>sw_orders := x\<rparr>) = (put_create b w)\<lparr>sw_orders := x\<rparr>" "put_log b (w\<lparr>sw_orders := x\<rparr>) = (put_log b w)\<lparr>sw_orders := x\<rparr>"
  "put_delete b (w\<lparr>sw_orders := x\<rparr>) = (put_delete b w)\<lparr>sw_orders := x\<rparr>"
  by (simp_all add: put_create_def put_log_def put_delete_def)

declare intact_drop_create [simp]

lemma commitCreate_post:
  assumes "codec_ok sc H" "h \<in> H"
    and "coherent sc H i name (sw_files w)" "sf_log (sw_files w) = None" "sf_delete (sw_files w) = None"
    and "creating sc (sw_files w) = Some m" "marker_ok H i m" "cm_Header m = norm_header h"
  shows "io_post any_answer (commitCreate sc sh h pending) (created_ok sc H i name h) (\<lambda>_. intact sc H i name) (intact sc H i name) w"
  unfolding commitCreate_def
proof (rule header_line_post [OF assms(1,2)])
  fix raw
  assume raw: "line_decodes (st_records sc) raw (header_record (norm_header h))"
  let ?data = "raw @ [LF]"
  let ?full = "put_log (Some ?data) w"
  have here: "intact sc H i name w" using assms(3) by (simp add: intact_def)
  have part: "intact sc H i name (put_log (Some (take n ?data)) w)" for n
    using headed_intact [OF assms(3,5,6,7)] raw assms(8) by simp
  have full: "coherent sc H i name (sw_files ?full)"
    using coherent_header [OF assms(3,5,6) _ assms(7)] raw assms(8) by simp
  have settles: "created_ok sc H i name h s (put_create None ?full)" if "ds_header s = cloneHeader (st_clone sc) h" for s
  proof -
    obtain l where "logged sc i name (sw_files ?full) = Some l" using full unfolding coherent_def by (cases "logged sc i name (sw_files ?full)") auto
    then show ?thesis using full coherent_drop(1) [OF full] assms(5,6,8) that
      by (auto simp: created_ok_def session_created_def coherent_def)
  qed
  have undone: "io_post any_answer (io_then (release_io sc pending) (io_then (rollbackCreateMarker sc) (io_fail ErrIO)))
      (created_ok sc H i name h) (\<lambda>_. intact sc H i name) (intact sc H i name) w'" if "intact sc H i name w'" for w'
    using that
    unfolding rollbackCreateMarker_def removeCreateMarker_def
    by (auto intro!: io_rules)
  have finish: "io_post any_answer (io_bind (reconcile_io sh [pending]) (\<lambda>projection.
             io_then (finishCreateMarker sc)
               (io_return (newDurableSession (st_clone sc) (st_records sc) h []
                 (mergeState (entries (h_State h)) (sp_App projection) (sp_User projection)) (h_CreatedAt h)))))
      (created_ok sc H i name h) (\<lambda>_. intact sc H i name) (intact sc H i name) ?full"
    unfolding finishCreateMarker_def
    using full coherent_drop(1) [OF full] settles by (auto simp: intact_def newDurableSession_def intro!: io_rules create_file.finish_post)
  show "io_post any_answer (io_bind (createLog sc ?data) (\<lambda>(committed, createErr).
       case createErr of
         Some e \<Rightarrow>
           if committed then io_fail e
           else io_then (release_io sc pending) (io_then (rollbackCreateMarker sc) (io_fail e))
       | None \<Rightarrow>
           io_bind (reconcile_io sh [pending]) (\<lambda>projection.
             io_then (finishCreateMarker sc)
               (io_return (newDurableSession (st_clone sc) (st_records sc) h []
                 (mergeState (entries (h_State h)) (sp_App projection) (sp_User projection)) (h_CreatedAt h))))))
      (created_ok sc H i name h) (\<lambda>_. intact sc H i name) (intact sc H i name) w"
    using here part undone finish full
    by (auto simp: intact_def intro!: io_post_bind io_post_fail createLog_post [OF assms(4)])
qed


definition request_ok :: "('v, 'p) store_codec \<Rightarrow> 'v header set \<Rightarrow> 'v create_request \<Rightarrow> bool" where
  "request_ok sc H rq \<longleftrightarrow> rq_hash rq \<noteq> [] \<and> rq_now rq \<noteq> 0 \<and> id_app (rq_identity rq) \<noteq> [] \<and> id_user (rq_identity rq) \<noteq> [] \<and>
     id_session (rq_identity rq) \<noteq> [] \<and> (\<forall>n. created_header sc rq n \<in> H)"

lemma created_header_simps [simp]:
  "h_ID (created_header sc rq n) = id_session (rq_identity rq)" "h_AppName (created_header sc rq n) = id_app (rq_identity rq)"
  "h_UserID (created_header sc rq n) = id_user (rq_identity rq)" "h_CreatedAt (created_header sc rq n) = rq_now rq"
  "h_Incarnation (created_header sc rq n) = n"
  by (simp_all add: created_header_def Let_def case_prod_unfold)

lemma startCreate_post:
  assumes "codec_ok sc H" "request_ok sc H rq" "rq_identity rq = i"
    and "coherent sc H i name (sw_files w)" "sf_create (sw_files w) = None" "sf_delete (sw_files w) = None"
  shows "io_post any_answer (startCreate sc sh name rq) (\<lambda>s w. \<exists>n. created_ok sc H i name (created_header sc rq n) s w)
    (\<lambda>_. intact sc H i name) (intact sc H i name) w"
proof (cases "sf_log (sw_files w)")
  case (Some d)
  then show ?thesis using assms(4) by (auto simp: startCreate_def intact_def intro!: io_rules)
next
  case None
  have here: "intact sc H i name w" using assms(4) by (simp add: intact_def)
  define F where "F = (\<lambda>pending.
    let h = created_header sc rq (sr_Order pending);
        m = \<lparr>cm_V = createMarkerVersion, cm_Generated = rq_generated rq, cm_StateHash = rq_hash rq, cm_Header = h\<rparr>
    in io_then (persistCreateStart sc m pending) (commitCreate sc sh h pending))"
  have run: "io_post any_answer (F (create_record sc name (created_header sc rq n)))
      (\<lambda>s w. \<exists>n. created_ok sc H i name (created_header sc rq n) s w) (\<lambda>_. intact sc H i name) (intact sc H i name) w'"
    if w': "sw_files w' = sw_files w" "n \<noteq> 0" for w' n
  proof -
    define h where "h = created_header sc rq n"
    define m where "m = \<lparr>cm_V = createMarkerVersion, cm_Generated = rq_generated rq, cm_StateHash = rq_hash rq, cm_Header = h\<rparr>"
    let ?m = "m\<lparr>cm_Header := norm_header h\<rparr>"
    have h: "h \<in> H" "header_for i h" using assms(2,3) w'(2) by (auto simp: h_def request_ok_def header_for_def)
    then have parse: "st_parse_marker sc (st_marker sc m) = Some ?m" and nH: "norm_header h \<in> H"
      using assms(1) by (auto simp: codec_ok_def m_def)
    have ok: "marker_ok H i ?m"
      using h nH assms(2) by (auto simp: marker_ok_def valid_marker_def m_def header_for_def request_ok_def)
    have f: "coherent sc H i name (sw_files w')" "sf_log (sw_files w') = None" "sf_delete (sw_files w') = None"
      using assms(4,6) None w'(1) by simp_all
    let ?w = "put_create (Some (st_marker sc m)) w'"
    have marked: "coherent sc H i name (sw_files ?w)" by (rule coherent_mark_create [OF f parse ok])
    have commit: "io_post any_answer (commitCreate sc sh h p) (created_ok sc H i name h) (\<lambda>_. intact sc H i name) (intact sc H i name) ?w" for p
      by (rule commitCreate_post [OF assms(1) h(1) marked, where m = ?m]) (use f parse ok in \<open>simp_all add: creating_def\<close>)
    have commit': "io_post any_answer (commitCreate sc sh h p) (\<lambda>s w. \<exists>n. created_ok sc H i name (created_header sc rq n) s w)
        (\<lambda>_. intact sc H i name) (intact sc H i name) ?w" for p
      by (rule io_post_weaken [OF commit]) (auto simp: h_def)
    have mark: "io_post any_answer (persistCreateStart sc m p) (\<lambda>_ x. x = ?w) (\<lambda>_. intact sc H i name) (intact sc H i name) w'" for p
      unfolding persistCreateStart_def writeCreateMarker_def
      by (intro io_post_bind io_post_attempt io_post_then io_post_check_any io_post_effect_any) (use f marked in \<open>simp_all add: intact_def io_rules\<close>)
    have "io_post any_answer (io_then (persistCreateStart sc m p) (commitCreate sc sh h p))
        (\<lambda>s w. \<exists>n. created_ok sc H i name (created_header sc rq n) s w) (\<lambda>_. intact sc H i name) (intact sc H i name) w'" for p
      by (rule io_post_then, rule io_post_weaken [OF mark]) (use commit' in simp_all)
    then show ?thesis by (simp add: F_def Let_def create_record_def h_def m_def)
  qed
  have same: "sw_files x = sw_files w \<Longrightarrow> intact sc H i name x" for x using here by (simp add: intact_def)
  show ?thesis unfolding startCreate_def F_def [symmetric]
    using here None by (auto intro!: io_rules reserve_io_post run same)
qed

lemma intact_settled: "settled w w' \<Longrightarrow> intact sc H i name w \<Longrightarrow> intact sc H i name w'"
  using settled_invariants unfolding intact_def by blast

lemma resumeCreate_post:
  assumes "codec_ok sc H" "marker_ok H i m"
    and "coherent sc H i name (sw_files w)" "sf_delete (sw_files w) = None" "creating sc (sw_files w) = Some m"
  shows "io_post any_answer (resumeCreate sc sh i name m) (created_ok sc H i name (cm_Header m)) (\<lambda>_. intact sc H i name) (intact sc H i name) w"
proof -
  let ?h = "cm_Header m"
  have h: "?h \<in> H" "norm_header ?h = ?h" using assms(2) by (simp_all add: marker_ok_def)
  have finish: "io_post any_answer (if l_header l \<noteq> Some ?h then io_fail ErrCorruptLog
        else io_then (io_when (st_fsync sc) (io_check ErrIO))
          (io_bind (reconcile_io sh (l_stateRecords l)) (\<lambda>projection.
            io_then (finishCreateMarker sc)
              (io_return (newDurableSession (st_clone sc) (st_records sc) ?h []
                (sessionState (st_clone sc) ?h (l_events l) projection) (h_CreatedAt ?h))))))
      (created_ok sc H i name ?h) (\<lambda>_. intact sc H i name) (intact sc H i name) w'"
    if "coherent sc H i name (sw_files w')" "sf_delete (sw_files w') = None" "logged sc i name (sw_files w') = Some l" for w' l
    using that coherent_drop(1) [OF that(1)] h(2) unfolding finishCreateMarker_def
    by (auto simp: intact_def created_ok_def session_created_def newDurableSession_def intro!: io_rules create_file.finish_post)
  have step: "io_post any_answer
      (io_bind (header_line sc ?h) (\<lambda>data.
        (io_bind (io_attempt (load_session sc i name)) (\<lambda>loaded.
        (io_bind
          (if loaded = Inl ErrSessionNotFound
           then io_bind (createLog sc data) (\<lambda>(_, err). case err of Some e \<Rightarrow> io_fail e | None \<Rightarrow> load_session sc i name)
           else io_result loaded) (\<lambda>l.
        if l_header l \<noteq> Some ?h then io_fail ErrCorruptLog
        else io_then (io_when (st_fsync sc) (io_check ErrIO))
          (io_bind (reconcile_io sh (l_stateRecords l)) (\<lambda>projection.
            io_then (finishCreateMarker sc)
              (io_return (newDurableSession (st_clone sc) (st_records sc) ?h []
                (sessionState (st_clone sc) ?h (l_events l) projection) (h_CreatedAt ?h)))))))))))
      (created_ok sc H i name ?h) (\<lambda>_. intact sc H i name) (intact sc H i name) w'"
    if w': "sw_files w' = sw_files w" for w'
  proof (rule header_line_post [OF assms(1) h(1)])
    fix raw
    assume raw: "line_decodes (st_records sc) raw (header_record (norm_header ?h))"
    let ?full = "put_log (Some (raw @ [LF])) w'"
    have f: "coherent sc H i name (sw_files w')" "sf_delete (sw_files w') = None" "creating sc (sw_files w') = Some m"
      using assms(3-5) w' by simp_all
    have here: "intact sc H i name w'" using f by (simp add: intact_def)
    have part: "intact sc H i name (put_log (Some (take n (raw @ [LF]))) w')" for n
      using headed_intact [OF f assms(2)] raw h(2) by simp
    have full: "coherent sc H i name (sw_files ?full)" using coherent_header [OF f _ assms(2)] raw h(2) by simp
    have fullI: "intact sc H i name ?full" using full by (simp add: intact_def)
    have settle: "settled w' x \<Longrightarrow> intact sc H i name x" "settled ?full x \<Longrightarrow> intact sc H i name x" for x
      using here fullI by (auto intro: intact_settled)
    show "io_post any_answer (io_bind (io_attempt (load_session sc i name)) (\<lambda>loaded.
        (io_bind
          (if loaded = Inl ErrSessionNotFound
           then io_bind (createLog sc (raw @ [LF])) (\<lambda>(_, err). case err of Some e \<Rightarrow> io_fail e | None \<Rightarrow> load_session sc i name)
           else io_result loaded) (\<lambda>l.
        if l_header l \<noteq> Some ?h then io_fail ErrCorruptLog
        else io_then (io_when (st_fsync sc) (io_check ErrIO))
          (io_bind (reconcile_io sh (l_stateRecords l)) (\<lambda>projection.
            io_then (finishCreateMarker sc)
              (io_return (newDurableSession (st_clone sc) (st_records sc) ?h []
                (sessionState (st_clone sc) ?h (l_events l) projection) (h_CreatedAt ?h))))))))) 
      (created_ok sc H i name ?h) (\<lambda>_. intact sc H i name) (intact sc H i name) w'"
    proof (intro io_post_bind io_post_attempt load_session_post)
      assume none: "sf_log (sw_files w') = None"
      show "io_post any_answer (if Inl ErrSessionNotFound = (Inl ErrSessionNotFound :: store_error + ('a, 'b) session_log)
           then io_bind (createLog sc (raw @ [LF])) (\<lambda>(_, err). case err of Some e \<Rightarrow> io_fail e | None \<Rightarrow> load_session sc i name)
           else io_result (Inl ErrSessionNotFound)) (\<lambda>l. io_post any_answer (if l_header l \<noteq> Some ?h then io_fail ErrCorruptLog
        else io_then (io_when (st_fsync sc) (io_check ErrIO))
          (io_bind (reconcile_io sh (l_stateRecords l)) (\<lambda>projection.
            io_then (finishCreateMarker sc)
              (io_return (newDurableSession (st_clone sc) (st_records sc) ?h []
                (sessionState (st_clone sc) ?h (l_events l) projection) (h_CreatedAt ?h)))))) 
      (created_ok sc H i name ?h) (\<lambda>_. intact sc H i name) (intact sc H i name)) (\<lambda>_. intact sc H i name) (intact sc H i name) w'"
        using here part fullI full f settle
        by (auto intro!: io_post_bind io_post_fail createLog_post [OF none] load_session_post finish
            simp: settled_invariants settled_views)
    next
      fix x l
      assume x: "settled w' x" "logged sc i name (sw_files w') = Some l"
      then have "coherent sc H i name (sw_files x)" "sf_delete (sw_files x) = None" "logged sc i name (sw_files x) = Some l"
        using f by (simp_all add: settled_invariants settled_views)
      from finish [OF this] settle(1) [OF x(1)]
      show "io_post any_answer (if Inr l = Inl ErrSessionNotFound
           then io_bind (createLog sc (raw @ [LF])) (\<lambda>(_, err). case err of Some e \<Rightarrow> io_fail e | None \<Rightarrow> load_session sc i name)
           else io_result (Inr l)) (\<lambda>l. io_post any_answer (if l_header l \<noteq> Some ?h then io_fail ErrCorruptLog
        else io_then (io_when (st_fsync sc) (io_check ErrIO))
          (io_bind (reconcile_io sh (l_stateRecords l)) (\<lambda>projection.
            io_then (finishCreateMarker sc)
              (io_return (newDurableSession (st_clone sc) (st_records sc) ?h []
                (sessionState (st_clone sc) ?h (l_events l) projection) (h_CreatedAt ?h))))))
      (created_ok sc H i name ?h) (\<lambda>_. intact sc H i name) (intact sc H i name)) (\<lambda>_. intact sc H i name) (intact sc H i name) x"
        by (simp add: io_result_def io_post_return)
    qed (simp_all add: settle(1) io_result_def)
  qed
  have same: "sw_files x = sw_files w \<Longrightarrow> intact sc H i name x" for x using assms(3) by (simp add: intact_def)
  show ?thesis unfolding resumeCreate_def Let_def
    by (auto intro!: io_post_then fail_if_post validate_io_post step same)
qed


text \<open>Without a header line no operation succeeds, and none repairs the file.\<close>

lemma headless_kept:
  "headless sc H i (sw_files w) \<Longrightarrow> settled w x \<Longrightarrow> headless sc H i (sw_files x)"
  "headless sc H i (sw_files w) \<Longrightarrow> sw_files x = sw_files w \<Longrightarrow> headless sc H i (sw_files x)"
  by (simp_all add: settled_invariants)

lemma headless_load:
  assumes "headless sc H i (sw_files w)"
    and "\<And>x e. headless sc H i (sw_files x) \<Longrightarrow> e \<noteq> ErrSessionNotFound \<Longrightarrow> E e x" "\<And>x. headless sc H i (sw_files x) \<Longrightarrow> C x"
  shows "io_post any_answer (load_session sc i name) Q E C w"
proof -
  have "logged sc i name (sw_files w) = None" "sf_log (sw_files w) \<noteq> None"
    using assms(1) by (auto simp: headless_def logged_def load_headless)
  then show ?thesis using assms headless_kept(1) [OF assms(1)] by (intro load_session_post) simp_all
qed

lemma headless_create:
  assumes "headless sc H i (sw_files w)" "rq_identity rq = i"
  shows "io_post any_answer (create_session sc sh name rq) (\<lambda>_ _. False) (\<lambda>_ x. headless sc H i (sw_files x)) (\<lambda>x. headless sc H i (sw_files x)) w"
proof -
  have mk: "markers_ok sc H i (sw_files w)" and log: "sf_log (sw_files w) \<noteq> None" and del: "sf_delete (sw_files w) = None"
    using assms(1) by (auto simp: headless_def)
  have resume: "io_post any_answer (resumeCreate sc sh i name m) (\<lambda>_ _. False) (\<lambda>_ x. headless sc H i (sw_files x)) (\<lambda>x. headless sc H i (sw_files x)) w" for m
  proof -
    show ?thesis
      unfolding resumeCreate_def Let_def header_line_def normalizedRecordLine_def
      using assms(1) by (auto intro!: io_post_then io_post_bind io_rules validate_io_post headless_load split: option.split simp: io_result_def)
  qed
  show ?thesis unfolding create_session_def ensureNoDeleteMarker_def startCreate_def assms(2)
    using assms(1) mk log del by (auto intro!: io_rules readCreateMarker_post [OF mk] resume)
qed

lemma create_session_post:
  assumes "codec_ok sc H" "request_ok sc H rq" "rq_identity rq = i" "intact sc H i name w"
  shows "io_post any_answer (create_session sc sh name rq)
    (\<lambda>s w'. (\<exists>h. (case creating sc (sw_files w) of None \<Rightarrow> \<exists>n. h = created_header sc rq n | Some m \<Rightarrow> h = cm_Header m) \<and>
        created_ok sc H i name h s w') \<and> coherent sc H i name (sw_files w))
    (\<lambda>_. intact sc H i name) (intact sc H i name) w"
proof (cases "sf_delete (sw_files w)")
  case (Some d)
  then show ?thesis using assms(4) by (auto simp: create_session_def ensureNoDeleteMarker_def intro!: io_rules)
next
  case None
  have mk: "markers_ok sc H i (sw_files w)" using assms(4) by (auto simp: intact_def coherent_def headless_def)
  let ?Q = "\<lambda>s w'. (\<exists>h. (case creating sc (sw_files w) of None \<Rightarrow> \<exists>n. h = created_header sc rq n | Some m \<Rightarrow> h = cm_Header m) \<and>
    created_ok sc H i name h s w') \<and> coherent sc H i name (sw_files w)"
  show ?thesis
  proof (cases "coherent sc H i name (sw_files w)")
    case False
    then have "headless sc H i (sw_files w)" using assms(4) by (simp add: intact_def)
    from io_post_weaken [OF headless_create [OF this assms(3)]] show ?thesis by (simp add: intact_def)
  next
    case True
    have resume: "io_post any_answer (resumeCreate sc sh i name m') ?Q (\<lambda>_. intact sc H i name) (intact sc H i name) w"
      if m': "creating sc (sw_files w) = Some m'" "marker_ok H i m'" for m'
      by (rule io_post_weaken [OF resumeCreate_post [OF assms(1) m'(2) True None m'(1)]]) (use m' True in auto)
    have start: "io_post any_answer (startCreate sc sh name rq) ?Q (\<lambda>_. intact sc H i name) (intact sc H i name) w"
      if "sf_create (sw_files w) = None"
      by (rule io_post_weaken [OF startCreate_post [OF assms(1-3) True that None]]) (use that True in \<open>auto simp: creating_def\<close>)
    show ?thesis unfolding create_session_def ensureNoDeleteMarker_def assms(3)
      using assms(4) None mk resume start by (auto intro!: io_rules readCreateMarker_post [OF mk])
  qed
qed


section \<open>Deleting\<close>

definition gone :: "store_world \<Rightarrow> bool" where
  "gone w \<longleftrightarrow> sf_log (sw_files w) = None \<and> sf_create (sw_files w) = None \<and> sf_delete (sw_files w) = None"

lemma finishDelete_post:
  assumes "coherent sc H i name (sw_files w)" "sf_log (sw_files w) = None"
  shows "io_post any_answer (io_then removeCreateMarker (finishDeleteMarker sc)) (\<lambda>_. gone) (\<lambda>_. intact sc H i name) (intact sc H i name) w"
proof -
  let ?w = "put_create None w"
  note c = coherent_drop(1) [OF assms(1)]
  have i: "intact sc H i name w" "intact sc H i name ?w" "intact sc H i name (put_delete None ?w)"
    using assms(1) c coherent_drop(2) [OF c] by (simp_all add: intact_def)
  then show ?thesis unfolding finishDeleteMarker_def removeCreateMarker_def using assms(2)
    by (auto simp: gone_def intro!: io_rules delete_file.finish_post)
qed

lemma removeLog_post:
  assumes "coherent sc H i name (sw_files w)"
  shows "io_post any_answer (io_then (io_strict ErrIO (put_log None)) (io_then removeCreateMarker (finishDeleteMarker sc)))
    (\<lambda>_. gone) (\<lambda>_. intact sc H i name) (intact sc H i name) w"
proof -
  note c = coherent_drop(3) [OF assms]
  have "intact sc H i name w" "intact sc H i name (put_log None w)" using assms c by (simp_all add: intact_def)
  then show ?thesis using finishDelete_post [OF c] by (auto intro!: io_post_then io_post_strict_any)
qed

lemma coherent_cases:
  assumes "coherent sc H i name (sw_files w)"
  shows "sf_log (sw_files w) = None \<or> (\<exists>l. logged sc i name (sw_files w) = Some l)"
    "sf_create (sw_files w) = None \<or> (\<exists>m. creating sc (sw_files w) = Some m \<and> marker_ok H i m)"
  using assms by (auto simp: coherent_def markers_ok_def)

lemma log_incarnation:
  assumes "logged sc i name f = Some l"
  shows "\<exists>h. l_header l = Some h"
  using assms by (auto simp: logged_def loadSessionLog_def parse_iff split: option.splits sum.splits if_splits)

lemma loaded_incarnation:
  assumes "coherent sc H i name (sw_files w)" "logged sc i name (sw_files w) = Some l" "creating sc (sw_files w) = Some m"
  shows "incarnation_of l = h_Incarnation (cm_Header m)"
  using assms by (simp add: coherent_def incarnation_of_def)


lemma logged_ok:
  assumes "clone_keeps_id (st_records sc)" "logged sc i name f = Some l"
  obtains line h where "log_ok i line l" "l_header l = Some h" "incarnation_of l = h_Incarnation h" "incarnation_of l \<noteq> 0"
proof -
  obtain d where d: "loadSessionLog (st_sha sc) (st_records sc) i name d = Inr l"
    using assms(2) by (auto simp: logged_def split: option.splits sum.splits)
  then obtain line where p: "parse_lines (st_sha sc) (st_records sc) i (fst (recover_log d)) 0 (empty_log name) = Inr (line, l)"
    and h: "l_header l \<noteq> None"
    by (auto simp: loadSessionLog_def parse_iff split: sum.splits if_splits)
  have "log_ok i 0 (empty_log name)" by (simp add: log_ok_def empty_log_def)
  from parse_lines_ok [OF assms(1) this p] have ok: "log_ok i line l" .
  moreover obtain hd where "l_header l = Some hd" using h by auto
  ultimately show ?thesis by (intro that [of line hd]) (auto simp: log_ok_def incarnation_of_def)
qed

lemma deleteLocked_post:
  assumes "codec_ok sc H" "coherent sc H i name (sw_files w)"
  shows "io_post any_answer (deleteLocked sc sh i name) (\<lambda>_. gone) (\<lambda>_. intact sc H i name) (intact sc H i name) w"
proof -
  have keeps: "clone_keeps_id (st_records sc)" and uint: "st_parse_uint sc (decimal (uint n)) = Some n" for n
    using assms(1) by (simp_all add: codec_ok_def)
  have here: "intact sc H i name w" using assms(2) by (simp add: intact_def)
  have resume: "io_post any_answer (resumeDelete sc loaded n) (\<lambda>_. gone) (\<lambda>_. intact sc H i name) (intact sc H i name) x"
    if x: "coherent sc H i name (sw_files x)" "deleting sc (sw_files x) = Some n"
      "case loaded of Inl e \<Rightarrow> e = ErrSessionNotFound \<longrightarrow> sf_log (sw_files x) = None | Inr l \<Rightarrow> logged sc i name (sw_files x) = Some l" for x n loaded
  proof (cases loaded)
    case (Inl e)
    then show ?thesis using x finishDelete_post [OF x(1)] by (auto simp: resumeDelete_def intact_def)
  next
    case (Inr l)
    then have "incarnation_of l = n" using x by (simp add: coherent_def)
    then show ?thesis using Inr removeLog_post [OF x(1)] by (simp add: resumeDelete_def)
  qed
  have mark: "io_post any_answer (io_then (writeDeleteMarker n) f) (\<lambda>_. gone) (\<lambda>_. intact sc H i name) (intact sc H i name) x"
    if x: "coherent sc H i name (sw_files x)" "n \<noteq> 0"
      "\<And>l. logged sc i name (sw_files x) = Some l \<Longrightarrow> incarnation_of l = n"
      "\<And>m. creating sc (sw_files x) = Some m \<Longrightarrow> h_Incarnation (cm_Header m) = n"
      "\<And>y. coherent sc H i name (sw_files y) \<Longrightarrow> sf_log (sw_files y) = sf_log (sw_files x) \<Longrightarrow>
         io_post any_answer f (\<lambda>_. gone) (\<lambda>_. intact sc H i name) (intact sc H i name) y" for x n f
  proof -
    have c: "coherent sc H i name (sw_files (put_delete (Some (decimal (uint n))) x))"
      by (rule coherent_mark_delete [OF x(1) uint x(2-4)])
    show ?thesis unfolding writeDeleteMarker_def using x(1) c x(5) [OF c] by (auto simp: intact_def intro!: io_post_then io_post_effect_any)
  qed
  have pending: "io_post any_answer (deletePendingCreate sc pend) (\<lambda>_. gone) (\<lambda>_. intact sc H i name) (intact sc H i name) x"
    if x: "coherent sc H i name (sw_files x)" "sf_log (sw_files x) = None" "sf_delete (sw_files x) = None"
      "pend = None \<and> sf_create (sw_files x) = None \<or> (\<exists>m. pend = Some m \<and> creating sc (sw_files x) = Some m \<and> marker_ok H i m)" for x pend
  proof (cases pend)
    case None
    then show ?thesis using x by (auto simp: deletePendingCreate_def gone_def)
  next
    case (Some m)
    then have m: "creating sc (sw_files x) = Some m" "h_Incarnation (cm_Header m) \<noteq> 0" using x(4) by (auto simp: marker_ok_def header_for_def)
    show ?thesis unfolding deletePendingCreate_def Some option.case
      by (rule mark [OF x(1) m(2)]) (use x(2) m(1) finishDelete_post in \<open>auto simp: logged_def\<close>)
  qed
  have existing: "io_post any_answer (deleteExisting sc sh l) (\<lambda>_. gone) (\<lambda>_. intact sc H i name) (intact sc H i name) x"
    if x: "coherent sc H i name (sw_files x)" "logged sc i name (sw_files x) = Some l" for x l
  proof -
    have n: "incarnation_of l \<noteq> 0" using logged_ok [OF keeps x(2)] by metis
    have "io_post any_answer (io_then (writeDeleteMarker (incarnation_of l))
         (io_then (io_strict ErrIO (put_log None)) (io_then removeCreateMarker (finishDeleteMarker sc))))
      (\<lambda>_. gone) (\<lambda>_. intact sc H i name) (intact sc H i name) x"
      by (rule mark [OF x(1) n]) (use x(2) loaded_incarnation [OF x] removeLog_post in auto)
    then show ?thesis unfolding deleteExisting_def using x(1) by (auto simp: intact_def intro!: io_post_then fail_if_post)
  qed
  define G where "G = (\<lambda>loaded. io_bind (readDeleteMarker sc) (\<lambda>marker. io_bind (readCreateMarker sc) (\<lambda>pending.
       case marker of
         Some m \<Rightarrow> resumeDelete sc loaded m
       | None \<Rightarrow>
           (case loaded of
              Inl e \<Rightarrow> if e = ErrSessionNotFound then deletePendingCreate sc pending else io_fail e
            | Inr l \<Rightarrow> deleteExisting sc sh l))))"
  have after: "io_post any_answer (G loaded) (\<lambda>_. gone) (\<lambda>_. intact sc H i name) (intact sc H i name) x"
    if x: "coherent sc H i name (sw_files x)"
      "case loaded of Inl e \<Rightarrow> e = ErrSessionNotFound \<longrightarrow> sf_log (sw_files x) = None | Inr l \<Rightarrow> logged sc i name (sw_files x) = Some l" for x loaded
  proof -
    have mk: "markers_ok sc H i (sw_files x)" and I: "intact sc H i name x" using x(1) by (simp_all add: coherent_def intact_def)
    show ?thesis unfolding G_def
    proof (intro io_post_bind readDeleteMarker_post [OF mk] readCreateMarker_post [OF mk] I)
      fix m
      assume "sf_delete (sw_files x) = None" "creating sc (sw_files x) = Some m" "marker_ok H i m"
      then show "io_post any_answer (case None of Some m \<Rightarrow> resumeDelete sc loaded m
         | None \<Rightarrow> (case loaded of Inl e \<Rightarrow> if e = ErrSessionNotFound then deletePendingCreate sc (Some m) else io_fail e
            | Inr l \<Rightarrow> deleteExisting sc sh l)) (\<lambda>_. gone) (\<lambda>_. intact sc H i name) (intact sc H i name) x"
        using x I pending [OF x(1)] existing [OF x(1)] by (cases loaded) auto
    next
      assume "sf_delete (sw_files x) = None" "sf_create (sw_files x) = None"
      then show "io_post any_answer (case None of Some m \<Rightarrow> resumeDelete sc loaded m
         | None \<Rightarrow> (case loaded of Inl e \<Rightarrow> if e = ErrSessionNotFound then deletePendingCreate sc None else io_fail e
            | Inr l \<Rightarrow> deleteExisting sc sh l)) (\<lambda>_. gone) (\<lambda>_. intact sc H i name) (intact sc H i name) x"
        using x I pending [OF x(1)] existing [OF x(1)] by (cases loaded) auto
    qed (use resume [OF x(1) _ x(2)] in simp_all)
  qed
  show ?thesis unfolding deleteLocked_def G_def [symmetric]
  proof (intro io_post_bind io_post_attempt load_session_post)
    fix x assume "settled w x"
    then show "intact sc H i name x" using here by (rule intact_settled)
  qed (use assms(2) after in \<open>simp_all add: settled_invariants settled_views\<close>)
qed


lemma headless_delete:
  assumes "headless sc H i (sw_files w)"
  shows "io_post any_answer (deleteLocked sc sh i name) (\<lambda>_ _. False) (\<lambda>_ x. headless sc H i (sw_files x)) (\<lambda>x. headless sc H i (sw_files x)) w"
proof -
  define G where "G = (\<lambda>loaded. io_bind (readDeleteMarker sc) (\<lambda>marker. io_bind (readCreateMarker sc) (\<lambda>pending.
       case marker of
         Some m \<Rightarrow> resumeDelete sc loaded m
       | None \<Rightarrow>
           (case loaded of
              Inl e \<Rightarrow> if e = ErrSessionNotFound then deletePendingCreate sc pending else io_fail e
            | Inr l \<Rightarrow> deleteExisting sc sh l))))"
  have after: "io_post any_answer (G (Inl e)) (\<lambda>_ _. False) (\<lambda>_ x. headless sc H i (sw_files x)) (\<lambda>x. headless sc H i (sw_files x)) x"
    if x: "headless sc H i (sw_files x)" "e \<noteq> ErrSessionNotFound" for x e
  proof -
    have mk: "markers_ok sc H i (sw_files x)" and none: "deleting sc (sw_files x) = None" using x(1) by (auto simp: headless_def deleting_def)
    show ?thesis unfolding G_def
      by (intro io_post_bind readDeleteMarker_post [OF mk] readCreateMarker_post [OF mk]) (use x none in simp_all)
  qed
  show ?thesis unfolding deleteLocked_def G_def [symmetric]
    by (intro io_post_bind io_post_attempt headless_load [OF assms]) (use after in simp_all)
qed

section \<open>Appending\<close>

lemma parse_lines_append:
  "complete d \<Longrightarrow> parse_lines sha cd i (d @ x) n l =
    (case parse_lines sha cd i d n l of Inl e \<Rightarrow> Inl e | Inr (m, l') \<Rightarrow> parse_lines sha cd i x m l')"
proof (induction sha cd i d n l rule: parse_lines.induct)
  case (1 sha cd i d n l)
  show ?case
  proof (cases "d = []")
    case True
    then show ?thesis by (simp add: parse_lines.simps [of _ _ _ "[]"])
  next
    case False
    then have "LF \<in> set d" using "1.prems" by (metis complete_def last_in_set)
    then obtain e where e: "index_byte d LF = Some e" using index_byte_None [of d LF] by auto
    then have bound: "e < length d" using index_byte_Some [of d LF e] by simp
    have ex: "index_byte (d @ x) LF = Some e" using e by (induction d arbitrary: e) (auto split: if_splits)
    have rest: "complete (drop (e + 1) d)" using "1.prems" by (cases "drop (e + 1) d = []") (auto simp: complete_def)
    show ?thesis
    proof (cases "parseLine sha cd i (take e d) (n + 1) l")
      case (Inl err)
      then show ?thesis using False e ex bound by (simp add: parse_lines.simps [of _ _ _ d] parse_lines.simps [of _ _ _ "d @ x"])
    next
      case (Inr l1)
      show ?thesis using "1.IH" [OF False e Inr rest] False e ex bound Inr
        by (simp add: parse_lines.simps [of _ _ _ d] parse_lines.simps [of _ _ _ "d @ x"])
    qed
  qed
qed

lemma parse_lines_counts: "parse_lines sha cd i d n l = Inr (m, l') \<Longrightarrow> n \<le> m"
proof (induction sha cd i d n l rule: parse_lines.induct)
  case (1 sha cd i d n l)
  show ?case
  proof (cases "d = []")
    case True
    then show ?thesis using "1.prems" by (simp add: parse_lines.simps [of _ _ _ "[]"])
  next
    case False
    then obtain e l1 where "index_byte d LF = Some e" "parseLine sha cd i (take e d) (n + 1) l = Inr l1"
      "parse_lines sha cd i (drop (e + 1) d) (n + 1) l1 = Inr (m, l')"
      using "1.prems" by (auto simp: parse_lines.simps [of _ _ _ d] split: option.splits sum.splits)
    from "1.IH" [OF False this] show ?thesis by simp
  qed
qed

lemma load_appended:
  assumes "clone_keeps_id cd" "complete d" "loadSessionLog sha cd i name d = Inr l"
    and "line_decodes cd raw (event_record order e)" "order \<noteq> 0" "ev_ID e \<noteq> []" "ev_ID e \<notin> set (map ev_ID (l_events l))"
  obtains l' where "loadSessionLog sha cd i name (d @ raw @ [LF]) = Inr l'" "l_header l' = l_header l"
    "l_events l' = l_events l @ [cd_clone cd e]"
proof -
  have rec: "recover_log d = (d, False)" "recover_log (d @ raw @ [LF]) = (d @ raw @ [LF], False)"
    using assms(2) by (simp_all add: recover_complete complete_def)
  obtain n where n: "parse_lines sha cd i d 0 (empty_log name) = Inr (n, l)" "n \<noteq> 0" "l_header l \<noteq> None"
    "\<not> (\<exists>h. l_header l = Some h \<and> h_ID h = [])"
    using assms(3) rec(1) by (auto simp: loadSessionLog_def parse_iff split: sum.splits if_splits)
  have "log_ok i 0 (empty_log name)" by (simp add: log_ok_def empty_log_def)
  from parse_lines_ok [OF assms(1) this n(1)] have seen: "ev_ID e \<notin> set (l_seen l)" using assms(7) by (auto simp: log_ok_def)
  have dec: "decodeRecord cd raw = Some (event_record order e, None)" "LF \<notin> set raw" "trim_space raw \<noteq> []"
    using assms(4) by (simp_all add: line_decodes_def)
  define l' where "l' = (case acceptEvent sha cd i (event_record order e) (n + 1) l of Inr l1 \<Rightarrow> l1 | Inl _ \<Rightarrow> l)"
  have acc: "acceptEvent sha cd i (event_record order e) (n + 1) l = Inr l'"
    using assms(5,6) seen by (simp add: l'_def acceptEvent_def event_record_def Let_def case_prod_unfold)
  then have l': "l_header l' = l_header l" "l_events l' = l_events l @ [cd_clone cd e]"
    using assms(5,6) seen by (auto simp: acceptEvent_def event_record_def Let_def case_prod_unfold)
  have "parseLine sha cd i raw (n + 1) l = Inr l'"
    using dec acc n(2) by (simp add: parseLine_def acceptBodyRecord_def event_record_def record_types)
  then have "parse_lines sha cd i (raw @ [LF]) n l = Inr (n + 1, l')"
    using parse_line_cons [OF dec(2), of sha cd i "[]" n l] by (simp add: parse_lines.simps [of _ _ _ "[]"])
  then have "parse_lines sha cd i (d @ raw @ [LF]) 0 (empty_log name) = Inr (n + 1, l')"
    using parse_lines_append [OF assms(2), of sha cd i "raw @ [LF]" 0 "empty_log name"] n(1) by simp
  then have "loadSessionLog sha cd i name (d @ raw @ [LF]) = Inr l'"
    using rec(2) n(3,4) l'(1) by (simp add: loadSessionLog_def parse_iff)
  then show ?thesis using l' by (rule that)
qed


text \<open>The line of an event decodes to an event with its identifier.\<close>

definition event_codec_ok :: "('v, 'p) store_codec \<Rightarrow> ('v, 'p) event \<Rightarrow> bool" where
  "event_codec_ok sc e \<longleftrightarrow>
     (\<forall>order raw. st_marshal sc (event_record order (stored_event (st_records sc) e)) = Some raw \<longrightarrow>
        (\<exists>e'. line_decodes (st_records sc) raw (event_record order e') \<and> ev_ID e' = ev_ID e))"

definition event_ids :: "('v, 'p) session_log \<Rightarrow> go_string list" where
  "event_ids l = map ev_ID (l_events l)"

definition extends :: "('v, 'p) event \<Rightarrow> ('v, 'p) session_log \<Rightarrow> ('v, 'p) session_log \<Rightarrow> bool" where
  "extends e l l' \<longleftrightarrow> l_header l' = l_header l \<and>
     (l_events l' = l_events l \<or> ev_ID e \<notin> set (event_ids l) \<and> (\<exists>x. ev_ID x = ev_ID e \<and> l_events l' = l_events l @ [x]))"

definition appended ::
  "('v, 'p) store_codec \<Rightarrow> 'v header set \<Rightarrow> identity \<Rightarrow> go_string \<Rightarrow> ('v, 'p) event \<Rightarrow> ('v, 'p) session_log \<Rightarrow> store_world \<Rightarrow> bool" where
  "appended sc H i name e l w \<longleftrightarrow> coherent sc H i name (sw_files w) \<and> (\<exists>l'. logged sc i name (sw_files w) = Some l' \<and> extends e l l')"

lemma coherent_relog:
  assumes "coherent sc H i name (sw_files w)" "logged sc i name (sw_files w) = Some l"
    and "loadSessionLog (st_sha sc) (st_records sc) i name d = Inr l'" "l_header l' = l_header l"
  shows "coherent sc H i name (sw_files (put_log (Some d) w))" "logged sc i name (sw_files (put_log (Some d) w)) = Some l'"
proof -
  show log: "logged sc i name (sw_files (put_log (Some d) w)) = Some l'" using assms(3) by (simp add: logged_def)
  have "incarnation_of l' = incarnation_of l" using assms(4) by (simp add: incarnation_of_def)
  then show "coherent sc H i name (sw_files (put_log (Some d) w))"
    using assms(1,2,4) log by (auto simp: coherent_def markers_ok_def deleting_def)
qed

lemma coherent_files: "sw_files x = sw_files w \<Longrightarrow> appended sc H i name e l w \<Longrightarrow> appended sc H i name e l x"
  by (simp add: appended_def)

lemma appended_orders [simp]: "appended sc H i name e l (w\<lparr>sw_orders := x\<rparr>) = appended sc H i name e l w"
  by (simp add: appended_def)

lemma settled_content:
  assumes "sf_log (sw_files w) = Some d" "logged sc i name (sw_files w) = Some l"
  shows "loadSessionLog (st_sha sc) (st_records sc) i name d = Inr l"
  using assms by (auto simp: logged_def split: sum.splits)

lemma appendNewEvent_post:
  assumes "codec_ok sc H" "event_codec_ok sc e" "ev_ID e \<noteq> []"
    and "coherent sc H i name (sw_files w)" "logged sc i name (sw_files w) = Some l"
    and "sf_log (sw_files w) = Some d" "complete d" "ev_ID e \<notin> set (event_ids l)"
  shows "io_post any_answer (appendNewEvent sc sh i name l (stored_event (st_records sc) e) s)
    (\<lambda>_ x. appended sc H i name e l x \<and> (\<exists>l'. logged sc i name (sw_files x) = Some l' \<and> ev_ID e \<in> set (event_ids l')))
    (\<lambda>_. appended sc H i name e l) (appended sc H i name e l) w"
proof -
  let ?e = "stored_event (st_records sc) e"
  have keeps: "clone_keeps_id (st_records sc)" using assms(1) by (simp add: codec_ok_def)
  have load: "loadSessionLog (st_sha sc) (st_records sc) i name d = Inr l" by (rule settled_content [OF assms(6,5)])
  have here: "appended sc H i name e l w" using assms(4,5) by (simp add: appended_def extends_def)
  define F where "F = (\<lambda>pending. io_bind
       (case st_marshal sc (event_record (sr_Order pending) ?e) of
          None \<Rightarrow> io_return (False, Some ErrRequest)
        | Some data \<Rightarrow> appendBytes (data @ [LF])) (\<lambda>(committed, err).
       case err of
         Some x \<Rightarrow> io_then (if committed then io_return () else release_io sc pending) (io_fail x)
       | None \<Rightarrow>
           io_bind (reconcile_committed sh (l_stateRecords l @ [pending])) (\<lambda>projection.
             io_return (appendCommitted (st_records sc) ?e projection s))))"
  have writes: "io_post any_answer (F p)
      (\<lambda>_ x. appended sc H i name e l x \<and> (\<exists>l'. logged sc i name (sw_files x) = Some l' \<and> ev_ID e \<in> set (event_ids l')))
      (\<lambda>_. appended sc H i name e l) (appended sc H i name e l) x"
    if x: "sw_files x = sw_files w" "n \<noteq> 0" "sr_Order p = n" for x n p
  proof (cases "st_marshal sc (event_record n ?e)")
    case None
    then show ?thesis using coherent_files [OF x(1) here] x(3) by (auto simp: F_def intro!: io_rules)
  next
    case (Some raw)
    then obtain e' where e': "line_decodes (st_records sc) raw (event_record n e')" "ev_ID e' = ev_ID e"
      using assms(2) by (auto simp: event_codec_ok_def)
    obtain l' where l': "loadSessionLog (st_sha sc) (st_records sc) i name (d @ raw @ [LF]) = Inr l'" "l_header l' = l_header l"
      "l_events l' = l_events l @ [cd_clone (st_records sc) e']"
      by (rule load_appended [OF keeps assms(7) load e'(1) x(2)]) (use e'(2) assms(3,8) in \<open>simp_all add: event_ids_def\<close>)
    have ext: "extends e l l'" "ev_ID e \<in> set (event_ids l')"
      using l'(2,3) e'(2) assms(8) keeps by (auto simp: extends_def event_ids_def clone_keeps_id_def)
    have cx: "coherent sc H i name (sw_files x)" "logged sc i name (sw_files x) = Some l" "sf_log (sw_files x) = Some d"
      using assms(4-6) x(1) by simp_all
    have part: "appended sc H i name e l (put_log (Some (d @ take k (raw @ [LF]))) x)" for k
    proof -
      have LF: "LF \<notin> set raw" using e'(1) by (simp add: line_decodes_def)
      have "loadSessionLog (st_sha sc) (st_records sc) i name (d @ take (min k (length raw + 1)) (raw @ [LF])) \<in>
        {loadSessionLog (st_sha sc) (st_records sc) i name d, loadSessionLog (st_sha sc) (st_records sc) i name (d @ raw @ [LF])}"
        using torn_append_loads [of d raw "min k (length raw + 1)" "st_sha sc" "st_records sc" i name] LF assms(7)
        by (simp add: complete_def)
      moreover have "take (min k (length raw + 1)) (raw @ [LF]) = take k (raw @ [LF])" by (simp add: min_def)
      ultimately consider "loadSessionLog (st_sha sc) (st_records sc) i name (d @ take k (raw @ [LF])) = Inr l"
        | "loadSessionLog (st_sha sc) (st_records sc) i name (d @ take k (raw @ [LF])) = Inr l'"
        using load l'(1) by auto
      then show ?thesis
      proof cases
        case 1
        from coherent_relog [OF cx(1,2) 1] show ?thesis by (simp add: appended_def extends_def)
      next
        case 2
        from coherent_relog [OF cx(1,2) 2 l'(2)] ext(1) show ?thesis by (auto simp: appended_def)
      qed
    qed
    have full: "appended sc H i name e l (put_log (Some (d @ raw @ [LF])) x)"
      "logged sc i name (sw_files (put_log (Some (d @ raw @ [LF])) x)) = Some l'"
      using coherent_relog [OF cx(1,2) l'(1,2)] ext(1) by (auto simp: appended_def)
    have hx: "appended sc H i name e l x" by (rule coherent_files [OF x(1) here])
    have committed: "io_post any_answer (io_bind (reconcile_committed sh (l_stateRecords l @ [p])) (\<lambda>projection.
               io_return (appendCommitted (st_records sc) ?e projection s)))
      (\<lambda>_ x. appended sc H i name e l x \<and> (\<exists>l'. logged sc i name (sw_files x) = Some l' \<and> ev_ID e \<in> set (event_ids l')))
      (\<lambda>_. appended sc H i name e l) (appended sc H i name e l) (put_log (Some (d @ raw @ [LF])) x)"
      using full ext(2) by (auto simp: reconcile_committed_def intro!: io_rules split: prod.split option.split)
    show ?thesis unfolding F_def x(3) Some option.case appendBytes_def
      using hx part full cx(3) committed by (auto intro!: io_rules writeAndClose_post)
  qed
  have same: "sw_files x = sw_files w \<Longrightarrow> appended sc H i name e l x" for x using coherent_files here by blast
  have order: "sr_Order (event_state_record sc i name l ?e n) = n" for n
    by (simp add: event_state_record_def Let_def case_prod_unfold)
  show ?thesis unfolding appendNewEvent_def F_def [symmetric]
    by (intro io_post_bind reserve_io_post same) (use writes order in simp_all)
qed


lemma appended_settled: "settled w x \<Longrightarrow> coherent sc H i name (sw_files w) \<Longrightarrow> logged sc i name (sw_files w) = Some l \<Longrightarrow>
    appended sc H i name e l x"
  by (auto simp: appended_def extends_def settled_invariants settled_views)

lemma load_coherent_post:
  assumes "coherent sc H i name (sw_files w)"
    and "sf_log (sw_files w) = None \<Longrightarrow> E ErrSessionNotFound w"
    and "\<And>x. settled w x \<Longrightarrow> E ErrIO x" and "\<And>x. settled w x \<Longrightarrow> C x"
    and "\<And>x l d. settled w x \<Longrightarrow> logged sc i name (sw_files w) = Some l \<Longrightarrow> sf_log (sw_files x) = Some d \<Longrightarrow> complete d \<Longrightarrow> Q l x"
  shows "io_post any_answer (load_session sc i name) Q E C w"
proof (cases "sf_log (sw_files w)")
  case None
  then show ?thesis using assms(2-4) unfolding load_session_def readSessionLog_def by (auto intro!: io_rules)
next
  case (Some d)
  then obtain l where l: "logged sc i name (sw_files w) = Some l" using assms(1) by (auto simp: coherent_def)
  then have p: "parse (st_sha sc) (st_records sc) i name (fst (recover_log d)) = Inr l"
    using settled_content [OF Some] by (simp add: loadSessionLog_def)
  show ?thesis
  proof (cases "d = [] \<or> last d = LF")
    case True
    then have "fst (recover_log d) = d" by (simp add: recover_log_def)
    moreover have "complete d" using True by (simp add: complete_def)
    ultimately show ?thesis using Some True assms(3-5) l p unfolding load_session_def readSessionLog_def
      by (auto intro!: io_rules)
  next
    case False
    have k: "fst (recover_log d) = take (torn_cut d) d" using False by (simp add: recover_log_def)
    moreover have "complete (take (torn_cut d) d)" using recover_is_complete [of d] by (simp add: k)
    ultimately show ?thesis using Some False assms(3-5) l p truncated_settled [OF Some]
      unfolding load_session_def readSessionLog_def truncateTornFile_def Let_def
      by (auto intro!: io_rules)
  qed
qed

lemma find_id: "eventByID events eid = None \<longleftrightarrow> eid \<notin> set (map ev_ID events)"
  by (auto simp: eventByID_def find_None_iff)

lemma appendEvent_post:
  assumes "codec_ok sc H" "event_codec_ok sc e" "ev_ID e \<noteq> []" "\<not> ev_Partial e"
    and "coherent sc H i name (sw_files w)" "logged sc i name (sw_files w) = Some l"
  shows "io_post any_answer (appendEvent sc sh known i name e s)
    (\<lambda>_ x. appended sc H i name e l x \<and> (\<exists>l'. logged sc i name (sw_files x) = Some l' \<and> ev_ID e \<in> set (event_ids l')))
    (\<lambda>_. appended sc H i name e l) (appended sc H i name e l) w"
proof -
  have here: "appended sc H i name e l w" using assms(5,6) by (simp add: appended_def extends_def)
  have settles: "settled w x \<Longrightarrow> appended sc H i name e l x" for x using appended_settled [OF _ assms(5,6)] by blast
  have log: "sf_log (sw_files w) \<noteq> None" using assms(6) by (auto simp: logged_def split: option.splits)
  define G where "G = (\<lambda>l. if h_Incarnation (ds_header s) \<noteq> incarnation_of l then io_fail ErrInvalidEvent
          else
            let stored = stored_event (st_records sc) e
            in case eventByID (l_events l) (ev_ID e) of
                 Some prior \<Rightarrow> replayCommittedEvent sc sh prior (l_stateRecords l) stored s
               | None \<Rightarrow> appendNewEvent sc sh i name l stored s)"
  have body: "io_post any_answer (G l)
    (\<lambda>_ x. appended sc H i name e l x \<and> (\<exists>l'. logged sc i name (sw_files x) = Some l' \<and> ev_ID e \<in> set (event_ids l')))
    (\<lambda>_. appended sc H i name e l) (appended sc H i name e l) x"
    if x: "settled w x" "sf_log (sw_files x) = Some d" "complete d" for x d
  proof -
    have cx: "coherent sc H i name (sw_files x)" "logged sc i name (sw_files x) = Some l"
      using assms(5,6) x(1) by (simp_all add: settled_invariants settled_views)
    show ?thesis
    proof (cases "eventByID (l_events l) (ev_ID e)")
      case None
      then have "ev_ID e \<notin> set (event_ids l)" using find_id [of "l_events l"] by (simp add: event_ids_def)
      from appendNewEvent_post [OF assms(1-3) cx x(2,3) this, of sh s] show ?thesis
        using None settles [OF x(1)] by (simp add: G_def Let_def)
    next
      case (Some prior)
      then have "ev_ID e \<in> set (event_ids l)" using find_id [of "l_events l" "ev_ID e"] by (auto simp: event_ids_def)
      then show ?thesis using Some settles [OF x(1)] cx(2)
        by (auto simp: G_def Let_def replayCommittedEvent_def reconcile_committed_def intro!: io_rules split: prod.split option.split)
    qed
  qed
  have step: "io_post any_answer (io_bind (load_session sc i name) G)
    (\<lambda>_ x. appended sc H i name e l x \<and> (\<exists>l'. logged sc i name (sw_files x) = Some l' \<and> ev_ID e \<in> set (event_ids l')))
    (\<lambda>_. appended sc H i name e l) (appended sc H i name e l) w"
    by (intro io_post_bind load_coherent_post [OF assms(5)]) (use log settles body assms(6) in simp_all)
  show ?thesis unfolding appendEvent_def G_def [symmetric]
    using assms(3,4) step here by (auto intro!: io_post_then io_rules fail_if_post)
qed

end
