(* ===== verification/Session_Runs.thy ===== *)
theory Session_Runs
  imports Session_Lifecycle
begin

text \<open>
  Sequences of calls on one session with failures and deaths between and within them: what always holds of its files,
  what a creation, an appended event and a deletion that return have done, and that retries succeed. \<open>numbered_store\<close>
  is a sample store whose records, markers and numbers are read back.
\<close>

section \<open>Runs of calls\<close>

text \<open>Calls on one session. A process that died loses its memory: the inventory of orders.\<close>

datatype ('v, 'p) store_call =
    CallCreate "'v shared_calls" "'v create_request"
  | CallDelete "'v shared_calls"
  | CallAppend "'v shared_calls" bool "('v, 'p) event" "('v, 'p) durableSession"

definition discard :: "('s, 'e, 'a) io \<Rightarrow> ('s, 'e, unit) io" where
  "discard m = io_then m (io_return ())"

fun call_io :: "('v, 'p) store_codec \<Rightarrow> identity \<Rightarrow> go_string \<Rightarrow> ('v, 'p) store_call \<Rightarrow> unit store_io" where
  "call_io sc i name (CallCreate sh rq) = discard (create_session sc sh name rq)"
| "call_io sc i name (CallDelete sh) = deleteLocked sc sh i name"
| "call_io sc i name (CallAppend sh known e s) = discard (appendEvent sc sh known i name e s)"

definition restart :: "store_world \<Rightarrow> store_world" where
  "restart w = w\<lparr>sw_orders := (sw_orders w)\<lparr>ao_inventory := None\<rparr>\<rparr>"

fun run_calls ::
  "('v, 'p) store_codec \<Rightarrow> identity \<Rightarrow> go_string \<Rightarrow> (('v, 'p) store_call \<times> answer list) list \<Rightarrow> store_world \<Rightarrow> store_world" where
  "run_calls sc i name [] w = w"
| "run_calls sc i name ((c, as) # rest) w =
     (case call_io sc i name c w as of
        (Died, w', _) \<Rightarrow> run_calls sc i name rest (restart w')
      | (_, w', _) \<Rightarrow> run_calls sc i name rest w')"

fun call_ok :: "('v, 'p) store_codec \<Rightarrow> 'v header set \<Rightarrow> identity \<Rightarrow> ('v, 'p) store_call \<Rightarrow> bool" where
  "call_ok sc H i (CallCreate sh rq) \<longleftrightarrow> request_ok sc H rq \<and> rq_identity rq = i"
| "call_ok sc H i (CallDelete sh) \<longleftrightarrow> True"
| "call_ok sc H i (CallAppend sh known e s) \<longleftrightarrow> event_codec_ok sc e"

lemma post_discard: "io_post ok m (\<lambda>_. Q) E C w \<Longrightarrow> io_post ok (discard m) (\<lambda>_. Q) E C w"
  unfolding discard_def by (rule io_post_then, erule io_post_weaken) simp_all

lemma restart_simps [simp]: "sw_files (restart w) = sw_files w" "intact sc H i name (restart w) = intact sc H i name w"
  by (simp_all add: restart_def)

lemma io_post_any:
  "io_post any_answer m Q E C w \<Longrightarrow> m w as = (x, w', bs) \<Longrightarrow> (case x of Value a \<Rightarrow> Q a w' | Error e \<Rightarrow> E e w' | Died \<Rightarrow> C w')"
  by (drule io_postD) (auto simp: list_all_iff)

lemma absent_append:
  assumes "coherent sc H i name (sw_files w)" "sf_log (sw_files w) = None"
  shows "io_post any_answer (appendEvent sc sh known i name e s) (\<lambda>_. intact sc H i name) (\<lambda>_. intact sc H i name) (intact sc H i name) w"
proof -
  have "intact sc H i name w" using assms(1) by (simp add: intact_def)
  moreover from this have "settled w x \<Longrightarrow> intact sc H i name x" for x using intact_settled by blast
  ultimately show ?thesis using assms unfolding appendEvent_def
    by (auto intro!: io_rules fail_if_post load_coherent_post simp: logged_def)
qed

lemma headless_append:
  assumes "headless sc H i (sw_files w)" "\<not> ev_Partial e"
  shows "io_post any_answer (appendEvent sc sh known i name e s) (\<lambda>_ _. False) (\<lambda>_ x. headless sc H i (sw_files x)) (\<lambda>x. headless sc H i (sw_files x)) w"
  using assms unfolding appendEvent_def by (auto intro!: io_rules fail_if_post headless_load)

lemma call_intact:
  assumes "codec_ok sc H" "call_ok sc H i c" "intact sc H i name w"
  shows "io_post any_answer (call_io sc i name c) (\<lambda>_. intact sc H i name) (\<lambda>_. intact sc H i name) (intact sc H i name) w"
proof (cases c)
  case (CallCreate sh rq)
  have "io_post any_answer (create_session sc sh name rq) (\<lambda>_. intact sc H i name) (\<lambda>_. intact sc H i name) (intact sc H i name) w"
    by (rule io_post_weaken [OF create_session_post [OF assms(1) _ _ assms(3)]])
      (use assms(2) CallCreate in \<open>auto simp: created_ok_def intact_def\<close>)
  then show ?thesis using CallCreate by (simp add: post_discard)
next
  case (CallDelete sh)
  show ?thesis
  proof (cases "coherent sc H i name (sw_files w)")
    case True
    show ?thesis unfolding CallDelete call_io.simps
      by (rule io_post_weaken [OF deleteLocked_post [OF assms(1) True]])
        (auto simp: gone_def intact_def coherent_def markers_ok_def creating_def deleting_def logged_def)
  next
    case False
    then have "headless sc H i (sw_files w)" using assms(3) by (simp add: intact_def)
    from io_post_weaken [OF headless_delete [OF this]] show ?thesis using CallDelete by (simp add: intact_def)
  qed
next
  case (CallAppend sh known e s)
  have "io_post any_answer (appendEvent sc sh known i name e s) (\<lambda>_. intact sc H i name) (\<lambda>_. intact sc H i name) (intact sc H i name) w"
  proof (cases "ev_Partial e \<or> ev_ID e = []")
    case True
    then show ?thesis using assms(3) by (auto simp: appendEvent_def)
  next
    case False
    show ?thesis
    proof (cases "coherent sc H i name (sw_files w)")
      case True
      show ?thesis
      proof (cases "logged sc i name (sw_files w)")
        case None
        then have "sf_log (sw_files w) = None" using True by (auto simp: coherent_def)
        then show ?thesis by (rule absent_append [OF True])
      next
        case (Some l)
        show ?thesis
          by (rule io_post_weaken [OF appendEvent_post [OF assms(1) _ _ _ True Some]])
            (use assms(2) CallAppend False in \<open>auto simp: appended_def intact_def\<close>)
      qed
    next
      case bad: False
      then have "headless sc H i (sw_files w)" using assms(3) by (simp add: intact_def)
      from io_post_weaken [OF headless_append [OF this]] show ?thesis using False by (simp add: intact_def)
    qed
  qed
  then show ?thesis using CallAppend by (simp add: post_discard)
qed

lemma run_calls_intact:
  assumes "codec_ok sc H" "\<forall>(c, as) \<in> set calls. call_ok sc H i c" "intact sc H i name w"
  shows "intact sc H i name (run_calls sc i name calls w)"
  using assms(2,3)
proof (induction calls arbitrary: w)
  case (Cons x rest)
  obtain c as where x: "x = (c, as)" by fastforce
  obtain r w' bs where r: "call_io sc i name c w as = (r, w', bs)" by (cases "call_io sc i name c w as")
  have "call_ok sc H i c" using Cons.prems(1) x by simp
  from io_post_any [OF call_intact [OF assms(1) this Cons.prems(2)] r] have "intact sc H i name w'" by (cases r) simp_all
  then show ?case using Cons x r by (cases r) simp_all
qed simp


text \<open>C24: Whatever calls fail and wherever the process dies, the transcript and the markers of a session stay coherent:
  every file present can be read, and all speak of the same incarnation. The only other state is a transcript whose
  header line was never completed.\<close>

theorem session_files_survive:
  assumes "codec_ok sc H" and "\<forall>(c, as) \<in> set calls. call_ok sc H i c" and "gone w"
  shows "let f = sw_files (run_calls sc i name calls w) in coherent sc H i name f \<or> headless sc H i f"
proof -
  have "intact sc H i name w" using assms(3) by (simp add: gone_def intact_def coherent_def markers_ok_def creating_def deleting_def logged_def)
  from run_calls_intact [OF assms(1,2) this] show ?thesis by (simp add: intact_def Let_def)
qed

text \<open>C25: A creation that returns a session has written it in full: no marker is left and the transcript loads with the
  header of the session. When an earlier attempt left its marker, the session is the one that attempt reserved, so
  retrying never makes a second incarnation.\<close>

theorem create_returns_durable_session:
  assumes "codec_ok sc H" and "request_ok sc H rq" and "coherent sc H (rq_identity rq) name (sw_files w) \<or> headless sc H (rq_identity rq) (sw_files w)"
    and "create_session sc sh name rq w as = (Value s, w', as')"
  shows "\<exists>h. (case creating sc (sw_files w) of None \<Rightarrow> \<exists>n. h = created_header sc rq n | Some m \<Rightarrow> h = cm_Header m) \<and>
    session_created sc (rq_identity rq) name h s w' \<and> coherent sc H (rq_identity rq) name (sw_files w')"
proof -
  have "intact sc H (rq_identity rq) name w" using assms(3) by (simp add: intact_def)
  from io_post_any [OF create_session_post [OF assms(1,2) refl this] assms(4)] show ?thesis by (auto simp: created_ok_def)
qed

text \<open>C26: Appending an event is atomic and idempotent: whatever fails, the transcript afterwards holds its events from
  before, or those and this event once at the end; and when the call succeeds the event is there.\<close>

theorem append_exactly_once:
  assumes "codec_ok sc H" and "event_codec_ok sc e" and "ev_ID e \<noteq> []" and "\<not> ev_Partial e"
    and "coherent sc H i name (sw_files w)" and "logged sc i name (sw_files w) = Some l"
    and "appendEvent sc sh known i name e s w as = (r, w', as')"
  shows "coherent sc H i name (sw_files w') \<and>
    (\<exists>l'. logged sc i name (sw_files w') = Some l' \<and> l_header l' = l_header l \<and>
       (l_events l' = l_events l \<or>
        ev_ID e \<notin> set (map ev_ID (l_events l)) \<and> (\<exists>x. ev_ID x = ev_ID e \<and> l_events l' = l_events l @ [x])) \<and>
       (\<forall>s'. r = Value s' \<longrightarrow> ev_ID e \<in> set (map ev_ID (l_events l'))))"
  using io_post_any [OF appendEvent_post [OF assms(1-6)] assms(7)]
  by (cases r) (auto simp: appended_def extends_def event_ids_def)

lemma scan_transcripts_corrupt:
  "LF \<notin> set d \<Longrightarrow> \<exists>e. scan_transcripts sha cd (pre @ (name, i, Some d) # post) out = Inl e \<and> e = ErrCorruptLog"
  by (induction pre arbitrary: out) (auto simp: load_headless split: option.split sum.split)

text \<open>C29: A transcript whose header line is not complete is final. The creation that left it is not resumed, the session
  can neither be created nor deleted nor extended, whatever the calls of the file system do, the file stays as it is,
  and as long as it is there no session of the application can be read.\<close>

theorem incomplete_header_is_final:
  assumes "headless sc H i (sw_files w)" and "call_io sc i name c w as = (r, w', as')"
    and "case c of CallCreate sh rq \<Rightarrow> rq_identity rq = i | CallDelete sh \<Rightarrow> True | CallAppend sh known e s \<Rightarrow> \<not> ev_Partial e"
  shows "r \<noteq> Value () \<and> headless sc H i (sw_files w') \<and>
    scanApp sha (cd :: ('v, 'p) codec) (pre @ (name, i, sf_log (sw_files w')) # post) = Inl ErrCorruptLog"
proof -
  have "io_post any_answer (call_io sc i name c) (\<lambda>_ _. False) (\<lambda>_ x. headless sc H i (sw_files x)) (\<lambda>x. headless sc H i (sw_files x)) w"
    using assms(1,3) headless_create [OF assms(1)] headless_delete [OF assms(1)] headless_append [OF assms(1)]
    by (cases c) (auto intro!: post_discard)
  from io_post_any [OF this assms(2)] have h: "r \<noteq> Value ()" "headless sc H i (sw_files w')" by (cases r; simp)+
  then obtain d where d: "sf_log (sw_files w') = Some d" "LF \<notin> set d" by (auto simp: headless_def)
  have "scanApp sha cd (pre @ (name, i, Some d) # post) = Inl ErrCorruptLog"
    using scan_transcripts_corrupt [OF d(2), of sha cd pre name i post "\<lparr>as_Logs = [], as_Records = []\<rparr>"] by (auto simp: scanApp_def)
  then show ?thesis using h d by simp
qed


section \<open>Retries succeed\<close>

lemma load_done:
  assumes "coherent sc H i name (sw_files w)"
    and "sf_log (sw_files w) = None \<Longrightarrow> E ErrSessionNotFound w"
    and "\<And>x l. settled w x \<Longrightarrow> logged sc i name (sw_files w) = Some l \<Longrightarrow> Q l x"
  shows "io_post no_fault (load_session sc i name) Q E C w"
proof (cases "sf_log (sw_files w)")
  case None
  then show ?thesis using assms(2) unfolding load_session_def readSessionLog_def by (auto intro!: io_rules)
next
  case (Some d)
  then obtain l where l: "logged sc i name (sw_files w) = Some l" using assms(1) by (auto simp: coherent_def)
  then have p: "parse (st_sha sc) (st_records sc) i name (fst (recover_log d)) = Inr l"
    using settled_content [OF Some] by (simp add: loadSessionLog_def)
  show ?thesis
  proof (cases "d = [] \<or> last d = LF")
    case True
    then have "fst (recover_log d) = d" by (simp add: recover_log_def)
    then show ?thesis using Some True assms(3) l p unfolding load_session_def readSessionLog_def by (auto intro!: io_rules)
  next
    case False
    then have "fst (recover_log d) = take (torn_cut d) d" by (simp add: recover_log_def)
    then show ?thesis using Some False assms(3) l p truncated_settled [OF Some]
      unfolding load_session_def readSessionLog_def truncateTornFile_def Let_def by (auto intro!: io_rules)
  qed
qed

lemma finishDelete_done: "io_post no_fault (io_then removeCreateMarker (finishDeleteMarker sc)) (\<lambda>_ _. True) E C w"
  unfolding finishDeleteMarker_def removeCreateMarker_def by (auto intro!: io_rules delete_file.finish_done)

lemma deleteLocked_done:
  assumes "codec_ok sc H" "coherent sc H i name (sw_files w)" "sh_repair sh = None"
  shows "io_post no_fault (deleteLocked sc sh i name) (\<lambda>_ _. True) (\<lambda>_ _. False) (\<lambda>_. False) w"
proof -
  define G where "G = (\<lambda>loaded. io_bind (readDeleteMarker sc) (\<lambda>marker. io_bind (readCreateMarker sc) (\<lambda>pending.
       case marker of
         Some m \<Rightarrow> resumeDelete sc loaded m
       | None \<Rightarrow>
           (case loaded of
              Inl e \<Rightarrow> if e = ErrSessionNotFound then deletePendingCreate sc pending else io_fail e
            | Inr l \<Rightarrow> deleteExisting sc sh l))))"
  have finish: "io_post no_fault (finishDeleteMarker sc) (\<lambda>_ _. True) (\<lambda>_ _. False) (\<lambda>_. False) x" for x
    unfolding finishDeleteMarker_def by (auto intro!: io_rules delete_file.finish_done)
  have after: "io_post no_fault (G loaded) (\<lambda>_ _. True) (\<lambda>_ _. False) (\<lambda>_. False) x"
    if x: "coherent sc H i name (sw_files x)" "loaded = Inl ErrSessionNotFound \<or> (\<exists>l. loaded = Inr l)" for x loaded
    using x assms(3) finishDelete_done finish
    unfolding G_def readDeleteMarker_def readCreateMarker_def resumeDelete_def deletePendingCreate_def deleteExisting_def writeDeleteMarker_def removeCreateMarker_def
    by (auto simp: coherent_def markers_ok_def marker_ok_def creating_def deleting_def fail_if_def split: option.splits
        intro!: io_post_bind io_post_then io_post_check_done io_post_state io_post_effect_done io_post_strict_done)
  show ?thesis unfolding deleteLocked_def G_def [symmetric]
    by (intro io_post_bind io_post_attempt load_done [OF assms(2)]) (use after assms(2) in \<open>simp_all add: settled_invariants\<close>)
qed

lemma createLog_done:
  "sf_log (sw_files w) = None \<Longrightarrow> Q (True, None) (put_log (Some data) w) \<Longrightarrow> io_post no_fault (createLog sc data) Q E C w"
  unfolding createLog_def writeAndClose_def by (auto intro!: io_rules simp: log_file.put_put)

lemma validate_done:
  assumes "fst (validateReservedRecord (st_encode sc) build Replaced r (sw_orders w)) = None" "\<And>x. sw_files x = sw_files w \<Longrightarrow> Q () x"
  shows "io_post no_fault (validate_io sc build r) Q E C w"
proof (rule io_postI)
  fix as x s' as'
  assume as: "list_all no_fault as" and run: "validate_io sc build r w as = (x, s', as')"
  obtain bs where n: "next_answer as = (Done, bs)" "list_all no_fault bs" using as by (cases as) auto
  then have "x = Value ()" "sw_files s' = sw_files w" "as' = bs"
    using run assms(1) by (auto simp: validate_io_def write_outcome_of_def split: prod.splits)
  then show "list_all no_fault as' \<and> (case x of Value a \<Rightarrow> Q a s' | Error e \<Rightarrow> E e s' | Died \<Rightarrow> C s')" using n(2) assms(2) by simp
qed

lemma resumeCreate_done:
  assumes "codec_ok sc H" "marker_ok H i m" "coherent sc H i name (sw_files w)" "sf_delete (sw_files w) = None"
    and "creating sc (sw_files w) = Some m" "sh_read sh = None" "\<forall>records. snd (sh_reconcile sh records) = None"
    and "fst (validateReservedRecord (st_encode sc) (sh_build sh) Replaced (create_record sc name (cm_Header m)) (sw_orders w)) = None"
  shows "io_post no_fault (resumeCreate sc sh i name m) (\<lambda>s _. ds_header s = cloneHeader (st_clone sc) (cm_Header m)) (\<lambda>_ _. False) (\<lambda>_. False) w"
proof -
  let ?h = "cm_Header m"
  have h: "?h \<in> H" "norm_header ?h = ?h" using assms(2) by (simp_all add: marker_ok_def)
  define F where "F = (\<lambda>l :: ('a, 'b) session_log. if l_header l \<noteq> Some ?h then io_fail ErrCorruptLog
        else io_then (io_when (st_fsync sc) (io_check ErrIO))
          (io_bind (reconcile_io sh (l_stateRecords l)) (\<lambda>projection.
            io_then (finishCreateMarker sc)
              (io_return (newDurableSession (st_clone sc) (st_records sc) ?h []
                (sessionState (st_clone sc) ?h (l_events l) projection) (h_CreatedAt ?h))))))"
  define G where "G = (\<lambda>data loaded. io_bind
          (if loaded = Inl ErrSessionNotFound
           then io_bind (createLog sc data) (\<lambda>(_, err). case err of Some e \<Rightarrow> io_fail e | None \<Rightarrow> load_session sc i name)
           else io_result loaded) F)"
  have marked: "sf_create (sw_files w) \<noteq> None" using assms(5) by (auto simp: creating_def split: option.splits)
  have finish: "io_post no_fault (F l) (\<lambda>s _. ds_header s = cloneHeader (st_clone sc) ?h) (\<lambda>_ _. False) (\<lambda>_. False) x"
    if "l_header l = Some ?h" "sf_create (sw_files x) \<noteq> None" for x l
  proof -
    obtain p where p: "sh_reconcile sh (l_stateRecords l) = (p, None)" using assms(7) by (cases "sh_reconcile sh (l_stateRecords l)") (metis snd_conv)
    show ?thesis using that unfolding F_def finishCreateMarker_def reconcile_io_def p
      by (auto intro!: io_rules create_file.finish_done simp: newDurableSession_def)
  qed
  have header: "l_header l = Some ?h" if "coherent sc H i name (sw_files x)" "creating sc (sw_files x) = Some m" "logged sc i name (sw_files x) = Some l" for x l
    using that by (simp add: coherent_def)
  have G: "io_post no_fault (io_bind (io_attempt (load_session sc i name)) (G (raw @ [LF]))) (\<lambda>s _. ds_header s = cloneHeader (st_clone sc) ?h)
      (\<lambda>_ _. False) (\<lambda>_. False) x"
    if x: "sw_files x = sw_files w" and raw: "line_decodes (st_records sc) raw (header_record (norm_header ?h))" for x raw
  proof -
    have f: "coherent sc H i name (sw_files x)" "sf_delete (sw_files x) = None" "creating sc (sw_files x) = Some m" "sf_create (sw_files x) \<noteq> None"
      using assms(3-5) marked x by simp_all
    have full: "coherent sc H i name (sw_files (put_log (Some (raw @ [LF])) x))" using coherent_header [OF f(1-3) _ assms(2)] raw h(2) by simp
    have fh: "l_header l = Some ?h" if "logged sc i name (sw_files (put_log (Some (raw @ [LF])) x)) = Some l" for l
      by (rule header [OF full _ that]) (simp add: f(3))
    show ?thesis
    proof (intro io_post_bind io_post_attempt load_done [OF f(1)])
      assume none: "sf_log (sw_files x) = None"
      show "io_post no_fault (G (raw @ [LF]) (Inl ErrSessionNotFound)) (\<lambda>s _. ds_header s = cloneHeader (st_clone sc) ?h) (\<lambda>_ _. False) (\<lambda>_. False) x"
        unfolding G_def using f(4) fh full finish
        by (auto intro!: io_post_bind createLog_done [OF none] load_done [OF full] simp: settled_views)
    next
      fix y l
      assume "settled x y" "logged sc i name (sw_files x) = Some l"
      then show "io_post no_fault (G (raw @ [LF]) (Inr l)) (\<lambda>s _. ds_header s = cloneHeader (st_clone sc) ?h) (\<lambda>_ _. False) (\<lambda>_. False) y"
        unfolding G_def using f header [OF f(1,3)] finish by (auto intro!: io_post_bind simp: io_result_def settled_views)
    qed
  qed
  have step: "io_post no_fault (io_bind (header_line sc ?h) (\<lambda>data. io_bind (io_attempt (load_session sc i name)) (G data)))
      (\<lambda>s _. ds_header s = cloneHeader (st_clone sc) ?h) (\<lambda>_ _. False) (\<lambda>_. False) x" if "sw_files x = sw_files w" for x
    by (rule header_line_post [OF assms(1) h(1)]) (rule G [OF that])
  show ?thesis unfolding resumeCreate_def Let_def
    using assms(6) step [unfolded G_def F_def] by (auto intro!: io_post_then validate_done [OF assms(8)] simp: fail_if_def)
qed


lemma io_post_returns:
  assumes "io_post no_fault m Q (\<lambda>_ _. False) (\<lambda>_. False) w"
  shows "\<exists>x. fst (m w []) = Value x \<and> Q x (fst (snd (m w [])))"
proof -
  obtain r w' bs where r: "m w [] = (r, w', bs)" by (cases "m w []")
  have "list_all no_fault []" by simp
  from io_postD [OF assms this r] show ?thesis using r by (cases r) simp_all
qed



section \<open>A sample store\<close>

lemma parse_decimal: "parse_uint64 (decimal (uint v)) = Some v"
proof -
  have "nat (uint v) < 2 ^ 64" using uint_bounded [of v] by (simp add: nat_less_iff del: nat_uint_eq)
  then show ?thesis using decimal_digits [of "uint v"] by (simp add: parse_uint64_def nat_uint_eq)
qed

lemma decimal_plain: "0 \<le> n \<Longrightarrow> c \<in> set (decimal n) \<Longrightarrow> c \<noteq> LF \<and> c \<noteq> CHR '':''"
  using decimal_digits [of n] by (auto simp: list_all_iff ascii_digit_def less_eq_char_def)

definition numbered_header :: "64 word \<Rightarrow> unit header" where
  "numbered_header n = \<lparr>h_ID = ''s'', h_AppName = ''a'', h_UserID = ''u'', h_State = None, h_AppDelta = None, h_UserDelta = None,
     h_CreatedAt = 5, h_Incarnation = n\<rparr>"

definition numbered_headers :: "unit header set" where
  "numbered_headers = range numbered_header \<union> range (\<lambda>n. (numbered_header n)\<lparr>h_State := Some [], h_AppDelta := Some [], h_UserDelta := Some []\<rparr>)"

definition numbered_codec :: "(unit, unit) codec" where
  "numbered_codec = \<lparr>
     cd_envelope = (\<lambda>d. map_option (\<lambda>n. (2, if hd d = CHR ''h'' then recordSession else recordEvent, n)) (parse_uint64 (tl d))),
     cd_record = (\<lambda>d. map_option (\<lambda>n. if hd d = CHR ''h'' then header_record (numbered_header n) else event_record n sample_event) (parse_uint64 (tl d))),
     cd_valid = (\<lambda>_. True), cd_clone = (\<lambda>e. e)\<rparr>"

definition numbered_marker :: "unit createMarker \<Rightarrow> go_string" where
  "numbered_marker m = (if cm_Generated m then CHR ''T'' else CHR ''F'') # decimal (uint (h_Incarnation (cm_Header m))) @ CHR '':'' # cm_StateHash m"

definition parse_marker :: "go_string \<Rightarrow> unit createMarker option" where
  "parse_marker d = (let ds = tl d; rest = dropWhile (\<lambda>c. c \<noteq> CHR '':'') ds
     in map_option (\<lambda>n. \<lparr>cm_V = 1, cm_Generated = (hd d = CHR ''T''), cm_StateHash = tl rest, cm_Header = numbered_header n\<rparr>)
          (parse_uint64 (takeWhile (\<lambda>c. c \<noteq> CHR '':'') ds)))"

definition numbered_store :: "(unit, unit) store_codec" where
  "numbered_store = \<lparr>st_sha = (\<lambda>_. ''d''), st_records = numbered_codec,
     st_marshal = (\<lambda>r. if rec_Type r = recordSession then Some (CHR ''h'' # decimal (uint (rec_Order r)))
                       else if rec_Event r = Some sample_event then Some (CHR ''e'' # decimal (uint (rec_Order r))) else None),
     st_marker = numbered_marker, st_parse_marker = parse_marker,
     st_parse_uint = parse_uint64, st_event_json = (\<lambda>_. Some ''e''), st_clone = (\<lambda>m. m), st_encode = (\<lambda>_ _ _. Some ''f''), st_fsync = True\<rparr>"

lemma numbered_store_simps [simp]:
  "st_records numbered_store = numbered_codec" "st_parse_uint numbered_store = parse_uint64" "st_marker numbered_store = numbered_marker"
  "st_parse_marker numbered_store = parse_marker" "st_fsync numbered_store" "clone_keeps_id numbered_codec"
  "st_marshal numbered_store (header_record h) = Some (CHR ''h'' # decimal (uint (h_Incarnation h)))"
  "st_marshal numbered_store (event_record n sample_event) = Some (CHR ''e'' # decimal (uint n))"
  by (simp_all add: numbered_store_def clone_keeps_id_def numbered_codec_def header_record_def event_record_def record_types)

lemma line_not_blank: "c = CHR ''h'' \<or> c = CHR ''e'' \<Longrightarrow> trim_space (c # decimal (uint n)) \<noteq> []"
proof -
  assume c: "c = CHR ''h'' \<or> c = CHR ''e''"
  have d: "decimal (uint n) \<noteq> []" "list_all ascii_digit (decimal (uint n))" using decimal_digits [of "uint n"] by simp_all
  then have l: "ascii_digit (last (decimal (uint n)))" by (simp add: list_all_iff)
  have b: "byte c < 0x80 \<and> \<not> is_space (byte c)" using c by (auto simp: is_space_def byte_def)
  have "trim_space (c # decimal (uint n)) = c # decimal (uint n)"
    using digit_plain [OF l] b d(1) by (intro trim_space_id) simp_all
  then show ?thesis by simp
qed

lemma numbered_lines:
  "line_decodes numbered_codec (CHR ''h'' # decimal (uint n)) (header_record (numbered_header n))"
  "line_decodes numbered_codec (CHR ''e'' # decimal (uint n)) (event_record n sample_event)"
  using decimal_plain [of "uint n" LF] line_not_blank [of _ n]
  by (auto simp: line_decodes_def decodeRecord_def numbered_codec_def parse_decimal recordVersion_def record_types header_record_def event_record_def)

lemma marker_parses:
  assumes "cm_V m = createMarkerVersion" "cm_Header m \<in> numbered_headers"
  shows "parse_marker (numbered_marker m) = Some (m\<lparr>cm_Header := norm_header (cm_Header m)\<rparr>)"
proof -
  let ?n = "h_Incarnation (cm_Header m)"
  have colon: "CHR '':'' \<notin> set (decimal (uint ?n))" using decimal_plain [of "uint ?n" "CHR '':''"] by auto
  then have "takeWhile (\<lambda>c. c \<noteq> CHR '':'') (decimal (uint ?n) @ CHR '':'' # x) = decimal (uint ?n)"
    "dropWhile (\<lambda>c. c \<noteq> CHR '':'') (decimal (uint ?n) @ CHR '':'' # x) = CHR '':'' # x" for x
    by (subst takeWhile_append2 dropWhile_append2; force)+
  moreover have "norm_header (cm_Header m) = numbered_header ?n"
    using assms(2) by (auto simp: numbered_headers_def norm_header_def omitempty_def entries_def numbered_header_def)
  ultimately show ?thesis using assms(1) by (cases m) (simp add: parse_marker_def numbered_marker_def parse_decimal createMarkerVersion_def)
qed

lemma numbered_codec_ok: "codec_ok numbered_store numbered_headers"
proof -
  have norm: "norm_header h = numbered_header (h_Incarnation h)" if "h \<in> numbered_headers" for h
    using that by (auto simp: numbered_headers_def norm_header_def omitempty_def entries_def numbered_header_def)
  have "numbered_header n \<in> numbered_headers" for n by (simp add: numbered_headers_def)
  then show ?thesis unfolding codec_ok_def
    using numbered_lines(1) marker_parses by (auto simp: norm parse_decimal)
qed

definition ready_calls :: "unit shared_calls" where
  "ready_calls = \<lparr>sh_read = None, sh_build = Inr newRecordInventory,
     sh_reconcile = (\<lambda>_. (\<lparr>sp_App = [], sp_User = [], sp_AppVersions = [], sp_UserVersions = [], sp_Records = []\<rparr>, None)), sh_repair = None\<rparr>"

definition sample_request :: "unit create_request" where
  "sample_request = \<lparr>rq_identity = sample_identity, rq_State = None, rq_hash = ''d'', rq_generated = False, rq_now = 5\<rparr>"

definition fresh_world :: store_world where
  "fresh_world = \<lparr>sw_files = \<lparr>sf_log = None, sf_create = None, sf_delete = None\<rparr>, sw_orders = \<lparr>ao_inventory = None, ao_sequence = Absent\<rparr>\<rparr>"

definition sample_session :: "(unit, unit) durableSession" where
  "sample_session = newDurableSession (\<lambda>m. m) numbered_codec (numbered_header 1) [] [] 5"

definition create_call :: "(unit, unit) store_call" where
  "create_call = CallCreate ready_calls sample_request"

definition append_call :: "(unit, unit) store_call" where
  "append_call = CallAppend ready_calls True sample_event sample_session"

definition files_after :: "((unit, unit) store_call \<times> answer list) list \<Rightarrow> session_files" where
  "files_after calls = sw_files (run_calls numbered_store sample_identity ''f'' calls fresh_world)"

text \<open>A process that dies after the marker is written, one that dies after the transcript is opened, and one that lives.\<close>

lemma create_runs:
  "files_after [(create_call, replicate 6 Done @ [DiesAfter])] = \<lparr>sf_log = None, sf_create = Some ''F1:d'', sf_delete = None\<rparr>"
  "files_after [(create_call, replicate 7 Done @ [DiesAfter])] = \<lparr>sf_log = Some [], sf_create = Some ''F1:d'', sf_delete = None\<rparr>"
  "files_after [(create_call, [])] = \<lparr>sf_log = Some (''h1'' @ [LF]), sf_create = None, sf_delete = None\<rparr>"
  by code_simp+

lemma sample_request_ok: "request_ok numbered_store numbered_headers sample_request" "rq_identity sample_request = sample_identity"
proof -
  have "created_header numbered_store sample_request n =
      (numbered_header n)\<lparr>h_State := Some [], h_AppDelta := Some [], h_UserDelta := Some []\<rparr>" for n
    by (simp add: created_header_def sample_request_def sample_identity_def numbered_header_def cloneMap_def entries_def splitState_def)
  then show "request_ok numbered_store numbered_headers sample_request"
    by (simp add: request_ok_def numbered_headers_def) (simp add: sample_request_def sample_identity_def)
qed (simp add: sample_request_def)

lemma stored_sample: "stored_event numbered_codec sample_event = sample_event"
  by (simp add: stored_event_def numbered_codec_def sample_event_def)

lemma sample_event_ok: "event_codec_ok numbered_store sample_event"
  using numbered_lines(2) by (auto simp: event_codec_ok_def stored_sample)

definition sample_marker :: "unit createMarker" where
  "sample_marker = \<lparr>cm_V = 1, cm_Generated = False, cm_StateHash = ''d'', cm_Header = numbered_header 1\<rparr>"

lemma sample_marker_ok: "parse_marker ''F1:d'' = Some sample_marker" "marker_ok numbered_headers sample_identity sample_marker"
proof -
  have n: "numbered_header 1 \<in> numbered_headers" "norm_header (numbered_header 1) = numbered_header 1"
    by (simp_all add: numbered_headers_def norm_header_def omitempty_def numbered_header_def)
  have "numbered_marker sample_marker = ''F1:d''"
    by (simp add: numbered_marker_def sample_marker_def numbered_header_def decimal.simps)
  then show "parse_marker ''F1:d'' = Some sample_marker"
    using marker_parses [of sample_marker] n by (simp add: sample_marker_def createMarkerVersion_def)
  show "marker_ok numbered_headers sample_identity sample_marker"
    using n by (simp add: marker_ok_def valid_marker_def header_for_def sample_marker_def createMarkerVersion_def)
      (simp add: numbered_header_def sample_identity_def)
qed

lemma sample_log:
  obtains l where "logged numbered_store sample_identity ''f'' \<lparr>sf_log = Some (''h1'' @ [LF]), sf_create = c, sf_delete = d\<rparr> = Some l"
    "l_header l = Some (numbered_header 1)" "l_events l = []"
proof -
  have line: "line_decodes numbered_codec ''h1'' (header_record (numbered_header 1))"
    using numbered_lines(1) [of 1] by (simp add: decimal.simps)
  have "header_for sample_identity (numbered_header 1)" by (simp add: header_for_def numbered_header_def sample_identity_def)
  from load_header_line [OF line this] obtain l where "loadSessionLog (st_sha numbered_store) numbered_codec sample_identity ''f'' (''h1'' @ [LF]) = Inr l"
    "l_header l = Some (numbered_header 1)" "l_events l = []" by blast
  then show ?thesis by (intro that) (simp_all add: logged_def)
qed

lemma sample_coherent:
  "coherent numbered_store numbered_headers sample_identity ''f'' (files_after [(create_call, [])])"
  "coherent numbered_store numbered_headers sample_identity ''f'' (files_after [(create_call, replicate 6 Done @ [DiesAfter])])"
  "headless numbered_store numbered_headers sample_identity (files_after [(create_call, replicate 7 Done @ [DiesAfter])])"
proof -
  obtain l where l: "logged numbered_store sample_identity ''f'' \<lparr>sf_log = Some (''h1'' @ [LF]), sf_create = None, sf_delete = None\<rparr> = Some l"
    using sample_log by blast
  then show "coherent numbered_store numbered_headers sample_identity ''f'' (files_after [(create_call, [])])"
    unfolding create_runs by (simp add: coherent_def markers_ok_def creating_def deleting_def)
  show "coherent numbered_store numbered_headers sample_identity ''f'' (files_after [(create_call, replicate 6 Done @ [DiesAfter])])"
    unfolding create_runs using sample_marker_ok by (simp add: coherent_def markers_ok_def creating_def deleting_def logged_def)
  show "headless numbered_store numbered_headers sample_identity (files_after [(create_call, replicate 7 Done @ [DiesAfter])])"
    unfolding create_runs using sample_marker_ok by (simp add: headless_def markers_ok_def creating_def deleting_def)
qed

section \<open>Witnesses\<close>

lemma session_files_survive_witness:
  "let f = files_after [(create_call, replicate 6 Done @ [DiesAfter]), (append_call, [Refused]), (create_call, []),
     (append_call, replicate 6 Done @ [DiesWithin 1]), (CallDelete ready_calls, [])]
   in coherent numbered_store numbered_headers sample_identity ''f'' f \<or> headless numbered_store numbered_headers sample_identity f"
proof -
  have "gone fresh_world" by (simp add: gone_def fresh_world_def)
  moreover have "call_ok numbered_store numbered_headers sample_identity create_call"
    "call_ok numbered_store numbered_headers sample_identity append_call"
    using sample_request_ok sample_event_ok by (simp_all add: create_call_def append_call_def)
  ultimately show ?thesis unfolding files_after_def by (intro session_files_survive [OF numbered_codec_ok]) simp_all
qed

lemma create_returns_durable_session_witness:
  "\<exists>s. fst (create_session numbered_store ready_calls ''f'' sample_request fresh_world []) = Value s \<and>
     (\<exists>n. ds_header s = cloneHeader (\<lambda>m. m) (created_header numbered_store sample_request n))"
proof -
  have "\<not> (case fst (create_session numbered_store ready_calls ''f'' sample_request fresh_world []) of Value _ \<Rightarrow> False | _ \<Rightarrow> True)" by code_simp
  then obtain s w' as' where r: "create_session numbered_store ready_calls ''f'' sample_request fresh_world [] = (Value s, w', as')"
    by (cases "create_session numbered_store ready_calls ''f'' sample_request fresh_world []") (auto split: io_outcome.splits)
  have "coherent numbered_store numbered_headers (rq_identity sample_request) ''f'' (sw_files fresh_world)"
    by (simp add: coherent_def markers_ok_def creating_def deleting_def logged_def fresh_world_def)
  from create_returns_durable_session [OF numbered_codec_ok sample_request_ok(1) disjI1 [OF this] r] r show ?thesis
    by (auto simp: session_created_def creating_def fresh_world_def numbered_store_def)
qed

lemma append_exactly_once_witness:
  "\<exists>r w' as' l'. appendEvent numbered_store ready_calls True sample_identity ''f'' sample_event sample_session
       (run_calls numbered_store sample_identity ''f'' [(create_call, [])] fresh_world) [Done, Done, Done, RefusedWithin 1] = (r, w', as') \<and>
     logged numbered_store sample_identity ''f'' (sw_files w') = Some l' \<and> (l_events l' = [] \<or> length (l_events l') = 1)"
proof -
  let ?w = "run_calls numbered_store sample_identity ''f'' [(create_call, [])] fresh_world"
  obtain r w' as' where r: "appendEvent numbered_store ready_calls True sample_identity ''f'' sample_event sample_session ?w
      [Done, Done, Done, RefusedWithin 1] = (r, w', as')"
    by (cases "appendEvent numbered_store ready_calls True sample_identity ''f'' sample_event sample_session ?w [Done, Done, Done, RefusedWithin 1]")
  obtain l where l: "logged numbered_store sample_identity ''f'' (sw_files ?w) = Some l" "l_events l = []"
    using sample_log [of None None] create_runs(3) unfolding files_after_def by metis
  have e: "ev_ID sample_event \<noteq> []" "\<not> ev_Partial sample_event" by (simp_all add: sample_event_def)
  from append_exactly_once [OF numbered_codec_ok sample_event_ok e sample_coherent(1) [unfolded files_after_def] l(1) r] r l(2)
  show ?thesis by auto
qed


lemma incomplete_header_is_final_witness:
  "\<exists>r w' as'. call_io numbered_store sample_identity ''f'' (CallDelete ready_calls)
      (run_calls numbered_store sample_identity ''f'' [(create_call, replicate 7 Done @ [DiesAfter])] fresh_world) [] = (r, w', as') \<and> r \<noteq> Value () \<and>
    scanApp (\<lambda>_. ''d'') numbered_codec [(''f'', sample_identity, sf_log (sw_files w'))] = Inl ErrCorruptLog"
proof -
  let ?w = "run_calls numbered_store sample_identity ''f'' [(create_call, replicate 7 Done @ [DiesAfter])] fresh_world"
  obtain r w' as' where r: "call_io numbered_store sample_identity ''f'' (CallDelete ready_calls) ?w [] = (r, w', as')"
    by (cases "call_io numbered_store sample_identity ''f'' (CallDelete ready_calls) ?w []")
  from incomplete_header_is_final [OF sample_coherent(3) [unfolded files_after_def] r, where sha = "\<lambda>_. ''d''" and cd = numbered_codec and pre = "[]" and post = "[]"] r
  show ?thesis by simp
qed


end
