(* ===== verification/Chat_Types.thy ===== *)
theory Chat_Types
  imports Go_Json
begin

text \<open>
  Chat Completions, \<open>openai/chat.go\<close>: the types of both sides and the errors. Of the \<open>genai\<close> and
  \<open>adk\<close> types the fields that the code reads are fields here; a field that is only compared with nil, or whose
  length is only compared with zero, is a boolean.
\<close>

section \<open>Errors\<close>

datatype ChatErrorKind =
    DuplicateToolCallID | EmptyChoices | InvalidToolResult | MalformedArguments | MissingFunctionName
  | MultipleChoices | NilRequest | UnsupportedContent | UnsupportedStreaming | UnsupportedToolCall

text \<open>What is relied on from outside: SHA-256, \<open>strings.ToLower\<close>, and one call of \<open>Decode\<close> of a
  \<open>json.Decoder\<close> into an \<open>any\<close> at the front of the given text.\<close>

datatype decoded = EndOfText | Malformed | Decoded json go_string

record chat_env =
  ce_sha :: "go_string \<Rightarrow> go_string"
  ce_lower :: "go_string \<Rightarrow> go_string"
  ce_decode :: "go_string \<Rightarrow> decoded"

section \<open>Conversation\<close>

text \<open>A \<open>map[string]any\<close> of a tool result may hold the marker of a raw result.\<close>

datatype result_value = PlainValue json | RawMarker go_string

record genai_call =
  gf_ID :: go_string
  gf_Name :: go_string
  gf_Args :: "(go_string \<times> json) list option"
  gf_PartialArgs :: bool
  gf_WillContinue :: bool

record genai_response =
  gr_ID :: go_string
  gr_Name :: go_string
  gr_Response :: "(go_string \<times> result_value) list option"
  gr_Parts :: bool
  gr_WillContinue :: bool
  gr_Scheduling :: go_string

text \<open>\<open>gp_Media\<close> is for the fields of other forms: media, code, files, blobs, tool calls and responses,
  metadata and transcription.\<close>

record genai_part =
  gp_Text :: go_string
  gp_Thought :: bool
  gp_FunctionCall :: "genai_call option"
  gp_FunctionResponse :: "genai_response option"
  gp_Media :: bool

record genai_content =
  gc_Role :: go_string
  gc_Parts :: "genai_part option list"

text \<open>A declaration with its two forms of a schema, as the values that \<open>json.Marshal\<close> is given.\<close>

record genai_declaration =
  gd_Name :: go_string
  gd_Description :: go_string
  gd_ParametersJsonSchema :: "json option"
  gd_Parameters :: "json option"

text \<open>\<open>gt_Others\<close>: whether \<open>Retrieval\<close>, ..., \<open>MCPServers\<close>, \<open>ExaAISearch\<close> are present.\<close>

record genai_tool =
  gt_Functions :: "genai_declaration option list"
  gt_Others :: "bool list"

datatype calling_mode = ModeEmpty | ModeUnspecified | ModeAuto | ModeNone | ModeAny | ModeOther

record calling_config =
  fc_Mode :: calling_mode
  fc_AllowedFunctionNames :: "go_string list"

record 'f genai_config =
  gx_SystemInstruction :: "genai_part option list option"
  gx_TopK :: bool
  gx_CandidateCount :: int
  gx_ResponseLogprobs :: bool
  gx_Logprobs :: bool
  gx_ResponseSchema :: bool
  gx_ResponseJsonSchema :: bool
  gx_ResponseMIMEType :: go_string
  gx_SafetySettings :: bool
  gx_Labels :: bool
  gx_Temperature :: "'f option"
  gx_TopP :: "'f option"
  gx_StopSequences :: "go_string list"
  gx_FrequencyPenalty :: "'f option"
  gx_PresencePenalty :: "'f option"
  gx_Seed :: "int option"
  gx_MaxOutputTokens :: int
  gx_Tools :: "genai_tool option list"
  gx_ToolConfig :: "calling_config option option"

text \<open>\<open>LLMRequest.Tools\<close> by name; one value is the marker for the recovery of tool calls.\<close>

datatype request_tool = RecoveryMarker | OtherTool

record 'f genai_request =
  gq_Model :: go_string
  gq_Contents :: "genai_content option list"
  gq_Config :: "'f genai_config option"
  gq_Tools :: "(go_string, request_tool) gomap"

section \<open>Wire types\<close>

record chat_call =
  tc_ID :: go_string
  tc_Type :: go_string
  tc_Name :: go_string
  tc_Arguments :: go_string

record chatMessage =
  mg_Role :: go_string
  mg_Content :: "go_string option"
  mg_ToolCalls :: "chat_call list"
  mg_ToolCallID :: go_string

record chatTool =
  ct_Type :: go_string
  ct_Name :: go_string
  ct_Description :: go_string
  ct_Parameters :: "(go_string \<times> json) list"

record 'f chatRequest =
  cr_Model :: go_string
  cr_Messages :: "chatMessage list"
  cr_Tools :: "chatTool list"
  cr_ToolChoice :: "json option"
  cr_N :: int
  cr_MaxTokens :: "int option"
  cr_MaxCompletionTokens :: "int option"
  cr_Temperature :: "'f option"
  cr_TopP :: "'f option"
  cr_Stop :: "go_string list"
  cr_FrequencyPenalty :: "'f option"
  cr_PresencePenalty :: "'f option"
  cr_Seed :: "int option"

text \<open>\<open>chatResponseToolCall\<close> has the fields of a call of a request.\<close>

record chatUsage =
  us_PromptTokens :: "64 word"
  us_CompletionTokens :: "64 word"
  us_TotalTokens :: "64 word"

record chatResponseChoice =
  rc_FinishReason :: go_string
  rc_Content :: go_string
  rc_ToolCalls :: "chat_call list"

record chatResponse =
  re_ID :: go_string
  re_Model :: go_string
  re_Choices :: "chatResponseChoice list"
  re_Usage :: chatUsage

datatype FinishReason = FinishStop | FinishMaxTokens | FinishSafety | FinishUnspecified | FinishOther

record genai_result =
  gl_Role :: go_string
  gl_Parts :: "genai_part list"
  gl_FinishReason :: FinishReason
  gl_ModelVersion :: go_string
  gl_Prompt :: "32 word"
  gl_Candidates :: "32 word"
  gl_Total :: "32 word"
  gl_Metadata :: "(go_string \<times> json) list"

section \<open>Call identifiers\<close>

definition hex_string :: "go_string \<Rightarrow> go_string" where
  "hex_string s = concat (map (\<lambda>c. [hex_digit (byte c div 16), hex_digit (byte c mod 16)]) s)"

definition synthesizedChatCallID :: "chat_env \<Rightarrow> go_string \<Rightarrow> nat \<Rightarrow> go_string" where
  "synthesizedChatCallID env responseID ordinal =
     ''plasmid-chat-'' @ hex_string (take 12 (ce_sha env (responseID @ CHR 0x00 # itoa (int ordinal))))"

end
