(* ===== verification/Chat_Request.thy ===== *)
theory Chat_Request
  imports Chat_Types
begin

text \<open>
  The request of Chat Completions, \<open>openai/chat.go\<close>: messages with the tracking of tool calls, tools and their
  schemas, the tool choice. Errors are the left of a sum.
\<close>

section \<open>Parts\<close>

datatype chatPartKind = KindText | KindFunctionCall | KindFunctionResponse

definition chatPartForm :: "genai_part option \<Rightarrow> ChatErrorKind + chatPartKind" where
  "chatPartForm part =
     (case part of
        None \<Rightarrow> Inl UnsupportedContent
      | Some p \<Rightarrow>
          if gp_Media p then Inl UnsupportedContent
          else
            let kind0 = (if gp_Text p \<noteq> [] then Some KindText else None);
                kind1 = (if gp_FunctionCall p \<noteq> None then Some KindFunctionCall else kind0);
                kind = (if gp_FunctionResponse p \<noteq> None then Some KindFunctionResponse else kind1);
                forms = (if gp_Text p \<noteq> [] then 1 else 0) + (if gp_FunctionCall p \<noteq> None then 1 else 0) +
                  (if gp_FunctionResponse p \<noteq> None then 1 else (0 :: nat))
            in case kind of
                 None \<Rightarrow> Inl UnsupportedContent
               | Some k \<Rightarrow> if forms \<noteq> 1 \<or> gp_Thought p \<and> k \<noteq> KindText then Inl UnsupportedContent else Inr k)"

text \<open>The text a part contributes: nothing for a thought.\<close>

definition spoken :: "genai_part \<Rightarrow> go_string" where
  "spoken p = (if gp_Thought p then [] else gp_Text p)"

fun chatText :: "genai_part option list \<Rightarrow> ChatErrorKind + go_string" where
  "chatText [] = Inr []"
| "chatText (part # parts) =
     (if chatPartForm part \<noteq> Inr KindText then Inl UnsupportedContent
      else case chatText parts of
        Inl e \<Rightarrow> Inl e
      | Inr text \<Rightarrow> Inr ((case part of None \<Rightarrow> [] | Some p \<Rightarrow> spoken p) @ text))"

section \<open>Tool calls\<close>

record pendingChatCall =
  pd_id :: go_string
  pd_name :: go_string

record chatCallTracker =
  tk_next :: nat
  tk_pending :: "pendingChatCall list"
  tk_used :: "go_string list"

definition newTracker :: chatCallTracker where
  "newTracker = \<lparr>tk_next = 0, tk_pending = [], tk_used = []\<rparr>"

definition convertCall ::
  "chat_env \<Rightarrow> genai_call option \<Rightarrow> chatCallTracker \<Rightarrow> ChatErrorKind + chat_call \<times> chatCallTracker" where
  "convertCall env call tracker =
     (case call of
        None \<Rightarrow> Inl MissingFunctionName
      | Some c \<Rightarrow>
          if trim_space (gf_Name c) = [] then Inl MissingFunctionName
          else if gf_PartialArgs c \<or> gf_WillContinue c then Inl UnsupportedContent
          else
            (case marshal (JMap (case gf_Args c of None \<Rightarrow> [] | Some a \<Rightarrow> a)) of
               None \<Rightarrow> Inl UnsupportedContent
             | Some encoded \<Rightarrow>
                 let cid = (if gf_ID c = [] then synthesizedChatCallID env ''history'' (tk_next tracker) else gf_ID c)
                 in if cid \<in> set (tk_used tracker) then Inl DuplicateToolCallID
                    else Inr (\<lparr>tc_ID = cid, tc_Type = ''function'', tc_Name = gf_Name c, tc_Arguments = encoded\<rparr>,
                      \<lparr>tk_next = tk_next tracker + 1, tk_pending = tk_pending tracker @ [\<lparr>pd_id = cid, pd_name = gf_Name c\<rparr>],
                       tk_used = cid # tk_used tracker\<rparr>)))"

text \<open>The search of the pending call without an identifier, by name; \<open>None\<close> is the ambiguity.\<close>

fun match_name :: "go_string \<Rightarrow> nat \<Rightarrow> pendingChatCall list \<Rightarrow> (nat \<times> go_string) option \<Rightarrow> (nat \<times> go_string) option option" where
  "match_name name index [] found = Some found"
| "match_name name index (p # ps) found =
     (if pd_name p \<noteq> name then match_name name (index + 1) ps found
      else if found \<noteq> None then None
      else match_name name (index + 1) ps (Some (index, pd_id p)))"

text \<open>The search by identifier; \<open>None\<close> if the names differ.\<close>

fun match_id :: "go_string \<Rightarrow> go_string \<Rightarrow> nat \<Rightarrow> pendingChatCall list \<Rightarrow> (nat \<times> go_string) option option" where
  "match_id cid name index [] = Some None"
| "match_id cid name index (p # ps) =
     (if pd_id p = cid then if pd_name p \<noteq> name then None else Some (Some (index, cid))
      else match_id cid name (index + 1) ps)"

definition rawChatToolResultKey :: go_string where
  "rawChatToolResultKey = ''plasmid.openai.raw_chat_tool_result''"

definition markedRawChatToolResult :: "(go_string \<times> result_value) list \<Rightarrow> go_string option" where
  "markedRawChatToolResult r =
     (if length r \<noteq> 1 then None
      else case map_of r rawChatToolResultKey of Some (RawMarker encoded) \<Rightarrow> Some encoded | _ \<Rightarrow> None)"

text \<open>A marker cannot be marshalled.\<close>

definition result_json :: "result_value \<Rightarrow> json" where
  "result_json v = (case v of PlainValue j \<Rightarrow> j | RawMarker _ \<Rightarrow> JUnsupported)"

definition tool_message :: "go_string \<Rightarrow> go_string \<Rightarrow> chatMessage" where
  "tool_message cid encoded = \<lparr>mg_Role = ''tool'', mg_Content = Some encoded, mg_ToolCalls = [], mg_ToolCallID = cid\<rparr>"

definition convertResponse ::
  "genai_response option \<Rightarrow> chatCallTracker \<Rightarrow> ChatErrorKind + chatMessage \<times> chatCallTracker" where
  "convertResponse response tracker =
     (case response of
        None \<Rightarrow> Inl MissingFunctionName
      | Some r \<Rightarrow>
          if trim_space (gr_Name r) = [] then Inl MissingFunctionName
          else if gr_Parts r \<or> gr_WillContinue r \<or> gr_Scheduling r \<noteq> [] then Inl UnsupportedContent
          else
            (case (if gr_ID r = [] then match_name (gr_Name r) 0 (tk_pending tracker) None
                   else match_id (gr_ID r) (gr_Name r) 0 (tk_pending tracker)) of
               None \<Rightarrow> Inl UnsupportedContent
             | Some None \<Rightarrow> Inl UnsupportedContent
             | Some (Some (index, cid)) \<Rightarrow>
                 let tracker' = tracker\<lparr>tk_pending := take index (tk_pending tracker) @ drop (index + 1) (tk_pending tracker)\<rparr>;
                     payload = (case gr_Response r of None \<Rightarrow> [] | Some p \<Rightarrow> p)
                 in (case markedRawChatToolResult payload of
                       Some encoded \<Rightarrow> Inr (tool_message cid encoded, tracker')
                     | None \<Rightarrow>
                         (case marshal (JMap (map (\<lambda>(k, v). (k, result_json v)) payload)) of
                            None \<Rightarrow> Inl UnsupportedContent
                          | Some encoded \<Rightarrow> Inr (tool_message cid encoded, tracker')))))"

section \<open>Messages\<close>

text \<open>The loop over the parts of a model content: the calls and the text so far.\<close>

fun model_parts ::
  "chat_env \<Rightarrow> genai_part option list \<Rightarrow> chat_call list \<Rightarrow> go_string \<Rightarrow> chatCallTracker \<Rightarrow>
   ChatErrorKind + chat_call list \<times> go_string \<times> chatCallTracker" where
  "model_parts env [] calls text tracker = Inr (calls, text, tracker)"
| "model_parts env (part # parts) calls text tracker =
     (case part of
        None \<Rightarrow> Inl UnsupportedContent
      | Some p \<Rightarrow>
          (case chatPartForm part of
             Inl e \<Rightarrow> Inl e
           | Inr KindFunctionCall \<Rightarrow>
               (case convertCall env (gp_FunctionCall p) tracker of
                  Inl e \<Rightarrow> Inl e
                | Inr (c, tracker') \<Rightarrow> model_parts env parts (calls @ [c]) text tracker')
           | Inr KindText \<Rightarrow> model_parts env parts calls (text @ spoken p) tracker
           | Inr KindFunctionResponse \<Rightarrow> Inl UnsupportedContent))"

text \<open>The loop over the parts of another content: the text not yet flushed and the messages so far.\<close>

definition flush_text :: "go_string \<Rightarrow> go_string \<Rightarrow> chatMessage list \<Rightarrow> chatMessage list" where
  "flush_text role text messages =
     (if text = [] then messages
      else messages @ [\<lparr>mg_Role = role, mg_Content = Some text, mg_ToolCalls = [], mg_ToolCallID = []\<rparr>])"

fun other_parts ::
  "go_string \<Rightarrow> genai_part option list \<Rightarrow> go_string \<Rightarrow> chatMessage list \<Rightarrow> chatCallTracker \<Rightarrow>
   ChatErrorKind + chatMessage list \<times> chatCallTracker" where
  "other_parts role [] text messages tracker = Inr (flush_text role text messages, tracker)"
| "other_parts role (part # parts) text messages tracker =
     (case part of
        None \<Rightarrow> Inl UnsupportedContent
      | Some p \<Rightarrow>
          (case chatPartForm part of
             Inl e \<Rightarrow> Inl e
           | Inr KindFunctionResponse \<Rightarrow>
               if role \<noteq> ''user'' then Inl UnsupportedContent
               else
                 (case convertResponse (gp_FunctionResponse p) tracker of
                    Inl e \<Rightarrow> Inl e
                  | Inr (m, tracker') \<Rightarrow> other_parts role parts [] (flush_text role text messages @ [m]) tracker')
           | Inr KindText \<Rightarrow> other_parts role parts (text @ spoken p) messages tracker
           | Inr KindFunctionCall \<Rightarrow> Inl UnsupportedContent))"

definition convertContent ::
  "chat_env \<Rightarrow> genai_content option \<Rightarrow> chatCallTracker \<Rightarrow> ChatErrorKind + chatMessage list \<times> chatCallTracker" where
  "convertContent env content tracker =
     (case content of
        None \<Rightarrow> Inl UnsupportedContent
      | Some c \<Rightarrow>
          if gc_Parts c = [] then Inl UnsupportedContent
          else
            let role = (if gc_Role c = [] then ''user'' else gc_Role c)
            in if role \<notin> {''user'', ''model'', ''system'', ''developer''} then Inl UnsupportedContent
               else if role = ''model''
               then
                 (case model_parts env (gc_Parts c) [] [] tracker of
                    Inl e \<Rightarrow> Inl e
                  | Inr (calls, text, tracker') \<Rightarrow>
                      if text = [] \<and> calls = [] then Inl UnsupportedContent
                      else Inr ([\<lparr>mg_Role = ''assistant'', mg_Content = (if text = [] then None else Some text), mg_ToolCalls = calls,
                        mg_ToolCallID = []\<rparr>], tracker'))
               else
                 (case other_parts role (gc_Parts c) [] [] tracker of
                    Inl e \<Rightarrow> Inl e
                  | Inr (messages, tracker') \<Rightarrow> if messages = [] then Inl UnsupportedContent else Inr (messages, tracker')))"

fun convert_contents ::
  "chat_env \<Rightarrow> genai_content option list \<Rightarrow> chatCallTracker \<Rightarrow> ChatErrorKind + chatMessage list \<times> chatCallTracker" where
  "convert_contents env [] tracker = Inr ([], tracker)"
| "convert_contents env (content # contents) tracker =
     (case convertContent env content tracker of
        Inl e \<Rightarrow> Inl e
      | Inr (messages, tracker') \<Rightarrow>
          (case convert_contents env contents tracker' of
             Inl e \<Rightarrow> Inl e
           | Inr (rest, tracker'') \<Rightarrow> Inr (messages @ rest, tracker'')))"

section \<open>Tools\<close>

definition hasNonFunctionTool :: "genai_tool \<Rightarrow> bool" where
  "hasNonFunctionTool t \<longleftrightarrow> True \<in> set (gt_Others t)"

definition map_keywords :: "go_string list" where
  "map_keywords = [''properties'', ''patternProperties'', ''dependentSchemas'', ''$defs'', ''definitions'', ''dependencies'']"

definition schema_keywords :: "go_string list" where
  "schema_keywords = [''additionalProperties'', ''unevaluatedProperties'', ''propertyNames'', ''contains'', ''if'', ''then'', ''else'',
     ''not'', ''additionalItems'', ''unevaluatedItems'']"

definition list_keywords :: "go_string list" where
  "list_keywords = [''items'', ''prefixItems'', ''allOf'', ''anyOf'', ''oneOf'']"

definition lower_name :: "(go_string \<Rightarrow> go_string) \<Rightarrow> json \<Rightarrow> json" where
  "lower_name lower v = (case v of JString s \<Rightarrow> JString (lower s) | _ \<Rightarrow> v)"

text \<open>
  \<open>lowercaseChatSchemaTypes\<close> changes a tree that was just decoded, whose parts are not shared; every keyword
  is in one group.
\<close>

fun lowercaseChatSchemaTypes :: "(go_string \<Rightarrow> go_string) \<Rightarrow> json \<Rightarrow> json"
  and lower_entries :: "(go_string \<Rightarrow> go_string) \<Rightarrow> (go_string \<times> json) list \<Rightarrow> (go_string \<times> json) list"
  and lower_children :: "(go_string \<Rightarrow> go_string) \<Rightarrow> (go_string \<times> json) list \<Rightarrow> (go_string \<times> json) list"
  and lower_all :: "(go_string \<Rightarrow> go_string) \<Rightarrow> json list \<Rightarrow> json list" where
  "lowercaseChatSchemaTypes lower v = (case v of JMap kvs \<Rightarrow> JMap (lower_entries lower kvs) | _ \<Rightarrow> v)"
| "lower_entries lower [] = []"
| "lower_entries lower ((k, v) # kvs) =
     (k, if k = ''type'' then (case v of JArray vs \<Rightarrow> JArray (map (lower_name lower) vs) | _ \<Rightarrow> lower_name lower v)
         else if k \<in> set map_keywords then (case v of JMap children \<Rightarrow> JMap (lower_children lower children) | _ \<Rightarrow> v)
         else if k \<in> set schema_keywords then lowercaseChatSchemaTypes lower v
         else if k \<in> set list_keywords
         then (case v of JMap _ \<Rightarrow> lowercaseChatSchemaTypes lower v | JArray vs \<Rightarrow> JArray (lower_all lower vs) | _ \<Rightarrow> v)
         else v) # lower_entries lower kvs"
| "lower_children lower [] = []"
| "lower_children lower ((k, v) # kvs) = (k, lowercaseChatSchemaTypes lower v) # lower_children lower kvs"
| "lower_all lower [] = []"
| "lower_all lower (v # vs) = lowercaseChatSchemaTypes lower v # lower_all lower vs"

text \<open>\<open>json.Unmarshal\<close>: one value and nothing behind it.\<close>

definition unmarshal :: "chat_env \<Rightarrow> go_string \<Rightarrow> json option" where
  "unmarshal env text =
     (case ce_decode env text of Decoded v rest \<Rightarrow> if ce_decode env rest = EndOfText then Some v else None | _ \<Rightarrow> None)"

definition normalizeChatSchema :: "chat_env \<Rightarrow> json \<Rightarrow> ChatErrorKind + (go_string \<times> json) list" where
  "normalizeChatSchema env schema =
     (case marshal schema of
        None \<Rightarrow> Inl UnsupportedContent
      | Some encoded \<Rightarrow>
          (case unmarshal env encoded of
             Some (JMap kvs) \<Rightarrow> Inr (lower_entries (ce_lower env) kvs)
           | _ \<Rightarrow> Inl UnsupportedContent))"

definition chatSchema :: "chat_env \<Rightarrow> genai_declaration \<Rightarrow> ChatErrorKind + (go_string \<times> json) list" where
  "chatSchema env d =
     (case gd_ParametersJsonSchema d of
        Some s \<Rightarrow> normalizeChatSchema env s
      | None \<Rightarrow>
          (case gd_Parameters d of
             Some s \<Rightarrow> normalizeChatSchema env s
           | None \<Rightarrow> Inr [(''properties'', JMap []), (''type'', JString ''object'')]))"

fun convert_declarations ::
  "chat_env \<Rightarrow> genai_declaration option list \<Rightarrow> chatTool list \<Rightarrow> ChatErrorKind + chatTool list" where
  "convert_declarations env [] result = Inr result"
| "convert_declarations env (declaration # rest) result =
     (case declaration of
        None \<Rightarrow> Inl MissingFunctionName
      | Some d \<Rightarrow>
          if trim_space (gd_Name d) = [] then Inl MissingFunctionName
          else
            (case chatSchema env d of
               Inl e \<Rightarrow> Inl e
             | Inr schema \<Rightarrow> convert_declarations env rest
                 (result @ [\<lparr>ct_Type = ''function'', ct_Name = gd_Name d, ct_Description = gd_Description d, ct_Parameters = schema\<rparr>])))"

fun convertChatTools :: "chat_env \<Rightarrow> genai_tool option list \<Rightarrow> chatTool list \<Rightarrow> ChatErrorKind + chatTool list" where
  "convertChatTools env [] result = Inr result"
| "convertChatTools env (tool # tools) result =
     (case tool of
        None \<Rightarrow> Inl UnsupportedContent
      | Some t \<Rightarrow>
          if gt_Functions t = [] \<or> hasNonFunctionTool t then Inl UnsupportedContent
          else
            (case convert_declarations env (gt_Functions t) result of
               Inl e \<Rightarrow> Inl e
             | Inr result' \<Rightarrow> convertChatTools env tools result'))"

definition named_tool :: "go_string \<Rightarrow> json" where
  "named_tool name = JMap [(''type'', JString ''function''), (''function'', JMap [(''name'', JString name)])]"

definition chatNamedToolChoice :: "go_string \<Rightarrow> ChatErrorKind + json option" where
  "chatNamedToolChoice name =
     (if trim_space name = [] then Inl UnsupportedContent else Inr (Some (named_tool name)))"

definition chatAllowedToolsChoice :: "go_string list \<Rightarrow> go_string \<Rightarrow> ChatErrorKind + json option" where
  "chatAllowedToolsChoice names mode =
     (if list_ex (\<lambda>name. trim_space name = []) names then Inl UnsupportedContent
      else Inr (Some (JMap [(''type'', JString ''allowed_tools''),
        (''allowed_tools'', JMap [(''mode'', JString mode), (''tools'', JArray (map named_tool names))])])))"

definition convertChatToolChoice :: "calling_config option option \<Rightarrow> ChatErrorKind + json option" where
  "convertChatToolChoice config =
     (case config of
        None \<Rightarrow> Inr None
      | Some None \<Rightarrow> Inr None
      | Some (Some calling) \<Rightarrow>
          let names = fc_AllowedFunctionNames calling
          in case fc_Mode calling of
               ModeNone \<Rightarrow> if names = [] then Inr (Some (JString ''none'')) else Inl UnsupportedContent
             | ModeAny \<Rightarrow>
                 (case names of
                    [] \<Rightarrow> Inr (Some (JString ''required''))
                  | [name] \<Rightarrow> chatNamedToolChoice name
                  | _ \<Rightarrow> chatAllowedToolsChoice names ''required'')
             | ModeOther \<Rightarrow> Inl UnsupportedContent
             | _ \<Rightarrow> if names = [] then Inr (Some (JString ''auto'')) else chatAllowedToolsChoice names ''auto'')"

section \<open>The request\<close>

record chatModel =
  cm_name :: go_string
  cm_maxTokens :: bool

definition unsupported_config :: "'f genai_config \<Rightarrow> bool" where
  "unsupported_config c \<longleftrightarrow> gx_TopK c \<or> gx_CandidateCount c > 1 \<or> gx_ResponseLogprobs c \<or> gx_Logprobs c \<or> gx_ResponseSchema c \<or>
     gx_ResponseJsonSchema c \<or> gx_ResponseMIMEType c \<noteq> [] \<or> gx_SafetySettings c \<or> gx_Labels c"

definition system_messages :: "'f genai_config option \<Rightarrow> ChatErrorKind + chatMessage list" where
  "system_messages config =
     (case config of
        None \<Rightarrow> Inr []
      | Some c \<Rightarrow>
          (case gx_SystemInstruction c of
             None \<Rightarrow> Inr []
           | Some parts \<Rightarrow>
               (case chatText parts of
                  Inl e \<Rightarrow> Inl e
                | Inr text \<Rightarrow> Inr [\<lparr>mg_Role = ''system'', mg_Content = Some text, mg_ToolCalls = [], mg_ToolCallID = []\<rparr>])))"

definition plain_request :: "go_string \<Rightarrow> chatMessage list \<Rightarrow> 'f chatRequest" where
  "plain_request name messages =
     \<lparr>cr_Model = name, cr_Messages = messages, cr_Tools = [], cr_ToolChoice = None, cr_N = 1, cr_MaxTokens = None,
      cr_MaxCompletionTokens = None, cr_Temperature = None, cr_TopP = None, cr_Stop = [], cr_FrequencyPenalty = None,
      cr_PresencePenalty = None, cr_Seed = None\<rparr>"

definition configure ::
  "chat_env \<Rightarrow> chatModel \<Rightarrow> 'f genai_config \<Rightarrow> 'f chatRequest \<Rightarrow> ChatErrorKind + 'f chatRequest" where
  "configure env model c result =
     (if unsupported_config c then Inl UnsupportedContent
      else
        let limit = (if gx_MaxOutputTokens c > 0 then Some (gx_MaxOutputTokens c) else None)
        in case convertChatTools env (gx_Tools c) [] of
             Inl e \<Rightarrow> Inl e
           | Inr tools \<Rightarrow>
               (case convertChatToolChoice (gx_ToolConfig c) of
                  Inl e \<Rightarrow> Inl e
                | Inr choice \<Rightarrow>
                    Inr (result\<lparr>cr_Temperature := gx_Temperature c, cr_TopP := gx_TopP c, cr_Stop := gx_StopSequences c,
                      cr_FrequencyPenalty := gx_FrequencyPenalty c, cr_PresencePenalty := gx_PresencePenalty c, cr_Seed := gx_Seed c,
                      cr_MaxTokens := (if cm_maxTokens model then limit else None),
                      cr_MaxCompletionTokens := (if cm_maxTokens model then None else limit),
                      cr_Tools := tools, cr_ToolChoice := choice\<rparr>)))"

definition buildRequest :: "chat_env \<Rightarrow> chatModel \<Rightarrow> 'f genai_request \<Rightarrow> ChatErrorKind + 'f chatRequest" where
  "buildRequest env model rq =
     (case system_messages (gq_Config rq) of
        Inl e \<Rightarrow> Inl e
      | Inr system \<Rightarrow>
          (case convert_contents env (gq_Contents rq) newTracker of
             Inl e \<Rightarrow> Inl e
           | Inr (messages, _) \<Rightarrow>
               if system @ messages = [] then Inl UnsupportedContent
               else
                 let result = plain_request (if gq_Model rq \<noteq> [] then gq_Model rq else cm_name model) (system @ messages)
                 in case gq_Config rq of None \<Rightarrow> Inr result | Some c \<Rightarrow> configure env model c result))"

end
