(* ===== verification/Chat_Response.thy ===== *)
theory Chat_Response
  imports Chat_Request
begin

text \<open>
  The response of Chat Completions, \<open>openai/chat.go\<close>: identifiers of the tool calls, decoding of their arguments,
  recovery of malformed arguments, and \<open>GenerateContent\<close>, which joins both directions.
\<close>

section \<open>Identifiers of the calls of a response\<close>

text \<open>The search for a synthesised identifier that is not taken; it has no bound in the code.\<close>

partial_function (option) pick_id :: "(nat \<Rightarrow> go_string) \<Rightarrow> go_string list \<Rightarrow> go_string list \<Rightarrow> nat \<Rightarrow> go_string option" where
  "pick_id synth reserved used ordinal =
     (if synth ordinal \<in> set reserved \<or> synth ordinal \<in> set used then pick_id synth reserved used (ordinal + 1)
      else Some (synth ordinal))"

declare pick_id.simps [code]

fun normalize_ids :: "(nat \<Rightarrow> go_string) \<Rightarrow> go_string list \<Rightarrow> nat \<Rightarrow> go_string list \<Rightarrow> go_string list \<Rightarrow> go_string list option" where
  "normalize_ids synth reserved index used [] = Some []"
| "normalize_ids synth reserved index used (cid # cids) =
     (case (if cid = [] \<or> cid \<in> set used then pick_id synth reserved used index else Some cid) of
        None \<Rightarrow> None
      | Some x \<Rightarrow> map_option ((#) x) (normalize_ids synth reserved (index + 1) (x # used) cids))"

definition normalizeChatResponseCallIDs :: "chat_env \<Rightarrow> go_string \<Rightarrow> chat_call list \<Rightarrow> go_string list option" where
  "normalizeChatResponseCallIDs env responseID calls =
     (let cids = map tc_ID calls
      in normalize_ids (synthesizedChatCallID env responseID) (filter (\<lambda>cid. cid \<noteq> []) cids) 0 [] cids)"

section \<open>Text, arguments, reasons and counts\<close>

definition stripLeadingThinkBlock :: "go_string \<Rightarrow> go_string" where
  "stripLeadingThinkBlock text =
     (let rest = trim_space_left text
      in if \<not> prefix ''<think>'' rest then text
         else case str_index (drop 7 rest) ''</think>'' of
           None \<Rightarrow> text
         | Some end' \<Rightarrow> drop (end' + 7 + 8) rest)"

text \<open>\<open>decodeChatArguments\<close>; \<open>None\<close> stands for \<open>false\<close>.\<close>

definition decodeChatArguments :: "chat_env \<Rightarrow> go_string \<Rightarrow> (go_string \<times> json) list option" where
  "decodeChatArguments env raw =
     (if trim_space raw = [] then Some []
      else case ce_decode env raw of
        Decoded (JMap object) rest \<Rightarrow> if ce_decode env rest = EndOfText then Some object else None
      | _ \<Rightarrow> None)"

definition chatFinishReason :: "go_string \<Rightarrow> FinishReason" where
  "chatFinishReason reason =
     (if reason \<in> {''stop'', ''tool_calls'', ''function_call''} then FinishStop
      else if reason = ''length'' then FinishMaxTokens
      else if reason = ''content_filter'' then FinishSafety
      else if reason = [] then FinishUnspecified
      else FinishOther)"

definition maxInt32 :: int where "maxInt32 = 2 ^ 31 - 1"

definition minInt32 :: int where "minInt32 = - (2 ^ 31)"

definition safeChatInt32 :: "64 word \<Rightarrow> 32 word" where
  "safeChatInt32 value =
     (if sint value > maxInt32 then word_of_int maxInt32
      else if sint value < minInt32 then word_of_int minInt32
      else ucast value)"

section \<open>Conversion\<close>

definition InvalidArgumentsMessage :: go_string where "InvalidArgumentsMessage = ''invalid tool arguments''"

definition MetadataKey :: go_string where "MetadataKey = ''plasmid_tool_call_argument_failures''"

definition RequestToolKey :: go_string where "RequestToolKey = ''plasmid.internal/tool-call-recovery''"

definition call_part :: "go_string \<Rightarrow> go_string \<Rightarrow> (go_string \<times> json) list \<Rightarrow> genai_part" where
  "call_part cid name arguments =
     \<lparr>gp_Text = [], gp_Thought = False,
      gp_FunctionCall = Some \<lparr>gf_ID = cid, gf_Name = name, gf_Args = Some arguments, gf_PartialArgs = False, gf_WillContinue = False\<rparr>,
      gp_FunctionResponse = None, gp_Media = False\<rparr>"

definition text_part :: "go_string \<Rightarrow> genai_part" where
  "text_part text = \<lparr>gp_Text = text, gp_Thought = False, gp_FunctionCall = None, gp_FunctionResponse = None, gp_Media = False\<rparr>"

text \<open>The loop over the calls with their identifiers: the parts and the failures so far.\<close>

fun response_calls ::
  "chat_env \<Rightarrow> bool \<Rightarrow> (chat_call \<times> go_string) list \<Rightarrow> genai_part list \<Rightarrow> (go_string \<times> json) list \<Rightarrow>
   ChatErrorKind + genai_part list \<times> (go_string \<times> json) list" where
  "response_calls env recover [] parts failures = Inr (parts, failures)"
| "response_calls env recover ((call, cid) # calls) parts failures =
     (if (if tc_Type call = [] then ''function'' else tc_Type call) \<noteq> ''function'' then Inl UnsupportedToolCall
      else if trim_space (tc_Name call) = [] then Inl MissingFunctionName
      else
        (case decodeChatArguments env (tc_Arguments call) of
           Some arguments \<Rightarrow> response_calls env recover calls (parts @ [call_part cid (tc_Name call) arguments]) failures
         | None \<Rightarrow>
             if \<not> recover then Inl MalformedArguments
             else response_calls env recover calls (parts @ [call_part cid (tc_Name call) []])
               (AList.update cid (JString InvalidArgumentsMessage) failures)))"

definition response_metadata :: "chatResponse \<Rightarrow> chatResponseChoice \<Rightarrow> (go_string \<times> json) list \<Rightarrow> (go_string \<times> json) list" where
  "response_metadata re choice failures =
     [(''openai_response_id'', JString (re_ID re)), (''openai_model'', JString (re_Model re)),
      (''openai_finish_reason'', JString (rc_FinishReason choice)),
      (''openai_prompt_tokens'', JInt (sint (us_PromptTokens (re_Usage re)))),
      (''openai_completion_tokens'', JInt (sint (us_CompletionTokens (re_Usage re)))),
      (''openai_total_tokens'', JInt (sint (us_TotalTokens (re_Usage re))))] @
     (if failures = [] then [] else [(MetadataKey, JMap failures)])"

text \<open>\<open>convertChatResponse\<close>; \<open>None\<close> if the search for an identifier does not end.\<close>

definition convertChatResponse :: "chat_env \<Rightarrow> chatResponse \<Rightarrow> bool \<Rightarrow> (ChatErrorKind + genai_result) option" where
  "convertChatResponse env re recover =
     (case re_Choices re of
        [] \<Rightarrow> Some (Inl EmptyChoices)
      | _ # _ # _ \<Rightarrow> Some (Inl MultipleChoices)
      | [choice] \<Rightarrow>
          let text = stripLeadingThinkBlock (rc_Content choice);
              parts = (if text \<noteq> [] then [text_part text] else [])
          in case normalizeChatResponseCallIDs env (re_ID re) (rc_ToolCalls choice) of
               None \<Rightarrow> None
             | Some cids \<Rightarrow>
                 Some
                   (case response_calls env recover (zip (rc_ToolCalls choice) cids) parts [] of
                      Inl e \<Rightarrow> Inl e
                    | Inr (all_parts, failures) \<Rightarrow>
                        Inr \<lparr>gl_Role = ''model'', gl_Parts = all_parts, gl_FinishReason = chatFinishReason (rc_FinishReason choice),
                          gl_ModelVersion = re_Model re, gl_Prompt = safeChatInt32 (us_PromptTokens (re_Usage re)),
                          gl_Candidates = safeChatInt32 (us_CompletionTokens (re_Usage re)),
                          gl_Total = safeChatInt32 (us_TotalTokens (re_Usage re)),
                          gl_Metadata = response_metadata re choice failures\<rparr>))"

section \<open>A model call\<close>

text \<open>The marker is taken out of the request before the iteration starts.\<close>

definition consumeToolCallRecoveryMarker :: "'f genai_request \<Rightarrow> bool \<times> 'f genai_request" where
  "consumeToolCallRecoveryMarker rq =
     (if map_of (gq_Tools rq) RequestToolKey = Some RecoveryMarker
      then (True, rq\<lparr>gq_Tools := AList.delete RequestToolKey (gq_Tools rq)\<rparr>) else (False, rq))"

definition MarkToolCallRecovery :: "(go_string, request_tool) gomap \<Rightarrow> (go_string, request_tool) gomap" where
  "MarkToolCallRecovery tools = AList.update RequestToolKey RecoveryMarker tools"

datatype 'e chat_failure = Compatibility ChatErrorKind | PostError 'e

text \<open>
  \<open>GenerateContent\<close>: the one pair that is yielded, and the request as it is left. \<open>post\<close> is the call of
  the client, which belongs to the OpenAI package.
\<close>

definition GenerateContent ::
  "chat_env \<Rightarrow> chatModel \<Rightarrow> ('f chatRequest \<Rightarrow> 'e + chatResponse) \<Rightarrow> 'f genai_request option \<Rightarrow> bool \<Rightarrow>
   ('e chat_failure + genai_result) option \<times> 'f genai_request option" where
  "GenerateContent env model post rq0 stream =
     (let (recover, rq) = (case rq0 of None \<Rightarrow> (False, None) | Some r \<Rightarrow> map_prod id Some (consumeToolCallRecoveryMarker r))
      in (if stream then Some (Inl (Compatibility UnsupportedStreaming))
          else case rq of
            None \<Rightarrow> Some (Inl (Compatibility NilRequest))
          | Some r \<Rightarrow>
              (case buildRequest env model r of
                 Inl e \<Rightarrow> Some (Inl (Compatibility e))
               | Inr params \<Rightarrow>
                   (case post params of
                      Inl e \<Rightarrow> Some (Inl (PostError e))
                    | Inr wire \<Rightarrow>
                        map_option (map_sum Compatibility id) (convertChatResponse env wire recover))), rq))"

end
