(* ===== verification/Chat_Results.thy ===== *)
theory Chat_Results
  imports Chat_Response "HOL-Library.Multiset"
begin

text \<open>
  What the conversion of a conversation and of a response guarantees: tool calls are answered at most once and
  after they are made, identifiers are distinct, and a response can be sent back as part of the history.
\<close>

section \<open>Tool calls and their answers\<close>

definition calls_of :: "chatMessage list \<Rightarrow> go_string list" where
  "calls_of ms = concat (map (\<lambda>m. map tc_ID (mg_ToolCalls m)) ms)"

definition answers_of :: "chatMessage list \<Rightarrow> go_string list" where
  "answers_of ms = map mg_ToolCallID (filter (\<lambda>m. mg_Role m = ''tool'') ms)"

definition answered_later :: "chatMessage list \<Rightarrow> bool" where
  "answered_later ms \<longleftrightarrow> (\<forall>pre m post. ms = pre @ m # post \<longrightarrow> mg_Role m = ''tool'' \<longrightarrow> mg_ToolCallID m \<in> set (calls_of pre))"

definition tracked :: "chatMessage list \<Rightarrow> chatCallTracker \<Rightarrow> bool" where
  "tracked ms t \<longleftrightarrow> distinct (calls_of ms) \<and> set (calls_of ms) = set (tk_used t) \<and>
     mset (answers_of ms) + mset (map pd_id (tk_pending t)) = mset (calls_of ms) \<and> answered_later ms"

lemma of_simps [simp]:
  "calls_of [] = []" "calls_of (m # ms) = map tc_ID (mg_ToolCalls m) @ calls_of ms" "calls_of (ms @ ns) = calls_of ms @ calls_of ns"
  "answers_of [] = []" "answers_of (m # ms) = (if mg_Role m = ''tool'' then [mg_ToolCallID m] else []) @ answers_of ms"
  "answers_of (ms @ ns) = answers_of ms @ answers_of ns"
  by (simp_all add: calls_of_def answers_of_def)

lemma answered_later_snoc:
  "answered_later (ms @ [m]) \<longleftrightarrow> answered_later ms \<and> (mg_Role m = ''tool'' \<longrightarrow> mg_ToolCallID m \<in> set (calls_of ms))"
proof
  assume a: "answered_later (ms @ [m])"
  have "mg_ToolCallID x \<in> set (calls_of pre)" if "ms = pre @ x # post" "mg_Role x = ''tool''" for pre x post
    using a that by (auto simp: answered_later_def)
  then show "answered_later ms \<and> (mg_Role m = ''tool'' \<longrightarrow> mg_ToolCallID m \<in> set (calls_of ms))"
    using a by (auto simp: answered_later_def)
next
  assume a: "answered_later ms \<and> (mg_Role m = ''tool'' \<longrightarrow> mg_ToolCallID m \<in> set (calls_of ms))"
  show "answered_later (ms @ [m])" unfolding answered_later_def
  proof (intro allI impI)
    fix pre x post
    assume s: "ms @ [m] = pre @ x # post" "mg_Role x = ''tool''"
    show "mg_ToolCallID x \<in> set (calls_of pre)"
    proof (cases post rule: rev_cases)
      case Nil
      then show ?thesis using a s by auto
    next
      case (snoc post' y)
      then have "ms = pre @ x # post'" using s(1) by simp
      then show ?thesis using a s(2) by (auto simp: answered_later_def)
    qed
  qed
qed

lemma answered_later_Nil [simp]: "answered_later []" by (simp add: answered_later_def)

lemma convertCall_step:
  assumes "convertCall env c t = Inr (call, t')"
  shows "tc_ID call \<notin> set (tk_used t)" "tk_used t' = tc_ID call # tk_used t" "map pd_id (tk_pending t') = map pd_id (tk_pending t) @ [tc_ID call]"
  using assms by (auto simp: convertCall_def Let_def split: option.splits if_splits)

lemma nth_shift: "Suc k \<le> i \<Longrightarrow> (p # ps) ! (i - k) = ps ! (i - Suc k)"
  by (simp add: nth_Cons Suc_diff_Suc split: nat.split) (metis Suc_diff_le diff_Suc_Suc nat.inject)

lemma match_name_found:
  "match_name name k ps found = Some (Some (i, cid)) \<Longrightarrow>
     found = Some (i, cid) \<or> (k \<le> i \<and> i < k + length ps \<and> pd_id (ps ! (i - k)) = cid)"
proof (induction name k ps found rule: match_name.induct)
  case (2 name index p ps found)
  show ?case
  proof (cases "pd_name p \<noteq> name")
    case True
    then show ?thesis using "2.IH"(1) "2.prems" by (auto simp: nth_shift)
  next
    case False
    then have f: "\<not> found \<noteq> None" using "2.prems" by (auto split: if_splits)
    then show ?thesis using "2.IH"(2) [OF False f] "2.prems" False by (auto simp: nth_shift)
  qed
qed simp

lemma match_id_found:
  "match_id cid0 name k ps = Some (Some (i, cid)) \<Longrightarrow> k \<le> i \<and> i < k + length ps \<and> pd_id (ps ! (i - k)) = cid"
  by (induction cid0 name k ps rule: match_id.induct) (auto simp: nth_shift split: if_splits)

lemma convertResponse_step:
  assumes "convertResponse r t = Inr (m, t')"
  obtains i where "i < length (tk_pending t)" "mg_ToolCallID m = pd_id (tk_pending t ! i)" "mg_Role m = ''tool''" "mg_ToolCalls m = []"
    "tk_used t' = tk_used t" "tk_pending t' = take i (tk_pending t) @ drop (i + 1) (tk_pending t)"
proof (cases r)
  case (Some r')
  define found where "found = (if gr_ID r' = [] then match_name (gr_Name r') 0 (tk_pending t) None else match_id (gr_ID r') (gr_Name r') 0 (tk_pending t))"
  obtain i cid where f: "found = Some (Some (i, cid))"
    using assms unfolding convertResponse_def Some option.case found_def [symmetric] by (auto split: option.splits if_splits)
  have m: "\<exists>encoded. m = tool_message cid encoded" and t': "t' = t\<lparr>tk_pending := take i (tk_pending t) @ drop (i + 1) (tk_pending t)\<rparr>"
    using assms unfolding convertResponse_def Some option.case found_def [symmetric] f
    by (auto simp: Let_def split: option.splits if_splits)
  have "i < length (tk_pending t) \<and> pd_id (tk_pending t ! i) = cid"
    using f match_name_found [of "gr_Name r'" 0 "tk_pending t" None i cid] match_id_found [of "gr_ID r'" "gr_Name r'" 0 "tk_pending t" i cid]
    by (auto simp: found_def split: if_splits)
  then show ?thesis using that [of i] m t' by (auto simp: tool_message_def)
qed (use assms in \<open>simp add: convertResponse_def\<close>)

lemma tracked_call:
  assumes "tracked (ms @ [m]) t" "convertCall env c t = Inr (call, t')" "mg_Role m \<noteq> ''tool''"
  shows "tracked (ms @ [m\<lparr>mg_ToolCalls := mg_ToolCalls m @ [call]\<rparr>]) t'"
  using assms(1,3) convertCall_step [OF assms(2)] by (auto simp: tracked_def answered_later_snoc)

lemma tracked_answer:
  assumes "tracked ms t" "convertResponse r t = Inr (m, t')"
  shows "tracked (ms @ [m]) t'"
proof -
  obtain i where i: "i < length (tk_pending t)" "mg_ToolCallID m = pd_id (tk_pending t ! i)" "mg_Role m = ''tool''" "mg_ToolCalls m = []"
    "tk_used t' = tk_used t" "tk_pending t' = take i (tk_pending t) @ drop (i + 1) (tk_pending t)"
    by (rule convertResponse_step [OF assms(2)])
  have split: "tk_pending t = take i (tk_pending t) @ tk_pending t ! i # drop (i + 1) (tk_pending t)" using i(1) by (simp add: id_take_nth_drop)
  have "mset (map pd_id (tk_pending t)) = {#mg_ToolCallID m#} + mset (map pd_id (tk_pending t'))"
    unfolding i(2,6) by (subst split) (simp add: add.commute)
  moreover from this have "mg_ToolCallID m \<in># mset (calls_of ms)"
    using assms(1) unfolding tracked_def by (metis add.assoc add.commute union_iff union_single_eq_member)
  ultimately show ?thesis using assms(1) i(3-5) by (simp add: tracked_def answered_later_snoc)
qed

lemma tracked_text: "tracked ms t \<Longrightarrow> role \<noteq> ''tool'' \<Longrightarrow> tracked (flush_text role said ms) t"
  by (simp add: flush_text_def tracked_def answered_later_snoc)

lemma model_parts_tracked:
  assumes "model_parts env ps calls said t = Inr (calls', said', t')"
    and "tracked (ms @ [m\<lparr>mg_ToolCalls := calls\<rparr>]) t" and "mg_Role m \<noteq> ''tool''"
  shows "tracked (ms @ [m\<lparr>mg_ToolCalls := calls'\<rparr>]) t'"
  using assms
proof (induction env ps calls said t rule: model_parts.induct)
  case (2 env part parts calls said t)
  show ?case
  proof (cases "\<exists>p. part = Some p \<and> chatPartForm part = Inr KindFunctionCall")
    case True
    then obtain p where p: "part = Some p" "chatPartForm part = Inr KindFunctionCall" by blast
    then obtain c t1 where c: "convertCall env (gp_FunctionCall p) t = Inr (c, t1)" using "2.prems"(1) by (auto split: sum.splits)
    have "tracked (ms @ [m\<lparr>mg_ToolCalls := calls @ [c]\<rparr>]) t1" using tracked_call [OF "2.prems"(2) c] "2.prems"(3) by simp
    then show ?thesis using "2.IH"(2) [OF p(1) p(2) refl c refl] "2.prems" p c by simp
  next
    case False
    then show ?thesis using "2.prems" "2.IH"(1) by (auto split: option.splits sum.splits chatPartKind.splits)
  qed
qed simp

lemma other_parts_tracked:
  assumes "other_parts role ps said ms t = Inr (ms', t')" and "tracked (pre @ ms) t" and "role \<noteq> ''tool''"
  shows "tracked (pre @ ms') t'"
  using assms
proof (induction role ps said ms t rule: other_parts.induct)
  case (1 role said ms t)
  then show ?case using tracked_text [of "pre @ ms" t role said] by (simp add: flush_text_def split: if_splits)
next
  case (2 role part parts said ms t)
  show ?case
  proof (cases "\<exists>p. part = Some p \<and> chatPartForm part = Inr KindFunctionResponse")
    case True
    then obtain p where p: "part = Some p" "chatPartForm part = Inr KindFunctionResponse" by blast
    then obtain m t1 where m: "role = ''user''" "convertResponse (gp_FunctionResponse p) t = Inr (m, t1)"
      using "2.prems"(1) by (auto split: sum.splits if_splits)
    have "tracked (pre @ flush_text role said ms) t" using tracked_text [OF "2.prems"(2,3), of said] by (simp add: flush_text_def split: if_splits)
    from tracked_answer [OF this m(2)] have "tracked (pre @ flush_text role said ms @ [m]) t1" by simp
    then show ?thesis using "2.IH"(2) [OF p(1) p(2) refl _ m(2) refl] "2.prems" p m by simp
  next
    case False
    then show ?thesis using "2.prems" "2.IH"(1) by (auto split: option.splits sum.splits chatPartKind.splits if_splits)
  qed
qed

lemma convertContent_tracked:
  assumes "convertContent env content t = Inr (ms', t')" "tracked ms t"
  shows "tracked (ms @ ms') t'"
proof -
  obtain c where c: "content = Some c" using assms(1) by (auto simp: convertContent_def split: option.splits)
  define role where "role = (if gc_Role c = [] then ''user'' else gc_Role c)"
  have role: "role \<in> {''user'', ''model'', ''system'', ''developer''}"
    using assms(1) by (auto simp: convertContent_def c role_def Let_def split: if_splits)
  show ?thesis
  proof (cases "role = ''model''")
    case True
    then obtain calls said where p: "model_parts env (gc_Parts c) [] [] t = Inr (calls, said, t')"
      and ms': "ms' = [\<lparr>mg_Role = ''assistant'', mg_Content = (if said = [] then None else Some said), mg_ToolCalls = calls, mg_ToolCallID = []\<rparr>]"
      using assms(1) by (auto simp: convertContent_def c role_def Let_def split: if_splits sum.splits)
    let ?m = "\<lparr>mg_Role = ''assistant'', mg_Content = (if said = [] then None else Some said), mg_ToolCalls = [], mg_ToolCallID = []\<rparr>"
    have "tracked (ms @ [?m\<lparr>mg_ToolCalls := []\<rparr>]) t" using assms(2) by (simp add: tracked_def answered_later_snoc)
    from model_parts_tracked [OF p this] show ?thesis by (simp add: ms')
  next
    case False
    then have "other_parts role (gc_Parts c) [] [] t = Inr (ms', t')"
      using assms(1) by (auto simp: convertContent_def c role_def Let_def split: if_splits sum.splits)
    from other_parts_tracked [OF this, of ms] assms(2) role show ?thesis by auto
  qed
qed

lemma convert_contents_tracked:
  "convert_contents env cs t = Inr (ms', t') \<Longrightarrow> tracked ms t \<Longrightarrow> tracked (ms @ ms') t'"
proof (induction env cs t arbitrary: ms ms' t' rule: convert_contents.induct)
  case (2 env content contents t)
  then obtain m1 t1 m2 where m: "convertContent env content t = Inr (m1, t1)" "convert_contents env contents t1 = Inr (m2, t')" "ms' = m1 @ m2"
    by (auto split: sum.splits)
  from "2.IH" [OF m(1) refl m(2) convertContent_tracked [OF m(1) "2.prems"(2)]] show ?case by (simp add: m(3))
qed simp

lemma system_messages_plain: "system_messages config = Inr ms \<Longrightarrow> tracked ms newTracker"
  by (auto simp: system_messages_def tracked_def newTracker_def answered_later_snoc [of "[]", simplified] split: option.splits sum.splits)

lemma buildRequest_messages:
  assumes "buildRequest env model rq = Inr r"
  obtains t where "tracked (cr_Messages r) t"
proof -
  obtain sys ms t where s: "system_messages (gq_Config rq) = Inr sys" "convert_contents env (gq_Contents rq) newTracker = Inr (ms, t)"
    and r: "cr_Messages r = sys @ ms"
    using assms by (auto simp: buildRequest_def Let_def configure_def plain_request_def split: sum.splits option.splits if_splits)
  show ?thesis using that convert_contents_tracked [OF s(2) system_messages_plain [OF s(1)]] r by simp
qed

text \<open>C37: In every request that is built the identifiers of the tool calls are distinct, every tool message answers a
  call of an earlier message, and no call is answered twice.\<close>

theorem tool_calls_answered:
  assumes "buildRequest env model rq = Inr r"
  shows "distinct (calls_of (cr_Messages r)) \<and> distinct (answers_of (cr_Messages r)) \<and>
    (\<forall>pre m post. cr_Messages r = pre @ m # post \<longrightarrow> mg_Role m = ''tool'' \<longrightarrow> mg_ToolCallID m \<in> set (calls_of pre))"
proof -
  obtain t where t: "tracked (cr_Messages r) t" by (rule buildRequest_messages [OF assms])
  then have "mset (answers_of (cr_Messages r) @ map pd_id (tk_pending t)) = mset (calls_of (cr_Messages r))" by (simp add: tracked_def)
  from mset_eq_imp_distinct_iff [OF this] t have "distinct (answers_of (cr_Messages r))" by (simp add: tracked_def)
  then show ?thesis using t by (simp add: tracked_def answered_later_def)
qed

section \<open>Identifiers of a response\<close>

lemma pick_id_free:
  assumes "pick_id synth reserved used n = Some x"
  shows "(\<exists>k \<ge> n. x = synth k) \<and> x \<notin> set reserved \<and> x \<notin> set used"
proof (rule pick_id.raw_induct [OF _ assms, where P = "\<lambda>synth reserved used n x. (\<exists>k \<ge> n. x = synth k) \<and> x \<notin> set reserved \<and> x \<notin> set used"])
  fix pick :: "(nat \<Rightarrow> go_string) \<Rightarrow> go_string list \<Rightarrow> go_string list \<Rightarrow> nat \<Rightarrow> go_string option" and synth reserved used n x
  assume IH: "\<And>synth reserved used n x. pick synth reserved used n = Some x \<Longrightarrow> (\<exists>k \<ge> n. x = synth k) \<and> x \<notin> set reserved \<and> x \<notin> set used"
    and "(if synth n \<in> set reserved \<or> synth n \<in> set used then pick synth reserved used (n + 1) else Some (synth n)) = Some x"
  then show "(\<exists>k \<ge> n. x = synth k) \<and> x \<notin> set reserved \<and> x \<notin> set used"
    using IH [of synth reserved used "n + 1" x] by (auto split: if_splits) (meson Suc_leD)+
qed

lemma pick_id_exists:
  "n \<le> k \<Longrightarrow> synth k \<notin> set reserved \<union> set used \<Longrightarrow> \<exists>x. pick_id synth reserved used n = Some x"
proof (induction "k - n" arbitrary: n)
  case 0
  then show ?case by (simp add: pick_id.simps [of synth reserved used n])
next
  case (Suc d)
  then have "\<exists>x. pick_id synth reserved used (n + 1) = Some x" by simp
  then show ?case by (simp add: pick_id.simps [of synth reserved used n])
qed

lemma pick_id_total:
  assumes "inj_on synth {..m}" "n + length reserved + length used \<le> m"
  shows "\<exists>x. pick_id synth reserved used n = Some x"
proof -
  have "card (synth ` {n..n + length reserved + length used}) = length reserved + length used + 1"
    using assms by (subst card_image) (auto intro: inj_on_subset)
  moreover have "card (set reserved \<union> set used) \<le> length reserved + length used"
    by (rule order.trans [OF card_Un_le]) (simp add: add_mono card_length)
  ultimately have "\<not> synth ` {n..n + length reserved + length used} \<subseteq> set reserved \<union> set used"
    using card_mono [of "set reserved \<union> set used" "synth ` {n..n + length reserved + length used}"] by auto
  then obtain k where "n \<le> k" "synth k \<notin> set reserved \<union> set used" unfolding image_subset_iff by (meson atLeastAtMost_iff)
  then show ?thesis by (rule pick_id_exists)
qed

lemma normalize_ids_ok:
  assumes "normalize_ids synth reserved index used cids = Some out"
    and ne: "\<And>k. synth k \<noteq> []" and "set (filter (\<lambda>cid. cid \<noteq> []) cids) \<subseteq> set reserved"
  shows "length out = length cids \<and> distinct out \<and> set out \<inter> set used = {} \<and> [] \<notin> set out \<and>
    (\<forall>i < length cids. cids ! i \<noteq> [] \<longrightarrow> cids ! i \<notin> set used \<longrightarrow> cids ! i \<notin> set (take i cids) \<longrightarrow> out ! i = cids ! i)"
  using assms(1,3)
proof (induction cids arbitrary: index used out)
  case (Cons cid cids)
  define choice where "choice = (if cid = [] \<or> cid \<in> set used then pick_id synth reserved used index else Some cid)"
  obtain x rest where x: "choice = Some x" and rest: "normalize_ids synth reserved (index + 1) (x # used) cids = Some rest"
    and out: "out = x # rest"
    using Cons.prems(1) by (auto simp: choice_def [symmetric] split: option.splits)
  have sub: "set (filter (\<lambda>cid. cid \<noteq> []) cids) \<subseteq> set reserved" using Cons.prems(2) by (auto split: if_splits)
  note IH = Cons.IH [OF rest sub]
  have new: "x \<notin> set used" "x \<noteq> []" "cid \<noteq> [] \<Longrightarrow> cid \<notin> set used \<Longrightarrow> x = cid" "x \<in> set reserved \<Longrightarrow> x = cid"
    using x pick_id_free [of synth reserved used index x] Cons.prems(2) by (auto simp: choice_def ne split: if_splits)
  have keep: "out ! i = (cid # cids) ! i"
    if "i < length (cid # cids)" "(cid # cids) ! i \<noteq> []" "(cid # cids) ! i \<notin> set used" "(cid # cids) ! i \<notin> set (take i (cid # cids))" for i
  proof (cases i)
    case 0
    then show ?thesis using new(3) that out by simp
  next
    case (Suc j)
    have "cids ! j \<in> set reserved" using that(1,2) Suc sub by (auto intro!: subsetD [OF sub])
    then have "cids ! j \<noteq> x" using new(4) that(4) Suc by auto
    then show ?thesis using IH that Suc out by simp
  qed
  show ?case using IH new(1,2) keep out by auto
qed simp

lemma normalize_ids_total:
  assumes "inj_on synth {..m}" "index + length reserved + length used + 2 * length cids \<le> m + 1"
  shows "\<exists>out. normalize_ids synth reserved index used cids = Some out"
  using assms(2)
proof (induction cids arbitrary: index used)
  case (Cons cid cids)
  have "\<exists>x. (if cid = [] \<or> cid \<in> set used then pick_id synth reserved used index else Some cid) = Some x"
    using pick_id_total [OF assms(1), of index reserved used] Cons.prems by auto
  then obtain x where x: "(if cid = [] \<or> cid \<in> set used then pick_id synth reserved used index else Some cid) = Some x" ..
  have "\<exists>out. normalize_ids synth reserved (index + 1) (x # used) cids = Some out" using Cons by simp
  then show ?case using x by auto
qed simp

lemma synthesized_nonempty [simp]: "synthesizedChatCallID env rid n \<noteq> []"
  by (simp add: synthesizedChatCallID_def)

lemma response_ids_ok:
  assumes "normalizeChatResponseCallIDs env rid calls = Some ids"
  shows "length ids = length calls" "distinct ids" "[] \<notin> set ids"
    "\<forall>i < length calls. tc_ID (calls ! i) \<noteq> [] \<longrightarrow> tc_ID (calls ! i) \<notin> set (take i (map tc_ID calls)) \<longrightarrow> ids ! i = tc_ID (calls ! i)"
  using normalize_ids_ok [OF assms [unfolded normalizeChatResponseCallIDs_def Let_def]] by simp_all

text \<open>C38: The identifiers of the calls of a response are distinct and not empty, the first call with an identifier of its
  own keeps it, and the search for a free one ends when the first hashes do not collide.\<close>

theorem response_ids_distinct:
  assumes "inj_on (synthesizedChatCallID env rid) {..3 * length calls}"
  shows "\<exists>ids. normalizeChatResponseCallIDs env rid calls = Some ids \<and> length ids = length calls \<and> distinct ids \<and> [] \<notin> set ids \<and>
    (\<forall>i < length calls. tc_ID (calls ! i) \<noteq> [] \<longrightarrow> tc_ID (calls ! i) \<notin> set (take i (map tc_ID calls)) \<longrightarrow> ids ! i = tc_ID (calls ! i))"
proof -
  define given where "given = filter (\<lambda>cid. cid \<noteq> []) (map tc_ID calls)"
  have "length given \<le> length calls" using length_filter_le [of "\<lambda>cid. cid \<noteq> []" "map tc_ID calls"] by (simp add: given_def)
  then have "0 + length given + length [] + 2 * length (map tc_ID calls) \<le> 3 * length calls + 1" by simp
  from normalize_ids_total [OF assms this] obtain ids where "normalizeChatResponseCallIDs env rid calls = Some ids"
    unfolding normalizeChatResponseCallIDs_def Let_def given_def by auto
  from this response_ids_ok [OF this] show ?thesis by blast
qed

section \<open>A response as part of the history\<close>

definition response_content :: "genai_result \<Rightarrow> genai_content" where
  "response_content g = \<lparr>gc_Role = gl_Role g, gc_Parts = map Some (gl_Parts g)\<rparr>"

text \<open>Documented of \<open>encoding/json\<close>: an object that was decoded can be encoded.\<close>

definition decoded_marshals :: "chat_env \<Rightarrow> bool" where
  "decoded_marshals env \<longleftrightarrow> (\<forall>raw object rest. ce_decode env raw = Decoded (JMap object) rest \<longrightarrow> marshal (JMap object) \<noteq> None)"

definition is_call_part :: "genai_part \<Rightarrow> chat_call \<times> go_string \<Rightarrow> bool" where
  "is_call_part p x \<longleftrightarrow> (\<exists>args. p = call_part (snd x) (tc_Name (fst x)) args \<and> trim_space (tc_Name (fst x)) \<noteq> [] \<and> marshal (JMap args) \<noteq> None)"

lemma decoded_arguments:
  assumes "decoded_marshals env" "decodeChatArguments env raw = Some args"
  shows "marshal (JMap args) \<noteq> None"
  using assms by (auto simp: decodeChatArguments_def decoded_marshals_def split: if_splits decoded.splits json.splits)

lemma response_calls_parts:
  assumes "response_calls env recover cs parts fs = Inr (all_parts, fs')" "decoded_marshals env"
  shows "\<exists>new. all_parts = parts @ new \<and> list_all2 is_call_part new cs"
  using assms(1)
proof (induction cs arbitrary: parts fs)
  case (Cons x calls)
  obtain call cid where x: "x = (call, cid)" by fastforce
  have ok: "trim_space (tc_Name call) \<noteq> []" using Cons.prems x by (auto split: if_splits)
  obtain args fs1 where args: "marshal (JMap args) \<noteq> None"
    and run: "response_calls env recover calls (parts @ [call_part cid (tc_Name call) args]) fs1 = Inr (all_parts, fs')"
  proof (cases "decodeChatArguments env (tc_Arguments call)")
    case None
    then show ?thesis using that [of "[]"] Cons.prems x by (auto split: if_splits)
  next
    case (Some args)
    then show ?thesis using that [of args] Cons.prems x decoded_arguments [OF assms(2) Some] by (auto split: if_splits)
  qed
  from Cons.IH [OF run] obtain new where "all_parts = (parts @ [call_part cid (tc_Name call) args]) @ new" "list_all2 is_call_part new calls" by blast
  moreover have "is_call_part (call_part cid (tc_Name call) args) x" using ok args x by (auto simp: is_call_part_def)
  ultimately show ?case by (intro exI [of _ "call_part cid (tc_Name call) args # new"]) (simp del: marshal.simps)
qed simp

lemma convertCall_succeeds:
  assumes "trim_space name \<noteq> []" "marshal (JMap args) \<noteq> None" "cid \<noteq> []" "cid \<notin> set (tk_used t)"
  obtains call t' where "convertCall env (gp_FunctionCall (call_part cid name args)) t = Inr (call, t')" "tc_ID call = cid" "tc_Name call = name"
    "tk_used t' = cid # tk_used t"
  using assms by (auto simp: convertCall_def call_part_def)

lemma model_parts_calls:
  assumes "list_all2 is_call_part ps cs" "distinct (map snd cs)" "[] \<notin> set (map snd cs)" "set (map snd cs) \<inter> set (tk_used t) = {}"
  shows "\<exists>new t'. model_parts env (map Some ps) calls said t = Inr (calls @ new, said, t') \<and>
    map (\<lambda>c. (tc_ID c, tc_Name c)) new = map (\<lambda>(c, cid). (cid, tc_Name c)) cs"
  using assms
proof (induction ps cs arbitrary: calls t rule: list_all2_induct)
  case (Cons p ps x cs)
  obtain c cid where x: "x = (c, cid)" by fastforce
  obtain args where p: "p = call_part cid (tc_Name c) args" "trim_space (tc_Name c) \<noteq> []" "marshal (JMap args) \<noteq> None"
    using Cons.hyps(1) by (auto simp: is_call_part_def x)
  obtain call t1 where c: "convertCall env (gp_FunctionCall p) t = Inr (call, t1)" "tc_ID call = cid" "tc_Name call = tc_Name c" "tk_used t1 = cid # tk_used t"
    using convertCall_succeeds [OF p(2,3), of cid t env] Cons.prems x p(1) by auto
  have form: "chatPartForm (Some p) = Inr KindFunctionCall" by (simp add: p(1) call_part_def chatPartForm_def)
  obtain new t' where "model_parts env (map Some ps) (calls @ [call]) said t1 = Inr ((calls @ [call]) @ new, said, t')"
    "map (\<lambda>c. (tc_ID c, tc_Name c)) new = map (\<lambda>(c, cid). (cid, tc_Name c)) cs"
    using Cons.IH [of t1 "calls @ [call]"] Cons.prems x c(4) by auto
  then show ?case using form c x by (intro exI [of _ "call # new"] exI [of _ t']) simp
qed simp

definition part_calls :: "genai_part list \<Rightarrow> (go_string \<times> go_string) list" where
  "part_calls ps = List.map_filter (\<lambda>p. map_option (\<lambda>c. (gf_ID c, gf_Name c)) (gp_FunctionCall p)) ps"

lemma part_calls_new: "list_all2 is_call_part ps cs \<Longrightarrow> part_calls ps = map (\<lambda>(c, cid). (cid, tc_Name c)) cs"
  by (induction rule: list_all2_induct) (auto simp: part_calls_def map_filter_simps is_call_part_def call_part_def split: prod.splits)

lemma calls_silent: "list_all2 is_call_part ps cs \<Longrightarrow> concat (map gp_Text ps) = []"
  by (induction rule: list_all2_induct) (auto simp: is_call_part_def call_part_def)

lemma leading_text: "model_parts env (map Some ((if s = [] then [] else [text_part s]) @ ps)) [] [] t = model_parts env (map Some ps) [] s t"
  by (simp add: chatPartForm_def text_part_def spoken_def)

lemma response_shape:
  assumes "convertChatResponse env re recover = Some (Inr g)" "decoded_marshals env"
  obtains choice ids new where "re_Choices re = [choice]" "normalizeChatResponseCallIDs env (re_ID re) (rc_ToolCalls choice) = Some ids"
    "gl_Role g = ''model''" "list_all2 is_call_part new (zip (rc_ToolCalls choice) ids)"
    "gl_Parts g = (let said = stripLeadingThinkBlock (rc_Content choice) in if said = [] then [] else [text_part said]) @ new"
proof -
  obtain choice where choice: "re_Choices re = [choice]" using assms(1) by (auto simp: convertChatResponse_def split: list.splits)
  define said where "said = stripLeadingThinkBlock (rc_Content choice)"
  define parts where "parts = (if said = [] then [] else [text_part said])"
  obtain ids where ids: "normalizeChatResponseCallIDs env (re_ID re) (rc_ToolCalls choice) = Some ids"
    using assms(1) choice by (auto simp: convertChatResponse_def Let_def split: option.splits)
  obtain fs where r: "response_calls env recover (zip (rc_ToolCalls choice) ids) parts [] = Inr (gl_Parts g, fs)" and g: "gl_Role g = ''model''"
    using assms(1) choice ids by (auto simp: convertChatResponse_def Let_def said_def parts_def split: sum.splits if_splits)
  from response_calls_parts [OF r assms(2)] show ?thesis using that [OF choice ids g] by (auto simp: parts_def said_def Let_def)
qed


section \<open>Identifiers across responses\<close>

lemma model_parts_used:
  "model_parts env ps calls said t = Inr (calls', said', t') \<Longrightarrow>
     set (tk_used t) \<subseteq> set (tk_used t') \<and> (\<exists>new. calls' = calls @ new \<and> tc_ID ` set new \<subseteq> set (tk_used t'))"
proof (induction ps arbitrary: calls said t)
  case (Cons part ps)
  obtain p where p: "part = Some p" using Cons.prems by (cases part) auto
  show ?case
  proof (cases "chatPartForm part = Inr KindFunctionCall")
    case True
    then obtain c t1 where c: "convertCall env (gp_FunctionCall p) t = Inr (c, t1)" and run: "model_parts env ps (calls @ [c]) said t1 = Inr (calls', said', t')"
      using Cons.prems p by (auto split: sum.splits)
    from Cons.IH [OF run] obtain new where new: "set (tk_used t1) \<subseteq> set (tk_used t')" "calls' = (calls @ [c]) @ new" "tc_ID ` set new \<subseteq> set (tk_used t')"
      by blast
    then show ?thesis using convertCall_step(2) [OF c] by (intro conjI exI [of _ "c # new"]) auto
  next
    case False
    then show ?thesis using Cons.prems Cons.IH p by (auto split: sum.splits chatPartKind.splits)
  qed
qed simp

lemma other_parts_used: "other_parts role ps said ms t = Inr (ms', t') \<Longrightarrow> tk_used t' = tk_used t"
proof (induction ps arbitrary: said ms t)
  case (Cons part ps)
  then show ?case
    by (auto split: option.splits sum.splits chatPartKind.splits if_splits elim!: convertResponse_step)
qed simp

lemma convertContent_used: "convertContent env c t = Inr (ms, t') \<Longrightarrow> set (tk_used t) \<subseteq> set (tk_used t')"
  by (auto simp: convertContent_def Let_def split: option.splits sum.splits if_splits dest!: model_parts_used other_parts_used)

lemma convert_contents_used: "convert_contents env cs t = Inr (ms, t') \<Longrightarrow> set (tk_used t) \<subseteq> set (tk_used t')"
  by (induction cs arbitrary: t ms) (force split: sum.splits dest: convertContent_used)+

lemma unnamed_first_id:
  assumes "normalizeChatResponseCallIDs env rid calls = Some ids" "calls \<noteq> []" "\<forall>c \<in> set calls. tc_ID c = []"
  shows "\<exists>rest. ids = synthesizedChatCallID env rid 0 # rest"
proof -
  obtain c cs where calls: "calls = c # cs" using assms(2) by (cases calls) auto
  have "filter (\<lambda>cid. cid \<noteq> []) (map tc_ID calls) = []" using assms(3) by (simp add: filter_empty_conv)
  moreover have "tc_ID c = []" using assms(3) calls by simp
  ultimately show ?thesis using assms(1) by (auto simp: normalizeChatResponseCallIDs_def calls pick_id.simps)
qed

lemma first_call_duplicate:
  assumes "list_all2 is_call_part ps ((c, cid) # cs)" "cid \<in> set (tk_used t)" "cid \<noteq> []"
  shows "model_parts env (map Some ps) calls said t = Inl DuplicateToolCallID"
proof -
  obtain p qs args where p: "ps = p # qs" "p = call_part cid (tc_Name c) args" "trim_space (tc_Name c) \<noteq> []" "marshal (JMap args) \<noteq> None"
    using assms(1) by (auto simp: list_all2_Cons2 is_call_part_def)
  then show ?thesis using assms(2,3) by (auto simp: call_part_def chatPartForm_def convertCall_def)
qed

lemma first_call_used:
  assumes "list_all2 is_call_part ps ((c, cid) # cs)" "model_parts env (map Some ps) calls said t = Inr (calls', said', t')" "cid \<noteq> []"
  shows "cid \<in> set (tk_used t')"
proof -
  obtain p qs args where p: "ps = p # qs" "p = call_part cid (tc_Name c) args" using assms(1) by (auto simp: list_all2_Cons2 is_call_part_def)
  have form: "chatPartForm (Some p) = Inr KindFunctionCall" by (simp add: p(2) call_part_def chatPartForm_def)
  obtain call t1 where c: "convertCall env (gp_FunctionCall p) t = Inr (call, t1)" and run: "model_parts env (map Some qs) (calls @ [call]) said t1 = Inr (calls', said', t')"
    using assms(2) form p(1) by (auto split: sum.splits)
  have "tc_ID call = cid" using c assms(3) by (auto simp: p(2) call_part_def convertCall_def Let_def split: option.splits if_splits)
  then show ?thesis using convertCall_step(2) [OF c] model_parts_used [OF run] by auto
qed

text \<open>C40: A server that gives neither responses nor calls an identifier breaks the conversation: the identifiers that are
  made up for its second response with a call repeat those of the first, so no request with both can be built.\<close>

theorem synthesized_ids_repeat:
  assumes "convertChatResponse env re1 recover1 = Some (Inr g1)" and "convertChatResponse env re2 recover2 = Some (Inr g2)"
    and "decoded_marshals env" and "re_ID re1 = re_ID re2"
    and "\<forall>re \<in> {re1, re2}. \<forall>choice \<in> set (re_Choices re). rc_ToolCalls choice \<noteq> [] \<and> (\<forall>c \<in> set (rc_ToolCalls choice). tc_ID c = [])"
    and "convertContent env (Some (response_content g1)) t = Inr (ms1, t1)" and "convert_contents env between t1 = Inr (ms, t2)"
  shows "convertContent env (Some (response_content g2)) t2 = Inl DuplicateToolCallID"
proof -
  define cid where "cid = synthesizedChatCallID env (re_ID re1) 0"
  have shape: "\<exists>c cs new s. gl_Role g = ''model'' \<and> list_all2 is_call_part new ((c, cid) # cs) \<and> gl_Parts g = (if s = [] then [] else [text_part s]) @ new"
    if g: "convertChatResponse env re recover = Some (Inr g)" and re: "re \<in> {re1, re2}" for g re recover
  proof -
    obtain choice ids new where c: "re_Choices re = [choice]" "normalizeChatResponseCallIDs env (re_ID re) (rc_ToolCalls choice) = Some ids"
      "gl_Role g = ''model''" "list_all2 is_call_part new (zip (rc_ToolCalls choice) ids)"
      "gl_Parts g = (let said = stripLeadingThinkBlock (rc_Content choice) in if said = [] then [] else [text_part said]) @ new"
      by (rule response_shape [OF g assms(3)])
    have calls: "rc_ToolCalls choice \<noteq> []" "\<forall>c \<in> set (rc_ToolCalls choice). tc_ID c = []" using assms(5) re c(1) by auto
    obtain c0 cs0 where calls0: "rc_ToolCalls choice = c0 # cs0" using calls(1) by (cases "rc_ToolCalls choice") auto
    obtain rest where "ids = cid # rest" using unnamed_first_id [OF c(2) calls] re assms(4) by (auto simp: cid_def)
    then have "list_all2 is_call_part new ((c0, cid) # zip cs0 rest)" using c(4) calls0 by simp
    then show ?thesis using c(3,5) unfolding Let_def by blast
  qed
  obtain c1 cs1 new1 s1 where g1: "gl_Role g1 = ''model''" "list_all2 is_call_part new1 ((c1, cid) # cs1)"
    "gl_Parts g1 = (if s1 = [] then [] else [text_part s1]) @ new1" using shape [OF assms(1)] by auto
  obtain c2 cs2 new2 s2 where g2: "gl_Role g2 = ''model''" "list_all2 is_call_part new2 ((c2, cid) # cs2)"
    "gl_Parts g2 = (if s2 = [] then [] else [text_part s2]) @ new2" using shape [OF assms(2)] by auto
  have ne: "cid \<noteq> []" by (simp add: cid_def)
  obtain calls' said' where "model_parts env (map Some (gl_Parts g1)) [] [] t = Inr (calls', said', t1)"
    using assms(6) g1(1) by (auto simp: convertContent_def response_content_def Let_def split: sum.splits if_splits)
  then have "cid \<in> set (tk_used t1)" using first_call_used [OF g1(2) _ ne] unfolding g1(3) leading_text by blast
  then have used: "cid \<in> set (tk_used t2)" using convert_contents_used [OF assms(7)] by blast
  have "model_parts env (map Some (gl_Parts g2)) [] [] t2 = Inl DuplicateToolCallID"
    unfolding g2(3) leading_text by (rule first_call_duplicate [OF g2(2) used ne])
  moreover have "gl_Parts g2 \<noteq> []" using g2(2,3) by (auto simp: list_all2_Cons2)
  ultimately show ?thesis using g2(1) by (simp add: convertContent_def response_content_def Let_def)
qed

section \<open>Text and counts\<close>

lemma str_index_split:
  assumes "str_index s sub = Some n" "sub \<noteq> []"
  shows "s = take n s @ sub @ drop (n + length sub) s" "str_index (take n s) sub = None"
proof -
  note at = str_index_Some [OF assms(1)]
  have "drop n s = take (length sub) (drop n s) @ drop (length sub) (drop n s)" by (rule append_take_drop_id [symmetric])
  then have "drop n s = sub @ drop (n + length sub) s" using at by (simp add: add.commute)
  then show "s = take n s @ sub @ drop (n + length sub) s" by (metis append_take_drop_id)
  have "\<not> sublist sub (take n s)"
  proof
    assume "sublist sub (take n s)"
    then obtain pre post where t: "take n s = pre @ sub @ post" by (auto simp: sublist_def)
    moreover have "length (take n s) = n" using at by simp
    ultimately have "length pre + length sub \<le> n" by (metis le_add1 length_append add.assoc)
    then have lt: "length pre < n" using assms(2) by (cases sub) simp_all
    have "s = pre @ sub @ post @ drop n s" using t by (metis append.assoc append_take_drop_id)
    then have "drop (length pre) s = sub @ post @ drop n s" by (metis append_eq_conv_conj)
    then show False using str_index_first [OF assms(1) lt] by simp
  qed
  then show "str_index (take n s) sub = None" by (simp add: str_index_None)
qed

text \<open>Stripping removes at most one leading block of thoughts, up to its first end mark, and leaves every other text
  as it is.\<close>

theorem think_block_stripped:
  "stripLeadingThinkBlock said = said \<or>
   (\<exists>body. trim_space_left said = ''<think>'' @ body @ ''</think>'' @ stripLeadingThinkBlock said \<and> str_index body ''</think>'' = None)"
proof (cases "prefix ''<think>'' (trim_space_left said)")
  case True
  define rest where "rest = drop 7 (trim_space_left said)"
  have tl: "trim_space_left said = ''<think>'' @ rest" using True by (auto simp: rest_def prefix_def)
  show ?thesis
  proof (cases "str_index rest ''</think>''")
    case None
    then show ?thesis using True by (simp add: stripLeadingThinkBlock_def Let_def rest_def)
  next
    case (Some n)
    have d: "drop (n + 7 + 8) (trim_space_left said) = drop (n + 8) rest" unfolding rest_def drop_drop by (rule arg_cong [where f = "\<lambda>k. drop k (trim_space_left said)"]) simp
    have strip: "stripLeadingThinkBlock said = drop (n + 8) rest"
      by (rule trans [OF _ d]) (use True Some in \<open>simp add: stripLeadingThinkBlock_def Let_def rest_def\<close>)
    have "rest = take n rest @ ''</think>'' @ drop (n + 8) rest" "str_index (take n rest) ''</think>'' = None"
      using str_index_split [OF Some] by (simp_all add: eval_nat_numeral)
    then show ?thesis using tl strip by metis
  qed
qed (simp add: stripLeadingThinkBlock_def Let_def)

text \<open>Token counts saturate at the bounds of \<open>int32\<close> and are exact within them.\<close>

theorem counts_saturate: "sint (safeChatInt32 v) = max minInt32 (min maxInt32 (sint v))"
proof -
  have small: "sint (word_of_int n :: 32 word) = n" if "minInt32 \<le> n" "n \<le> maxInt32" for n
    using that by (simp add: sint_sbintrunc' signed_take_bit_int_eq_self minInt32_def maxInt32_def)
  have cast: "ucast v = (word_of_int (sint v) :: 32 word)" by transfer (simp add: take_bit_signed_take_bit)
  consider "sint v > maxInt32" | "sint v < minInt32" | "minInt32 \<le> sint v" "sint v \<le> maxInt32" by linarith
  then show ?thesis
  proof cases
    case 1
    then show ?thesis using small [of maxInt32] by (simp add: safeChatInt32_def minInt32_def maxInt32_def)
  next
    case 2
    then show ?thesis using small [of minInt32] by (simp add: safeChatInt32_def minInt32_def maxInt32_def)
  next
    case 3
    then have "safeChatInt32 v = word_of_int (sint v)" unfolding safeChatInt32_def cast by (simp add: linorder_not_less)
    then show ?thesis using small [OF 3] 3 by (simp only: max_def min_def) simp
  qed
qed

section \<open>Witnesses\<close>

definition sample_env :: chat_env where
  "sample_env = \<lparr>ce_sha = (\<lambda>s. s), ce_lower = (\<lambda>s. s),
     ce_decode = (\<lambda>d. if d = [] then EndOfText else if d = ''{}'' then Decoded (JMap []) [] else Malformed)\<rparr>"

lemma sample_marshals: "decoded_marshals sample_env"
  by (auto simp: decoded_marshals_def sample_env_def split: if_splits)

definition sample_call :: "go_string \<Rightarrow> genai_call" where
  "sample_call cid = \<lparr>gf_ID = cid, gf_Name = ''f'', gf_Args = None, gf_PartialArgs = False, gf_WillContinue = False\<rparr>"

definition sample_answer :: genai_response where
  "sample_answer = \<lparr>gr_ID = [], gr_Name = ''f'', gr_Response = None, gr_Parts = False, gr_WillContinue = False, gr_Scheduling = []\<rparr>"

definition sample_history :: "unit genai_request" where
  "sample_history = \<lparr>gq_Model = ''m'', gq_Contents = [
       Some \<lparr>gc_Role = ''user'', gc_Parts = [Some (text_part ''hi'')]\<rparr>,
       Some \<lparr>gc_Role = ''model'', gc_Parts = [Some ((text_part [])\<lparr>gp_FunctionCall := Some (sample_call ''c'')\<rparr>)]\<rparr>,
       Some \<lparr>gc_Role = ''user'', gc_Parts = [Some ((text_part [])\<lparr>gp_FunctionResponse := Some sample_answer\<rparr>), Some (text_part ''go on'')]\<rparr>],
     gq_Config = None, gq_Tools = []\<rparr>"

definition sample_response :: "go_string \<Rightarrow> chatResponse" where
  "sample_response said = \<lparr>re_ID = [], re_Model = ''m'', re_Choices = [\<lparr>rc_FinishReason = ''stop'', rc_Content = said,
       rc_ToolCalls = [\<lparr>tc_ID = [], tc_Type = [], tc_Name = ''f'', tc_Arguments = ''{}''\<rparr>]\<rparr>],
     re_Usage = \<lparr>us_PromptTokens = 1, us_CompletionTokens = 1, us_TotalTokens = 2\<rparr>\<rparr>"

lemma sample_name: "trim_space ''f'' \<noteq> []" "trim_space ''{}'' \<noteq> []"
  by (subst trim_space_id; simp add: is_space_def byte_def)+

lemma tool_calls_answered_witness:
  "\<exists>r. buildRequest sample_env \<lparr>cm_name = ''n'', cm_maxTokens = True\<rparr> sample_history = Inr r \<and> answers_of (cr_Messages r) = [''c''] \<and>
     distinct (calls_of (cr_Messages r))"
proof -
  have "(case buildRequest sample_env \<lparr>cm_name = ''n'', cm_maxTokens = True\<rparr> sample_history of Inl _ \<Rightarrow> False | Inr r \<Rightarrow> answers_of (cr_Messages r) = [''c''])"
    using sample_name by (simp add: buildRequest_def sample_history_def system_messages_def newTracker_def convertContent_def chatPartForm_def text_part_def spoken_def
        convertCall_def sample_call_def convertResponse_def sample_answer_def markedRawChatToolResult_def tool_message_def flush_text_def Let_def plain_request_def)
  then obtain r where r: "buildRequest sample_env \<lparr>cm_name = ''n'', cm_maxTokens = True\<rparr> sample_history = Inr r" "answers_of (cr_Messages r) = [''c'']"
    by (auto split: sum.splits)
  then show ?thesis using tool_calls_answered [OF r(1)] by blast
qed

lemma response_ids_distinct_witness:
  "\<exists>ids. normalizeChatResponseCallIDs sample_env [] [\<lparr>tc_ID = [], tc_Type = [], tc_Name = ''f'', tc_Arguments = ''{}''\<rparr>] = Some ids \<and> distinct ids"
proof -
  have "distinct (map (synthesizedChatCallID sample_env []) [0, 1, 2, 3])" by code_simp
  moreover have "{..3 :: nat} = set [0, 1, 2, 3]" by auto
  ultimately have "inj_on (synthesizedChatCallID sample_env []) {..3}" by (simp only: distinct_map)
  then show ?thesis using response_ids_distinct [of sample_env "[]" "[\<lparr>tc_ID = [], tc_Type = [], tc_Name = ''f'', tc_Arguments = ''{}''\<rparr>]"] by auto
qed

lemma sample_converts:
  obtains g where "convertChatResponse sample_env (sample_response said) False = Some (Inr g)" "gl_Parts g \<noteq> []"
    "part_calls (gl_Parts g) = [(synthesizedChatCallID sample_env [] 0, ''f'')]"
proof -
  have "decodeChatArguments sample_env ''{}'' = Some []" using sample_name(2) by (simp add: decodeChatArguments_def sample_env_def)
  moreover note sample_name
  ultimately show ?thesis
    by (intro that) (auto simp: convertChatResponse_def sample_response_def normalizeChatResponseCallIDs_def pick_id.simps Let_def
      part_calls_def map_filter_simps call_part_def text_part_def)
qed


lemma synthesized_ids_repeat_witness:
  "\<exists>g1 g2 ms t. convertChatResponse sample_env (sample_response []) False = Some (Inr g1) \<and>
     convertChatResponse sample_env (sample_response ''ok'') False = Some (Inr g2) \<and>
     convertContent sample_env (Some (response_content g1)) newTracker = Inr (ms, t) \<and>
     convertContent sample_env (Some (response_content g2)) t = Inl DuplicateToolCallID"
proof -
  obtain g1 where g1: "convertChatResponse sample_env (sample_response []) False = Some (Inr g1)" "gl_Parts g1 \<noteq> []"
    "part_calls (gl_Parts g1) = [(synthesizedChatCallID sample_env [] 0, ''f'')]" by (rule sample_converts)
  obtain g2 where g2: "convertChatResponse sample_env (sample_response ''ok'') False = Some (Inr g2)" by (rule sample_converts)
  obtain c ids new where s: "re_Choices (sample_response []) = [c]" "normalizeChatResponseCallIDs sample_env (re_ID (sample_response [])) (rc_ToolCalls c) = Some ids"
    "gl_Role g1 = ''model''" "list_all2 is_call_part new (zip (rc_ToolCalls c) ids)"
    "gl_Parts g1 = (let said = stripLeadingThinkBlock (rc_Content c) in if said = [] then [] else [text_part said]) @ new"
    by (rule response_shape [OF g1(1) sample_marshals])
  have ids: "distinct (map snd (zip (rc_ToolCalls c) ids))" "[] \<notin> set (map snd (zip (rc_ToolCalls c) ids))"
    using response_ids_ok(1-3) [OF s(2)] by simp_all
  obtain calls t where m: "model_parts sample_env (map Some new) [] (stripLeadingThinkBlock (rc_Content c)) newTracker = Inr (calls, stripLeadingThinkBlock (rc_Content c), t)"
    "map (\<lambda>c. (tc_ID c, tc_Name c)) calls = map (\<lambda>(c, cid). (cid, tc_Name c)) (zip (rc_ToolCalls c) ids)"
    using model_parts_calls [OF s(4) ids, of newTracker sample_env "[]" "stripLeadingThinkBlock (rc_Content c)"] by (auto simp: newTracker_def)
  have "part_calls new = map (\<lambda>(c, cid). (cid, tc_Name c)) (zip (rc_ToolCalls c) ids)" by (rule part_calls_new [OF s(4)])
  moreover have "part_calls (gl_Parts g1) = part_calls new" by (simp add: s(5) Let_def part_calls_def map_filter_simps text_part_def)
  ultimately have "calls \<noteq> []" using m(2) g1(3) by auto
  then obtain ms where c1: "convertContent sample_env (Some (response_content g1)) newTracker = Inr (ms, t)"
    using m(1) leading_text [of sample_env _ new newTracker] g1(2) s(3,5) by (auto simp: convertContent_def response_content_def Let_def)
  have "convert_contents sample_env [] t = Inr ([], t)" by simp
  from synthesized_ids_repeat [OF g1(1) g2 sample_marshals _ _ c1 this] show ?thesis using g1 g2 c1
    by (auto simp: sample_response_def)
qed

end
