(* ===== verification/Path_Rules.thy ===== *)
theory Path_Rules
  imports Path_Glob
begin

text \<open>
  Path patterns of \<open>internal/pathglob\<close>: a pattern is translated to a regular expression. Its pieces are kept
  beside its text; package \<open>regexp\<close> on expressions without character classes is \<open>search\<close>, on others it is
  the parameter \<open>other\<close>, which is given the text.
\<close>

section \<open>Translation\<close>

abbreviation BACKSLASH :: char where "BACKSLASH \<equiv> CHR 0x5C"

datatype glob_error = ErrEmptyPattern | ErrUnsupportedBrace | ErrClass | ErrRegexp

datatype piece = Lit char | NotSlash | NotSlashStar | AnyDirs | AnyRunes | Class go_string

definition quote_meta :: "char \<Rightarrow> go_string" where
  "quote_meta c = (if c \<in> set (BACKSLASH # ''.+*?()|[]{}^$'') then [BACKSLASH, c] else [c])"

fun piece_text :: "piece \<Rightarrow> go_string" where
  "piece_text (Lit c) = quote_meta c"
| "piece_text NotSlash = ''[^/]''"
| "piece_text NotSlashStar = ''[^/]*''"
| "piece_text AnyDirs = ''(?:.*/)?''"
| "piece_text AnyRunes = ''.*''"
| "piece_text (Class s) = s"

text \<open>The loop of \<open>characterClass\<close> behind the optional negation: the class so far, and whether it has no content yet.\<close>

fun class_body :: "go_string \<Rightarrow> go_string \<Rightarrow> bool \<Rightarrow> (go_string \<times> go_string) option" where
  "class_body cls [] start = None"
| "class_body cls (c # rest) start =
     (if c = CHR ''/'' then None
      else if c = BACKSLASH \<and> rest \<noteq> [] then class_body (cls @ [BACKSLASH, hd rest]) (tl rest) False
      else if c = CHR '']'' then (if start then None else Some (cls @ '']'', rest))
      else class_body (cls @ [c]) rest False)"

definition characterClass :: "go_string \<Rightarrow> (go_string \<times> go_string) option" where
  "characterClass rest =
     (if rest = [] then None
      else if hd rest = CHR ''!'' then class_body ''[^'' (tl rest) True
      else class_body ''['' rest True)"

definition appendStarGlobToken :: "go_string \<Rightarrow> piece \<times> go_string" where
  "appendStarGlobToken rest =
     (if rest = [] \<or> hd rest \<noteq> CHR ''*'' then (NotSlashStar, rest)
      else let more = dropWhile (\<lambda>c. c = CHR ''*'') rest
      in if more \<noteq> [] \<and> hd more = CHR ''/'' then (AnyDirs, tl more) else (AnyRunes, more))"

definition appendEscapedGlobToken :: "go_string \<Rightarrow> piece \<times> go_string" where
  "appendEscapedGlobToken rest = (if rest = [] then (Lit BACKSLASH, []) else (Lit (hd rest), tl rest))"

text \<open>The piece for the byte \<open>c\<close> followed by \<open>rest\<close>, and what is left.\<close>

definition appendGlobToken :: "char \<Rightarrow> go_string \<Rightarrow> glob_error + piece \<times> go_string" where
  "appendGlobToken c rest =
     (if c = BACKSLASH then Inr (appendEscapedGlobToken rest)
      else if c = CHR ''*'' then Inr (appendStarGlobToken rest)
      else if c = CHR ''?'' then Inr (NotSlash, rest)
      else if c = CHR ''['' then
        (case characterClass rest of None \<Rightarrow> Inl ErrClass | Some (cls, rest') \<Rightarrow> Inr (Class cls, rest'))
      else if c = CHR ''{'' \<or> c = CHR ''}'' then Inl ErrUnsupportedBrace
      else Inr (Lit c, rest))"

lemma class_body_shorter: "class_body cls rest start = Some (class', rest') \<Longrightarrow> length rest' < length rest"
proof (induction cls rest start rule: class_body.induct)
  case (2 cls c rest start)
  then show ?case by (cases rest) (auto split: if_splits simp: less_Suc_eq)
qed simp

lemma appendGlobToken_shorter: "appendGlobToken c rest = Inr (p, rest') \<Longrightarrow> length rest' \<le> length rest"
proof -
  assume a: "appendGlobToken c rest = Inr (p, rest')"
  have "length (dropWhile (\<lambda>c. c = CHR ''*'') rest) \<le> length rest" by (rule length_dropWhile_le)
  then have "appendStarGlobToken rest = (p, rest') \<Longrightarrow> length rest' \<le> length rest"
    by (auto simp: appendStarGlobToken_def Let_def split: if_splits)
  moreover have "appendEscapedGlobToken rest = (p, rest') \<Longrightarrow> length rest' \<le> length rest"
    by (auto simp: appendEscapedGlobToken_def split: if_splits)
  moreover have "characterClass rest = Some (s, rest') \<Longrightarrow> length rest' \<le> length rest" for s
    using class_body_shorter [of "''[^''" "tl rest" True s rest'] class_body_shorter [of "''[''" rest True s rest']
    by (auto simp: characterClass_def split: if_splits)
  ultimately show ?thesis using a by (auto simp: appendGlobToken_def split: if_splits option.splits)
qed

function globRegexp :: "go_string \<Rightarrow> glob_error + piece list" where
  "globRegexp pattern =
     (case pattern of
        [] \<Rightarrow> Inr []
      | c # rest \<Rightarrow>
          (case appendGlobToken c rest of
             Inl e \<Rightarrow> Inl e
           | Inr (p, rest') \<Rightarrow> (case globRegexp rest' of Inl e \<Rightarrow> Inl e | Inr ps \<Rightarrow> Inr (p # ps))))"
  by pat_completeness auto
termination
  by (relation "measure length") (auto dest: appendGlobToken_shorter simp: less_Suc_eq_le)

declare globRegexp.simps [simp del]

section \<open>Matching\<close>

datatype path_token = TRune nat | TNotSlash | TNotSlashStar | TAnyDirs | TAnyRunes

text \<open>The expression over runes: adjacent literal bytes are decoded together.\<close>

fun path_tokens :: "go_string \<Rightarrow> piece list \<Rightarrow> path_token list" where
  "path_tokens lits [] = map TRune (runes lits)"
| "path_tokens lits (Lit c # ps) = path_tokens (lits @ [c]) ps"
| "path_tokens lits (NotSlash # ps) = map TRune (runes lits) @ TNotSlash # path_tokens [] ps"
| "path_tokens lits (NotSlashStar # ps) = map TRune (runes lits) @ TNotSlashStar # path_tokens [] ps"
| "path_tokens lits (AnyDirs # ps) = map TRune (runes lits) @ TAnyDirs # path_tokens [] ps"
| "path_tokens lits (AnyRunes # ps) = map TRune (runes lits) @ TAnyRunes # path_tokens [] ps"
| "path_tokens lits (Class s # ps) = path_tokens lits ps"

abbreviation rune_slash :: nat where "rune_slash \<equiv> 0x2F"
abbreviation rune_lf :: nat where "rune_lf \<equiv> 0x0A"

text \<open>\<open>matches_to ts dir v\<close>: the tokens match a beginning of \<open>v\<close> whose rest is \<open>$\<close> or \<open>(?:/.*)$\<close>.\<close>

fun matches_to :: "path_token list \<Rightarrow> bool \<Rightarrow> nat list \<Rightarrow> bool" where
  "matches_to [] dir v = (if dir then v \<noteq> [] \<and> hd v = rune_slash \<and> rune_lf \<notin> set (tl v) else v = [])"
| "matches_to (TRune r # ts) dir v = (case v of [] \<Rightarrow> False | x # w \<Rightarrow> x = r \<and> matches_to ts dir w)"
| "matches_to (TNotSlash # ts) dir v = (case v of [] \<Rightarrow> False | x # w \<Rightarrow> x \<noteq> rune_slash \<and> matches_to ts dir w)"
| "matches_to (TNotSlashStar # ts) dir v =
     list_ex (\<lambda>n. rune_slash \<notin> set (take n v) \<and> matches_to ts dir (drop n v)) [0..<length v + 1]"
| "matches_to (TAnyDirs # ts) dir v =
     (matches_to ts dir v \<or>
      list_ex (\<lambda>n. v ! n = rune_slash \<and> rune_lf \<notin> set (take n v) \<and> matches_to ts dir (drop (n + 1) v)) [0..<length v])"
| "matches_to (TAnyRunes # ts) dir v =
     list_ex (\<lambda>n. rune_lf \<notin> set (take n v) \<and> matches_to ts dir (drop n v)) [0..<length v + 1]"

text \<open>\<open>^\<close>, or \<open>(?:^|.*/)\<close> anywhere: the match starts at the front or behind a slash.\<close>

definition search :: "bool \<Rightarrow> bool \<Rightarrow> path_token list \<Rightarrow> nat list \<Rightarrow> bool" where
  "search anchored dir ts v =
     (if anchored then matches_to ts dir v
      else list_ex (\<lambda>n. (n = 0 \<or> v ! (n - 1) = rune_slash) \<and> matches_to ts dir (drop n v)) [0..<length v + 1])"

type_synonym regexp_compile = "go_string \<Rightarrow> (go_string \<Rightarrow> bool) option"

definition has_class :: "piece list \<Rightarrow> bool" where
  "has_class ps \<longleftrightarrow> list_ex (\<lambda>p. case p of Class _ \<Rightarrow> True | _ \<Rightarrow> False) ps"

definition expression :: "bool \<Rightarrow> bool \<Rightarrow> piece list \<Rightarrow> go_string" where
  "expression anchored dir ps =
     (if anchored then ''^'' else ''(?:^|.*/)'') @ concat (map piece_text ps) @ (if dir then ''(?:/.*)$'' else ''$'')"

text \<open>\<open>regexp.Compile\<close>; an expression must be valid UTF-8.\<close>

definition compile_regexp :: "regexp_compile \<Rightarrow> bool \<Rightarrow> bool \<Rightarrow> piece list \<Rightarrow> (go_string \<Rightarrow> bool) option" where
  "compile_regexp other anchored dir ps =
     (if has_class ps then other (expression anchored dir ps)
      else if valid_utf8 (expression anchored dir ps) then Some (\<lambda>s. search anchored dir (path_tokens [] ps) (runes s))
      else None)"

section \<open>Rules\<close>

record path_rule =
  pr_negative :: bool
  pr_regexp :: "go_string \<Rightarrow> bool"

fun trailing_backslashes :: "go_string \<Rightarrow> nat" where
  "trailing_backslashes s = length (takeWhile (\<lambda>c. c = BACKSLASH) (rev s))"

definition hasUnescapedSuffix :: "go_string \<Rightarrow> char \<Rightarrow> bool" where
  "hasUnescapedSuffix value c \<longleftrightarrow> value \<noteq> [] \<and> last value = c \<and> trailing_backslashes (butlast value) mod 2 = 0"

definition compileRule :: "regexp_compile \<Rightarrow> go_string \<Rightarrow> glob_error + path_rule" where
  "compileRule other pattern0 =
     (if pattern0 = [] then Inl ErrEmptyPattern
      else
        let negative = (hd pattern0 = CHR ''!'');
            pattern1 = (if negative then tl pattern0 else pattern0)
        in if pattern1 = [] then Inl ErrEmptyPattern
           else
             let anchored = (hd pattern1 = CHR ''/'');
                 pattern2 = (if anchored then tl pattern1 else pattern1);
                 directoryOnly = hasUnescapedSuffix pattern2 (CHR ''/'');
                 pattern = (if directoryOnly then butlast pattern2 else pattern2)
             in if pattern = [] then Inl ErrEmptyPattern
                else
                  (case globRegexp pattern of
                     Inl e \<Rightarrow> Inl e
                   | Inr ps \<Rightarrow>
                       (case compile_regexp other anchored directoryOnly ps of
                          None \<Rightarrow> Inl ErrRegexp
                        | Some f \<Rightarrow> Inr \<lparr>pr_negative = negative, pr_regexp = f\<rparr>)))"

record path_matcher =
  pm_patterns :: "go_string list"
  pm_rules :: "path_rule list"

fun compile_all :: "regexp_compile \<Rightarrow> go_string list \<Rightarrow> path_rule list \<times> (go_string \<times> glob_error) list" where
  "compile_all other [] = ([], [])"
| "compile_all other (pattern # rest) =
     (let (rules, errors) = compile_all other rest
      in case compileRule other pattern of Inl e \<Rightarrow> (rules, (pattern, e) # errors) | Inr r \<Rightarrow> (r # rules, errors))"

text \<open>Each error with its pattern, as the message has it.\<close>

definition CompileGlobs :: "regexp_compile \<Rightarrow> go_string list \<Rightarrow> path_matcher \<times> (go_string \<times> glob_error) list" where
  "CompileGlobs other patterns =
     (let (rules, errors) = compile_all other patterns in (\<lparr>pm_patterns = patterns, pm_rules = rules\<rparr>, errors))"

definition CompileOne :: "regexp_compile \<Rightarrow> go_string \<Rightarrow> (go_string \<times> glob_error) + path_matcher" where
  "CompileOne other pattern =
     (case CompileGlobs other [pattern] of (m, []) \<Rightarrow> Inr m | (m, e # _) \<Rightarrow> Inl e)"

definition root_relative :: "go_string \<Rightarrow> go_string" where
  "root_relative relPath = trim_prefix (trim_prefix relPath ''./'') ''/''"

definition MatchPath :: "path_matcher \<Rightarrow> go_string \<Rightarrow> bool" where
  "MatchPath m relPath =
     foldl (\<lambda>matched r. if pr_regexp r (root_relative relPath) then \<not> pr_negative r else matched) False (pm_rules m)"

fun split_commas :: "go_string \<Rightarrow> go_string \<Rightarrow> go_string list" where
  "split_commas part [] = [part]"
| "split_commas part (c # s) = (if c = CHR '','' then part # split_commas [] s else split_commas (part @ [c]) s)"

definition SplitList :: "go_string \<Rightarrow> go_string list" where
  "SplitList value = filter (\<lambda>p. p \<noteq> []) (map trim_space (split_commas [] value))"

section \<open>Patterns of one segment\<close>

text \<open>Without a slash, a class, a brace or two stars in a row a pattern speaks of the last segment of the path.\<close>

definition plain_char :: "char \<Rightarrow> bool" where
  "plain_char c \<longleftrightarrow> byte c < 0x80 \<and> c \<notin> {CHR ''/'', CHR ''['', CHR ''{'', CHR ''}''}"

definition one_segment :: "go_string \<Rightarrow> bool" where
  "one_segment p \<longleftrightarrow> p \<noteq> [] \<and> hd p \<noteq> CHR ''!'' \<and> list_all plain_char p \<and> \<not> sublist ''**'' p"

definition last_segment :: "nat list \<Rightarrow> nat list" where
  "last_segment v = rev (takeWhile (\<lambda>r. r \<noteq> rune_slash) (rev v))"

fun simple_pieces :: "go_string \<Rightarrow> piece list" where
  "simple_pieces [] = []"
| "simple_pieces [c] = [if c = CHR ''?'' then NotSlash else if c = CHR ''*'' then NotSlashStar else Lit c]"
| "simple_pieces (c # d # p) =
     (if c = BACKSLASH then Lit d # simple_pieces p
      else (if c = CHR ''?'' then NotSlash else if c = CHR ''*'' then NotSlashStar else Lit c) # simple_pieces (d # p))"

lemma globRegexp_simple:
  "list_all plain_char p \<Longrightarrow> \<not> sublist ''**'' p \<Longrightarrow> globRegexp p = Inr (simple_pieces p)"
proof (induction p rule: simple_pieces.induct)
  case 1
  then show ?case by (simp add: globRegexp.simps)
next
  case (2 c)
  then show ?case
    by (subst globRegexp.simps) (auto simp: appendGlobToken_def appendEscapedGlobToken_def appendStarGlobToken_def plain_char_def globRegexp.simps [of "[]"])
next
  case (3 c d p)
  have ds: "d \<noteq> CHR ''*'' \<or> c \<noteq> CHR ''*''" using "3.prems"(2) by (auto simp: sublist_Cons_right)
  have "\<not> sublist ''**'' (d # p)" "\<not> sublist ''**'' p" using "3.prems"(2) by (auto simp: sublist_Cons_right)
  then have IH: "c = BACKSLASH \<Longrightarrow> globRegexp p = Inr (simple_pieces p)" "c \<noteq> BACKSLASH \<Longrightarrow> globRegexp (d # p) = Inr (simple_pieces (d # p))"
    using "3.IH" "3.prems"(1) by simp_all
  show ?case
  proof (cases "c = BACKSLASH")
    case True
    then show ?thesis using IH(1) by (simp add: globRegexp.simps [of "BACKSLASH # d # p"] appendGlobToken_def appendEscapedGlobToken_def)
  next
    case False
    have c: "c \<notin> {CHR ''['', CHR ''{'', CHR ''}''}" using "3.prems"(1) by (simp add: plain_char_def)
    have "appendGlobToken c (d # p) = Inr (if c = CHR ''?'' then NotSlash else if c = CHR ''*'' then NotSlashStar else Lit c, d # p)"
      using ds c False unfolding appendGlobToken_def appendStarGlobToken_def by (cases "c = CHR ''*''") simp_all
    then show ?thesis using IH(2) False by (simp add: globRegexp.simps [of "c # d # p"])
  qed
qed

fun rune_token :: "piece \<Rightarrow> path_token" where
  "rune_token (Lit c) = TRune (byte c)"
| "rune_token NotSlash = TNotSlash"
| "rune_token _ = TNotSlashStar"

fun string_token :: "piece \<Rightarrow> glob_token" where
  "string_token (Lit c) = GLit (byte c)"
| "string_token NotSlash = GAny"
| "string_token _ = GStar"

definition simple :: "piece \<Rightarrow> bool" where
  "simple p \<longleftrightarrow> p = NotSlash \<or> p = NotSlashStar \<or> (\<exists>c. p = Lit c \<and> plain_char c)"

lemma simple_pieces_simple: "list_all plain_char p \<Longrightarrow> list_all simple (simple_pieces p)"
  by (induction p rule: simple_pieces.induct) (auto simp: simple_def)

lemma runes_plain: "list_all plain_char p \<Longrightarrow> runes p = map byte p"
  by (induction p) (simp_all add: runes_ascii plain_char_def, simp add: runes_def)

lemma tokens_simple: "list_all plain_char p \<Longrightarrow> tokens (map byte p) = map string_token (simple_pieces p)"
proof (induction p rule: simple_pieces.induct)
  case (3 c d p)
  have b: "byte c = 0x5C \<longleftrightarrow> c = BACKSLASH" "byte c = 0x3F \<longleftrightarrow> c = CHR ''?''" "byte c = 0x2A \<longleftrightarrow> c = CHR ''*''" for c
    using byte_inject [of c BACKSLASH] byte_inject [of c "CHR ''?''"] byte_inject [of c "CHR ''*''"] by (simp_all add: byte_def)
  show ?case using 3 by (simp add: b)
next
  case (2 c)
  have b: "byte c = 0x3F \<longleftrightarrow> c = CHR ''?''" "byte c = 0x2A \<longleftrightarrow> c = CHR ''*''"
    using byte_inject [of c "CHR ''?''"] byte_inject [of c "CHR ''*''"] by (simp_all add: byte_def)
  show ?case by (simp add: b)
qed simp

lemma path_tokens_simple:
  "list_all simple ps \<Longrightarrow> list_all plain_char lits \<Longrightarrow> path_tokens lits ps = map TRune (map byte lits) @ map rune_token ps"
proof (induction ps arbitrary: lits)
  case (Cons q ps)
  then show ?case by (auto simp: simple_def runes_plain)
qed (simp add: runes_plain)

lemma list_ex_upto: "list_ex P [0..<n + 1] \<longleftrightarrow> (\<exists>i \<le> n. P i)"
  by (simp only: list_ex_iff set_upt) (auto simp: less_Suc_eq_le)

lemma matches_simple:
  "list_all simple ps \<Longrightarrow> matches_to (map rune_token ps) False v \<longleftrightarrow> rune_slash \<notin> set v \<and> glob (map string_token ps) v"
proof (induction ps arbitrary: v)
  case (Cons q ps)
  have slash: "plain_char c \<Longrightarrow> byte c \<noteq> rune_slash" for c
    using byte_inject [of c "CHR ''/''"] by (auto simp: plain_char_def byte_def)
  consider "q = NotSlash" | "q = NotSlashStar" | c where "q = Lit c" "plain_char c" using Cons.prems by (auto simp: simple_def)
  then show ?case
  proof cases
    case 2
    have "rune_slash \<notin> set v \<longleftrightarrow> rune_slash \<notin> set (take n v) \<and> rune_slash \<notin> set (drop n v)" for n
      by (metis Un_iff append_take_drop_id set_append)
    then have "rune_slash \<notin> set v \<and> (\<exists>i \<le> length v. glob (map string_token ps) (drop i v)) \<longleftrightarrow>
        (\<exists>i \<le> length v. rune_slash \<notin> set (take i v) \<and> rune_slash \<notin> set (drop i v) \<and> glob (map string_token ps) (drop i v))" by blast
    moreover have "matches_to (TNotSlashStar # map rune_token ps) False v \<longleftrightarrow>
        (\<exists>i \<le> length v. rune_slash \<notin> set (take i v) \<and> matches_to (map rune_token ps) False (drop i v))"
      by (simp only: matches_to.simps list_ex_upto)
    moreover have "matches_to (map rune_token ps) False w \<longleftrightarrow> rune_slash \<notin> set w \<and> glob (map string_token ps) w" for w
      using Cons by simp
    ultimately show ?thesis using 2 by simp
  qed (use Cons slash in \<open>auto split: list.splits\<close>)
qed auto

lemma last_segment_unique:
  "n \<le> length v \<Longrightarrow> (n = 0 \<or> v ! (n - 1) = rune_slash) \<and> rune_slash \<notin> set (drop n v) \<longleftrightarrow> n = length v - length (last_segment v)"
proof -
  assume n: "n \<le> length v"
  have split: "v = rev (dropWhile (\<lambda>r. r \<noteq> rune_slash) (rev v)) @ last_segment v"
    unfolding last_segment_def rev_append [symmetric] takeWhile_dropWhile_id by simp
  define a where "a = rev (dropWhile (\<lambda>r. r \<noteq> rune_slash) (rev v))"
  have v: "v = a @ last_segment v" using split by (simp add: a_def)
  have a: "a = [] \<or> last a = rune_slash"
    using hd_dropWhile [of "\<lambda>r. r \<noteq> rune_slash" "rev v"] by (auto simp: a_def last_rev)
  have l: "rune_slash \<notin> set (last_segment v)" by (auto simp: last_segment_def dest: set_takeWhileD)
  have la: "length a = length v - length (last_segment v)" using arg_cong [OF v, of length] by simp
  show ?thesis
  proof
    assume h: "(n = 0 \<or> v ! (n - 1) = rune_slash) \<and> rune_slash \<notin> set (drop n v)"
    have "\<not> n < length a"
    proof
      assume "n < length a"
      then have "last a \<in> set (drop n a)" "a \<noteq> []" by (auto simp: last_drop [symmetric] simp del: last_drop)
      moreover have "drop n v = drop n a @ last_segment v" using v \<open>n < length a\<close> by (metis drop_append diff_is_0_eq drop0 less_imp_le)
      ultimately show False using a h by auto
    qed
    moreover have "\<not> length a < n"
    proof
      assume g: "length a < n"
      then have "(a @ last_segment v) ! (n - 1) = last_segment v ! (n - 1 - length a)" by (auto simp: nth_append)
      then have "v ! (n - 1) = last_segment v ! (n - 1 - length a)" using v by simp
      then have "v ! (n - 1) \<in> set (last_segment v)" using n la g by auto
      then show False using h l g by auto
    qed
    ultimately show "n = length v - length (last_segment v)" using la by simp
  next
    assume "n = length v - length (last_segment v)"
    then have na: "n = length a" using la by simp
    have "drop n v = last_segment v" using v na by (metis append_eq_conv_conj)
    moreover have "v ! (n - 1) = last a" if "a \<noteq> []"
    proof -
      have "(a @ last_segment v) ! (n - 1) = last a" using na that by (simp add: nth_append last_conv_nth)
      then show ?thesis using v by simp
    qed
    ultimately show "(n = 0 \<or> v ! (n - 1) = rune_slash) \<and> rune_slash \<notin> set (drop n v)" using l a na by (metis list.size(3))
  qed
qed

lemma length_last_segment: "length (last_segment v) \<le> length v"
  by (simp add: last_segment_def) (metis length_rev length_takeWhile_le)

lemma drop_last_segment: "drop (length v - length (last_segment v)) v = last_segment v"
proof -
  have "v = rev (dropWhile (\<lambda>r. r \<noteq> rune_slash) (rev v)) @ last_segment v"
    unfolding last_segment_def rev_append [symmetric] takeWhile_dropWhile_id by simp
  then show ?thesis by (metis append_eq_conv_conj diff_add_inverse2 length_append)
qed

lemma search_simple:
  assumes "list_all simple ps"
  shows "search False False (map rune_token ps) v \<longleftrightarrow> glob (map string_token ps) (last_segment v)"
proof -
  have "search False False (map rune_token ps) v \<longleftrightarrow>
      (\<exists>n \<le> length v. (n = 0 \<or> v ! (n - 1) = rune_slash) \<and> rune_slash \<notin> set (drop n v) \<and> glob (map string_token ps) (drop n v))"
    by (simp only: search_def list_ex_upto matches_simple [OF assms] if_False)
  also have "\<dots> \<longleftrightarrow> (\<exists>n \<le> length v. n = length v - length (last_segment v) \<and> glob (map string_token ps) (drop n v))"
    using last_segment_unique by metis
  also have "\<dots> \<longleftrightarrow> glob (map string_token ps) (last_segment v)"
    using drop_last_segment [of v] by (metis diff_le_self)
  finally show ?thesis .
qed

lemma valid_ascii: "list_all (\<lambda>c. byte c < 0x80) s \<Longrightarrow> valid_utf8 s"
proof (induction s)
  case (Cons c s)
  have "runes_w (c # s) = (byte c, 1) # runes_w s" using Cons.prems by (subst runes_w.simps) (simp add: decode_ascii)
  then show ?case using Cons by (simp add: valid_utf8_def RuneError_def)
qed (simp add: valid_utf8_def)

lemma quote_ascii: "byte c < 0x80 \<Longrightarrow> list_all (\<lambda>c. byte c < 0x80) (quote_meta c)"
  by (simp add: quote_meta_def byte_def)

lemma compile_simple:
  assumes "list_all simple ps"
  shows "compile_regexp other False False ps = Some (\<lambda>s. search False False (path_tokens [] ps) (runes s))"
proof -
  have "list_all (\<lambda>c. byte c < 0x80) (piece_text q)" if "simple q" for q
    using that quote_ascii by (auto simp: simple_def plain_char_def byte_def)
  then have "list_all (\<lambda>c. byte c < 0x80) (concat (map piece_text ps))" using assms by (induction ps) auto
  then have "valid_utf8 (expression False False ps)" by (intro valid_ascii) (simp add: expression_def byte_def)
  moreover have "\<not> has_class ps" using assms by (induction ps) (auto simp: has_class_def simple_def)
  ultimately show ?thesis by (simp add: compile_regexp_def)
qed



end
