(* ===== verification/Walk_Ignore.thy ===== *)
theory Walk_Ignore
  imports Path_Rules Workspace_Root
begin

text \<open>
  Ignore files of \<open>codingtools/internal/walk/gitignore.go\<close>: reading the rules of a file, and deciding a path with
  them. The directory tree below the walked root is a value; a walk sees one state of it.
\<close>

section \<open>The directory tree\<close>

text \<open>The type bits of a mode are the constructors here; \<open>fi_Mode\<close> is the whole value.\<close>

record file_info =
  fi_Size :: int
  fi_ModTime :: int
  fi_Mode :: nat

datatype leaf_kind = RegularFile | SymbolicLink | OtherFile

text \<open>
  A leaf has the answer of \<open>Lstat\<close> and that of opening and reading it: the bytes read and the error that ended the
  reading before the end of the file, if any. A directory has the answer of \<open>Lstat\<close>, the error of \<open>ReadDir\<close>, the
  error of looking up a name that is not there, and its entries.
\<close>

datatype node =
  Leaf leaf_kind "os_error + file_info" "os_error + go_string \<times> os_error option"
| Directory "os_error + file_info" "os_error option" os_error "(go_string \<times> node) list"

fun node_info :: "node \<Rightarrow> os_error + file_info" where
  "node_info (Leaf k info content) = info"
| "node_info (Directory info listing absent entries) = info"

fun is_directory :: "node \<Rightarrow> bool" where
  "is_directory (Leaf k info content) = False"
| "is_directory (Directory info listing absent entries) = True"

fun is_symlink :: "node \<Rightarrow> bool" where
  "is_symlink (Leaf k info content) = (k = SymbolicLink)"
| "is_symlink (Directory info listing absent entries) = False"

section \<open>Reading lines\<close>

text \<open>
  \<open>bufio.Scanner\<close> with the buffer limit of the code: the lines without their ends, of which the last may be
  unterminated, and whether a line did not fit. A line that fills the buffer ends the scan.
\<close>

abbreviation max_line :: nat where "max_line \<equiv> 1048576"

definition drop_cr :: "go_string \<Rightarrow> go_string" where
  "drop_cr line = trim_suffix line [CR]"

definition scanned_lines :: "go_string \<Rightarrow> go_string list \<times> bool" where
  "scanned_lines content =
     (let pieces = split_on LF content;
          lines = (if last pieces = [] then butlast pieces else pieces);
          fitting = takeWhile (\<lambda>l. length l < max_line) lines
      in (map drop_cr fitting, length fitting < length lines))"

section \<open>Rules\<close>

record ignore_rule =
  ir_base :: go_string
  ir_matcher :: path_matcher
  ir_negated :: bool

datatype ignore_problem = InvalidPattern "go_string \<times> glob_error" | LineTooLong | ReadFailed os_error | SymlinkOnPath go_string
  | NotADirectoryOnPath go_string | NotRegular go_string

text \<open>A warning: the displayed path, the line, and the problem its code and message speak of.\<close>

type_synonym ignore_warning = "go_string \<times> nat \<times> ignore_problem"

fun hasNonTrailingPathSeparator :: "go_string \<Rightarrow> bool" where
  "hasNonTrailingPathSeparator [] = False"
| "hasNonTrailingPathSeparator [c] = False"
| "hasNonTrailingPathSeparator (c # d # s) =
     (if c = BACKSLASH then d = SLASH \<or> hasNonTrailingPathSeparator s
      else c = SLASH \<or> hasNonTrailingPathSeparator (d # s))"

text \<open>What a line says: nothing, or whether it is negated and its pattern.\<close>

definition ignore_line :: "go_string \<Rightarrow> (bool \<times> go_string) option" where
  "ignore_line text =
     (let line = trim_suffix text [CR]
      in if trim_space line = [] \<or> prefix ''#'' (trim_left line ('' '' @ [TAB])) then None
         else let negated = prefix ''!'' line;
                  pattern = (if negated then tl line else line)
              in Some (negated, if \<not> prefix ''/'' pattern \<and> hasNonTrailingPathSeparator pattern then SLASH # pattern else pattern))"

fun ignore_lines :: "regexp_compile \<Rightarrow> go_string \<Rightarrow> go_string \<Rightarrow> nat \<Rightarrow> go_string list \<Rightarrow> ignore_rule list \<times> ignore_warning list" where
  "ignore_lines other source base n [] = ([], [])"
| "ignore_lines other source base n (line # rest) =
     (let (rules, warnings) = ignore_lines other source base (n + 1) rest
      in case ignore_line line of
           None \<Rightarrow> (rules, warnings)
         | Some (negated, pattern) \<Rightarrow>
             (case CompileOne other pattern of
                Inl e \<Rightarrow> (rules, (source, n + 1, InvalidPattern e) # warnings)
              | Inr m \<Rightarrow> (\<lparr>ir_base = base, ir_matcher = m, ir_negated = negated\<rparr> # rules, warnings)))"

definition parseIgnore ::
  "regexp_compile \<Rightarrow> go_string \<times> os_error option \<Rightarrow> go_string \<Rightarrow> go_string \<Rightarrow> ignore_rule list \<times> ignore_warning list" where
  "parseIgnore other reader source base =
     (let (content, failure) = reader;
          (lines, too_long) = scanned_lines content;
          (rules, warnings) = ignore_lines other source base 0 lines
      in (rules, warnings @
           (if too_long then [(source, length lines + 1, LineTooLong)]
            else case failure of None \<Rightarrow> [] | Some e \<Rightarrow> [(source, length lines + 1, ReadFailed e)])))"

section \<open>Opening\<close>

text \<open>The loop of \<open>validateIgnorePath\<close>: \<open>Lstat\<close> of every component from the root down, and the opened file.\<close>

fun open_below :: "node \<Rightarrow> go_string \<Rightarrow> go_string list \<Rightarrow> (ignore_problem + go_string \<times> os_error option)" where
  "open_below d current [] = Inl (ReadFailed OtherFailure)"
| "open_below (Leaf k info content) current (c # cs) = Inl (ReadFailed OtherFailure)"
| "open_below (Directory info listing absent entries) current (c # cs) =
     (let path = path_join [current, c]
      in case map_of entries c of
           None \<Rightarrow> Inl (ReadFailed absent)
         | Some n \<Rightarrow>
             (case node_info n of
                Inl e \<Rightarrow> Inl (ReadFailed e)
              | Inr _ \<Rightarrow>
                  if is_symlink n then Inl (SymlinkOnPath path)
                  else if cs \<noteq> [] then (if is_directory n then open_below n path cs else Inl (NotADirectoryOnPath path))
                  else (case n of
                          Leaf RegularFile _ content \<Rightarrow> (case content of Inl e \<Rightarrow> Inl (ReadFailed e) | Inr r \<Rightarrow> Inr r)
                        | _ \<Rightarrow> Inl (NotRegular path))))"

text \<open>\<open>openable\<close> is the answer of \<open>os.OpenRoot\<close>.\<close>

definition relative_path :: "go_string \<Rightarrow> go_string \<Rightarrow> go_string" where
  "relative_path root path = (case Rel root path of None \<Rightarrow> [] | Some relative \<Rightarrow> relative)"

definition openRegularFileWithoutSymlinks ::
  "os_error option \<Rightarrow> node \<Rightarrow> go_string \<Rightarrow> go_string \<Rightarrow> ignore_problem + go_string \<times> os_error option" where
  "openRegularFileWithoutSymlinks openable tree root path =
     (case openable of
        Some e \<Rightarrow> Inl (ReadFailed e)
      | None \<Rightarrow> open_below tree [] (split_on SLASH (relative_path root path)))"

definition loadIgnoreFile ::
  "regexp_compile \<Rightarrow> os_error option \<Rightarrow> node \<Rightarrow> go_string \<Rightarrow> go_string \<Rightarrow> go_string \<Rightarrow> go_string \<Rightarrow>
   ignore_rule list \<times> ignore_warning list" where
  "loadIgnoreFile other openable tree root path displayPath base =
     (case openRegularFileWithoutSymlinks openable tree root path of
        Inl e \<Rightarrow> ([], if e = ReadFailed NotExist then [] else [(displayPath, 0, e)])
      | Inr reader \<Rightarrow> parseIgnore other reader displayPath base)"

section \<open>Deciding a path\<close>

definition matchPath :: "path_matcher \<Rightarrow> go_string \<Rightarrow> bool \<Rightarrow> bool" where
  "matchPath m relPath isDir \<longleftrightarrow> MatchPath m relPath \<or> isDir \<and> MatchPath m (trim_suffix relPath ''/'' @ ''/'')"

definition relativeToRuleBase :: "go_string \<Rightarrow> go_string \<Rightarrow> go_string option" where
  "relativeToRuleBase relPath base =
     (if base = ''.'' \<or> base = [] then Some relPath
      else if \<not> prefix (base @ ''/'') relPath then None
      else Some (trim_prefix relPath (base @ ''/'')))"

fun ignored_from :: "bool \<Rightarrow> ignore_rule list \<Rightarrow> go_string \<Rightarrow> bool \<Rightarrow> bool" where
  "ignored_from ignored [] relPath isDir = ignored"
| "ignored_from ignored (r # rules) relPath isDir =
     (case relativeToRuleBase relPath (ir_base r) of
        None \<Rightarrow> ignored_from ignored rules relPath isDir
      | Some path \<Rightarrow>
          if \<not> matchPath (ir_matcher r) path isDir then ignored_from ignored rules relPath isDir
          else ignored_from (\<not> ir_negated r) rules relPath isDir)"

definition ignoredBy :: "ignore_rule list \<Rightarrow> go_string \<Rightarrow> bool \<Rightarrow> bool" where
  "ignoredBy rules relPath isDir = ignored_from False rules relPath isDir"

text \<open>The last rule that applies to a path decides it.\<close>

definition applies :: "go_string \<Rightarrow> bool \<Rightarrow> ignore_rule \<Rightarrow> bool" where
  "applies relPath isDir r \<longleftrightarrow>
     (case relativeToRuleBase relPath (ir_base r) of None \<Rightarrow> False | Some path \<Rightarrow> matchPath (ir_matcher r) path isDir)"

lemma ignored_from_last:
  "ignored_from b rules p d \<longleftrightarrow>
     (let hits = filter (applies p d) rules in if hits = [] then b else \<not> ir_negated (last hits))"
proof (induction rules arbitrary: b)
  case (Cons r rules)
  then show ?case by (auto simp: applies_def Let_def split: option.splits)
qed simp

lemma ignoredBy_last: "ignoredBy rules p d \<longleftrightarrow> (\<exists>r. filter (applies p d) rules \<noteq> [] \<and> r = last (filter (applies p d) rules) \<and> \<not> ir_negated r)"
  by (simp add: ignoredBy_def ignored_from_last Let_def)

end
