(* ===== verification/Walk_Tree.thy ===== *)
theory Walk_Tree
  imports Walk_Ignore
begin

text \<open>
  The traversal of \<open>codingtools/internal/walk/walk.go\<close> over a directory tree, with \<open>filepath.WalkDir\<close> of the
  standard library, and the listing it reports.
\<close>

section \<open>State\<close>

datatype 'e walk_error =
  InvalidWalk | InvalidGlobs "(go_string \<times> glob_error) list" | SkipDir | SkipAll | WalkTruncated | Cancelled
| Failed os_error | CallbackFailed 'e

record Entry =
  en_Path :: go_string
  en_IsDir :: bool
  en_IsSymlink :: bool
  en_Size :: int
  en_ModTime :: int
  en_Mode :: nat

text \<open>The walked root: the directory name and what \<open>os.OpenRoot\<close> and the traversal find there.\<close>

record walk_root =
  wr_Dir :: go_string
  wr_Openable :: "os_error option"
  wr_Tree :: node

record Filter =
  wf_Root :: "walk_root option"
  wf_IncludeGlobs :: "go_string list"
  wf_ExcludeGlobs :: "go_string list"
  wf_SkipHidden :: bool
  wf_SkipVCS :: bool
  wf_RespectGitignore :: bool
  wf_MaxDepth :: int
  wf_MaxVisited :: int
  wf_MaxResults :: int

type_synonym ('c, 'e) callback = "Entry \<Rightarrow> 'c \<Rightarrow> 'c \<times> 'e walk_error option"

text \<open>What the walk does not change.\<close>

record ('c, 'e) walk_config =
  wc_filter :: Filter
  wc_callback :: "('c, 'e) callback"
  wc_root :: walk_root
  wc_include :: path_matcher
  wc_exclude :: path_matcher
  wc_maxVisited :: int
  wc_maxResults :: int
  wc_other :: regexp_compile

text \<open>
  What it changes: the counters, the rules by directory and the warnings. A context that is never cancelled is
  \<open>None\<close>; \<open>Some n\<close> is cancelled behind the next \<open>n\<close> inquiries. The state of the caller, which the callback changes,
  is \<open>wk_client\<close>.
\<close>

type_synonym walk_context = "nat option"

record 'c walk_core =
  wk_visited :: int
  wk_results :: int
  wk_ctx :: walk_context
  wk_client :: 'c

record 'c walk_state = "'c walk_core" +
  ws_rules :: "go_string \<rightharpoonup> ignore_rule list"
  ws_warnings :: "ignore_warning list"

definition ctx_err :: "('c, 'z) walk_core_scheme \<Rightarrow> ('c, 'z) walk_core_scheme \<times> bool" where
  "ctx_err st =
     (case wk_ctx st of
        None \<Rightarrow> (st, False)
      | Some 0 \<Rightarrow> (st, True)
      | Some (Suc n) \<Rightarrow> (st\<lparr>wk_ctx := Some n\<rparr>, False))"

section \<open>One visit\<close>

definition defaultedLimit :: "int \<Rightarrow> int \<Rightarrow> int" where
  "defaultedLimit value fallback = (if value = 0 then fallback else value)"

definition stop :: "('c, 'e) walk_config \<Rightarrow> ('c, 'z) walk_core_scheme \<Rightarrow> 'e walk_error option \<Rightarrow> ('c, 'z) walk_core_scheme \<times> 'e walk_error option" where
  "stop cfg st next =
     (let (st, cancelled) = ctx_err st
      in (st, if cancelled then Some Cancelled
              else if wc_maxVisited cfg > 0 \<and> wk_visited st \<ge> wc_maxVisited cfg then Some WalkTruncated
              else next))"

definition rules_of :: "'c walk_state \<Rightarrow> go_string \<Rightarrow> ignore_rule list" where
  "rules_of st dir = (case ws_rules st dir of None \<Rightarrow> [] | Some rules \<Rightarrow> rules)"

definition load_rules :: "('c, 'e) walk_config \<Rightarrow> go_string \<Rightarrow> go_string \<Rightarrow> go_string \<Rightarrow> ignore_rule list \<times> ignore_warning list" where
  "load_rules cfg path display base =
     loadIgnoreFile (wc_other cfg) (wr_Openable (wc_root cfg)) (wr_Tree (wc_root cfg)) (wr_Dir (wc_root cfg)) path display base"

definition visitRoot :: "('c, 'e) walk_config \<Rightarrow> 'c walk_state \<Rightarrow> 'c walk_state \<times> 'e walk_error option" where
  "visitRoot cfg st =
     (let root = wr_Dir (wc_root cfg);
          st = (if \<not> wf_RespectGitignore (wc_filter cfg) then st
                else let (rules, ws) = load_rules cfg (path_join [root, ''.git'', ''info'', ''exclude'']) ''.git/info/exclude'' ''.'';
                         (more, ws') = load_rules cfg (path_join [root, ''.gitignore'']) ''.gitignore'' ''.''
                     in st\<lparr>ws_rules := (ws_rules st)(root \<mapsto> rules @ more), ws_warnings := ws_warnings st @ ws @ ws'\<rparr>)
      in stop cfg st (if wf_MaxDepth (wc_filter cfg) = 0 then Some SkipDir else None))"

definition skipDirectory :: "bool \<Rightarrow> 'e walk_error option" where
  "skipDirectory directory = (if directory then Some SkipDir else None)"

text \<open>\<open>Some action\<close> leaves the entry out.\<close>

definition filterEntry ::
  "('c, 'e) walk_config \<Rightarrow> 'c walk_state \<Rightarrow> go_string \<Rightarrow> go_string \<Rightarrow> go_string \<Rightarrow> bool \<Rightarrow> 'c walk_state \<times> 'e walk_error option option" where
  "filterEntry cfg st path relative name directory =
     (let flt = wc_filter cfg; parentRules = rules_of st (path_dir path)
      in if name = ''.git'' \<or> wf_SkipVCS flt \<and> (name = ''.hg'' \<or> name = ''.svn'') then (st, Some (skipDirectory directory))
         else if wf_SkipHidden flt \<and> prefix ''.'' name then (st, Some (skipDirectory directory))
         else if wf_RespectGitignore flt \<and> ignoredBy parentRules relative directory then (st, Some (skipDirectory directory))
         else if matchPath (wc_exclude cfg) relative directory then (st, Some (skipDirectory directory))
         else if directory \<and> wf_RespectGitignore flt then
           let ignorePath = path_join [path, ''.gitignore''];
               (rules, ws) = load_rules cfg ignorePath (relative_path (wr_Dir (wc_root cfg)) ignorePath) relative
           in (st\<lparr>ws_rules := (ws_rules st)(path \<mapsto> parentRules @ rules), ws_warnings := ws_warnings st @ ws\<rparr>, None)
         else (st, None))"

definition entry_of :: "go_string \<Rightarrow> node \<Rightarrow> file_info \<Rightarrow> Entry" where
  "entry_of relative n info =
     \<lparr>en_Path = relative, en_IsDir = is_directory n, en_IsSymlink = is_symlink n, en_Size = fi_Size info,
      en_ModTime = fi_ModTime info, en_Mode = fi_Mode info\<rparr>"

definition left_out :: "('c, 'e) walk_config \<Rightarrow> go_string \<Rightarrow> bool \<Rightarrow> bool" where
  "left_out cfg relative directory \<longleftrightarrow>
     \<not> directory \<and> wf_IncludeGlobs (wc_filter cfg) \<noteq> [] \<and> \<not> matchPath (wc_include cfg) relative False"

definition at_depth :: "('c, 'e) walk_config \<Rightarrow> go_string \<Rightarrow> bool" where
  "at_depth cfg relative \<longleftrightarrow>
     wf_MaxDepth (wc_filter cfg) \<ge> 0 \<and> int (count_byte relative SLASH) + 1 = wf_MaxDepth (wc_filter cfg)"

text \<open>\<open>emit\<close> from the callback on.\<close>

definition deliver :: "('c, 'e) walk_config \<Rightarrow> ('c, 'z) walk_core_scheme \<Rightarrow> Entry \<Rightarrow> 'e walk_error option \<Rightarrow> ('c, 'z) walk_core_scheme \<times> 'e walk_error option" where
  "deliver cfg st entry next =
     (let (client, err) = wc_callback cfg entry (wk_client st);
          st = st\<lparr>wk_client := client\<rparr>
      in case err of
           Some e \<Rightarrow> (st, Some e)
         | None \<Rightarrow>
             (let st = st\<lparr>wk_results := wk_results st + 1\<rparr>;
                  (st, cancelled) = ctx_err st
              in if cancelled then (st, Some Cancelled)
                 else if wc_maxResults cfg > 0 \<and> wk_results st \<ge> wc_maxResults cfg then (st, Some WalkTruncated)
                 else stop cfg st next))"

definition emit :: "('c, 'e) walk_config \<Rightarrow> 'c walk_state \<Rightarrow> go_string \<Rightarrow> node \<Rightarrow> 'c walk_state \<times> 'e walk_error option" where
  "emit cfg st relative n =
     (case node_info n of
        Inl e \<Rightarrow> (st, Some (Failed e))
      | Inr info \<Rightarrow>
          if left_out cfg relative (is_directory n) then stop cfg st None
          else deliver cfg st (entry_of relative n info)
                 (if is_directory n \<and> at_depth cfg relative then Some SkipDir else None))"

definition visit ::
  "('c, 'e) walk_config \<Rightarrow> 'c walk_state \<Rightarrow> go_string \<Rightarrow> go_string \<Rightarrow> node \<Rightarrow> 'e walk_error option \<Rightarrow> 'c walk_state \<times> 'e walk_error option" where
  "visit cfg st path name n walkErr =
     (let (st, cancelled) = ctx_err st
      in if cancelled then (st, Some Cancelled)
         else if walkErr \<noteq> None then (st, walkErr)
         else
           let st = st\<lparr>wk_visited := wk_visited st + 1\<rparr>;
               relative = Root_Rel (wr_Dir (wc_root cfg)) path
           in if relative = ''.'' then visitRoot cfg st
              else case filterEntry cfg st path relative name (is_directory n) of
                     (st, Some action) \<Rightarrow> stop cfg st action
                   | (st, None) \<Rightarrow> emit cfg st relative n)"

section \<open>The traversal\<close>

type_synonym walk_item = "go_string \<times> go_string \<times> node"

lemma size_children:
  "size_list (\<lambda>(_, _, n). size n) (map (\<lambda>(c, m). (f c, c, m)) entries) \<le> size_list (size_prod (\<lambda>_. 0) size) entries"
  by (induction entries) auto

text \<open>
  \<open>walkDir\<close> on the items of one directory in turn, each with its path and its name. \<open>SkipDir\<close> for a directory
  goes on behind it, for another entry it leaves the directory that contains it.
\<close>

function walk_items :: "('c, 'e) walk_config \<Rightarrow> 'c walk_state \<Rightarrow> walk_item list \<Rightarrow> 'c walk_state \<times> 'e walk_error option" where
  "walk_items cfg st [] = (st, None)"
| "walk_items cfg st ((path, name, n) # rest) =
     (case visit cfg st path name n None of
        (st, Some e) \<Rightarrow>
          if e = SkipDir then (if is_directory n then walk_items cfg st rest else (st, None)) else (st, Some e)
      | (st, None) \<Rightarrow>
          (case n of
             Leaf _ _ _ \<Rightarrow> walk_items cfg st rest
           | Directory info listing absent entries \<Rightarrow>
               (case (case listing of None \<Rightarrow> (st, None) | Some e \<Rightarrow> visit cfg st path name n (Some (Failed e))) of
                  (st, Some e) \<Rightarrow> if e = SkipDir then walk_items cfg st rest else (st, Some e)
                | (st, None) \<Rightarrow>
                    (case walk_items cfg st (map (\<lambda>(c, m). (path_join [path, c], c, m)) entries) of
                       (st, Some e) \<Rightarrow> (st, Some e)
                     | (st, None) \<Rightarrow> walk_items cfg st rest))))"
  by pat_completeness auto
termination
  by (relation "measure (\<lambda>(_, _, items). size_list (\<lambda>(_, _, n). size n) items)")
    (auto simp: less_Suc_eq_le intro!: le_SucI trans_le_add1 size_children [simplified])

definition compileGlobs :: "regexp_compile \<Rightarrow> go_string list \<Rightarrow> 'e walk_error + path_matcher" where
  "compileGlobs other patterns =
     (let (m, errors) = CompileGlobs other patterns in if errors = [] then Inr m else Inl (InvalidGlobs errors))"

text \<open>\<open>filepath.WalkDir\<close>: the error of \<open>Lstat\<close> of the root goes to the callback.\<close>

definition WalkDir :: "('c, 'e) walk_config \<Rightarrow> 'c walk_state \<Rightarrow> 'c walk_state \<times> 'e walk_error option" where
  "WalkDir cfg st =
     (let root = wr_Dir (wc_root cfg); tree = wr_Tree (wc_root cfg);
          (st, err) = (case node_info tree of
                         Inl e \<Rightarrow> visit cfg st root (path_base root) tree (Some (Failed e))
                       | Inr _ \<Rightarrow> walk_items cfg st [(root, path_base root, tree)])
      in (st, if err = Some SkipDir \<or> err = Some SkipAll then None else err))"

definition walk_config_of ::
  "regexp_compile \<Rightarrow> Filter \<Rightarrow> walk_root \<Rightarrow> ('c, 'e) callback \<Rightarrow> path_matcher \<Rightarrow> path_matcher \<Rightarrow> ('c, 'e) walk_config" where
  "walk_config_of other f root cb incl excl =
     \<lparr>wc_filter = f, wc_callback = cb, wc_root = root, wc_include = incl, wc_exclude = excl,
      wc_maxVisited = defaultedLimit (wf_MaxVisited f) 100000, wc_maxResults = defaultedLimit (wf_MaxResults f) 20000,
      wc_other = other\<rparr>"

text \<open>A nil context, filter, root or callback is \<open>None\<close>. The result has the caller's state, the warnings and the error.\<close>

definition Walk ::
  "regexp_compile \<Rightarrow> walk_context option \<Rightarrow> Filter option \<Rightarrow> ('c, 'e) callback option \<Rightarrow> 'c \<Rightarrow>
   'c \<times> walk_context option \<times> ignore_warning list \<times> 'e walk_error option" where
  "Walk other ctx0 flt callback client =
     (case (ctx0, flt, callback) of
        (Some ctx, Some f, Some cb) \<Rightarrow>
          (case wf_Root f of
             None \<Rightarrow> (client, ctx0, [], Some InvalidWalk)
           | Some root \<Rightarrow>
               (case ctx_err \<lparr>wk_visited = 0, wk_results = 0, wk_ctx = ctx, wk_client = client, ws_rules = (\<lambda>_. None), ws_warnings = []\<rparr> of
                  (st, True) \<Rightarrow> (client, ctx0, [], Some Cancelled)
                | (st, False) \<Rightarrow>
                    (case compileGlobs other (wf_IncludeGlobs f) of
                       Inl e \<Rightarrow> (client, Some (wk_ctx st), [], Some e)
                     | Inr incl \<Rightarrow>
                         (case compileGlobs other (wf_ExcludeGlobs f) of
                            Inl e \<Rightarrow> (client, Some (wk_ctx st), [], Some e)
                          | Inr excl \<Rightarrow>
                              (case WalkDir (walk_config_of other f root cb incl excl) st of
                                 (st, err) \<Rightarrow> (wk_client st, Some (wk_ctx st), ws_warnings st, err))))))
      | _ \<Rightarrow> (client, ctx0, [], Some InvalidWalk))"

end
