(* ===== verification/Walk_Listing.thy ===== *)
theory Walk_Listing
  imports Walk_Tree
begin

text \<open>
  What a walk reports: the listing of a tree, without counters and state, and the walk as an interpreter of it.
\<close>

section \<open>The listing\<close>

definition path_at :: "('c, 'e) walk_config \<Rightarrow> go_string list \<Rightarrow> go_string" where
  "path_at cfg names = foldl (\<lambda>dir c. path_join [dir, c]) (wr_Dir (wc_root cfg)) names"

abbreviation rel_name :: "go_string list \<Rightarrow> go_string" where "rel_name names \<equiv> join_on SLASH names"

text \<open>The rules of one directory, and those that hold for its entries.\<close>

definition own_rules :: "('c, 'e) walk_config \<Rightarrow> go_string list \<Rightarrow> ignore_rule list" where
  "own_rules cfg names =
     (if names = []
      then fst (load_rules cfg (path_join [path_at cfg [], ''.git'', ''info'', ''exclude'']) [] ''.'') @
           fst (load_rules cfg (path_join [path_at cfg [], ''.gitignore'']) [] ''.'')
      else fst (load_rules cfg (path_join [path_at cfg names, ''.gitignore'']) [] (rel_name names)))"

definition rules_at :: "('c, 'e) walk_config \<Rightarrow> go_string list \<Rightarrow> ignore_rule list" where
  "rules_at cfg names = concat (map (own_rules cfg) (prefixes names))"

definition keeps :: "('c, 'e) walk_config \<Rightarrow> go_string list \<Rightarrow> bool \<Rightarrow> bool" where
  "keeps cfg names directory \<longleftrightarrow>
     last names \<noteq> ''.git'' \<and>
     (wf_SkipVCS (wc_filter cfg) \<longrightarrow> last names \<noteq> ''.hg'' \<and> last names \<noteq> ''.svn'') \<and>
     (wf_SkipHidden (wc_filter cfg) \<longrightarrow> \<not> prefix ''.'' (last names)) \<and>
     (wf_RespectGitignore (wc_filter cfg) \<longrightarrow> \<not> ignoredBy (rules_at cfg (butlast names)) (rel_name names) directory) \<and>
     \<not> matchPath (wc_exclude cfg) (rel_name names) directory"

definition info_of :: "node \<Rightarrow> file_info" where
  "info_of n = (case node_info n of Inl e \<Rightarrow> \<lparr>fi_Size = 0, fi_ModTime = 0, fi_Mode = 0\<rparr> | Inr info \<Rightarrow> info)"

definition report_of :: "('c, 'e) walk_config \<Rightarrow> go_string list \<Rightarrow> node \<Rightarrow> Entry option" where
  "report_of cfg names n =
     (if \<not> keeps cfg names (is_directory n) \<or> left_out cfg (rel_name names) (is_directory n) then None
      else Some (entry_of (rel_name names) n (info_of n)))"

definition enters :: "('c, 'e) walk_config \<Rightarrow> go_string list \<Rightarrow> bool" where
  "enters cfg names \<longleftrightarrow> keeps cfg names True \<and> int (length names) \<noteq> wf_MaxDepth (wc_filter cfg)"

text \<open>One element for every visit, with the entry it reports.\<close>

fun visits :: "('c, 'e) walk_config \<Rightarrow> go_string list \<Rightarrow> (go_string \<times> node) list \<Rightarrow> Entry option list" where
  "visits cfg names [] = []"
| "visits cfg names ((c, n) # rest) =
     report_of cfg (names @ [c]) n #
     (case n of
        Leaf _ _ _ \<Rightarrow> []
      | Directory info listing absent entries \<Rightarrow> if enters cfg (names @ [c]) then visits cfg (names @ [c]) entries else []) @
     visits cfg names rest"

definition reported :: "Entry option list \<Rightarrow> Entry list" where
  "reported vs = concat (map (\<lambda>v. case v of None \<Rightarrow> [] | Some e \<Rightarrow> [e]) vs)"

lemma reported_simps [simp]:
  "reported [] = []" "reported (None # vs) = reported vs" "reported (Some e # vs) = e # reported vs"
  "reported (vs @ ws) = reported vs @ reported ws"
  by (simp_all add: reported_def)

text \<open>A tree without failures, as \<open>ReadDir\<close> delivers it.\<close>

fun readable :: "(go_string \<times> node) list \<Rightarrow> bool" where
  "readable [] = True"
| "readable ((c, n) # rest) =
     (plain c \<and> c \<notin> fst ` set rest \<and> \<not> isl (node_info n) \<and> readable rest \<and>
      (case n of
         Leaf _ _ _ \<Rightarrow> True
       | Directory info listing absent entries \<Rightarrow> listing = None \<and> readable entries))"

section \<open>The interpreter\<close>

definition step :: "('c, 'e) walk_config \<Rightarrow> ('c, 'z) walk_core_scheme \<Rightarrow> Entry option \<Rightarrow> ('c, 'z) walk_core_scheme \<times> 'e walk_error option" where
  "step cfg st v =
     (let (st, cancelled) = ctx_err st
      in if cancelled then (st, Some Cancelled)
         else let st = st\<lparr>wk_visited := wk_visited st + 1\<rparr>
              in case v of None \<Rightarrow> stop cfg st None | Some e \<Rightarrow> deliver cfg st e None)"

fun run :: "('c, 'e) walk_config \<Rightarrow> ('c, 'z) walk_core_scheme \<Rightarrow> Entry option list \<Rightarrow> ('c, 'z) walk_core_scheme \<times> 'e walk_error option" where
  "run cfg st [] = (st, None)"
| "run cfg st (v # vs) = (case step cfg st v of (st, Some e) \<Rightarrow> (st, Some e) | (st, None) \<Rightarrow> run cfg st vs)"

lemma run_append:
  "run cfg st (vs @ ws) = (case run cfg st vs of (st, Some e) \<Rightarrow> (st, Some e) | (st, None) \<Rightarrow> run cfg st ws)"
  by (induction vs arbitrary: st) (auto split: prod.splits option.splits)

abbreviation core :: "('c, 'z) walk_core_scheme \<Rightarrow> 'c walk_core" where "core \<equiv> walk_core.truncate"

lemma core_simps [simp]:
  "wk_visited (core st) = wk_visited st" "wk_results (core st) = wk_results st" "wk_ctx (core st) = wk_ctx st" "wk_client (core st) = wk_client st"
  by (simp_all add: walk_core.truncate_def)

lemma core_updates [simp]:
  "core (st\<lparr>wk_visited := v\<rparr>) = (core st)\<lparr>wk_visited := v\<rparr>" "core (st\<lparr>wk_results := r\<rparr>) = (core st)\<lparr>wk_results := r\<rparr>"
  "core (st\<lparr>wk_ctx := x\<rparr>) = (core st)\<lparr>wk_ctx := x\<rparr>" "core (st\<lparr>wk_client := c\<rparr>) = (core st)\<lparr>wk_client := c\<rparr>"
  by (simp_all add: walk_core.truncate_def)

lemma core_rules [simp]: "core (st\<lparr>ws_rules := r\<rparr>) = core st" "core (st\<lparr>ws_warnings := w\<rparr>) = core st"
  by (simp_all add: walk_core.truncate_def)

definition on_core :: "('c, 'z) walk_core_scheme \<times> 'a \<Rightarrow> 'c walk_core \<times> 'a" where
  "on_core r = (core (fst r), snd r)"

lemma on_core_pair [simp]: "on_core (st, a) = (core st, a)"
  by (simp add: on_core_def)

definition tick :: "walk_context \<Rightarrow> walk_context \<times> bool" where
  "tick ctx = (case ctx of None \<Rightarrow> (None, False) | Some 0 \<Rightarrow> (Some 0, True) | Some (Suc n) \<Rightarrow> (Some n, False))"

lemma ctx_err_tick: "ctx_err st = (st\<lparr>wk_ctx := fst (tick (wk_ctx st))\<rparr>, snd (tick (wk_ctx st)))"
  by (simp add: ctx_err_def tick_def split: option.splits nat.splits)

lemma stop_core: "on_core (stop cfg st next) = stop cfg (core st) next"
  by (simp add: stop_def ctx_err_tick)

lemma deliver_core: "on_core (deliver cfg st e next) = deliver cfg (core st) e next"
  by (simp add: deliver_def Let_def ctx_err_tick stop_def split: prod.splits option.splits)

lemma step_core: "on_core (step cfg st v) = step cfg (core st) v"
  by (simp add: step_def Let_def ctx_err_tick deliver_core stop_core split: option.splits)

lemma step_rules [simp]:
  "ws_rules (fst (stop cfg st next)) = ws_rules st" "ws_rules (fst (deliver cfg st e next)) = ws_rules st"
  by (simp_all add: stop_def deliver_def Let_def ctx_err_tick split: prod.splits option.splits)

definition then_action :: "'e walk_error option \<Rightarrow> 'a \<times> 'e walk_error option \<Rightarrow> 'a \<times> 'e walk_error option" where
  "then_action next r = (fst r, if snd r = None then next else snd r)"

lemma then_action_simps [simp]: "then_action a (st, None) = (st, a)" "then_action a (st, Some e) = (st, Some e)" "then_action None r = r"
  by (auto simp: then_action_def prod_eq_iff)

lemma stop_next: "stop cfg st next = then_action next (stop cfg st None)"
  by (auto simp: stop_def then_action_def ctx_err_tick)

lemma deliver_next: "deliver cfg st e next = then_action next (deliver cfg st e None)"
  by (auto simp: deliver_def Let_def then_action_def stop_def ctx_err_tick split: prod.splits option.splits)

section \<open>Paths of a tree\<close>

lemma path_at_snoc [simp]: "path_at cfg (names @ [c]) = path_join [path_at cfg names, c]"
  by (simp add: path_at_def)

lemma path_at_clean:
  assumes "clean_abs (wr_Dir (wc_root cfg))" "list_all plain names"
  shows "clean_abs (path_at cfg names) \<and> parts (path_at cfg names) = parts (wr_Dir (wc_root cfg)) @ names"
  using assms(2)
proof (induction names rule: rev_induct)
  case Nil
  then show ?case using assms(1) by (simp add: path_at_def)
next
  case (snoc c names)
  then show ?case using path_join_clean [of "path_at cfg names" c] by simp
qed

lemma rel_name_dot: "list_all plain names \<Longrightarrow> names \<noteq> [] \<Longrightarrow> rel_name names \<noteq> ''.''"
proof
  assume p: "list_all plain names" "names \<noteq> []" "rel_name names = ''.''"
  then have "split_on SLASH (rel_name names) = names" by (intro split_join) (auto simp: plain_def list_all_iff)
  then have "names = [''.'']" using p(3) by simp
  then show False using p(1) by (simp add: plain_def)
qed

lemma drop_common_append: "drop_common bs (bs @ ts) = ([], ts)"
proof (induction bs)
  case Nil
  then show ?case by (cases ts) simp_all
qed simp

lemma Root_Rel_path:
  assumes "clean_abs (wr_Dir (wc_root cfg))" "list_all plain names" "names \<noteq> []"
  shows "Root_Rel (wr_Dir (wc_root cfg)) (path_at cfg names) = rel_name names"
proof -
  let ?root = "wr_Dir (wc_root cfg)"
  have c: "clean_abs (path_at cfg names)" and p: "parts (path_at cfg names) = parts ?root @ names" using path_at_clean [OF assms(1,2)] by simp_all
  have "path_at cfg names \<noteq> ?root" using p assms(3) by auto
  moreover have "IsAbs ?root" "?root \<noteq> ''.''" using assms(1) by (auto simp: clean_abs_def IsAbs_def)
  ultimately have "Rel ?root (path_at cfg names) = Some (rel_name names)"
    using c p assms(1) by (simp add: Rel_def clean_abs_def drop_common_append)
  then show ?thesis using rel_name_dot [OF assms(2,3)] by (simp add: Root_Rel_def)
qed

lemma path_dir_child:
  assumes "clean_abs (wr_Dir (wc_root cfg))" "list_all plain names" "plain c"
  shows "path_dir (path_join [path_at cfg names, c]) = path_at cfg names"
proof -
  have n: "clean_abs (path_at cfg names)" using path_at_clean [OF assms(1,2)] by simp
  have j: "clean_abs (path_join [path_at cfg names, c]) \<and> parts (path_join [path_at cfg names, c]) = parts (path_at cfg names) @ [c]"
    using path_join_clean [OF n assms(3)] .
  then show ?thesis using dir_base_clean [of "path_join [path_at cfg names, c]"] clean_abs_eq n by blast
qed

lemma count_names: "list_all plain names \<Longrightarrow> names \<noteq> [] \<Longrightarrow> count_byte (rel_name names) SLASH + 1 = length names"
proof (induction SLASH names rule: join_on.induct)
  case (3 p q ps)
  have "filter (\<lambda>c. c = SLASH) p = []" using "3.prems" by (auto simp: plain_def filter_empty_conv)
  then show ?case using 3 by (simp add: count_byte_def)
qed (auto simp: plain_def count_byte_def filter_empty_conv)

lemma at_depth_names:
  "list_all plain names \<Longrightarrow> names \<noteq> [] \<Longrightarrow> at_depth cfg (rel_name names) \<longleftrightarrow> int (length names) = wf_MaxDepth (wc_filter cfg)"
  using count_names [of names] by (auto simp: at_depth_def)

section \<open>One visit\<close>

text \<open>The rules of a file do not depend on how warnings display it.\<close>

lemma ignore_lines_source: "fst (ignore_lines other source base n ls) = fst (ignore_lines other source' base n' ls)"
  by (induction ls arbitrary: n n') (auto simp: split_beta Let_def split: option.splits sum.splits)

lemma load_rules_display: "fst (load_rules cfg path display base) = fst (load_rules cfg path display' base)"
  using ignore_lines_source [of "wc_other cfg" display base 0 _ display' 0]
  by (auto simp: load_rules_def loadIgnoreFile_def parseIgnore_def Let_def split_beta split: sum.splits)

lemma rules_at_snoc: "rules_at cfg (names @ [c]) = rules_at cfg names @ own_rules cfg (names @ [c])"
  by (simp add: rules_at_def)

definition knows_rules :: "('c, 'e) walk_config \<Rightarrow> 'c walk_state \<Rightarrow> go_string list \<Rightarrow> bool" where
  "knows_rules cfg st names \<longleftrightarrow> (wf_RespectGitignore (wc_filter cfg) \<longrightarrow> rules_of st (path_at cfg names) = rules_at cfg names)"

definition action_for :: "('c, 'e) walk_config \<Rightarrow> go_string list \<Rightarrow> node \<Rightarrow> 'e walk_error option" where
  "action_for cfg names n = (if is_directory n \<and> \<not> enters cfg names then Some SkipDir else None)"

lemma visit_step:
  assumes root: "clean_abs (wr_Dir (wc_root cfg))"
    and names: "list_all plain names" "plain c"
    and info: "\<not> isl (node_info n)"
    and rules: "knows_rules cfg st names"
  defines "path \<equiv> path_join [path_at cfg names, c]"
  defines "r \<equiv> visit cfg st path c n None"
  shows "on_core r = then_action (action_for cfg (names @ [c]) n) (step cfg (core st) (report_of cfg (names @ [c]) n))"
    and "q \<noteq> path \<Longrightarrow> ws_rules (fst r) q = ws_rules st q"
    and "snd r = None \<Longrightarrow> is_directory n \<Longrightarrow> knows_rules cfg (fst r) (names @ [c])"
proof -
  let ?qs = "names @ [c]"
  let ?st = "st\<lparr>wk_ctx := fst (tick (wk_ctx st)), wk_visited := wk_visited st + 1\<rparr>"
  have p: "list_all plain ?qs" "?qs \<noteq> []" using names by simp_all
  have rel: "Root_Rel (wr_Dir (wc_root cfg)) path = rel_name ?qs" using Root_Rel_path [OF root p] by (simp add: path_def)
  have dot: "rel_name ?qs \<noteq> ''.''" by (rule rel_name_dot [OF p])
  have dir: "path_dir path = path_at cfg names" using path_dir_child [OF root names] by (simp add: path_def)
  have depth: "at_depth cfg (rel_name ?qs) \<longleftrightarrow> int (length ?qs) = wf_MaxDepth (wc_filter cfg)" by (rule at_depth_names [OF p])
  obtain i where i: "node_info n = Inr i" using info by (cases "node_info n") auto
  let ?dir = "is_directory n"
  let ?ignore = "path_join [path, ''.gitignore'']"
  let ?load = "load_rules cfg ?ignore (relative_path (wr_Dir (wc_root cfg)) ?ignore) (rel_name ?qs)"
  let ?st' = "?st\<lparr>ws_rules := (ws_rules ?st)(path \<mapsto> rules_of ?st (path_at cfg names) @ fst ?load), ws_warnings := ws_warnings ?st @ snd ?load\<rparr>"
  have "wf_RespectGitignore (wc_filter cfg) \<Longrightarrow> rules_of ?st (path_at cfg names) = rules_at cfg names"
    using rules by (simp add: knows_rules_def rules_of_def)
  then have f: "filterEntry cfg ?st path (rel_name ?qs) c ?dir =
      (if \<not> keeps cfg ?qs ?dir then (?st, Some (skipDirectory ?dir))
       else (if ?dir \<and> wf_RespectGitignore (wc_filter cfg) then ?st' else ?st, None))"
    unfolding filterEntry_def Let_def dir split_beta
    by (cases "keeps cfg ?qs ?dir") (unfold keeps_def last_snoc butlast_snoc, auto)
  have v: "r = (if snd (tick (wk_ctx st)) then (st\<lparr>wk_ctx := fst (tick (wk_ctx st))\<rparr>, Some Cancelled)
      else if \<not> keeps cfg ?qs ?dir then stop cfg ?st (skipDirectory ?dir)
      else emit cfg (if ?dir \<and> wf_RespectGitignore (wc_filter cfg) then ?st' else ?st) (rel_name ?qs) n)"
    unfolding r_def visit_def Let_def ctx_err_tick prod.case rel using dot f by (simp add: Let_def)
  have e: "emit cfg s (rel_name ?qs) n =
      (if left_out cfg (rel_name ?qs) ?dir then stop cfg s None
       else deliver cfg s (entry_of (rel_name ?qs) n (info_of n)) (if ?dir \<and> at_depth cfg (rel_name ?qs) then Some SkipDir else None))" for s
    by (simp add: emit_def i info_of_def)
  have lo: "left_out cfg (rel_name ?qs) ?dir \<Longrightarrow> \<not> ?dir" by (simp add: left_out_def)
  show "on_core r = then_action (action_for cfg ?qs n) (step cfg (core st) (report_of cfg ?qs n))"
  proof (cases "snd (tick (wk_ctx st))")
    case True
    then show ?thesis by (simp add: v step_def ctx_err_tick)
  next
    case False
    have step: "step cfg (core st) x = (case x of None \<Rightarrow> stop cfg (core ?st) None | Some e \<Rightarrow> deliver cfg (core ?st) e None)" for x
      using False by (cases x) (simp_all add: step_def ctx_err_tick Let_def)
    show ?thesis
    proof (cases "keeps cfg ?qs ?dir")
      case k: False
      have "r = stop cfg ?st (skipDirectory ?dir)" using v False k by simp
      moreover have "action_for cfg ?qs n = skipDirectory ?dir" using k by (cases "?dir") (simp_all add: action_for_def enters_def skipDirectory_def)
      ultimately show ?thesis using k stop_next by (simp add: step report_of_def stop_core)
    next
      case k: True
      let ?s = "if ?dir \<and> wf_RespectGitignore (wc_filter cfg) then ?st' else ?st"
      have r: "r = emit cfg ?s (rel_name ?qs) n" using v False k by simp
      have s: "core ?s = core ?st" by simp
      have a: "action_for cfg ?qs n = (if ?dir \<and> at_depth cfg (rel_name ?qs) then Some SkipDir else None)"
        using k depth by (cases "?dir") (auto simp: action_for_def enters_def)
      show ?thesis
      proof (cases "left_out cfg (rel_name ?qs) ?dir")
        case True
        then show ?thesis using k r a lo unfolding e by (simp add: step report_of_def stop_core s)
      next
        case l: False
        have "deliver cfg (core ?st) E (action_for cfg ?qs n) = then_action (action_for cfg ?qs n) (deliver cfg (core ?st) E None)" for E
          by (rule deliver_next)
        moreover have "report_of cfg ?qs n = Some (entry_of (rel_name ?qs) n (info_of n))" using k l by (simp add: report_of_def)
        ultimately show ?thesis using r l unfolding e a [symmetric] by (simp only: step option.case deliver_core s if_False)
      qed
    qed
  qed
  show "q \<noteq> path \<Longrightarrow> ws_rules (fst r) q = ws_rules st q" by (simp add: v e)
  show "snd r = None \<Longrightarrow> ?dir \<Longrightarrow> knows_rules cfg (fst r) ?qs"
  proof -
    assume s: "snd r = None" "?dir"
    then have k: "\<not> snd (tick (wk_ctx st))" "keeps cfg ?qs ?dir"
      using v stop_next [of cfg ?st "Some SkipDir"] by (auto simp: skipDirectory_def then_action_def split: if_splits)
    have "fst ?load = own_rules cfg ?qs"
      using load_rules_display [of cfg ?ignore "relative_path (wr_Dir (wc_root cfg)) ?ignore" "rel_name ?qs" "[]"] by (simp add: own_rules_def path_def)
    moreover have "rules_of ?st (path_at cfg names) = rules_at cfg names" if "wf_RespectGitignore (wc_filter cfg)"
      using rules that by (simp add: knows_rules_def rules_of_def)
    ultimately show ?thesis using v e k s(2) by (simp add: knows_rules_def rules_of_def rules_at_snoc path_def)
  qed
qed

section \<open>The traversal\<close>

definition items :: "('c, 'e) walk_config \<Rightarrow> go_string list \<Rightarrow> (go_string \<times> node) list \<Rightarrow> walk_item list" where
  "items cfg names es = map (\<lambda>(c, n). (path_join [path_at cfg names, c], c, n)) es"

lemma items_simps [simp]:
  "items cfg names [] = []" "items cfg names ((c, n) # es) = (path_join [path_at cfg names, c], c, n) # items cfg names es"
  by (simp_all add: items_def)

definition plain_callback :: "('c, 'e) walk_config \<Rightarrow> bool" where
  "plain_callback cfg \<longleftrightarrow> (\<forall>e c. snd (wc_callback cfg e c) \<notin> {Some SkipDir, Some SkipAll})"

lemma stop_no_skip: "snd (stop cfg st None) \<notin> {Some SkipDir, Some SkipAll}"
  by (simp add: stop_def ctx_err_tick)

lemma step_no_skip: "plain_callback cfg \<Longrightarrow> snd (step cfg st v) \<notin> {Some SkipDir, Some SkipAll}"
proof -
  assume p: "plain_callback cfg"
  have d: "snd (deliver cfg s e None) \<notin> {Some SkipDir, Some SkipAll}" for s e
  proof -
    obtain c x where c: "wc_callback cfg e (wk_client s) = (c, x)" by fastforce
    moreover have "x \<notin> {Some SkipDir, Some SkipAll}" using p c by (metis plain_callback_def snd_conv)
    ultimately show ?thesis by (cases x) (simp_all add: deliver_def Let_def ctx_err_tick stop_no_skip [simplified])
  qed
  show ?thesis by (cases v) (simp_all add: step_def ctx_err_tick Let_def stop_no_skip [simplified] d [simplified])
qed

lemma run_no_skip: "plain_callback cfg \<Longrightarrow> snd (run cfg st vs) \<notin> {Some SkipDir, Some SkipAll}"
proof (induction vs arbitrary: st)
  case (Cons v vs)
  then show ?case using step_no_skip [of cfg st v] by (auto split: prod.splits option.splits)
qed simp

lemma path_longer:
  assumes "clean_abs (wr_Dir (wc_root cfg))" "list_all plain names" "plain c"
  shows "length (path_at cfg names) < length (path_at cfg (names @ [c]))"
proof -
  let ?ps = "parts (wr_Dir (wc_root cfg)) @ names"
  have p: "path_at cfg names = SLASH # join_on SLASH ?ps" "path_at cfg (names @ [c]) = SLASH # join_on SLASH (?ps @ [c])"
    using path_at_clean [OF assms(1), of names] path_at_clean [OF assms(1), of "names @ [c]"] assms(2,3) clean_abs_parts by fastforce+
  have "0 < length c" using assms(3) by (simp add: plain_def)
  then show ?thesis unfolding p by (cases "?ps = []") (simp_all add: join_snoc del: append_assoc)
qed

lemma walk_items_run:
  "clean_abs (wr_Dir (wc_root cfg)) \<Longrightarrow> plain_callback cfg \<Longrightarrow> list_all plain names \<Longrightarrow> readable es \<Longrightarrow> knows_rules cfg st names \<Longrightarrow>
    on_core (walk_items cfg st (items cfg names es)) = run cfg (core st) (visits cfg names es) \<and>
    (\<forall>q. length q \<le> length (path_at cfg names) \<longrightarrow> ws_rules (fst (walk_items cfg st (items cfg names es))) q = ws_rules st q)"
proof (induction cfg names es arbitrary: st rule: visits.induct)
  case (2 cfg names c n rest)
  note root = "2.prems"(1) and cb = "2.prems"(2)
  let ?qs = "names @ [c]"
  let ?path = "path_join [path_at cfg names, c]"
  let ?rep = "report_of cfg ?qs n"
  let ?tail = "items cfg names rest"
  from "2.prems" have c: "plain c" "\<not> isl (node_info n)" "readable rest" "list_all plain ?qs" by simp_all
  note v = visit_step [OF root "2.prems"(3) c(1,2) "2.prems"(5)]
  have longer: "length (path_at cfg names) < length ?path" using path_longer [OF root "2.prems"(3) c(1)] by simp
  obtain st1 e1 where r1: "visit cfg st ?path c n None = (st1, e1)" by fastforce
  obtain c0 e0 where s0: "step cfg (core st) ?rep = (c0, e0)" by fastforce
  have e0: "e0 \<notin> {Some SkipDir, Some SkipAll}" using step_no_skip [OF cb, of "core st" ?rep] s0 by simp
  have st1: "(core st1, e1) = then_action (action_for cfg ?qs n) (c0, e0)" using v(1) r1 s0 by simp
  have keep: "ws_rules st1 q = ws_rules st q" if "length q \<le> length (path_at cfg names)" for q
    using v(2) [of q] r1 that longer by fastforce
  then have knows: "knows_rules cfg st1 names" using "2.prems"(5) by (simp add: knows_rules_def rules_of_def)
  show ?case
  proof (cases e0)
    case (Some e)
    then have "core st1 = c0" "e1 = Some e" "e \<noteq> SkipDir" using st1 e0 by auto
    then show ?thesis using r1 s0 Some keep by simp
  next
    case None
    then have st1: "core st1 = c0" "e1 = action_for cfg ?qs n" using st1 by simp_all
    have rest: "on_core (walk_items cfg st1 ?tail) = run cfg c0 (visits cfg names rest) \<and>
        (\<forall>q. length q \<le> length (path_at cfg names) \<longrightarrow> ws_rules (fst (walk_items cfg st1 ?tail)) q = ws_rules st q)"
      using "2.IH"(2) [OF root cb "2.prems"(3) c(3) knows] keep st1 by simp
    show ?thesis
    proof (cases n)
      case (Leaf k info content)
      then show ?thesis using r1 s0 None st1 rest by (simp add: action_for_def)
    next
      case (Directory info listing absent es)
      then have es: "listing = None" "readable es" using "2.prems"(4) by simp_all
      show ?thesis
      proof (cases "enters cfg ?qs")
        case False
        then show ?thesis using r1 s0 None st1 rest Directory by (simp add: action_for_def)
      next
        case True
        then have e1: "e1 = None" using st1 by (simp add: action_for_def)
        have knows': "knows_rules cfg st1 ?qs" using v(3) r1 e1 Directory by simp
        have it: "map (\<lambda>(c, m). (path_join [?path, c], c, m)) es = items cfg ?qs es" by (simp add: items_def)
        obtain st2 e2 where r2: "walk_items cfg st1 (items cfg ?qs es) = (st2, e2)" by fastforce
        have IH: "(core st2, e2) = run cfg c0 (visits cfg ?qs es)"
            "\<And>q. length q \<le> length (path_at cfg ?qs) \<Longrightarrow> ws_rules st2 q = ws_rules st1 q"
          using "2.IH"(1) [OF Directory True root cb c(4) es(2) knows'] r2 st1 by simp_all
        have keep2: "ws_rules st2 q = ws_rules st q" if "length q \<le> length (path_at cfg names)" for q
          using IH(2) [of q] keep [OF that] that longer by simp
        show ?thesis
        proof (cases e2)
          case (Some e)
          have "walk_items cfg st ((?path, c, n) # ?tail) = (st2, Some e)"
            using r1 e1 Directory es r2 Some it by simp
          moreover have "run cfg (core st) (?rep # visits cfg ?qs es @ visits cfg names rest) = (core st2, Some e)"
            using s0 None IH(1) [symmetric] Some by (simp add: run_append)
          ultimately show ?thesis using Directory True keep2 by simp
        next
          case e2: None
          have w: "walk_items cfg st ((?path, c, n) # ?tail) = walk_items cfg st2 ?tail"
            using r1 e1 Directory es r2 e2 it by simp
          have k: "knows_rules cfg st2 names" using keep2 "2.prems"(5) by (simp add: knows_rules_def rules_of_def)
          have "run cfg (core st) (?rep # visits cfg ?qs es @ visits cfg names rest) = run cfg (core st2) (visits cfg names rest)"
            using s0 None IH(1) [symmetric] e2 by (simp add: run_append)
          then show ?thesis using "2.IH"(2) [OF root cb "2.prems"(3) c(3) k] Directory True keep2 w by simp
        qed
      qed
    qed
  qed
qed simp

text \<open>The root is a visit that reports nothing.\<close>

definition root_visits :: "('c, 'e) walk_config \<Rightarrow> (go_string \<times> node) list \<Rightarrow> Entry option list" where
  "root_visits cfg es = None # (if wf_MaxDepth (wc_filter cfg) = 0 then [] else visits cfg [] es)"

lemma visit_root:
  assumes root: "clean_abs (wr_Dir (wc_root cfg))" and st: "ws_rules st = (\<lambda>_. None)"
    and r: "r = visit cfg st (wr_Dir (wc_root cfg)) name tree None"
  shows "on_core r = then_action (if wf_MaxDepth (wc_filter cfg) = 0 then Some SkipDir else None) (step cfg (core st) None)"
    and "snd r = None \<Longrightarrow> knows_rules cfg (fst r) []"
proof -
  let ?root = "wr_Dir (wc_root cfg)"
  let ?st = "st\<lparr>wk_ctx := fst (tick (wk_ctx st)), wk_visited := wk_visited st + 1\<rparr>"
  have rel: "Root_Rel ?root ?root = ''.''" by (simp add: Root_Rel_def Rel_def)
  show "on_core r = then_action (if wf_MaxDepth (wc_filter cfg) = 0 then Some SkipDir else None) (step cfg (core st) None)"
  proof (cases "snd (tick (wk_ctx st))")
    case True
    then show ?thesis by (simp add: r visit_def step_def ctx_err_tick)
  next
    case False
    then have "on_core r = stop cfg (core ?st) (if wf_MaxDepth (wc_filter cfg) = 0 then Some SkipDir else None)"
      using rel by (simp add: r visit_def ctx_err_tick Let_def visitRoot_def split_beta stop_core)
    then show ?thesis using False stop_next [of cfg "core ?st" "if wf_MaxDepth (wc_filter cfg) = 0 then Some SkipDir else None"]
      by (simp add: step_def ctx_err_tick Let_def)
  qed
  show "snd r = None \<Longrightarrow> knows_rules cfg (fst r) []"
  proof -
    assume n: "snd r = None"
    have t: "\<not> snd (tick (wk_ctx st))" using n by (auto simp: r visit_def ctx_err_tick split: if_splits)
    have d: "fst (load_rules cfg p x ''.'') = fst (load_rules cfg p [] ''.'')" for p x by (rule load_rules_display)
    show ?thesis using t rel
      by (simp add: knows_rules_def r visit_def ctx_err_tick Let_def visitRoot_def split_beta rules_of_def rules_at_def own_rules_def
          path_at_def d [of _ "''.git/info/exclude''"] d [of _ "''.gitignore''"])
  qed
qed

lemma WalkDir_run:
  assumes "clean_abs (wr_Dir (wc_root cfg))" "plain_callback cfg" "wr_Tree (wc_root cfg) = Directory (Inr info) None absent es"
    "readable es" "ws_rules st = (\<lambda>_. None)"
  shows "on_core (WalkDir cfg st) = run cfg (core st) (root_visits cfg es)"
proof -
  let ?root = "wr_Dir (wc_root cfg)"
  obtain st1 e1 where r1: "visit cfg st ?root (path_base ?root) (wr_Tree (wc_root cfg)) None = (st1, e1)" by fastforce
  obtain c0 e0 where s0: "step cfg (core st) None = (c0, e0)" by fastforce
  have e0: "e0 \<notin> {Some SkipDir, Some SkipAll}" using step_no_skip [OF assms(2), of "core st" None] s0 by simp
  have c: "(core st1, e1) = then_action (if wf_MaxDepth (wc_filter cfg) = 0 then Some SkipDir else None) (c0, e0)"
    and k: "e1 = None \<Longrightarrow> knows_rules cfg st1 []"
    using visit_root [OF assms(1,5) r1 [symmetric]] s0 by simp_all
  have items: "map (\<lambda>(c, m). (path_join [?root, c], c, m)) es = items cfg [] es" by (simp add: items_def path_at_def)
  show ?thesis
  proof (cases e0)
    case (Some e)
    then show ?thesis using c e0 r1 s0 assms(3) by (auto simp: WalkDir_def root_visits_def)
  next
    case None
    show ?thesis
    proof (cases "wf_MaxDepth (wc_filter cfg) = 0")
      case True
      then show ?thesis using c None r1 s0 assms(3) by (simp add: WalkDir_def root_visits_def)
    next
      case False
      then have e1: "e1 = None" "core st1 = c0" using c None by simp_all
      from walk_items_run [OF assms(1,2) _ assms(4) k [OF e1(1)]]
      have w: "on_core (walk_items cfg st1 (items cfg [] es)) = run cfg c0 (visits cfg [] es)" using e1 by simp
      have n: "snd (run cfg c0 (visits cfg [] es)) \<notin> {Some SkipDir, Some SkipAll}" by (rule run_no_skip [OF assms(2)])
      obtain st2 e2 where r2: "walk_items cfg st1 (items cfg [] es) = (st2, e2)" by fastforce
      then have "e2 \<notin> {Some SkipDir, Some SkipAll}" using w n by (metis on_core_pair snd_conv)
      then show ?thesis using w r1 r2 e1 s0 None False assms(3) items by (auto simp: WalkDir_def root_visits_def split: option.splits)
    qed
  qed
qed

end
