(* ===== verification/Walk_Results.thy ===== *)
theory Walk_Results
  imports Walk_Listing
begin

text \<open>The results on directory walks: what is reported, in which cases, and which entries a listing has.\<close>

section \<open>Running a list of visits\<close>

abbreviation feed :: "('c, 'e) callback \<Rightarrow> 'c \<Rightarrow> Entry list \<Rightarrow> 'c" where
  "feed cb client es \<equiv> foldl (\<lambda>c e. fst (cb e c)) client es"

definition within :: "int \<Rightarrow> int \<Rightarrow> bool" where
  "within n cap \<longleftrightarrow> (0 < cap \<longrightarrow> n < cap)"

lemma step_reports:
  assumes "step cfg st v = (st', err)"
  shows "(wk_client st' = wk_client st \<and> (err = None \<longrightarrow> v = None) \<or>
      (\<exists>e. v = Some e \<and> wk_client st' = fst (wc_callback cfg e (wk_client st)))) \<and>
    (err = None \<longrightarrow> wk_visited st' = wk_visited st + 1 \<and> within (wk_visited st') (wc_maxVisited cfg) \<and>
      wk_results st' = wk_results st + of_bool (v \<noteq> None) \<and> (v \<noteq> None \<longrightarrow> within (wk_results st') (wc_maxResults cfg)))"
  using assms
  by (auto simp: step_def Let_def ctx_err_tick deliver_def stop_def within_def split: if_splits option.splits prod.splits)

lemma run_reports:
  "run cfg st vs = (st', err) \<Longrightarrow> within (wk_results st) (wc_maxResults cfg) \<Longrightarrow>
   \<exists>k \<le> length (reported vs). wk_client st' = feed (wc_callback cfg) (wk_client st) (take k (reported vs)) \<and>
     (0 < wc_maxResults cfg \<longrightarrow> wk_results st + int k \<le> wc_maxResults cfg) \<and> (err = None \<longrightarrow> k = length (reported vs))"
proof (induction vs arbitrary: st)
  case Nil
  then show ?case by (auto simp: within_def)
next
  case (Cons v vs)
  obtain st1 e1 where s: "step cfg st v = (st1, e1)" by fastforce
  note r = step_reports [OF s]
  show ?case
  proof (cases e1)
    case (Some e)
    then have e: "st' = st1" "err = Some e" using Cons.prems(1) s by simp_all
    consider "wk_client st1 = wk_client st" | x where "v = Some x" "wk_client st1 = fst (wc_callback cfg x (wk_client st))"
      using r by blast
    then show ?thesis
    proof cases
      case 1
      then show ?thesis using e Cons.prems(2) by (intro exI [of _ 0]) (auto simp: within_def)
    next
      case 2
      then show ?thesis using e Cons.prems(2) by (intro exI [of _ 1]) (auto simp: within_def)
    qed
  next
    case None
    have "run cfg st1 vs = (st', err)" using Cons.prems(1) s None by simp
    moreover have w: "within (wk_results st1) (wc_maxResults cfg)" using r None Cons.prems(2) by (cases v) auto
    ultimately obtain k where k: "k \<le> length (reported vs)" "wk_client st' = feed (wc_callback cfg) (wk_client st1) (take k (reported vs))"
      "0 < wc_maxResults cfg \<longrightarrow> wk_results st1 + int k \<le> wc_maxResults cfg" "err = None \<longrightarrow> k = length (reported vs)"
      using Cons.IH by blast
    show ?thesis
    proof (cases v)
      case v: None
      then show ?thesis using k r None by (intro exI [of _ k]) auto
    next
      case v: (Some e)
      then show ?thesis using k r None by (intro exI [of _ "Suc k"]) auto
    qed
  qed
qed

text \<open>Without cancellation and errors of the callback, a walk ends early exactly at a cap.\<close>

definition undisturbed :: "('c, 'e) walk_config \<Rightarrow> ('c, 'z) walk_core_scheme \<Rightarrow> bool" where
  "undisturbed cfg st \<longleftrightarrow> wk_ctx st = None \<and> (\<forall>e c. snd (wc_callback cfg e c) = None)"

lemma step_undisturbed:
  assumes "undisturbed cfg st"
  shows "undisturbed cfg (fst (step cfg st v)) \<and>
    snd (step cfg st v) =
      (if within (wk_visited st + 1) (wc_maxVisited cfg) \<and> (v \<noteq> None \<longrightarrow> within (wk_results st + 1) (wc_maxResults cfg))
       then None else Some WalkTruncated)"
proof -
  have cb: "snd (wc_callback cfg e c) = None" for e c using assms by (simp add: undisturbed_def)
  show ?thesis
  proof (cases v)
    case None
    then show ?thesis using assms by (auto simp: undisturbed_def step_def ctx_err_def stop_def within_def Let_def)
  next
    case (Some e)
    obtain c where "wc_callback cfg e (wk_client st) = (c, None)" using cb by (metis prod.collapse)
    then show ?thesis using assms Some by (auto simp: undisturbed_def step_def ctx_err_def stop_def within_def Let_def deliver_def)
  qed
qed

lemma run_undisturbed:
  "undisturbed cfg st \<Longrightarrow> within (wk_visited st) (wc_maxVisited cfg) \<Longrightarrow> within (wk_results st) (wc_maxResults cfg) \<Longrightarrow>
   snd (run cfg st vs) =
     (if within (wk_visited st + int (length vs)) (wc_maxVisited cfg) \<and> within (wk_results st + int (length (reported vs))) (wc_maxResults cfg)
      then None else Some WalkTruncated)"
proof (induction vs arbitrary: st)
  case (Cons v vs)
  obtain st1 e1 where s: "step cfg st v = (st1, e1)" by fastforce
  note u = step_undisturbed [OF Cons.prems(1), of v]
  show ?case
  proof (cases e1)
    case (Some e)
    then show ?thesis using s u Cons.prems(2,3) by (cases v) (auto simp: within_def split: if_splits)
  next
    case None
    have r: "wk_visited st1 = wk_visited st + 1" "within (wk_visited st1) (wc_maxVisited cfg)"
      "wk_results st1 = wk_results st + of_bool (v \<noteq> None)" "v \<noteq> None \<longrightarrow> within (wk_results st1) (wc_maxResults cfg)"
      using step_reports [OF s] None by (cases v; auto)+
    have w: "within (wk_results st1) (wc_maxResults cfg)" using r(3,4) Cons.prems(3) by (cases v) auto
    have "undisturbed cfg st1" using u s by simp
    from Cons.IH [OF this r(2) w] show ?thesis using s None r(1,3) by (cases v) (simp_all add: ac_simps)
  qed
qed simp

section \<open>Walk\<close>

definition walk_listing :: "('c, 'e) walk_config \<Rightarrow> (go_string \<times> node) list \<Rightarrow> Entry list" where
  "walk_listing cfg es = reported (root_visits cfg es)"

definition visit_count :: "('c, 'e) walk_config \<Rightarrow> (go_string \<times> node) list \<Rightarrow> int" where
  "visit_count cfg es = int (length (root_visits cfg es))"

lemma Walk_run:
  assumes walk: "Walk other (Some ctx) (Some f) (Some cb) client = (client', ctx', ws, err)"
    and root: "wf_Root f = Some root" "clean_abs (wr_Dir root)" "wr_Tree root = Directory (Inr info) None absent es" "readable es"
    and globs: "compileGlobs other (wf_IncludeGlobs f) = (Inr incl :: 'e walk_error + _)"
      "compileGlobs other (wf_ExcludeGlobs f) = (Inr excl :: 'e walk_error + _)"
    and cb: "\<forall>e c. snd (cb e c :: 'c \<times> 'e walk_error option) \<notin> {Some SkipDir, Some SkipAll}"
  defines "cfg \<equiv> walk_config_of other f root cb incl excl"
  defines "st \<equiv> \<lparr>wk_visited = 0, wk_results = 0, wk_ctx = fst (tick ctx), wk_client = client\<rparr>"
  shows "if snd (tick ctx) then client' = client \<and> err = Some Cancelled
    else (\<exists>st'. run cfg st (root_visits cfg es) = (st', err) \<and> wk_client st' = client')"
proof -
  let ?st = "\<lparr>wk_visited = 0, wk_results = 0, wk_ctx = fst (tick ctx), wk_client = client, ws_rules = (\<lambda>_. None), ws_warnings = []\<rparr>"
  have c: "plain_callback cfg" using cb by (simp add: plain_callback_def cfg_def walk_config_of_def)
  have "core ?st = st" by (simp add: st_def walk_core.truncate_def)
  moreover have "on_core (WalkDir cfg ?st) = run cfg (core ?st) (root_visits cfg es)"
    using root c by (intro WalkDir_run) (simp_all add: cfg_def walk_config_of_def)
  ultimately have w: "on_core (WalkDir cfg ?st) = run cfg st (root_visits cfg es)" by simp
  show ?thesis
  proof (cases "snd (tick ctx)")
    case True
    then show ?thesis using walk root(1) by (simp add: Walk_def ctx_err_tick)
  next
    case False
    obtain st1 e1 where r: "WalkDir cfg ?st = (st1, e1)" by fastforce
    then have "client' = wk_client st1" "err = e1" using walk root(1) globs False by (simp_all add: Walk_def ctx_err_tick cfg_def)
    then show ?thesis using w r False by (metis core_simps(4) on_core_pair)
  qed
qed

text \<open>C35: A walk over a tree without failures reports a part of its listing from the front, in that order, at most as many
  entries as the result cap allows, and the whole listing when it returns without an error. When the context lives and
  the callback does not fail, it ends early exactly when the number of visits or of entries reaches its cap.\<close>

theorem walk_reports_listing:
  assumes "Walk other (Some ctx) (Some f) (Some cb) client = (client', ctx', ws, err)"
    and "wf_Root f = Some root" "clean_abs (wr_Dir root)" "wr_Tree root = Directory (Inr info) None absent es" "readable es"
    and "compileGlobs other (wf_IncludeGlobs f) = (Inr incl :: 'e walk_error + _)"
      "compileGlobs other (wf_ExcludeGlobs f) = (Inr excl :: 'e walk_error + _)"
    and "\<forall>e c. snd (cb e c :: 'c \<times> 'e walk_error option) \<notin> {Some SkipDir, Some SkipAll}"
    and "cfg = walk_config_of other f root cb incl excl"
  shows "(\<exists>k \<le> length (walk_listing cfg es).
        client' = feed cb client (take k (walk_listing cfg es)) \<and>
        (0 < wc_maxResults cfg \<longrightarrow> int k \<le> wc_maxResults cfg) \<and>
        (err = None \<longrightarrow> k = length (walk_listing cfg es))) \<and>
    (ctx = None \<and> (\<forall>e c. snd (cb e c) = None) \<longrightarrow>
       err = (if within (visit_count cfg es) (wc_maxVisited cfg) \<and> within (int (length (walk_listing cfg es))) (wc_maxResults cfg)
              then None else Some WalkTruncated))"
proof -
  let ?st = "\<lparr>wk_visited = 0, wk_results = 0, wk_ctx = fst (tick ctx), wk_client = client\<rparr>"
  have w: "if snd (tick ctx) then client' = client \<and> err = Some Cancelled
    else (\<exists>st'. run cfg ?st (root_visits cfg es) = (st', err) \<and> wk_client st' = client')"
    using Walk_run [OF assms(1-8)] assms(9) by simp
  have cb: "wc_callback cfg = cb" using assms(9) by (simp add: walk_config_of_def)
  have z: "within (wk_results ?st) (wc_maxResults cfg)" "within (wk_visited ?st) (wc_maxVisited cfg)" by (simp_all add: within_def)
  show ?thesis
  proof (cases "snd (tick ctx)")
    case True
    then have "ctx \<noteq> None" by (cases ctx) (simp_all add: tick_def)
    then show ?thesis using w True by (auto intro!: exI [of _ 0])
  next
    case False
    then obtain st' where r: "run cfg ?st (root_visits cfg es) = (st', err)" "wk_client st' = client'" using w by auto
    show ?thesis
    proof
      show "\<exists>k \<le> length (walk_listing cfg es). client' = feed cb client (take k (walk_listing cfg es)) \<and>
          (0 < wc_maxResults cfg \<longrightarrow> int k \<le> wc_maxResults cfg) \<and> (err = None \<longrightarrow> k = length (walk_listing cfg es))"
        using run_reports [OF r(1) z(1)] r(2) by (simp add: cb walk_listing_def)
      show "ctx = None \<and> (\<forall>e c. snd (cb e c) = None) \<longrightarrow>
          err = (if within (visit_count cfg es) (wc_maxVisited cfg) \<and> within (int (length (walk_listing cfg es))) (wc_maxResults cfg)
                 then None else Some WalkTruncated)"
      proof
        assume u: "ctx = None \<and> (\<forall>e c. snd (cb e c) = None)"
        then have "undisturbed cfg ?st" by (simp add: undisturbed_def cb tick_def)
        from run_undisturbed [OF this z(2,1), of "root_visits cfg es"] r(1)
        show "err = (if within (visit_count cfg es) (wc_maxVisited cfg) \<and> within (int (length (walk_listing cfg es))) (wc_maxResults cfg)
                 then None else Some WalkTruncated)" by (simp add: visit_count_def walk_listing_def)
      qed
    qed
  qed
qed

section \<open>What a listing has\<close>

text \<open>The node behind a path of names.\<close>

fun node_below :: "(go_string \<times> node) list \<Rightarrow> go_string list \<Rightarrow> node option" where
  "node_below es [] = None"
| "node_below es (c # cs) =
     (case map_of es c of
        None \<Rightarrow> None
      | Some n \<Rightarrow>
          if cs = [] then Some n
          else case n of Leaf _ _ _ \<Rightarrow> None | Directory _ _ _ children \<Rightarrow> node_below children cs)"

definition reaches :: "('c, 'e) walk_config \<Rightarrow> go_string list \<Rightarrow> (go_string \<times> node) list \<Rightarrow> Entry \<Rightarrow> go_string list \<Rightarrow> bool" where
  "reaches cfg names es e ts \<longleftrightarrow>
     (\<exists>n. node_below es ts = Some n \<and> report_of cfg (names @ ts) n = Some e) \<and>
     (\<forall>k. 0 < k \<and> k < length ts \<longrightarrow> enters cfg (names @ take k ts))"

lemma reaches_single [simp]: "reaches cfg names es e [c] \<longleftrightarrow> (\<exists>n. map_of es c = Some n \<and> report_of cfg (names @ [c]) n = Some e)"
  by (auto simp: reaches_def split: option.splits)

lemma reaches_deeper:
  assumes "cs \<noteq> []"
  shows "reaches cfg names es e (c # cs) \<longleftrightarrow>
    (\<exists>info listing absent children. map_of es c = Some (Directory info listing absent children) \<and>
       enters cfg (names @ [c]) \<and> reaches cfg (names @ [c]) children e cs)"
proof -
  have "(\<forall>k. 0 < k \<and> k < length (c # cs) \<longrightarrow> enters cfg (names @ take k (c # cs))) \<longleftrightarrow>
      enters cfg (names @ [c]) \<and> (\<forall>k. 0 < k \<and> k < length cs \<longrightarrow> enters cfg ((names @ [c]) @ take k cs))"
    (is "?l \<longleftrightarrow> ?r")
  proof
    assume l: ?l
    have "enters cfg (names @ [c])" using l [THEN spec [of _ 1]] assms by simp
    moreover have "enters cfg ((names @ [c]) @ take k cs)" if "k < length cs" for k using l [THEN spec [of _ "Suc k"]] that by simp
    ultimately show ?r by blast
  next
    assume r: ?r
    show ?l
    proof (intro allI impI)
      fix k assume "0 < k \<and> k < length (c # cs)"
      then show "enters cfg (names @ take k (c # cs))" using r by (cases k; cases "k = 1") auto
    qed
  qed
  then show ?thesis using assms by (auto simp: reaches_def split: option.splits node.splits)
qed

lemma reaches_split:
  assumes "c \<notin> fst ` set rest"
  shows "(\<exists>ts. reaches cfg names ((c, n) # rest) e ts) \<longleftrightarrow>
    report_of cfg (names @ [c]) n = Some e \<or>
    (\<exists>info listing absent children. n = Directory info listing absent children \<and> enters cfg (names @ [c]) \<and>
       (\<exists>ts. reaches cfg (names @ [c]) children e ts)) \<or>
    (\<exists>ts. reaches cfg names rest e ts)"
    (is "?l \<longleftrightarrow> ?a \<or> ?b \<or> ?c")
proof
  assume ?l
  then obtain ts where ts: "reaches cfg names ((c, n) # rest) e ts" by blast
  then obtain d cs where d: "ts = d # cs" by (cases ts) (auto simp: reaches_def)
  show "?a \<or> ?b \<or> ?c"
  proof (cases "d = c")
    case True
    then show ?thesis using ts d by (cases "cs = []") (auto simp: reaches_deeper)
  next
    case False
    then have "node_below ((c, n) # rest) ts = node_below rest ts" using d by simp
    then have "reaches cfg names rest e ts" using ts by (simp add: reaches_def)
    then show ?thesis by blast
  qed
next
  assume "?a \<or> ?b \<or> ?c"
  then show ?l
  proof (elim disjE)
    assume ?a
    then have "reaches cfg names ((c, n) # rest) e [c]" by simp
    then show ?l by blast
  next
    assume ?b
    then obtain info listing absent children ts where b: "n = Directory info listing absent children" "enters cfg (names @ [c])"
      "reaches cfg (names @ [c]) children e ts" by blast
    then have "ts \<noteq> []" by (auto simp: reaches_def)
    then have "reaches cfg names ((c, n) # rest) e (c # ts)" using b by (simp add: reaches_deeper)
    then show ?l by blast
  next
    assume ?c
    then obtain ts where ts: "reaches cfg names rest e ts" by blast
    then obtain d cs m where d: "ts = d # cs" "map_of rest d = Some m" by (cases ts) (auto simp: reaches_def split: option.splits)
    then have "d \<noteq> c" using assms by (force dest: map_of_SomeD)
    then have "node_below ((c, n) # rest) ts = node_below rest ts" using d by simp
    then have "reaches cfg names ((c, n) # rest) e ts" using ts by (simp add: reaches_def)
    then show ?l by blast
  qed
qed

lemma in_reported: "e \<in> set (reported vs) \<longleftrightarrow> Some e \<in> set vs"
  by (auto simp: reported_def split: option.splits)

lemma visits_reach: "readable es \<Longrightarrow> Some e \<in> set (visits cfg names es) \<longleftrightarrow> (\<exists>ts. reaches cfg names es e ts)"
proof (induction cfg names es rule: visits.induct)
  case (1 cfg names)
  have "\<not> reaches cfg names [] e ts" for ts by (cases ts) (simp_all add: reaches_def)
  then show ?case by simp
next
  case (2 cfg names c n rest)
  then have "c \<notin> fst ` set rest" by simp
  note r = reaches_split [OF this, of cfg names n e]
  show ?case
  proof (cases n)
    case (Leaf k info content)
    then show ?thesis using 2 r by auto
  next
    case (Directory info listing absent children)
    then show ?thesis using 2 r by auto
  qed
qed

text \<open>Each path once.\<close>

lemma readable_entry:
  "readable es \<Longrightarrow> map_of es c = Some m \<Longrightarrow> plain c \<and> (case m of Leaf _ _ _ \<Rightarrow> True | Directory _ _ _ children \<Rightarrow> readable children)"
  by (induction es rule: readable.induct) (auto split: if_splits node.splits)

lemma readable_plain: "readable es \<Longrightarrow> node_below es ts = Some n \<Longrightarrow> list_all plain ts"
proof (induction es ts rule: node_below.induct)
  case (2 es c cs)
  obtain m where m: "map_of es c = Some m" using "2.prems"(2) by (auto split: option.splits)
  show ?case using 2 m readable_entry [OF "2.prems"(1) m] by (cases m) (auto split: if_splits)
qed simp

lemma report_path: "report_of cfg names n = Some e \<Longrightarrow> en_Path e = rel_name names"
  by (auto simp: report_of_def entry_of_def split: if_splits)

lemma split_rel_name: "list_all plain ps \<Longrightarrow> ps \<noteq> [] \<Longrightarrow> split_on SLASH (rel_name ps) = ps"
  by (intro split_join) (auto simp: plain_def list_all_iff)

lemma rel_name_inject: "list_all plain ps \<Longrightarrow> list_all plain qs \<Longrightarrow> ps \<noteq> [] \<Longrightarrow> qs \<noteq> [] \<Longrightarrow> rel_name ps = rel_name qs \<Longrightarrow> ps = qs"
  by (metis split_rel_name)

lemma visits_path:
  assumes "readable es" "Some e \<in> set (visits cfg names es)" "list_all plain names"
  shows "\<exists>c ts. c \<in> fst ` set es \<and> list_all plain (names @ c # ts) \<and> en_Path e = rel_name (names @ c # ts)"
proof -
  from assms(1,2) obtain ts n where n: "node_below es ts = Some n" "report_of cfg (names @ ts) n = Some e"
    using visits_reach [of es e cfg names] by (auto simp: reaches_def)
  then obtain c cs where c: "ts = c # cs" by (cases ts) simp_all
  then have "c \<in> fst ` set es" using n(1) by (force split: option.splits dest: map_of_SomeD)
  then show ?thesis using c n readable_plain [OF assms(1) n(1)] report_path [OF n(2)] assms(3) by auto
qed

lemma visits_distinct: "readable es \<Longrightarrow> list_all plain names \<Longrightarrow> distinct (map en_Path (reported (visits cfg names es)))"
proof (induction cfg names es rule: visits.induct)
  case (2 cfg names c n rest)
  let ?qs = "names @ [c]"
  let ?below = "case n of Leaf _ _ _ \<Rightarrow> [] | Directory info listing absent entries \<Rightarrow> if enters cfg ?qs then visits cfg ?qs entries else []"
  have c: "plain c" "c \<notin> fst ` set rest" "readable rest" using "2.prems"(1) by simp_all
  have below: "\<exists>t ts. list_all plain (?qs @ t # ts) \<and> en_Path e = rel_name (?qs @ t # ts)" if e: "e \<in> set (reported ?below)" for e
  proof -
    obtain info listing absent entries where n: "n = Directory info listing absent entries" "Some e \<in> set (visits cfg ?qs entries)"
      using e by (cases n) (auto simp: in_reported split: if_splits)
    then have "readable entries" using "2.prems"(1) by simp
    from visits_path [OF this n(2)] show ?thesis using "2.prems"(2) c(1) by auto
  qed
  have rest: "\<exists>d ts. d \<noteq> c \<and> list_all plain (names @ d # ts) \<and> en_Path e = rel_name (names @ d # ts)"
    if "e \<in> set (reported (visits cfg names rest))" for e
    using that visits_path [OF c(3), of e cfg names] "2.prems"(2) c(2) by (auto simp: in_reported)
  have ab: "en_Path e \<noteq> en_Path e'" if "e \<in> set (reported ?below)" "e' \<in> set (reported (visits cfg names rest))" for e e'
    using below [OF that(1)] rest [OF that(2)] rel_name_inject by fastforce
  have a: "en_Path e \<noteq> rel_name ?qs" if "e \<in> set (reported ?below)" for e
    using below [OF that] rel_name_inject [of _ ?qs] "2.prems"(2) c(1) by fastforce
  have b: "en_Path e \<noteq> rel_name ?qs" if "e \<in> set (reported (visits cfg names rest))" for e
    using rest [OF that] rel_name_inject [of _ ?qs] "2.prems"(2) c(1) by fastforce
  have "distinct (map en_Path (reported ?below))" "distinct (map en_Path (reported (visits cfg names rest)))"
    using 2 c by (auto split: node.splits)
  then have d: "distinct (map en_Path (reported (?below @ visits cfg names rest)))"
    using ab by (simp only: reported_simps map_append distinct_append set_map) blast
  have "\<forall>e \<in> set (reported (?below @ visits cfg names rest)). en_Path e \<noteq> rel_name ?qs"
    using a b by (simp only: reported_simps set_append) blast
  then have n: "rel_name ?qs \<notin> en_Path ` set (reported (?below @ visits cfg names rest))" by (intro notI) (elim imageE, metis)
  show ?case
  proof (cases "report_of cfg ?qs n")
    case None
    then show ?thesis using d by simp
  next
    case (Some e)
    have r: "reported (visits cfg names ((c, n) # rest)) = e # reported (?below @ visits cfg names rest)"
      using Some by (simp only: visits.simps reported_simps)
    show ?thesis using d n report_path [OF Some] unfolding r by (simp del: reported_simps)
  qed
qed simp


section \<open>An example\<close>

definition sample_info :: file_info where "sample_info = \<lparr>fi_Size = 1, fi_ModTime = 2, fi_Mode = 420\<rparr>"

definition sample_file :: "go_string \<Rightarrow> node" where
  "sample_file content = Leaf RegularFile (Inr sample_info) (Inr (content, None))"

definition sample_entries :: "(go_string \<times> node) list" where
  "sample_entries =
     [(''.gitignore'', sample_file (''*.o'' @ [LF] @ ''!a.o'')),
      (''a.o'', sample_file []), (''b.o'', sample_file []),
      (''d'', Directory (Inr sample_info) None NotExist [(''x.go'', sample_file []), (''y.o'', sample_file [])])]"

definition sample_root :: walk_root where
  "sample_root = \<lparr>wr_Dir = ''/w'', wr_Openable = None, wr_Tree = Directory (Inr sample_info) None NotExist sample_entries\<rparr>"

definition sample_filter :: Filter where
  "sample_filter = \<lparr>wf_Root = Some sample_root, wf_IncludeGlobs = [], wf_ExcludeGlobs = [], wf_SkipHidden = True, wf_SkipVCS = True,
     wf_RespectGitignore = False, wf_MaxDepth = -1, wf_MaxVisited = 0, wf_MaxResults = 0\<rparr>"

definition record_entry :: "(go_string list, unit) callback" where
  "record_entry e seen = (seen @ [en_Path e], None)"

abbreviation no_patterns :: path_matcher where "no_patterns \<equiv> \<lparr>pm_patterns = [], pm_rules = []\<rparr>"

lemma sample_listing:
  "map en_Path (walk_listing (walk_config_of (\<lambda>_. None) sample_filter sample_root record_entry no_patterns no_patterns) sample_entries) =
     [''a.o'', ''b.o'', ''d'', ''d/x.go'', ''d/y.o'']"
  by (simp add: walk_listing_def root_visits_def report_of_def keeps_def enters_def left_out_def matchPath_def MatchPath_def walk_config_of_def
      sample_filter_def sample_entries_def sample_file_def entry_of_def)

lemma feed_record: "feed record_entry seen es = seen @ map en_Path es"
  by (induction es arbitrary: seen) (simp_all add: record_entry_def)

lemma sample_readable: "readable sample_entries"
  by (simp add: sample_entries_def sample_file_def plain_def)

lemma walk_reports_listing_witness:
  "fst (Walk (\<lambda>_. None) (Some None) (Some sample_filter) (Some record_entry) []) = [''a.o'', ''b.o'', ''d'', ''d/x.go'', ''d/y.o'']"
proof -
  let ?cfg = "walk_config_of (\<lambda>_. None) sample_filter sample_root record_entry no_patterns no_patterns"
  obtain client' ctx' ws err where w: "Walk (\<lambda>_. None) (Some None) (Some sample_filter) (Some record_entry) [] = (client', ctx', ws, err)"
    by (metis prod_cases4)
  have globs: "compileGlobs (\<lambda>_. None) (wf_IncludeGlobs sample_filter) = (Inr no_patterns :: unit walk_error + _)"
    "compileGlobs (\<lambda>_. None) (wf_ExcludeGlobs sample_filter) = (Inr no_patterns :: unit walk_error + _)"
    by (simp_all add: compileGlobs_def CompileGlobs_def sample_filter_def)
  have len: "length (walk_listing ?cfg sample_entries) = 5" using arg_cong [OF sample_listing, of length] by simp
  have count: "visit_count ?cfg sample_entries = 7"
    by (simp add: visit_count_def root_visits_def keeps_def enters_def matchPath_def MatchPath_def walk_config_of_def sample_filter_def
        sample_entries_def sample_file_def)
  have caps: "within (visit_count ?cfg sample_entries) (wc_maxVisited ?cfg) \<and> within (int (length (walk_listing ?cfg sample_entries))) (wc_maxResults ?cfg)"
    unfolding len count by (simp add: within_def walk_config_of_def sample_filter_def defaultedLimit_def)
  have root: "wf_Root sample_filter = Some sample_root" "clean_abs (wr_Dir sample_root)"
    "wr_Tree sample_root = Directory (Inr sample_info) None NotExist sample_entries"
    using clean_abs_render [of "[''w'']"] by (simp_all add: sample_filter_def sample_root_def plain_def)
  have cb: "\<forall>e c. snd (record_entry e c) \<notin> {Some SkipDir, Some SkipAll}" "\<forall>e c. snd (record_entry e c) = None"
    by (simp_all add: record_entry_def)
  note r = walk_reports_listing [OF w root sample_readable globs cb(1) refl]
  have "err = None" using r [THEN conjunct2] cb(2) caps by simp
  then have "client' = feed record_entry [] (walk_listing ?cfg sample_entries)" using r [THEN conjunct1] by auto
  then show ?thesis using w sample_listing by (simp add: feed_record)
qed


end
