(* ===== verification/Spec2Isabelle.thy ===== *)
theory Spec2Isabelle
  imports Budget Output_Writer Output_Result Text_Patch Syntax_Markdown Workspace_Root Workspace_State Session_Inventory Compaction_Results Session_Runs Chat_Results Walk_Results
begin

text \<open>
  A verification library for plasmid, an in-process coding-agent harness in Go (package paths below are under
  \<open>src/\<close>). A host builds a harness: it loads configuration, resolves context files, skills and extensions,
  offers coding tools to a model, runs the conversation through Google ADK, stores sessions on disk and compacts
  long conversations. The library models the parts that carry the program's own logic and state, one group of
  theories per package, each operation translated from the Go function of the same name.

  \<^bold>\<open>Conventions.\<close> A Go \<open>string\<close> or \<open>[]byte\<close> is a list of bytes (\<open>go_string\<close>), \<open>int\<close> is \<open>int\<close>
  where its overflow is out of reach and a word where it is in reach, a map is an association list with distinct keys
  (\<open>gomap\<close>), a nil-able pointer or map is an \<open>option\<close>, a struct is a record, an error is the left of a sum or a
  constructor of an error datatype. A method that changes its receiver returns the changed record. A mutex that is
  held for the whole method makes it one atomic step. Standard-library functions the code calls are modelled in
  \<open>Go_Prelude\<close> (slices, search, maps, decimal), \<open>Go_Utf8\<close> (runes, trimming), \<open>Go_Json\<close> (\<open>json.Marshal\<close>),
  \<open>Go_Path\<close> (\<open>path/filepath\<close>), \<open>Go_Float\<close> (\<open>float64\<close> products) and \<open>Go_Io\<close> (calls that may fail, and the death of the
  process). SHA-256, decoding of JSON and the types of the packages \<open>genai\<close> and \<open>adk\<close> are parameters; what is
  relied on of them is a named hypothesis of the theorem that needs it, and its witness instantiates it.

  \<^bold>\<open>Output limits\<close> (\<open>outputlimit\<close>, used by every tool result). \<open>Budget\<close> is \<open>budget.go\<close>: reservations
  against a session budget, never overspent in any sequence of operations. \<open>Output_Policy\<close> and \<open>Output_Selection\<close> are
  \<open>policy.go\<close>: elision of long lines, selection of head and tail, bounds and safe cuts of the selection.
  \<open>Output_Writer\<close> is \<open>writer.go\<close>: the streaming writer with its ring buffer refines a specification on the whole stream.
  \<open>Output_Result\<close> is \<open>result.go\<close>: results bounded after JSON encoding.

  \<^bold>\<open>Text edits\<close> (\<open>codingtools/internal/textmatch\<close>, used by the edit and write tools). \<open>Text_Match\<close> and \<open>Text_Edit\<close>:
  normalisation, the three match tiers, replacement. \<open>Text_Diff\<close>, \<open>Text_Myers\<close>, \<open>Text_Patch\<close>: the Myers search
  gives an edit script, and the hunks of the rendered diff apply.

  \<^bold>\<open>Syntax\<close> (\<open>internal/syntax\<close>, \<open>internal/pathglob\<close>, used by skills, commands and tool policies). \<open>Path_Glob\<close>: the
  wildcard matcher decides its declarative meaning. \<open>Path_Rules\<close>: path patterns as regular expressions, which agree
  with it on one segment. \<open>Syntax_Arguments\<close>: arguments and substitution.
  \<open>Syntax_Policy\<close>: tool patterns, policies and the scope store, which only narrows. \<open>Syntax_Markdown\<close>: code
  regions and command directives.

  \<^bold>\<open>Workspace\<close> (\<open>workspace\<close>, used by the file tools). \<open>Workspace_Root\<close>: paths stay inside the root.
  \<open>Workspace_State\<close>: the read ledger, the mutation queue as a step relation over concurrent callers, the touch bus.

  \<^bold>\<open>Directory walks\<close> (\<open>codingtools/internal/walk\<close>, used by the find, ls and grep tools). \<open>Walk_Ignore\<close>: reading and
  deciding by ignore files over a directory tree as a value. \<open>Walk_Tree\<close>: the traversal with its caps, depth and
  cancellation. \<open>Walk_Listing\<close>: the walk interprets a stateless list of visits. \<open>Walk_Results\<close>: what is reported is a
  front part of the listing, which has exactly the entries the filters admit.

  \<^bold>\<open>Sessions\<close> (\<open>sessionstore\<close>). \<open>Session_Paths\<close>: names of files and scopes of state. \<open>Session_Journal\<close>: journals of
  shared state and their projection, incremental and rebuilt. \<open>Session_Log\<close>: recovery and parsing of a transcript.
  \<open>Session_Inventory\<close>: logical orders, their inventory and reservation. \<open>Session_View\<close>: handles and scans.
  \<open>Session_Store\<close>: creating, deleting and extending a session as computations of \<open>Go_Io\<close> on the transcript and its
  two marker files; \<open>Session_Lifecycle\<close> proves for each operation, over all failures, what it keeps, as weakest
  preconditions; \<open>Session_Runs\<close> has runs of calls with deaths between and within them.

  \<^bold>\<open>Compaction\<close> (\<open>compaction\<close>). \<open>Compaction_Estimate\<close>, \<open>Compaction_Turns\<close>, \<open>Compaction_Policy\<close>: estimates, complete
  turns and the policy; \<open>Compaction_Steps\<close> shows that every run is a sequence of elisions and drops, from which
  \<open>Compaction_Safety\<close> and \<open>Compaction_Results\<close> derive what is kept, that call and response stay together, and that
  the target is reached or exhaustion reported.

  \<^bold>\<open>Chat Completions\<close> (\<open>openai/chat.go\<close>). \<open>Chat_Types\<close>, \<open>Chat_Request\<close>, \<open>Chat_Response\<close>: both directions of the
  conversion; \<open>Chat_Results\<close>: tool calls are answered once and after they are made, identifiers of a response are
  distinct, and a response can be sent back.

  \<^bold>\<open>Interfaces.\<close> A contract that several definitions share is a locale whose interpretations discharge it on the model:
  \<open>session_budget\<close> (a budget per session), \<open>leftmost_scan\<close> (a scan for disjoint hits: exact and by lines), \<open>differ\<close>
  (whatever gives an edit script: Myers, whole file, both), \<open>searchable\<close> (binary search over ordered regions),
  \<open>order_ledger\<close> (what claims logical orders: inventory, journal index, builder), \<open>marker_file\<close> (a file of a session).
  The properties use the interpreted facts.

  \<^bold>\<open>Termination.\<close> Loops are recursive functions with a termination proof, no fuel is used, except that the loops of
  the Myers search carry the work budget of the code, the search for a free call identifier is a
  \<open>partial_function (option)\<close> with a proof that it ends, and a run of operations is a list of operations.

  \<^bold>\<open>Not modelled.\<close> The harness and its construction, the plugin callbacks and options wire the packages into ADK and
  have no logic without it. MCP, LSP, \<open>shellexec\<close>, \<open>oneshot\<close> and \<open>internal/processtree\<close> drive processes, protocols of
  foreign packages and clocks. \<open>config\<close>, \<open>foreign\<close>, \<open>extensions\<close>, \<open>skills\<close> and \<open>contextresolver\<close> read directories and
  decode JSON, TOML and YAML into structures. \<open>internal/fixture\<close> is test support. Of the modelled packages the
  opening of directories, locks across methods, the text of error messages and warnings are left out.
\<close>

end
